(* ===== verification/Prelude.thy ===== *)
theory Prelude
  imports Main "HOL-Library.Word"
begin

text \<open>
  The ground the other theories stand on: thrown errors as values, the JavaScript
  primitives the sources call (substring, slice, splice, index reads, the
  remainder operator, the 32-bit coercion), and generic list lemmas.

  Numbers of the sources that are used as offsets, line numbers, columns, lengths
  and indices are modelled by \<^typ>\<open>int\<close>: the sources only ever store integers there,
  and integers up to \<open>2 ^ 53\<close> are exact in a JavaScript number.  Where the code
  coerces to 32 bits (\<open>x | 0\<close>, typed arrays) the model uses \<open>32 word\<close>.
  Strings are lists of UTF-16 code units.
\<close>

section \<open>Thrown errors\<close>

text \<open>
  The constructors are the error classes the modelled code throws; the message is
  the constant part of the source's template string.
\<close>

datatype js_error = BugIndicatingError string | TypeError | GenericError string

type_synonym 'a result = "js_error + 'a"

definition bindE :: "'a result \<Rightarrow> ('a \<Rightarrow> 'b result) \<Rightarrow> 'b result" where
  "bindE m f = (case m of Inl e \<Rightarrow> Inl e | Inr x \<Rightarrow> f x)"

fun mapE :: "('a \<Rightarrow> 'b result) \<Rightarrow> 'a list \<Rightarrow> 'b list result" where
  "mapE f [] = Inr []"
| "mapE f (x # xs) = bindE (f x) (\<lambda>y. bindE (mapE f xs) (\<lambda>ys. Inr (y # ys)))"

fun foldE :: "('s \<Rightarrow> 'a \<Rightarrow> 's result) \<Rightarrow> 's \<Rightarrow> 'a list \<Rightarrow> 's result" where
  "foldE f s [] = Inr s"
| "foldE f s (x # xs) = bindE (f s x) (\<lambda>s'. foldE f s' xs)"

lemma bindE_simps [simp]:
  "bindE (Inl e) f = Inl e" "bindE (Inr x) f = f x"
  by (simp_all add: bindE_def)

lemma bindE_eq_Inr: "bindE m f = Inr y \<longleftrightarrow> (\<exists>x. m = Inr x \<and> f x = Inr y)"
  by (cases m) simp_all

lemma bindE_assoc: "bindE (bindE m f) g = bindE m (\<lambda>x. bindE (f x) g)"
  by (cases m) simp_all

lemma bindE_cong [fundef_cong]:
  "m = m' \<Longrightarrow> (\<And>x. m' = Inr x \<Longrightarrow> f x = f' x) \<Longrightarrow> bindE m f = bindE m' f'"
  by (cases m') simp_all

lemma mapE_total: "(\<And>x. x \<in> set xs \<Longrightarrow> f x = Inr (g x)) \<Longrightarrow> mapE f xs = Inr (map g xs)"
  by (induction xs) simp_all

lemma mapE_length: "mapE f xs = Inr ys \<Longrightarrow> length ys = length xs"
  by (induction xs arbitrary: ys) (auto simp: bindE_eq_Inr)

lemma foldE_append: "foldE f s (xs @ ys) = bindE (foldE f s xs) (\<lambda>s'. foldE f s' ys)"
  by (induction xs arbitrary: s) (simp_all add: bindE_assoc)

lemma find_in: "find P xs = Some x \<Longrightarrow> x \<in> set xs \<and> P x"
  by (induction xs) (auto split: if_splits)

section \<open>JavaScript primitives\<close>

type_synonym js_string = "16 word list"

text \<open>The collections that group the facts by what they are about.\<close>

named_theorems js_simps \<open>the JavaScript primitives on well-placed arguments\<close>
named_theorems range_defs \<open>definitions of the range operations\<close>

text \<open>An index read \<open>xs[i]\<close>: \<open>undefined\<close> is \<open>None\<close>.\<close>

definition js_at :: "'a list \<Rightarrow> int \<Rightarrow> 'a option" where
  "js_at xs i = (if 0 \<le> i \<and> i < int (length xs) then Some (xs ! nat i) else None)"

text \<open>A property read on \<open>xs[i]\<close>: dereferencing \<open>undefined\<close> is a TypeError.\<close>

definition js_get :: "'a list \<Rightarrow> int \<Rightarrow> 'a result" where
  "js_get xs i = (case js_at xs i of None \<Rightarrow> Inl TypeError | Some x \<Rightarrow> Inr x)"

definition clamp :: "int \<Rightarrow> int \<Rightarrow> int" where
  "clamp n i = max 0 (min i n)"

text \<open>\<open>str.substring(a, b)\<close>: both arguments are clamped, then swapped if out of order.\<close>

definition js_substring :: "'a list \<Rightarrow> int \<Rightarrow> int \<Rightarrow> 'a list" where
  "js_substring s a b =
     (let n = int (length s); a' = clamp n a; b' = clamp n b
      in take (nat (max a' b' - min a' b')) (drop (nat (min a' b')) s))"

text \<open>\<open>str.substring(a)\<close> ends at the length.\<close>

definition js_substring_from :: "'a list \<Rightarrow> int \<Rightarrow> 'a list" where
  "js_substring_from s a = js_substring s a (int (length s))"

text \<open>Relative indices of \<open>slice\<close> and \<open>splice\<close>: negative ones count from the end.\<close>

definition js_rel :: "int \<Rightarrow> int \<Rightarrow> int" where
  "js_rel n i = (if i < 0 then max 0 (n + i) else min i n)"

definition js_slice :: "'a list \<Rightarrow> int \<Rightarrow> int \<Rightarrow> 'a list" where
  "js_slice xs a b =
     (let n = int (length xs) in take (nat (js_rel n b - js_rel n a)) (drop (nat (js_rel n a)) xs))"

definition js_slice_from :: "'a list \<Rightarrow> int \<Rightarrow> 'a list" where
  "js_slice_from xs a = js_slice xs a (int (length xs))"

text \<open>\<open>xs.splice(start, deleteCount, ...ins)\<close> as the new content of \<open>xs\<close>.\<close>

definition js_splice :: "'a list \<Rightarrow> int \<Rightarrow> int \<Rightarrow> 'a list \<Rightarrow> 'a list" where
  "js_splice xs s d ins =
     (let n = int (length xs); s' = js_rel n s; d' = max 0 (min d (n - s'))
      in take (nat s') xs @ ins @ drop (nat (s' + d')) xs)"

text \<open>The remainder operator takes the sign of the dividend.\<close>

definition js_rem :: "int \<Rightarrow> int \<Rightarrow> int" where
  "js_rem a b = sgn a * (\<bar>a\<bar> mod \<bar>b\<bar>)"

text \<open>The coercion \<open>v | 0\<close> to a signed 32-bit integer.\<close>

definition to_int32 :: "int \<Rightarrow> int" where
  "to_int32 v = sint (word_of_int v :: 32 word)"

definition MAX_SAFE_INTEGER :: int where
  "MAX_SAFE_INTEGER = 2 ^ 53 - 1"

subsection \<open>Facts about the primitives\<close>

lemma js_at_Some_iff: "js_at xs i = Some x \<longleftrightarrow> 0 \<le> i \<and> i < int (length xs) \<and> xs ! nat i = x"
  by (auto simp: js_at_def)

lemma js_at_nat [simp]: "js_at xs (int k) = (if k < length xs then Some (xs ! k) else None)"
  by (simp add: js_at_def)

lemma js_get_nat [simp]: "k < length xs \<Longrightarrow> js_get xs (int k) = Inr (xs ! k)"
  by (simp add: js_get_def)

lemma js_get_block:
  assumes "ms \<noteq> []"
  shows "js_get (ys @ ms @ zs) (int (length ys)) = Inr (hd ms)"
    and "js_get (ys @ ms @ zs) (int (length ys + length ms) - 1) = Inr (last ms)"
proof -
  show "js_get (ys @ ms @ zs) (int (length ys)) = Inr (hd ms)"
    using assms by (simp add: nth_append hd_conv_nth)
  obtain ns x where "ms = ns @ [x]" using assms by (metis append_butlast_last_id)
  then show "js_get (ys @ ms @ zs) (int (length ys + length ms) - 1) = Inr (last ms)"
    using js_get_nat [of "length (ys @ ns)" "ys @ ms @ zs"] by (simp add: nth_append)
qed

lemma js_get_total: "0 \<le> i \<Longrightarrow> i < int (length xs) \<Longrightarrow> js_get xs i = Inr (xs ! nat i)"
  by (simp add: js_get_def js_at_def)

lemma js_get_eq_Inr: "js_get xs i = Inr x \<longleftrightarrow> 0 \<le> i \<and> i < int (length xs) \<and> x = xs ! nat i"
  by (auto simp: js_get_def js_at_def)

lemma clamp_id [js_simps]: "0 \<le> i \<Longrightarrow> i \<le> n \<Longrightarrow> clamp n i = i"
  by (simp add: clamp_def)

lemma js_substring_bounds [js_simps]:
  "0 \<le> a \<Longrightarrow> a \<le> b \<Longrightarrow> b \<le> int (length s) \<Longrightarrow>
   js_substring s a b = take (nat (b - a)) (drop (nat a) s)"
  by (simp add: js_substring_def js_simps Let_def)

lemma js_substring_from_bounds [js_simps]:
  "0 \<le> a \<Longrightarrow> a \<le> int (length s) \<Longrightarrow> js_substring_from s a = drop (nat a) s"
  by (simp add: js_substring_from_def js_substring_bounds)

lemma js_rel_id [js_simps]: "0 \<le> i \<Longrightarrow> i \<le> n \<Longrightarrow> js_rel n i = i"
  by (simp add: js_rel_def)

lemma js_slice_bounds [js_simps]:
  "0 \<le> a \<Longrightarrow> a \<le> b \<Longrightarrow> b \<le> int (length xs) \<Longrightarrow>
   js_slice xs a b = take (nat (b - a)) (drop (nat a) xs)"
  by (simp add: js_slice_def js_simps Let_def)

lemma js_slice_from_bounds [js_simps]:
  "0 \<le> a \<Longrightarrow> a \<le> int (length xs) \<Longrightarrow> js_slice_from xs a = drop (nat a) xs"
  by (simp add: js_slice_from_def js_slice_bounds)

lemma js_substring_eq_slice:
  "0 \<le> a \<Longrightarrow> a \<le> b \<Longrightarrow> js_substring s a b = js_slice s a b"
  by (auto simp: js_substring_def js_slice_def clamp_def js_rel_def Let_def min_def max_def)

lemma js_splice_split:
  "js_splice (ys @ ms @ zs) (int (length ys)) (int (length ms)) ins = ys @ ins @ zs"
proof -
  have "nat (int (length ys) + int (length ms)) = length (ys @ ms)" by simp
  then show ?thesis
    by (simp add: js_splice_def js_rel_def Let_def)
qed

lemma js_splice_insert: "js_splice (ys @ zs) (int (length ys)) 0 ins = ys @ ins @ zs"
  using js_splice_split [of ys "[]" zs ins] by simp

lemma to_int32_id [js_simps]: "- (2 ^ 31) \<le> v \<Longrightarrow> v < 2 ^ 31 \<Longrightarrow> to_int32 v = v"
  by (simp add: to_int32_def sint_sbintrunc' signed_take_bit_int_eq_self)

section \<open>Lists\<close>

text \<open>
  \<open>monotone_on_list P xs\<close> is the precondition the doc comments of the binary searches
  state: the predicate is false on a prefix and true on the rest.
\<close>

definition switches_on :: "('a \<Rightarrow> bool) \<Rightarrow> 'a list \<Rightarrow> bool" where
  "switches_on P xs \<longleftrightarrow> (\<forall>i j. i < j \<longrightarrow> j < length xs \<longrightarrow> P (xs ! i) \<longrightarrow> P (xs ! j))"

lemma switches_on_sorted_wrt:
  "sorted_wrt (\<lambda>x y. P x \<longrightarrow> P y) xs \<longleftrightarrow> switches_on P xs"
  by (auto simp: switches_on_def sorted_wrt_iff_nth_less)

lemma dropWhile_switches:
  "sorted_wrt (\<lambda>x y. P x \<longrightarrow> P y) xs \<Longrightarrow> \<forall>x \<in> set (dropWhile (\<lambda>x. \<not> P x) xs). P x"
proof (induction xs)
  case (Cons x xs)
  show ?case
  proof (cases "P x")
    case True
    with Cons.prems have "\<forall>y \<in> set xs. P y" by simp
    with True show ?thesis by simp
  next
    case False
    then have eq: "dropWhile (\<lambda>x. \<not> P x) (x # xs) = dropWhile (\<lambda>x. \<not> P x) xs" by simp
    from Cons.prems have "sorted_wrt (\<lambda>x y. P x \<longrightarrow> P y) xs" by simp
    from Cons.IH [OF this] show ?thesis unfolding eq .
  qed
qed simp

lemma switches_on_split:
  assumes "switches_on P xs"
  shows "xs = takeWhile (\<lambda>x. \<not> P x) xs @ dropWhile (\<lambda>x. \<not> P x) xs"
    and "\<forall>x \<in> set (takeWhile (\<lambda>x. \<not> P x) xs). \<not> P x"
    and "\<forall>x \<in> set (dropWhile (\<lambda>x. \<not> P x) xs). P x"
proof -
  show "xs = takeWhile (\<lambda>x. \<not> P x) xs @ dropWhile (\<lambda>x. \<not> P x) xs" by simp
  show "\<forall>x \<in> set (takeWhile (\<lambda>x. \<not> P x) xs). \<not> P x"
    using set_takeWhileD by fastforce
  from assms have "sorted_wrt (\<lambda>x y. P x \<longrightarrow> P y) xs"
    by (simp add: switches_on_sorted_wrt)
  then show "\<forall>x \<in> set (dropWhile (\<lambda>x. \<not> P x) xs). P x"
    by (rule dropWhile_switches)
qed

lemma take_add_drop: "take (a + b) xs = take a xs @ take b (drop a xs)"
  by (rule take_add)

lemma nat_add_drop: "0 \<le> a \<Longrightarrow> 0 \<le> b \<Longrightarrow> drop (nat b) (drop (nat a) xs) = drop (nat (a + b)) xs"
  by (simp add: nat_add_distrib add.commute)

end
