(* ===== verification/ArraysFind.thy ===== *)
theory ArraysFind
  imports Prelude
begin

text \<open>
  \<open>src/vs/base/common/arraysFind.ts\<close>: linear and binary searches over arrays, the
  \<open>MonotonousArray\<close> class and the maximum searches.  A read of an index outside
  the array hands \<open>undefined\<close> to the predicate; the predicates of this code base
  dereference their argument, so such a read is the error \<^const>\<open>TypeError\<close>.
  Default arguments of the source are explicit arguments here.

  The locale \<open>split_search\<close> is the interface the range sets use: both binary
  searches find the split point of a list whose predicate switches once.
\<close>

section \<open>Linear searches\<close>

function findLastIdx :: "'a list \<Rightarrow> ('a \<Rightarrow> int \<Rightarrow> bool) \<Rightarrow> int \<Rightarrow> int result" where
  "findLastIdx array predicate i =
     (if 0 \<le> i then
        bindE (js_get array i) (\<lambda>element.
          if predicate element i then Inr i else findLastIdx array predicate (i - 1))
      else Inr (- 1))"
  by pat_completeness auto
termination
  by (relation "measure (\<lambda>(array, predicate, i). nat (i + 1))") auto

definition findLast :: "'a list \<Rightarrow> ('a \<Rightarrow> int \<Rightarrow> bool) \<Rightarrow> int \<Rightarrow> 'a option result" where
  "findLast array predicate fromIndex =
     bindE (findLastIdx array predicate fromIndex) (\<lambda>idx.
       if idx = - 1 then Inr None else Inr (js_at array idx))"

function findFirstIdx :: "'a list \<Rightarrow> ('a \<Rightarrow> int \<Rightarrow> bool) \<Rightarrow> int \<Rightarrow> int result" where
  "findFirstIdx array predicate i =
     (if i < int (length array) then
        bindE (js_get array i) (\<lambda>element.
          if predicate element i then Inr i else findFirstIdx array predicate (i + 1))
      else Inr (- 1))"
  by pat_completeness auto
termination
  by (relation "measure (\<lambda>(array, predicate, i). nat (int (length array) - i))") auto

definition findFirst :: "'a list \<Rightarrow> ('a \<Rightarrow> int \<Rightarrow> bool) \<Rightarrow> int \<Rightarrow> 'a option result" where
  "findFirst array predicate fromIndex =
     bindE (findFirstIdx array predicate fromIndex) (\<lambda>idx.
       if idx = - 1 then Inr None else Inr (js_at array idx))"

section \<open>Binary searches\<close>

function findLastIdxMonotonous_loop :: "'a list \<Rightarrow> ('a \<Rightarrow> bool) \<Rightarrow> int \<Rightarrow> int \<Rightarrow> int result" where
  "findLastIdxMonotonous_loop array predicate i j =
     (if i < j then
        let k = (i + j) div 2 in
        bindE (js_get array k) (\<lambda>x.
          if predicate x then findLastIdxMonotonous_loop array predicate (k + 1) j
          else findLastIdxMonotonous_loop array predicate i k)
      else Inr i)"
  by pat_completeness auto
termination
  by (relation "measure (\<lambda>(array, predicate, i, j). nat (j - i))") auto

definition findLastIdxMonotonous :: "'a list \<Rightarrow> ('a \<Rightarrow> bool) \<Rightarrow> int \<Rightarrow> int \<Rightarrow> int result" where
  "findLastIdxMonotonous array predicate startIdx endIdxEx =
     bindE (findLastIdxMonotonous_loop array predicate startIdx endIdxEx) (\<lambda>i. Inr (i - 1))"

definition findLastMonotonous :: "'a list \<Rightarrow> ('a \<Rightarrow> bool) \<Rightarrow> 'a option result" where
  "findLastMonotonous array predicate =
     bindE (findLastIdxMonotonous array predicate 0 (int (length array))) (\<lambda>idx.
       if idx = - 1 then Inr None else Inr (js_at array idx))"

function findFirstIdxMonotonous_loop :: "'a list \<Rightarrow> ('a \<Rightarrow> bool) \<Rightarrow> int \<Rightarrow> int \<Rightarrow> int result" where
  "findFirstIdxMonotonous_loop array predicate i j =
     (if i < j then
        let k = (i + j) div 2 in
        bindE (js_get array k) (\<lambda>x.
          if predicate x then findFirstIdxMonotonous_loop array predicate i k
          else findFirstIdxMonotonous_loop array predicate (k + 1) j)
      else Inr i)"
  by pat_completeness auto
termination
  by (relation "measure (\<lambda>(array, predicate, i, j). nat (j - i))") auto

definition findFirstIdxMonotonousOrArrLen ::
  "'a list \<Rightarrow> ('a \<Rightarrow> bool) \<Rightarrow> int \<Rightarrow> int \<Rightarrow> int result" where
  "findFirstIdxMonotonousOrArrLen array predicate startIdx endIdxEx =
     findFirstIdxMonotonous_loop array predicate startIdx endIdxEx"

definition findFirstMonotonous :: "'a list \<Rightarrow> ('a \<Rightarrow> bool) \<Rightarrow> 'a option result" where
  "findFirstMonotonous array predicate =
     bindE (findFirstIdxMonotonousOrArrLen array predicate 0 (int (length array))) (\<lambda>idx.
       if idx = int (length array) then Inr None else Inr (js_at array idx))"

definition findFirstIdxMonotonous :: "'a list \<Rightarrow> ('a \<Rightarrow> bool) \<Rightarrow> int \<Rightarrow> int \<Rightarrow> int result" where
  "findFirstIdxMonotonous array predicate startIdx endIdxEx =
     bindE (findFirstIdxMonotonousOrArrLen array predicate startIdx endIdxEx) (\<lambda>idx.
       if idx = int (length array) then Inr (- 1) else Inr idx)"

section \<open>The class MonotonousArray\<close>

record 'a MonotonousArray =
  ma_array :: "'a list"
  ma_findLastMonotonousLastIdx :: int
  ma_prevFindLastPredicate :: "('a \<Rightarrow> bool) option"

definition new_MonotonousArray :: "'a list \<Rightarrow> 'a MonotonousArray" where
  "new_MonotonousArray array =
     \<lparr>ma_array = array, ma_findLastMonotonousLastIdx = 0, ma_prevFindLastPredicate = None\<rparr>"

text \<open>The static flag \<open>assertInvariants\<close> is the first argument.\<close>

definition MonotonousArray_findLastMonotonous ::
  "bool \<Rightarrow> 'a MonotonousArray \<Rightarrow> ('a \<Rightarrow> bool) \<Rightarrow> ('a option \<times> 'a MonotonousArray) result" where
  "MonotonousArray_findLastMonotonous assertInvariants s predicate =
     bindE
       (if assertInvariants then
          (case ma_prevFindLastPredicate s of
             Some prev \<Rightarrow>
               if \<exists>item \<in> set (ma_array s). prev item \<and> \<not> predicate item
               then Inl (GenericError ''MonotonousArray: current predicate must be weaker than (or equal to) the previous predicate.'')
               else Inr (s\<lparr>ma_prevFindLastPredicate := Some predicate\<rparr>)
           | None \<Rightarrow> Inr (s\<lparr>ma_prevFindLastPredicate := Some predicate\<rparr>))
        else Inr s)
       (\<lambda>s. bindE (findLastIdxMonotonous (ma_array s) predicate
                    (ma_findLastMonotonousLastIdx s) (int (length (ma_array s)))) (\<lambda>idx.
          Inr (if idx = - 1 then None else js_at (ma_array s) idx,
               s\<lparr>ma_findLastMonotonousLastIdx := idx + 1\<rparr>)))"

section \<open>Maximum searches\<close>

type_synonym 'a comparator = "'a \<Rightarrow> 'a \<Rightarrow> int"

fun findFirstMax_loop :: "'a comparator \<Rightarrow> 'a list \<Rightarrow> 'a \<Rightarrow> 'a" where
  "findFirstMax_loop comparator [] m = m"
| "findFirstMax_loop comparator (item # items) m =
     findFirstMax_loop comparator items (if comparator item m > 0 then item else m)"

definition findFirstMax :: "'a list \<Rightarrow> 'a comparator \<Rightarrow> 'a option" where
  "findFirstMax array comparator =
     (case array of [] \<Rightarrow> None | x # xs \<Rightarrow> Some (findFirstMax_loop comparator xs x))"

fun findLastMax_loop :: "'a comparator \<Rightarrow> 'a list \<Rightarrow> 'a \<Rightarrow> 'a" where
  "findLastMax_loop comparator [] m = m"
| "findLastMax_loop comparator (item # items) m =
     findLastMax_loop comparator items (if comparator item m \<ge> 0 then item else m)"

definition findLastMax :: "'a list \<Rightarrow> 'a comparator \<Rightarrow> 'a option" where
  "findLastMax array comparator =
     (case array of [] \<Rightarrow> None | x # xs \<Rightarrow> Some (findLastMax_loop comparator xs x))"

definition findFirstMin :: "'a list \<Rightarrow> 'a comparator \<Rightarrow> 'a option" where
  "findFirstMin array comparator = findFirstMax array (\<lambda>a b. - comparator a b)"

fun findMaxIdx_loop :: "'a comparator \<Rightarrow> 'a list \<Rightarrow> nat \<Rightarrow> nat \<Rightarrow> 'a list \<Rightarrow> nat" where
  "findMaxIdx_loop comparator array i maxIdx [] = maxIdx"
| "findMaxIdx_loop comparator array i maxIdx (item # items) =
     findMaxIdx_loop comparator array (Suc i)
       (if comparator item (array ! maxIdx) > 0 then i else maxIdx) items"

definition findMaxIdx :: "'a list \<Rightarrow> 'a comparator \<Rightarrow> int" where
  "findMaxIdx array comparator =
     (if array = [] then - 1 else int (findMaxIdx_loop comparator array 1 0 (tl array)))"

fun mapFindFirst :: "'a list \<Rightarrow> ('a \<Rightarrow> 'b option) \<Rightarrow> 'b option" where
  "mapFindFirst [] mapFn = None"
| "mapFindFirst (v # vs) mapFn =
     (case mapFn v of Some mapped \<Rightarrow> Some mapped | None \<Rightarrow> mapFindFirst vs mapFn)"

declare findLastIdx.simps [simp del] findFirstIdx.simps [simp del]
  findLastIdxMonotonous_loop.simps [simp del] findFirstIdxMonotonous_loop.simps [simp del]


section \<open>The binary searches find a boundary\<close>

text \<open>
  Without any assumption on the predicate both loops stop at a boundary: the element
  before it is on one side, the element at it on the other.
\<close>

lemma mid_bounds: "(i::int) < j \<Longrightarrow> i \<le> (i + j) div 2 \<and> (i + j) div 2 < j"
  by linarith

lemma findFirst_loop_boundary:
  assumes "0 \<le> i" "i \<le> j" "j \<le> int (length xs)"
  shows "\<exists>k. findFirstIdxMonotonous_loop xs P i j = Inr k \<and> i \<le> k \<and> k \<le> j \<and>
             (i < k \<longrightarrow> \<not> P (xs ! nat (k - 1))) \<and> (k < j \<longrightarrow> P (xs ! nat k))"
  using assms
proof (induction xs P i j rule: findFirstIdxMonotonous_loop.induct)
  case (1 xs P i j)
  show ?case
  proof (cases "i < j")
    case True
    define k where "k = (i + j) div 2"
    have k: "i \<le> k" "k < j" using mid_bounds [OF True] by (simp_all add: k_def)
    with "1.prems" have get: "js_get xs k = Inr (xs ! nat k)" by (simp add: js_get_total)
    show ?thesis
    proof (cases "P (xs ! nat k)")
      case P: True
      with True get have eq: "findFirstIdxMonotonous_loop xs P i j = findFirstIdxMonotonous_loop xs P i k"
        by (subst findFirstIdxMonotonous_loop.simps) (simp add: k_def Let_def)
      from "1.IH"(1) [OF True k_def get P] "1.prems" k
      obtain m where "findFirstIdxMonotonous_loop xs P i k = Inr m" "i \<le> m" "m \<le> k"
        "i < m \<longrightarrow> \<not> P (xs ! nat (m - 1))" "m < k \<longrightarrow> P (xs ! nat m)" by auto
      with eq k P show ?thesis by (intro exI [of _ m]) (cases "m = k"; simp)
    next
      case P: False
      with True get have eq: "findFirstIdxMonotonous_loop xs P i j = findFirstIdxMonotonous_loop xs P (k + 1) j"
        by (subst findFirstIdxMonotonous_loop.simps) (simp add: k_def Let_def)
      from "1.IH"(2) [OF True k_def get P] "1.prems" k
      obtain m where "findFirstIdxMonotonous_loop xs P (k + 1) j = Inr m" "k + 1 \<le> m" "m \<le> j"
        "k + 1 < m \<longrightarrow> \<not> P (xs ! nat (m - 1))" "m < j \<longrightarrow> P (xs ! nat m)" by auto
      with eq k P show ?thesis by (intro exI [of _ m]) (cases "m = k + 1"; simp)
    qed
  next
    case False
    with "1.prems" show ?thesis
      by (subst findFirstIdxMonotonous_loop.simps) simp
  qed
qed

text \<open>The other loop is the same search for the negated predicate.\<close>

lemma findLast_loop_eq:
  "findLastIdxMonotonous_loop xs P i j = findFirstIdxMonotonous_loop xs (\<lambda>x. \<not> P x) i j"
proof (induction xs P i j rule: findLastIdxMonotonous_loop.induct)
  case (1 xs P i j)
  show ?case
  proof (cases "i < j")
    case True
    show ?thesis
    proof (cases "js_get xs ((i + j) div 2)")
      case (Inl e)
      with True show ?thesis
        by (subst findLastIdxMonotonous_loop.simps, subst findFirstIdxMonotonous_loop.simps)
          (simp add: Let_def)
    next
      case (Inr x)
      with True "1.IH" [OF True refl Inr] show ?thesis
        by (subst findLastIdxMonotonous_loop.simps, subst findFirstIdxMonotonous_loop.simps)
          (simp add: Let_def)
    qed
  next
    case False
    then show ?thesis
      by (subst findLastIdxMonotonous_loop.simps, subst findFirstIdxMonotonous_loop.simps) simp
  qed
qed

text \<open>
  With the documented precondition the boundary is unique, so the search returns the
  number of elements before the switch, from every start index that is not past it.
\<close>

lemma switch_index:
  assumes "switches_on P xs" and "k \<le> length xs"
    and "0 < k \<Longrightarrow> \<not> P (xs ! (k - 1))" and "k < length xs \<Longrightarrow> P (xs ! k)"
  shows "k = length (takeWhile (\<lambda>x. \<not> P x) xs)"
proof -
  have "\<not> P (xs ! i)" if "i < k" for i
  proof (cases "i = k - 1")
    case False
    with that assms(2) have "i < k - 1" "k - 1 < length xs" by simp_all
    with assms(1) have "P (xs ! i) \<Longrightarrow> P (xs ! (k - 1))" by (simp add: switches_on_def)
    with assms(3) that show ?thesis by auto
  qed (use assms(3) that in auto)
  then have "takeWhile (\<lambda>x. \<not> P x) xs = take k xs"
    using assms(4) by (intro takeWhile_eq_take_P_nth) auto
  with assms(2) show ?thesis by simp
qed

theorem findFirstIdxMonotonousOrArrLen_from:
  assumes "switches_on P xs" and "s \<le> length (takeWhile (\<lambda>x. \<not> P x) xs)"
  shows "findFirstIdxMonotonousOrArrLen xs P (int s) (int (length xs)) =
         Inr (int (length (takeWhile (\<lambda>x. \<not> P x) xs)))"
proof -
  let ?n = "length (takeWhile (\<lambda>x. \<not> P x) xs)"
  have n: "?n \<le> length xs" by (rule length_takeWhile_le)
  obtain k where k: "findFirstIdxMonotonous_loop xs P (int s) (int (length xs)) = Inr k"
    "int s \<le> k" "k \<le> int (length xs)" "int s < k \<longrightarrow> \<not> P (xs ! nat (k - 1))"
    "k < int (length xs) \<longrightarrow> P (xs ! nat k)"
    using findFirst_loop_boundary [of "int s" "int (length xs)" xs P] assms(2) n by auto
  have "nat k = ?n"
  proof (rule switch_index [OF assms(1)])
    show "nat k \<le> length xs" using k by simp
    show "P (xs ! nat k)" if "nat k < length xs" using k that by simp
    show "\<not> P (xs ! (nat k - 1))" if "0 < nat k"
    proof (cases "int s < k")
      case True
      moreover have "nat (k - 1) = nat k - 1" by simp
      ultimately show ?thesis using k by simp
    next
      case False
      with k that assms(2) have "nat k - 1 < ?n" by simp
      then show ?thesis by (metis nth_mem set_takeWhileD takeWhile_nth)
    qed
  qed
  with k show ?thesis by (simp add: findFirstIdxMonotonousOrArrLen_def)
qed

theorem findLastIdxMonotonous_from:
  assumes "switches_on (\<lambda>x. \<not> P x) xs" and "s \<le> length (takeWhile P xs)"
  shows "findLastIdxMonotonous xs P (int s) (int (length xs)) =
         Inr (int (length (takeWhile P xs)) - 1)"
  using findFirstIdxMonotonousOrArrLen_from [of "\<lambda>x. \<not> P x" xs s] assms
  by (simp add: findLastIdxMonotonous_def findFirstIdxMonotonousOrArrLen_def findLast_loop_eq)

lemmas findFirstIdxMonotonous_spec = findFirstIdxMonotonousOrArrLen_from [where s = 0, simplified]
lemmas findLastIdxMonotonous_spec = findLastIdxMonotonous_from [where s = 0, simplified]


section \<open>The interface of the range sets\<close>

text \<open>
  What the clients rely on: the two searches split a list at the point where the
  predicate switches.  \<open>window\<close> is the fact the range sets use: with a lower and an
  upper predicate the list falls into the elements before, inside and after.
\<close>

locale split_search =
  fixes first_idx :: "'a list \<Rightarrow> ('a \<Rightarrow> bool) \<Rightarrow> int result"
    and last_idx :: "'a list \<Rightarrow> ('a \<Rightarrow> bool) \<Rightarrow> int result"
  assumes first_idx_split: "switches_on P xs \<Longrightarrow>
      first_idx xs P = Inr (int (length (takeWhile (\<lambda>x. \<not> P x) xs)))"
    and last_idx_split: "switches_on (\<lambda>x. \<not> P x) xs \<Longrightarrow>
      last_idx xs P = Inr (int (length (takeWhile P xs)) - 1)"
begin

lemma window:
  assumes P: "switches_on P xs" and Q: "switches_on (\<lambda>x. \<not> Q x) xs"
    and PQ: "\<And>x. x \<in> set xs \<Longrightarrow> \<not> P x \<Longrightarrow> Q x"
  shows "\<exists>ys ms zs. xs = ys @ ms @ zs \<and>
           first_idx xs P = Inr (int (length ys)) \<and>
           last_idx xs Q = Inr (int (length ys + length ms) - 1) \<and>
           (\<forall>y \<in> set ys. \<not> P y) \<and> (\<forall>m \<in> set ms. P m \<and> Q m) \<and> (\<forall>z \<in> set zs. \<not> Q z)"
proof -
  let ?ys = "takeWhile (\<lambda>x. \<not> P x) xs" and ?rest = "dropWhile (\<lambda>x. \<not> P x) xs"
  let ?ms = "takeWhile Q ?rest" and ?zs = "dropWhile Q ?rest"
  note splitP = switches_on_split [OF P]
  have Qys: "\<forall>y \<in> set ?ys. Q y"
    using PQ splitP(2) set_takeWhileD by fastforce
  have tw: "takeWhile Q xs = ?ys @ ?ms"
    using Qys takeWhile_append2 [of ?ys Q ?rest] by simp
  have dw: "dropWhile Q xs = ?zs"
    using Qys dropWhile_append2 [of ?ys Q ?rest] by simp
  from switches_on_split(3) [OF Q] have "\<forall>z \<in> set ?zs. \<not> Q z" using dw by simp
  moreover have "\<forall>m \<in> set ?ms. P m \<and> Q m"
    using splitP(3) by (meson set_takeWhileD)
  moreover have "xs = ?ys @ ?ms @ ?zs" by simp
  moreover have "last_idx xs Q = Inr (int (length ?ys + length ?ms) - 1)"
    using last_idx_split [OF Q] tw by simp
  ultimately show ?thesis
    using first_idx_split [OF P] splitP(2) by blast
qed

end

interpretation binary_search: split_search
  "\<lambda>xs P. findFirstIdxMonotonousOrArrLen xs P 0 (int (length xs))"
  "\<lambda>xs P. findLastIdxMonotonous xs P 0 (int (length xs))"
  by unfold_locales
    (simp_all add: findFirstIdxMonotonous_spec findLastIdxMonotonous_spec)

section \<open>Binary search against linear search\<close>

lemma findFirstIdx_from:
  "s \<le> length xs \<Longrightarrow> findFirstIdx xs P (int s) =
    (let k = s + length (takeWhile (\<lambda>i. \<not> P (xs ! i) (int i)) [s..<length xs])
     in Inr (if k = length xs then - 1 else int k))"
proof (induction "length xs - s" arbitrary: s)
  case 0
  then show ?case by (subst findFirstIdx.simps) simp
next
  case (Suc n)
  then have s: "s < length xs" by simp
  then have upt: "[s..<length xs] = s # [Suc s..<length xs]" by (rule upt_conv_Cons)
  show ?case
  proof (cases "P (xs ! s) (int s)")
    case True
    with s show ?thesis by (subst findFirstIdx.simps) (simp add: upt Let_def)
  next
    case False
    with s have "findFirstIdx xs P (int s) = findFirstIdx xs P (int (Suc s))"
      by (subst findFirstIdx.simps) (simp add: add.commute)
    also have "\<dots> = (let k = Suc s + length (takeWhile (\<lambda>i. \<not> P (xs ! i) (int i)) [Suc s..<length xs])
        in Inr (if k = length xs then - 1 else int k))"
      using Suc s by (intro Suc.hyps(1)) simp_all
    finally show ?thesis using False by (simp add: upt)
  qed
qed

lemma takeWhile_upt_nth:
  "length (takeWhile (\<lambda>i. Q (xs ! i)) [0..<length xs]) = length (takeWhile Q xs)"
proof -
  have "takeWhile Q xs = takeWhile Q (map ((!) xs) [0..<length xs])" by (simp add: map_nth)
  also have "\<dots> = map ((!) xs) (takeWhile (\<lambda>i. Q (xs ! i)) [0..<length xs])"
    by (simp add: takeWhile_map comp_def)
  finally show ?thesis by simp
qed

lemma findFirstIdx_0:
  "findFirstIdx xs (\<lambda>x _. P x) 0 =
     Inr (if length (takeWhile (\<lambda>x. \<not> P x) xs) = length xs then - 1
          else int (length (takeWhile (\<lambda>x. \<not> P x) xs)))"
  using findFirstIdx_from [of 0 xs "\<lambda>x _. P x"]
  by (simp add: Let_def takeWhile_upt_nth [where Q = "\<lambda>x. \<not> P x"])

lemma takeWhile_all_iff: "length (takeWhile Q xs) = length xs \<longleftrightarrow> (\<forall>x \<in> set xs. Q x)"
  by (metis takeWhile_eq_all_conv takeWhile_eq_take take_all order_refl)

text \<open>
  \<^bold>\<open>C35.\<close> On an array whose predicate switches once (the documented precondition) the
  binary search \<open>findFirstIdxMonotonous\<close> returns what the linear scan \<open>findFirstIdx\<close>
  returns: the first index where the predicate holds, or \<open>-1\<close>.
\<close>

theorem binary_search_eq_linear_search:
  assumes "switches_on P xs"
  shows "findFirstIdxMonotonous xs P 0 (int (length xs)) = findFirstIdx xs (\<lambda>x _. P x) 0"
  using assms
  by (simp add: findFirstIdxMonotonous_def binary_search.first_idx_split findFirstIdx_0)

theorem binary_search_eq_linear_search_witness:
  "findFirstIdxMonotonous [1, 3, 5, 7 :: int] (\<lambda>x. 4 \<le> x) 0 4 =
     findFirstIdx [1, 3, 5, 7 :: int] (\<lambda>x _. 4 \<le> x) 0 \<and>
   findFirstIdx [1, 3, 5, 7 :: int] (\<lambda>x _. 4 \<le> x) 0 = Inr 2"
proof -
  have "switches_on (\<lambda>x. 4 \<le> x) [1, 3, 5, 7 :: int]"
    by (simp add: switches_on_sorted_wrt [symmetric])
  from binary_search_eq_linear_search [OF this]
  show ?thesis by (simp add: findFirstIdx_0)
qed

section \<open>The cached start index of MonotonousArray\<close>

text \<open>
  The state after a query is consistent with a predicate \<open>p\<close> when the cached index is
  not past the last element satisfying \<open>p\<close>.
\<close>

definition ma_consistent :: "'a MonotonousArray \<Rightarrow> ('a \<Rightarrow> bool) \<Rightarrow> bool" where
  "ma_consistent s p \<longleftrightarrow>
     (\<exists>k. ma_findLastMonotonousLastIdx s = int k \<and> k \<le> length (takeWhile p (ma_array s)))"

lemma ma_consistent_new: "ma_consistent (new_MonotonousArray xs) p"
  by (simp add: ma_consistent_def new_MonotonousArray_def)

lemma length_takeWhile_mono:
  "(\<And>x. x \<in> set xs \<Longrightarrow> p x \<Longrightarrow> q x) \<Longrightarrow> length (takeWhile p xs) \<le> length (takeWhile q xs)"
  by (induction xs) auto

lemma ma_consistent_weaken:
  "ma_consistent s p \<Longrightarrow> (\<And>x. x \<in> set (ma_array s) \<Longrightarrow> p x \<Longrightarrow> q x) \<Longrightarrow> ma_consistent s q"
  using length_takeWhile_mono [of "ma_array s" p q] by (auto simp: ma_consistent_def intro: le_trans)

lemma findLastMonotonous_eq:
  "switches_on (\<lambda>x. \<not> p x) xs \<Longrightarrow> findLastMonotonous xs p =
     Inr (if takeWhile p xs = [] then None else Some (last (takeWhile p xs)))"
proof -
  assume sw: "switches_on (\<lambda>x. \<not> p x) xs"
  let ?n = "length (takeWhile p xs)"
  have "js_at xs (int ?n - 1) = Some (last (takeWhile p xs))" if "takeWhile p xs \<noteq> []"
  proof -
    from that have n: "0 < ?n" by simp
    have "?n \<le> length xs" by (rule length_takeWhile_le)
    moreover have "last (takeWhile p xs) = xs ! (?n - 1)"
      using n by (simp add: last_conv_nth takeWhile_nth)
    moreover have "nat (int ?n - 1) = ?n - 1" by simp
    ultimately show ?thesis using n by (simp add: js_at_def)
  qed
  then show ?thesis
    by (auto simp: findLastMonotonous_def findLastIdxMonotonous_spec [OF sw])
qed

text \<open>
  A sequence of queries with weaker and weaker monotonous predicates: the
  cached start index of \<open>MonotonousArray\<close> never changes an answer.  Every query gives
  the element a fresh \<open>findLastMonotonous\<close> gives, and the new state is again usable
  for every predicate that is at least as weak.
\<close>

theorem MonotonousArray_query:
  assumes "ma_consistent s p" and "switches_on (\<lambda>x. \<not> p x) (ma_array s)"
  shows "\<exists>r s'. MonotonousArray_findLastMonotonous False s p = Inr (r, s') \<and>
           findLastMonotonous (ma_array s) p = Inr r \<and>
           ma_array s' = ma_array s \<and> ma_consistent s' p"
proof -
  let ?xs = "ma_array s" and ?n = "length (takeWhile p (ma_array s))"
  obtain k where k: "ma_findLastMonotonousLastIdx s = int k" "k \<le> ?n"
    using assms(1) by (auto simp: ma_consistent_def)
  note from_k = findLastIdxMonotonous_from [OF assms(2) k(2)]
  note from_0 = findLastIdxMonotonous_spec [OF assms(2)]
  show ?thesis
    using k from_k from_0
    by (simp add: MonotonousArray_findLastMonotonous_def findLastMonotonous_def ma_consistent_def
        bindE_eq_Inr)
qed

theorem MonotonousArray_query_witness:
  "\<exists>r s'. MonotonousArray_findLastMonotonous False
       \<lparr>ma_array = [1, 3, 5, 7 :: int], ma_findLastMonotonousLastIdx = 1, ma_prevFindLastPredicate = None\<rparr>
       (\<lambda>x. x \<le> 5) = Inr (r, s') \<and>
     findLastMonotonous [1, 3, 5, 7 :: int] (\<lambda>x. x \<le> 5) = Inr r"
proof -
  let ?s = "\<lparr>ma_array = [1, 3, 5, 7 :: int], ma_findLastMonotonousLastIdx = 1, ma_prevFindLastPredicate = None\<rparr>"
  have "ma_consistent ?s (\<lambda>x. x \<le> 5)" 
    unfolding ma_consistent_def by (rule exI [of _ "1::nat"]) simp
  moreover have "switches_on (\<lambda>x. \<not> x \<le> 5) (ma_array ?s)"
    by (simp add: switches_on_sorted_wrt [symmetric])
  ultimately show ?thesis using MonotonousArray_query [of ?s "\<lambda>x. x \<le> 5"] by auto
qed

end
