(* ===== verification/OffsetRanges.thy ===== *)
theory OffsetRanges
  imports Prelude
begin

text \<open>
  \<open>src/vs/editor/common/core/ranges/offsetRange.ts\<close>: the class \<open>OffsetRange\<close> and the
  set of offsets \<open>OffsetRangeSet\<close>, kept as a sorted list of ranges.  The constructor
  throws when the start is after the end, so every operation that builds a range
  returns a \<^typ>\<open>'a result\<close>.

  The locale \<open>interval_list\<close> holds what sorted lists of disjoint, non-touching ranges
  have in common; it is interpreted here for \<open>OffsetRange\<close> and in \<open>LineRanges\<close> for
  \<open>LineRange\<close>.
\<close>

section \<open>The class OffsetRange\<close>

record OffsetRange =
  start :: int
  endExclusive :: int

definition new_OffsetRange :: "int \<Rightarrow> int \<Rightarrow> OffsetRange result" where
  "new_OffsetRange s e =
     (if s > e then Inl (BugIndicatingError ''Invalid range'')
      else Inr \<lparr>start = s, endExclusive = e\<rparr>)"

definition OffsetRange_fromTo :: "int \<Rightarrow> int \<Rightarrow> OffsetRange result" where
  "OffsetRange_fromTo s e = new_OffsetRange s e"

definition OffsetRange_equals_static :: "OffsetRange \<Rightarrow> OffsetRange \<Rightarrow> bool" where
  "OffsetRange_equals_static r1 r2 \<longleftrightarrow> start r1 = start r2 \<and> endExclusive r1 = endExclusive r2"

definition OffsetRange_tryCreate :: "int \<Rightarrow> int \<Rightarrow> OffsetRange option result" where
  "OffsetRange_tryCreate s e =
     (if s > e then Inr None else bindE (new_OffsetRange s e) (\<lambda>r. Inr (Some r)))"

definition OffsetRange_ofLength :: "int \<Rightarrow> OffsetRange result" where
  "OffsetRange_ofLength len = new_OffsetRange 0 len"

definition OffsetRange_ofStartAndLength :: "int \<Rightarrow> int \<Rightarrow> OffsetRange result" where
  "OffsetRange_ofStartAndLength s len = new_OffsetRange s (s + len)"

definition OffsetRange_emptyAt :: "int \<Rightarrow> OffsetRange result" where
  "OffsetRange_emptyAt offset = new_OffsetRange offset offset"

definition OffsetRange_isEmpty :: "OffsetRange \<Rightarrow> bool" where
  "OffsetRange_isEmpty r \<longleftrightarrow> start r = endExclusive r"

definition OffsetRange_delta :: "OffsetRange \<Rightarrow> int \<Rightarrow> OffsetRange result" where
  "OffsetRange_delta r offset = new_OffsetRange (start r + offset) (endExclusive r + offset)"

definition OffsetRange_deltaStart :: "OffsetRange \<Rightarrow> int \<Rightarrow> OffsetRange result" where
  "OffsetRange_deltaStart r offset = new_OffsetRange (start r + offset) (endExclusive r)"

definition OffsetRange_deltaEnd :: "OffsetRange \<Rightarrow> int \<Rightarrow> OffsetRange result" where
  "OffsetRange_deltaEnd r offset = new_OffsetRange (start r) (endExclusive r + offset)"

definition OffsetRange_length :: "OffsetRange \<Rightarrow> int" where
  "OffsetRange_length r = endExclusive r - start r"

definition OffsetRange_equals :: "OffsetRange \<Rightarrow> OffsetRange \<Rightarrow> bool" where
  "OffsetRange_equals r r' \<longleftrightarrow> start r = start r' \<and> endExclusive r = endExclusive r'"

definition OffsetRange_containsRange :: "OffsetRange \<Rightarrow> OffsetRange \<Rightarrow> bool" where
  "OffsetRange_containsRange r r' \<longleftrightarrow> start r \<le> start r' \<and> endExclusive r' \<le> endExclusive r"

definition OffsetRange_contains :: "OffsetRange \<Rightarrow> int \<Rightarrow> bool" where
  "OffsetRange_contains r offset \<longleftrightarrow> start r \<le> offset \<and> offset < endExclusive r"

definition OffsetRange_join :: "OffsetRange \<Rightarrow> OffsetRange \<Rightarrow> OffsetRange result" where
  "OffsetRange_join r r' =
     new_OffsetRange (min (start r) (start r')) (max (endExclusive r) (endExclusive r'))"

definition OffsetRange_intersect :: "OffsetRange \<Rightarrow> OffsetRange \<Rightarrow> OffsetRange option result" where
  "OffsetRange_intersect r r' =
     (let s = max (start r) (start r'); e = min (endExclusive r) (endExclusive r')
      in if s \<le> e then bindE (new_OffsetRange s e) (\<lambda>i. Inr (Some i)) else Inr None)"

definition OffsetRange_intersectionLength :: "OffsetRange \<Rightarrow> OffsetRange \<Rightarrow> int" where
  "OffsetRange_intersectionLength r r' =
     (let s = max (start r) (start r'); e = min (endExclusive r) (endExclusive r')
      in max 0 (e - s))"

definition OffsetRange_intersects :: "OffsetRange \<Rightarrow> OffsetRange \<Rightarrow> bool" where
  "OffsetRange_intersects r r' \<longleftrightarrow>
     (let s = max (start r) (start r'); e = min (endExclusive r) (endExclusive r') in s < e)"

definition OffsetRange_intersectsOrTouches :: "OffsetRange \<Rightarrow> OffsetRange \<Rightarrow> bool" where
  "OffsetRange_intersectsOrTouches r r' \<longleftrightarrow>
     (let s = max (start r) (start r'); e = min (endExclusive r) (endExclusive r') in s \<le> e)"

definition OffsetRange_isBefore :: "OffsetRange \<Rightarrow> OffsetRange \<Rightarrow> bool" where
  "OffsetRange_isBefore r r' \<longleftrightarrow> endExclusive r \<le> start r'"

definition OffsetRange_isAfter :: "OffsetRange \<Rightarrow> OffsetRange \<Rightarrow> bool" where
  "OffsetRange_isAfter r r' \<longleftrightarrow> start r \<ge> endExclusive r'"

definition OffsetRange_slice :: "OffsetRange \<Rightarrow> 'a list \<Rightarrow> 'a list" where
  "OffsetRange_slice r arr = js_slice arr (start r) (endExclusive r)"

definition OffsetRange_substring :: "OffsetRange \<Rightarrow> 'a list \<Rightarrow> 'a list" where
  "OffsetRange_substring r str = js_substring str (start r) (endExclusive r)"

definition OffsetRange_clip :: "OffsetRange \<Rightarrow> int \<Rightarrow> int result" where
  "OffsetRange_clip r v =
     (if OffsetRange_isEmpty r then Inl (BugIndicatingError ''Invalid clipping range'')
      else Inr (max (start r) (min (endExclusive r - 1) v)))"

definition OffsetRange_clipCyclic :: "OffsetRange \<Rightarrow> int \<Rightarrow> int result" where
  "OffsetRange_clipCyclic r v =
     (if OffsetRange_isEmpty r then Inl (BugIndicatingError ''Invalid clipping range'')
      else if v < start r then Inr (endExclusive r - js_rem (start r - v) (OffsetRange_length r))
      else if v \<ge> endExclusive r then Inr (start r + js_rem (v - start r) (OffsetRange_length r))
      else Inr v)"

text \<open>The loops over the offsets, with the callback's results collected in order.\<close>

definition OffsetRange_map :: "OffsetRange \<Rightarrow> (int \<Rightarrow> 'b) \<Rightarrow> 'b list" where
  "OffsetRange_map r f = map f [start r..endExclusive r - 1]"

text \<open>The callback of \<open>forEach\<close> acts on a state.\<close>

definition OffsetRange_forEach :: "OffsetRange \<Rightarrow> (int \<Rightarrow> 's \<Rightarrow> 's) \<Rightarrow> 's \<Rightarrow> 's" where
  "OffsetRange_forEach r f s = fold f [start r..endExclusive r - 1] s"

definition OffsetRange_joinRightTouching :: "OffsetRange \<Rightarrow> OffsetRange \<Rightarrow> OffsetRange result" where
  "OffsetRange_joinRightTouching r r' =
     (if endExclusive r \<noteq> start r' then Inl (BugIndicatingError ''Invalid join'')
      else new_OffsetRange (start r) (endExclusive r'))"

definition OffsetRange_withMargin :: "OffsetRange \<Rightarrow> int \<Rightarrow> int option \<Rightarrow> OffsetRange result" where
  "OffsetRange_withMargin r marginStart marginEnd =
     (let marginEnd = (case marginEnd of None \<Rightarrow> marginStart | Some m \<Rightarrow> m)
      in new_OffsetRange (start r - marginStart) (endExclusive r + marginEnd))"

section \<open>Sorted range lists\<close>

text \<open>
  The two while loops of \<open>addRange\<close>: \<open>i\<close> skips the ranges that end before the new
  one, \<open>j\<close> runs over those that touch it.
\<close>

function skip_while :: "('a \<Rightarrow> bool) \<Rightarrow> 'a list \<Rightarrow> nat \<Rightarrow> nat" where
  "skip_while p xs i = (if i < length xs \<and> p (xs ! i) then skip_while p xs (Suc i) else i)"
  by pat_completeness auto
termination
  by (relation "measure (\<lambda>(p, xs, i). length xs - i)") auto

definition OffsetRange_addRange :: "OffsetRange \<Rightarrow> OffsetRange list \<Rightarrow> OffsetRange list result" where
  "OffsetRange_addRange rng sortedRanges =
     (let i = skip_while (\<lambda>r. endExclusive r < start rng) sortedRanges 0;
          j = skip_while (\<lambda>r. start r \<le> endExclusive rng) sortedRanges i
      in if i = j then Inr (js_splice sortedRanges (int i) 0 [rng])
         else
           let s = min (start rng) (start (sortedRanges ! i));
               e = max (endExclusive rng) (endExclusive (sortedRanges ! (j - 1)))
           in bindE (new_OffsetRange s e) (\<lambda>r.
                Inr (js_splice sortedRanges (int i) (int j - int i) [r])))"

record OffsetRangeSet =
  ors_sortedRanges :: "OffsetRange list"

definition new_OffsetRangeSet :: OffsetRangeSet where
  "new_OffsetRangeSet = \<lparr>ors_sortedRanges = []\<rparr>"

definition OffsetRangeSet_addRange :: "OffsetRangeSet \<Rightarrow> OffsetRange \<Rightarrow> OffsetRangeSet result" where
  "OffsetRangeSet_addRange st rng =
     (let rs = ors_sortedRanges st;
          i = skip_while (\<lambda>r. endExclusive r < start rng) rs 0;
          j = skip_while (\<lambda>r. start r \<le> endExclusive rng) rs i
      in if i = j then Inr (st\<lparr>ors_sortedRanges := js_splice rs (int i) 0 [rng]\<rparr>)
         else
           let s = min (start rng) (start (rs ! i));
               e = max (endExclusive rng) (endExclusive (rs ! (j - 1)))
           in bindE (new_OffsetRange s e) (\<lambda>r.
                Inr (st\<lparr>ors_sortedRanges := js_splice rs (int i) (int j - int i) [r]\<rparr>)))"

definition OffsetRangeSet_intersectsStrict :: "OffsetRangeSet \<Rightarrow> OffsetRange \<Rightarrow> bool" where
  "OffsetRangeSet_intersectsStrict st other =
     (let rs = ors_sortedRanges st;
          i = skip_while (\<lambda>r. endExclusive r \<le> start other) rs 0
      in i < length rs \<and> start (rs ! i) < endExclusive other)"

definition OffsetRangeSet_intersectWithRange ::
  "OffsetRangeSet \<Rightarrow> OffsetRange \<Rightarrow> OffsetRangeSet result" where
  "OffsetRangeSet_intersectWithRange st other =
     foldE (\<lambda>res rng. bindE (OffsetRange_intersect rng other) (\<lambda>i.
              case i of None \<Rightarrow> Inr res | Some intersection \<Rightarrow> OffsetRangeSet_addRange res intersection))
       new_OffsetRangeSet (ors_sortedRanges st)"

definition OffsetRangeSet_length :: "OffsetRangeSet \<Rightarrow> int" where
  "OffsetRangeSet_length st = foldl (\<lambda>prev cur. prev + OffsetRange_length cur) 0 (ors_sortedRanges st)"

definition OffsetRangeSet_intersectWithRangeLength :: "OffsetRangeSet \<Rightarrow> OffsetRange \<Rightarrow> int result" where
  "OffsetRangeSet_intersectWithRangeLength st other =
     bindE (OffsetRangeSet_intersectWithRange st other) (\<lambda>r. Inr (OffsetRangeSet_length r))"


declare skip_while.simps [simp del]

section \<open>Facts about single ranges\<close>

definition or_wf :: "OffsetRange \<Rightarrow> bool" where
  "or_wf r \<longleftrightarrow> start r \<le> endExclusive r"

lemma new_OffsetRange_Inr [simp]:
  "s \<le> e \<Longrightarrow> new_OffsetRange s e = Inr \<lparr>start = s, endExclusive = e\<rparr>"
  by (simp add: new_OffsetRange_def)

lemma new_OffsetRange_eq_Inr:
  "new_OffsetRange s e = Inr r \<longleftrightarrow> s \<le> e \<and> r = \<lparr>start = s, endExclusive = e\<rparr>"
  by (auto simp: new_OffsetRange_def)

lemma new_OffsetRange_eq_Inl:
  "new_OffsetRange s e = Inl x \<longleftrightarrow> e < s \<and> x = BugIndicatingError ''Invalid range''"
  by (auto simp: new_OffsetRange_def)

lemmas [range_defs] =
  OffsetRange_fromTo_def OffsetRange_tryCreate_def OffsetRange_ofLength_def
  OffsetRange_ofStartAndLength_def OffsetRange_emptyAt_def OffsetRange_isEmpty_def
  OffsetRange_delta_def OffsetRange_deltaStart_def OffsetRange_deltaEnd_def
  OffsetRange_length_def OffsetRange_equals_def OffsetRange_containsRange_def
  OffsetRange_contains_def OffsetRange_join_def OffsetRange_intersect_def
  OffsetRange_intersectionLength_def OffsetRange_intersects_def
  OffsetRange_intersectsOrTouches_def OffsetRange_isBefore_def OffsetRange_isAfter_def
  OffsetRange_joinRightTouching_def OffsetRange_withMargin_def or_wf_def

lemma OffsetRange_eqI: "start r = start r' \<Longrightarrow> endExclusive r = endExclusive r' \<Longrightarrow> r = r'"
  for r :: OffsetRange by (cases r; cases r') simp

definition or_set :: "OffsetRange \<Rightarrow> int set" where
  "or_set r = {n. OffsetRange_contains r n}"

lemma or_set_atLeastLessThan: "or_set r = {start r ..< endExclusive r}"
  by (auto simp: or_set_def OffsetRange_contains_def)

section \<open>Sorted lists of separated ranges\<close>

text \<open>
  A list of ranges with a bound on each side.  \<open>normalized\<close> is the comment on
  \<open>_normalizedRanges\<close> in \<open>lineRange.ts\<close>: sorted by start, no two touching or
  intersecting.  \<open>elems\<close> is what such a list means: the set of integers in it.
\<close>

locale interval_list =
  fixes lo hi :: "'r \<Rightarrow> int"
begin

definition ivl :: "'r \<Rightarrow> int set" where
  "ivl r = {lo r ..< hi r}"

definition elems :: "'r list \<Rightarrow> int set" where
  "elems rs = (\<Union>r \<in> set rs. ivl r)"

definition normalized :: "'r list \<Rightarrow> bool" where
  "normalized rs \<longleftrightarrow> (\<forall>r \<in> set rs. lo r \<le> hi r) \<and> sorted_wrt (\<lambda>x y. hi x < lo y) rs"

lemma elems_simps [simp]:
  "elems [] = {}" "elems (r # rs) = ivl r \<union> elems rs" "elems (rs @ rs') = elems rs \<union> elems rs'"
  by (auto simp: elems_def)

lemma in_ivl [simp]: "n \<in> ivl r \<longleftrightarrow> lo r \<le> n \<and> n < hi r"
  by (simp add: ivl_def)

lemma normalized_Nil [simp]: "normalized []"
  by (simp add: normalized_def)

lemma normalized_Cons:
  "normalized (r # rs) \<longleftrightarrow> lo r \<le> hi r \<and> (\<forall>x \<in> set rs. hi r < lo x) \<and> normalized rs"
  by (auto simp: normalized_def)

lemma normalized_append:
  "normalized (rs @ rs') \<longleftrightarrow>
     normalized rs \<and> normalized rs' \<and> (\<forall>x \<in> set rs. \<forall>y \<in> set rs'. hi x < lo y)"
  by (auto simp: normalized_def sorted_wrt_append)

text \<open>The bounds of a normalized list are ordered, so searches by bound switch once.\<close>

lemma normalized_switches:
  assumes "normalized rs"
  shows "switches_on (\<lambda>r. a \<le> hi r) rs" and "switches_on (\<lambda>r. \<not> lo r \<le> b) rs"
    and "switches_on (\<lambda>r. \<not> lo r < b) rs" and "switches_on (\<lambda>r. a < hi r) rs"
proof -
  have *: "hi (rs ! i) < lo (rs ! j) \<and> lo (rs ! i) \<le> hi (rs ! i) \<and> lo (rs ! j) \<le> hi (rs ! j)"
    if "i < j" "j < length rs" for i j
    using assms that by (auto simp: normalized_def sorted_wrt_iff_nth_less)
  show "switches_on (\<lambda>r. a \<le> hi r) rs" "switches_on (\<lambda>r. \<not> lo r \<le> b) rs"
    "switches_on (\<lambda>r. \<not> lo r < b) rs" "switches_on (\<lambda>r. a < hi r) rs"
    unfolding switches_on_def using * by (smt (verit))+
qed

text \<open>
  Whether some range that satisfies a prefix predicate reaches past \<open>a\<close> is decided by
  the last such range alone.
\<close>

lemma last_reaches:
  assumes norm: "normalized rs" and sw: "switches_on (\<lambda>r. \<not> P r) rs"
  shows "(\<exists>r \<in> set rs. P r \<and> a < hi r) \<longleftrightarrow>
         takeWhile P rs \<noteq> [] \<and> a < hi (last (takeWhile P rs))"
proof -
  let ?t = "takeWhile P rs" and ?d = "dropWhile P rs"
  have rs: "rs = ?t @ ?d" by simp
  have t: "\<forall>r \<in> set ?t. P r" by (auto dest: set_takeWhileD)
  have d: "\<forall>r \<in> set ?d. \<not> P r" using dropWhile_switches [of "\<lambda>r. \<not> P r" rs] sw
    by (simp add: switches_on_sorted_wrt)
  have nt: "normalized ?t" using norm rs by (metis normalized_append)
  have top: "hi r \<le> hi (last ?t)" if "r \<in> set ?t" for r
  proof -
    have "?t = butlast ?t @ [last ?t]" using that by (cases "?t = []") simp_all
    then have "normalized (butlast ?t @ [last ?t])" "r \<in> set (butlast ?t @ [last ?t])"
      using nt that by metis+
    then show ?thesis by (auto simp: normalized_append normalized_Cons dest: order_less_le_trans)
  qed
  have "(\<exists>r \<in> set rs. P r \<and> a < hi r) \<longleftrightarrow> (\<exists>r \<in> set ?t. a < hi r)"
    using t d rs by (metis Un_iff set_append)
  also have "\<dots> \<longleftrightarrow> ?t \<noteq> [] \<and> a < hi (last ?t)"
    using top by (metis last_in_set list.set_cases list.distinct(1) order_less_le_trans)
  finally show ?thesis .
qed

text \<open>
  Merging a new range with the block of ranges it touches.  The block is given as
  three parts: before, touching, after.
\<close>

lemma merge_block:
  assumes norm: "normalized (ys @ ms @ zs)" and "ms \<noteq> []"
    and ys: "\<forall>y \<in> set ys. hi y < a" and ms: "\<forall>m \<in> set ms. a \<le> hi m \<and> lo m \<le> b"
    and zs: "\<forall>z \<in> set zs. b < lo z" and ab: "a \<le> b"
    and r: "lo r = min a (lo (hd ms))" "hi r = max b (hi (last ms))"
  shows "normalized (ys @ r # zs)"
    and "elems (ys @ r # zs) = elems (ys @ ms @ zs) \<union> {a ..< b}"
proof -
  from \<open>ms \<noteq> []\<close> have mem: "hd ms \<in> set ms" "last ms \<in> set ms" by simp_all
  have nm: "normalized ms" using norm by (simp add: normalized_append)
  have first: "lo (hd ms) \<le> lo m" if "m \<in> set ms" for m
    using nm that by (cases ms) (auto simp: normalized_Cons dest: order_less_le_trans)
  have last: "hi m \<le> hi (last ms)" if "m \<in> set ms" for m
  proof -
    have "ms = butlast ms @ [last ms]" using \<open>ms \<noteq> []\<close> by simp
    then have "normalized (butlast ms @ [last ms])" using nm by simp
    moreover have "m \<in> set (butlast ms) \<or> m = last ms"
      using that by (metis Un_iff \<open>ms = butlast ms @ [last ms]\<close> empty_iff insert_iff list.set(1,2) set_append)
    ultimately show ?thesis by (auto simp: normalized_append normalized_Cons dest: order_less_le_trans)
  qed
  have wf: "lo m \<le> hi m" if "m \<in> set ms" for m
    using nm that by (auto simp: normalized_def)
  show "normalized (ys @ r # zs)"
  proof -
    have "lo r \<le> hi r" using r ab by linarith
    moreover have "hi y < lo r" if "y \<in> set ys" for y
      using norm ys that mem(1) r(1) by (auto simp: normalized_append)
    moreover have "hi r < lo z" if "z \<in> set zs" for z
      using norm zs that mem(2) r(2) by (auto simp: normalized_append)
    ultimately show ?thesis using norm by (auto simp: normalized_append normalized_Cons)
  qed
  have "n \<in> ivl r \<longleftrightarrow> n \<in> elems ms \<or> a \<le> n \<and> n < b" for n
  proof
    assume n: "n \<in> ivl r"
    show "n \<in> elems ms \<or> a \<le> n \<and> n < b"
    proof (cases "a \<le> n \<and> n < b")
      case False
      with n r consider "n < a" "lo (hd ms) \<le> n" | "b \<le> n" "n < hi (last ms)"
        by (auto simp: min_def max_def split: if_splits)
      then show ?thesis
      proof cases
        case 1
        with ms mem(1) have "n \<in> ivl (hd ms)" by fastforce
        with mem(1) show ?thesis by (auto simp: elems_def simp del: in_ivl)
      next
        case 2
        with ms mem(2) have "n \<in> ivl (last ms)" by fastforce
        with mem(2) show ?thesis by (auto simp: elems_def simp del: in_ivl)
      qed
    qed simp
  next
    assume "n \<in> elems ms \<or> a \<le> n \<and> n < b"
    then show "n \<in> ivl r"
    proof
      assume "n \<in> elems ms"
      then obtain m where "m \<in> set ms" "lo m \<le> n" "n < hi m" by (auto simp: elems_def)
      with first last r show ?thesis by fastforce
    qed (use r in auto)
  qed
  then show "elems (ys @ r # zs) = elems (ys @ ms @ zs) \<union> {a ..< b}"
    by (auto simp del: in_ivl simp: set_eq_iff)
qed

text \<open>Inserting a range that touches nothing.\<close>

lemma insert_block:
  assumes "normalized (ys @ zs)" and "\<forall>y \<in> set ys. hi y < lo r" and "\<forall>z \<in> set zs. hi r < lo z"
    and "lo r \<le> hi r"
  shows "normalized (ys @ r # zs)" and "elems (ys @ r # zs) = elems (ys @ zs) \<union> ivl r"
  using assms by (auto simp: normalized_append normalized_Cons)

end


interpretation or_list: interval_list start endExclusive .

lemma or_list_ivl: "or_list.ivl r = or_set r"
  by (simp add: or_list.ivl_def or_set_atLeastLessThan)

section \<open>addRange\<close>

lemma skip_while_eq: "i \<le> length xs \<Longrightarrow> skip_while p xs i = i + length (takeWhile p (drop i xs))"
proof (induction p xs i rule: skip_while.induct)
  case (1 p xs i)
  show ?case
  proof (cases "i < length xs \<and> p (xs ! i)")
    case True
    with 1 have "skip_while p xs (Suc i) = Suc i + length (takeWhile p (drop (Suc i) xs))" by simp
    with True show ?thesis by (subst skip_while.simps) (simp add: Cons_nth_drop_Suc [symmetric])
  next
    case False
    with "1.prems" show ?thesis
      by (subst skip_while.simps, cases "i < length xs")
        (auto simp: Cons_nth_drop_Suc [symmetric] simp del: drop_eq_Nil)
  qed
qed

text \<open>The loops of \<open>addRange\<close> cut the list into before, touching, after.\<close>

lemma touching_block:
  assumes norm: "or_list.normalized rs" and wf: "or_wf rng"
  shows "\<exists>ys ms zs. rs = ys @ ms @ zs \<and>
    skip_while (\<lambda>r. endExclusive r < start rng) rs 0 = length ys \<and>
    skip_while (\<lambda>r. start r \<le> endExclusive rng) rs (length ys) = length ys + length ms \<and>
    (\<forall>y \<in> set ys. endExclusive y < start rng) \<and>
    (\<forall>m \<in> set ms. start rng \<le> endExclusive m \<and> start m \<le> endExclusive rng) \<and>
    (\<forall>z \<in> set zs. endExclusive rng < start z)"
proof -
  let ?P = "\<lambda>r. start rng \<le> endExclusive r" and ?Q = "\<lambda>r. start r \<le> endExclusive rng"
  let ?ys = "takeWhile (\<lambda>r. \<not> ?P r) rs" and ?rest = "dropWhile (\<lambda>r. \<not> ?P r) rs"
  note P = switches_on_split [OF or_list.normalized_switches(1) [OF norm, of "start rng"]]
  have norm_rest: "or_list.normalized ?rest"
    using norm P(1) by (metis or_list.normalized_append)
  note Q = switches_on_split [OF or_list.normalized_switches(2) [OF norm_rest, of "endExclusive rng"]]
  have drop: "drop (length ?ys) rs = ?rest"
    by (metis P(1) append_eq_conv_conj)
  have le: "length ?ys \<le> length rs" by (rule length_takeWhile_le)
  have "rs = ?ys @ takeWhile ?Q ?rest @ dropWhile ?Q ?rest" by simp
  moreover have "skip_while (\<lambda>r. endExclusive r < start rng) rs 0 = length ?ys"
    by (simp add: skip_while_eq not_le)
  moreover have "skip_while ?Q rs (length ?ys) = length ?ys + length (takeWhile ?Q ?rest)"
    using le by (simp add: skip_while_eq drop)
  moreover have "\<forall>m \<in> set (takeWhile ?Q ?rest). ?P m \<and> ?Q m"
    using P(3) by (meson set_takeWhileD)
  moreover have "\<forall>y \<in> set ?ys. endExclusive y < start rng" using P(2) by (simp only: not_le)
  moreover have "\<forall>z \<in> set (dropWhile ?Q ?rest). endExclusive rng < start z"
    using Q(3) by (simp only: not_not not_le not_less)
  ultimately show ?thesis by blast
qed

lemma OffsetRange_addRange_spec:
  assumes "or_list.normalized rs" and "or_wf rng"
  shows "\<exists>rs'. OffsetRange_addRange rng rs = Inr rs' \<and> or_list.normalized rs' \<and>
               or_list.elems rs' = or_list.elems rs \<union> or_set rng"
proof -
  obtain ys ms zs where rs: "rs = ys @ ms @ zs"
    and i: "skip_while (\<lambda>r. endExclusive r < start rng) rs 0 = length ys"
    and j: "skip_while (\<lambda>r. start r \<le> endExclusive rng) rs (length ys) = length ys + length ms"
    and ys: "\<forall>y \<in> set ys. endExclusive y < start rng"
    and ms: "\<forall>m \<in> set ms. start rng \<le> endExclusive m \<and> start m \<le> endExclusive rng"
    and zs: "\<forall>z \<in> set zs. endExclusive rng < start z"
    using touching_block [OF assms] by blast
  show ?thesis
  proof (cases "ms = []")
    case True
    then have "OffsetRange_addRange rng rs = Inr (ys @ rng # zs)"
      using rs i j by (simp add: OffsetRange_addRange_def js_splice_insert)
    with or_list.insert_block [of ys zs rng] assms ys zs True rs show ?thesis
      by (simp add: or_list_ivl or_wf_def)
  next
    case False
    let ?r = "\<lparr>start = min (start rng) (start (hd ms)),
               endExclusive = max (endExclusive rng) (endExclusive (last ms))\<rparr>"
    have nth: "rs ! length ys = hd ms" "rs ! (length ys + length ms - 1) = last ms"
      using False rs by (cases ms; simp add: last_conv_nth nth_append)+
    have splice: "js_splice rs (int (length ys)) (int (length ms)) [?r] = ys @ ?r # zs"
      using js_splice_split [of ys ms zs "[?r]"] rs by simp
    have "OffsetRange_addRange rng rs = Inr (ys @ ?r # zs)"
      using False i j nth splice assms(2) by (simp add: OffsetRange_addRange_def or_wf_def)
    moreover note or_list.merge_block [of ys ms zs "start rng" "endExclusive rng" ?r]
    ultimately show ?thesis
      using assms False ys ms zs rs by (simp add: or_wf_def or_set_atLeastLessThan)
  qed
qed

text \<open>The method of the set is the static function on its list.\<close>

lemma OffsetRangeSet_addRange_eq:
  "OffsetRangeSet_addRange st rng =
     bindE (OffsetRange_addRange rng (ors_sortedRanges st)) (\<lambda>rs. Inr (st\<lparr>ors_sortedRanges := rs\<rparr>))"
  by (auto simp: OffsetRangeSet_addRange_def OffsetRange_addRange_def Let_def bindE_assoc)

definition ors_inv :: "OffsetRangeSet \<Rightarrow> bool" where
  "ors_inv st \<longleftrightarrow> or_list.normalized (ors_sortedRanges st)"

definition ors_elems :: "OffsetRangeSet \<Rightarrow> int set" where
  "ors_elems st = or_list.elems (ors_sortedRanges st)"

lemma new_OffsetRangeSet_facts [simp]:
  "ors_inv new_OffsetRangeSet" "ors_elems new_OffsetRangeSet = {}"
  by (simp_all add: ors_inv_def ors_elems_def new_OffsetRangeSet_def)

text \<open>
  \<open>OffsetRangeSet.addRange\<close> never throws on a well-formed range, keeps the list
  sorted and separated, and adds exactly the offsets of the range to the set.
\<close>

theorem OffsetRangeSet_addRange_correct:
  assumes "ors_inv st" and "or_wf rng"
  shows "\<exists>st'. OffsetRangeSet_addRange st rng = Inr st' \<and> ors_inv st' \<and>
               ors_elems st' = ors_elems st \<union> or_set rng"
  using OffsetRange_addRange_spec [of "ors_sortedRanges st" rng] assms
  by (auto simp: OffsetRangeSet_addRange_eq ors_inv_def ors_elems_def)

theorem OffsetRangeSet_addRange_correct_witness:
  "\<exists>st'. OffsetRangeSet_addRange
       \<lparr>ors_sortedRanges = [\<lparr>start = 1, endExclusive = 3\<rparr>, \<lparr>start = 5, endExclusive = 8\<rparr>]\<rparr>
       \<lparr>start = 3, endExclusive = 6\<rparr> = Inr st' \<and> ors_inv st' \<and>
     ors_elems st' = {1 ..< 3} \<union> {5 ..< 8} \<union> {3 ..< 6}"
proof -
  let ?st = "\<lparr>ors_sortedRanges = [\<lparr>start = 1, endExclusive = 3\<rparr>, \<lparr>start = 5, endExclusive = 8\<rparr>]\<rparr>"
  have "ors_inv ?st" by (simp add: ors_inv_def or_list.normalized_Cons)
  moreover have "or_wf \<lparr>start = 3, endExclusive = 6\<rparr>" by (simp add: or_wf_def)
  ultimately show ?thesis
    using OffsetRangeSet_addRange_correct [of ?st "\<lparr>start = 3, endExclusive = 6\<rparr>"]
    by (simp add: ors_elems_def or_list_ivl or_set_atLeastLessThan)
qed

section \<open>Queries on the set\<close>

lemma OffsetRange_intersect_spec:
  assumes "or_wf r" "or_wf r'"
  shows "\<exists>i. OffsetRange_intersect r r' = Inr i \<and>
    (case i of Some x \<Rightarrow> or_wf x \<and> or_set x = or_set r \<inter> or_set r'
             | None \<Rightarrow> or_set r \<inter> or_set r' = {} \<and> \<not> OffsetRange_intersectsOrTouches r r')"
  using assms by (auto simp: range_defs or_set_atLeastLessThan Let_def split: if_splits)

lemma intersectWithRange_fold:
  assumes "or_list.normalized rs" and "or_wf other" and "ors_inv res"
  shows "\<exists>res'. foldE (\<lambda>res rng. bindE (OffsetRange_intersect rng other) (\<lambda>i.
              case i of None \<Rightarrow> Inr res | Some intersection \<Rightarrow> OffsetRangeSet_addRange res intersection))
           res rs = Inr res' \<and> ors_inv res' \<and>
         ors_elems res' = ors_elems res \<union> (or_list.elems rs \<inter> or_set other)"
  using assms
proof (induction rs arbitrary: res)
  case Nil
  then show ?case by simp
next
  case (Cons r rs)
  then have wf: "or_wf r" and norm: "or_list.normalized rs"
    by (simp_all add: or_list.normalized_Cons or_wf_def)
  obtain i where i: "OffsetRange_intersect r other = Inr i"
    "case i of Some x \<Rightarrow> or_wf x \<and> or_set x = or_set r \<inter> or_set other
             | None \<Rightarrow> or_set r \<inter> or_set other = {} \<and> \<not> OffsetRange_intersectsOrTouches r other"
    using OffsetRange_intersect_spec [OF wf Cons.prems(2)] by blast
  show ?case
  proof (cases i)
    case None
    with i Cons.IH [OF norm Cons.prems(2,3)] show ?thesis
      by (auto simp: or_list_ivl)
  next
    case (Some x)
    with i obtain st where "OffsetRangeSet_addRange res x = Inr st" "ors_inv st"
      "ors_elems st = ors_elems res \<union> (or_set r \<inter> or_set other)"
      using OffsetRangeSet_addRange_correct [OF Cons.prems(3), of x] by auto
    with i Some Cons.IH [OF norm Cons.prems(2), of st] show ?thesis
      by (auto simp: or_list_ivl)
  qed
qed

lemma foldl_lengths:
  "or_list.normalized rs \<Longrightarrow>
   foldl (\<lambda>prev cur. prev + OffsetRange_length cur) c rs = c + int (card (or_list.elems rs))"
proof (induction rs arbitrary: c)
  case Nil
  then show ?case by simp
next
  case (Cons r rs)
  then have norm: "or_list.normalized rs" by (simp add: or_list.normalized_Cons)
  have "or_set r \<inter> or_list.elems rs = {}"
    using Cons.prems by (fastforce simp: or_list.normalized_Cons or_set_atLeastLessThan or_list.elems_def)
  moreover have "finite (or_list.elems rs)" "finite (or_set r)"
    by (simp_all add: or_list.elems_def or_list.ivl_def or_set_atLeastLessThan)
  ultimately have "card (or_list.elems (r # rs)) = card (or_set r) + card (or_list.elems rs)"
    by (simp add: card_Un_disjoint or_list_ivl)
  moreover have "OffsetRange_length r = int (card (or_set r))"
    using Cons.prems by (simp add: OffsetRange_length_def or_set_atLeastLessThan or_list.normalized_Cons)
  ultimately show ?case using Cons.IH [OF norm] by simp
qed

text \<open>
  \<open>intersectWithRange\<close> computes the intersection of the set with a range, and
  \<open>intersectWithRangeLength\<close> counts the offsets in it.
\<close>

theorem OffsetRangeSet_intersectWithRange_correct:
  assumes "ors_inv st" and "or_wf other"
  shows "\<exists>res. OffsetRangeSet_intersectWithRange st other = Inr res \<and> ors_inv res \<and>
           ors_elems res = ors_elems st \<inter> or_set other \<and>
           OffsetRangeSet_intersectWithRangeLength st other =
             Inr (int (card (ors_elems st \<inter> or_set other)))"
proof -
  obtain res where res: "OffsetRangeSet_intersectWithRange st other = Inr res" "ors_inv res"
    "ors_elems res = ors_elems st \<inter> or_set other"
    using intersectWithRange_fold [of "ors_sortedRanges st" other new_OffsetRangeSet] assms
    unfolding OffsetRangeSet_intersectWithRange_def ors_inv_def [of st] ors_elems_def [of st]
    by auto
  moreover have "OffsetRangeSet_length res = int (card (ors_elems res))"
    using res(2) foldl_lengths [of "ors_sortedRanges res" 0]
    by (simp add: OffsetRangeSet_length_def ors_inv_def ors_elems_def)
  ultimately show ?thesis by (simp add: OffsetRangeSet_intersectWithRangeLength_def)
qed

theorem OffsetRangeSet_intersectWithRange_correct_witness:
  "OffsetRangeSet_intersectWithRangeLength
     \<lparr>ors_sortedRanges = [\<lparr>start = 1, endExclusive = 3\<rparr>, \<lparr>start = 5, endExclusive = 8\<rparr>]\<rparr>
     \<lparr>start = 2, endExclusive = 6\<rparr> = Inr (int (card (({1 ..< 3} \<union> {5 ..< 8}) \<inter> {2 ..< 6 :: int})))"
proof -
  let ?st = "\<lparr>ors_sortedRanges = [\<lparr>start = 1, endExclusive = 3\<rparr>, \<lparr>start = 5, endExclusive = 8\<rparr>]\<rparr>"
  have "ors_inv ?st" by (simp add: ors_inv_def or_list.normalized_Cons)
  moreover have "or_wf \<lparr>start = 2, endExclusive = 6\<rparr>" by (simp add: or_wf_def)
  ultimately show ?thesis
    using OffsetRangeSet_intersectWithRange_correct [of ?st "\<lparr>start = 2, endExclusive = 6\<rparr>"]
    by (auto simp: ors_elems_def or_list_ivl or_set_atLeastLessThan)
qed

text \<open>
  \<open>intersectsStrict\<close> answers its question when neither the set nor the argument holds
  an empty range; with an empty one it may answer true although no offset is shared.
\<close>

lemma OffsetRangeSet_intersectsStrict_spec:
  assumes "ors_inv st" and ne: "\<forall>r \<in> set (ors_sortedRanges st). start r < endExclusive r"
    and other: "start other < endExclusive other"
  shows "OffsetRangeSet_intersectsStrict st other \<longleftrightarrow> ors_elems st \<inter> or_set other \<noteq> {}"
proof -
  let ?rs = "ors_sortedRanges st" and ?P = "\<lambda>r. start other < endExclusive r"
  have norm: "or_list.normalized ?rs" using assms(1) by (simp add: ors_inv_def)
  note sp = switches_on_split [OF or_list.normalized_switches(4) [OF norm, of "start other"]]
  let ?ys = "takeWhile (\<lambda>r. \<not> ?P r) ?rs" and ?zs = "dropWhile (\<lambda>r. \<not> ?P r) ?rs"
  have i: "skip_while (\<lambda>r. endExclusive r \<le> start other) ?rs 0 = length ?ys"
    by (simp add: skip_while_eq not_less)
  have elems: "or_list.elems ?rs \<inter> or_set other = or_list.elems ?zs \<inter> or_set other"
  proof -
    have "or_list.elems ?ys \<inter> or_set other = {}"
      using sp(2) by (fastforce simp: or_list.elems_def or_set_atLeastLessThan)
    then show ?thesis by (subst sp(1)) (simp del: takeWhile_dropWhile_id add: Int_Un_distrib2)
  qed
  show ?thesis
  proof (cases ?zs)
    case Nil
    then have "length ?ys = length ?rs" by (metis append_Nil2 sp(1))
    with i elems Nil show ?thesis
      by (simp add: OffsetRangeSet_intersectsStrict_def Let_def ors_elems_def)
  next
    case (Cons z zs)
    then have nth: "length ?ys < length ?rs" "?rs ! length ?ys = z"
      by (metis sp(1) length_append less_add_same_cancel1 length_greater_0_conv list.distinct(1))
         (metis sp(1) Cons nth_append_length)
    have z: "z \<in> set ?zs" "z \<in> set ?rs" using Cons nth by (simp, metis nth_mem)
    have nz: "or_list.normalized (z # zs)" using norm sp(1) Cons by (metis or_list.normalized_append)
    have "or_list.elems ?zs \<inter> or_set other \<noteq> {} \<longleftrightarrow> start z < endExclusive other"
    proof
      assume "start z < endExclusive other"
      moreover have "start other < endExclusive z" using sp(3) z(1) by blast
      ultimately have "max (start z) (start other) \<in> or_set z \<inter> or_set other"
        using ne z(2) other by (auto simp: or_set_atLeastLessThan)
      then show "or_list.elems ?zs \<inter> or_set other \<noteq> {}"
        using Cons by (auto simp: or_list_ivl)
    next
      assume "or_list.elems ?zs \<inter> or_set other \<noteq> {}"
      then obtain r n where "r \<in> set (z # zs)" "start r \<le> n" "n < endExclusive other"
        unfolding Cons or_list.elems_def or_list_ivl or_set_atLeastLessThan by fastforce
      moreover have "start z \<le> start r" if "r \<in> set (z # zs)" for r
        using nz that by (fastforce simp: or_list.normalized_Cons)
      ultimately show "start z < endExclusive other" by fastforce
    qed
    with i elems nth show ?thesis
      by (simp add: OffsetRangeSet_intersectsStrict_def Let_def ors_elems_def)
  qed
qed


text \<open>Both kinds of empty range make \<open>intersectsStrict\<close> answer true without a shared offset.\<close>

lemma intersectsStrict_empty_cases:
  "OffsetRangeSet_intersectsStrict \<lparr>ors_sortedRanges = [\<lparr>start = 3, endExclusive = 3\<rparr>]\<rparr>
     \<lparr>start = 2, endExclusive = 5\<rparr>"
  "OffsetRangeSet_intersectsStrict \<lparr>ors_sortedRanges = [\<lparr>start = 1, endExclusive = 5\<rparr>]\<rparr>
     \<lparr>start = 3, endExclusive = 3\<rparr>"
  by (simp_all add: OffsetRangeSet_intersectsStrict_def skip_while.simps Let_def)

section \<open>Clipping\<close>

lemma js_rem_nonneg: "0 \<le> a \<Longrightarrow> 0 < b \<Longrightarrow> js_rem a b = a mod b"
  by (cases "a = 0") (simp_all add: js_rem_def)

text \<open>
  \<^bold>\<open>C36.\<close> \<open>clip\<close> and \<open>clipCyclic\<close> on a non-empty range: \<open>clip\<close> returns the closest
  contained value; the result of \<open>clipCyclic\<close> is congruent to its argument modulo the
  length and lies in the range, except that an argument below the range by a multiple
  of the length is mapped to \<open>endExclusive\<close>, which the range does not contain.
\<close>

theorem OffsetRange_clip_correct:
  assumes "start r < endExclusive r"
  shows "\<exists>c k. OffsetRange_clip r v = Inr c \<and> OffsetRange_contains r c \<and>
           (\<forall>n. OffsetRange_contains r n \<longrightarrow> \<bar>c - v\<bar> \<le> \<bar>n - v\<bar>) \<and>
         OffsetRange_clipCyclic r v = Inr k \<and> k mod OffsetRange_length r = v mod OffsetRange_length r \<and>
           (if v < start r \<and> OffsetRange_length r dvd start r - v then k = endExclusive r
            else OffsetRange_contains r k)"
proof -
  let ?l = "OffsetRange_length r"
  have l: "0 < ?l" "?l = endExclusive r - start r" using assms by (simp_all add: OffsetRange_length_def)
  have clip: "\<exists>c. OffsetRange_clip r v = Inr c \<and> OffsetRange_contains r c \<and>
      (\<forall>n. OffsetRange_contains r n \<longrightarrow> \<bar>c - v\<bar> \<le> \<bar>n - v\<bar>)"
    using assms by (auto simp: OffsetRange_clip_def OffsetRange_isEmpty_def OffsetRange_contains_def)
  have ne: "\<not> OffsetRange_isEmpty r" using assms by (simp add: OffsetRange_isEmpty_def)
  consider "v < start r" | "endExclusive r \<le> v" | "start r \<le> v" "v < endExclusive r" by linarith
  then have "\<exists>k. OffsetRange_clipCyclic r v = Inr k \<and> k mod ?l = v mod ?l \<and>
      (if v < start r \<and> ?l dvd start r - v then k = endExclusive r else OffsetRange_contains r k)"
  proof cases
    case 1
    define m where "m = (start r - v) mod ?l"
    have k: "OffsetRange_clipCyclic r v = Inr (endExclusive r - m)"
      using 1 ne l by (simp add: OffsetRange_clipCyclic_def js_rem_nonneg m_def)
    have "(endExclusive r - m) mod ?l = (endExclusive r - (start r - v)) mod ?l"
      unfolding m_def by (rule mod_diff_right_eq)
    moreover have "endExclusive r - (start r - v) = v + ?l" using l(2) by simp
    ultimately have cong: "(endExclusive r - m) mod ?l = v mod ?l"
      by (simp only: mod_add_self2)
    have m: "0 \<le> m" "m < ?l" "m = 0 \<longleftrightarrow> ?l dvd start r - v"
      using l(1) by (simp_all add: dvd_eq_mod_eq_0 m_def)
    have "if ?l dvd start r - v then endExclusive r - m = endExclusive r
          else OffsetRange_contains r (endExclusive r - m)"
      unfolding m(3) [symmetric] OffsetRange_contains_def using m(1,2) l(2) by auto
    with k cong 1 show ?thesis by simp
  next
    case 2
    define m where "m = (v - start r) mod ?l"
    have k: "OffsetRange_clipCyclic r v = Inr (start r + m)"
      using 2 ne l assms by (simp add: OffsetRange_clipCyclic_def js_rem_nonneg m_def)
    have "(start r + m) mod ?l = (start r + (v - start r)) mod ?l"
      unfolding m_def by (rule mod_add_right_eq)
    then have cong: "(start r + m) mod ?l = v mod ?l" by simp
    have "0 \<le> m" "m < ?l" using l(1) by (simp_all add: m_def)
    with k cong 2 l(2) assms show ?thesis by (simp add: OffsetRange_contains_def)
  next
    case 3
    then show ?thesis using ne by (simp add: OffsetRange_clipCyclic_def OffsetRange_contains_def)
  qed
  with clip show ?thesis by blast
qed

theorem OffsetRange_clip_correct_witness:
  "OffsetRange_clipCyclic \<lparr>start = 5, endExclusive = 10\<rparr> 4 = Inr 9 \<and>
   OffsetRange_clipCyclic \<lparr>start = 5, endExclusive = 10\<rparr> 0 = Inr 10"
proof -
  let ?r = "\<lparr>start = 5, endExclusive = 10\<rparr>"
  have r: "start ?r < endExclusive ?r" by simp
  from OffsetRange_clip_correct [OF r, of 0]
  have "OffsetRange_clipCyclic ?r 0 = Inr 10" by (auto simp: OffsetRange_length_def)
  then show ?thesis
    by (simp add: OffsetRange_clipCyclic_def OffsetRange_isEmpty_def js_rem_def OffsetRange_length_def)
qed

end
