(* ===== verification/Positions.thy ===== *)
theory Positions
  imports Prelude
begin

text \<open>
  \<open>src/vs/editor/common/core/position.ts\<close> and \<open>range.ts\<close>: positions (line, column) and
  ranges of positions.  \<open>Position\<close> is ordered lexicographically; the comparison methods
  are shown to be that order, and the range operations to be the operations on the
  intervals of the order.
\<close>

section \<open>The class Position\<close>

datatype Position = Position (lineNumber: int) (column: int)

text \<open>The optional arguments of \<open>with\<close> and \<open>delta\<close> are options.\<close>

definition Position_with :: "Position \<Rightarrow> int option \<Rightarrow> int option \<Rightarrow> Position" where
  "Position_with p newLineNumber newColumn =
     (let l = (case newLineNumber of None \<Rightarrow> lineNumber p | Some l \<Rightarrow> l);
          c = (case newColumn of None \<Rightarrow> column p | Some c \<Rightarrow> c)
      in if l = lineNumber p \<and> c = column p then p else Position l c)"

definition Position_delta :: "Position \<Rightarrow> int option \<Rightarrow> int option \<Rightarrow> Position" where
  "Position_delta p deltaLineNumber deltaColumn =
     (let dl = (case deltaLineNumber of None \<Rightarrow> 0 | Some d \<Rightarrow> d);
          dc = (case deltaColumn of None \<Rightarrow> 0 | Some d \<Rightarrow> d)
      in Position_with p (Some (max 1 (lineNumber p + dl))) (Some (max 1 (column p + dc))))"

definition Position_equals_static :: "Position option \<Rightarrow> Position option \<Rightarrow> bool" where
  "Position_equals_static a b \<longleftrightarrow>
     (case (a, b) of
        (None, None) \<Rightarrow> True
      | (Some a, Some b) \<Rightarrow> lineNumber a = lineNumber b \<and> column a = column b
      | _ \<Rightarrow> False)"

definition Position_equals :: "Position \<Rightarrow> Position \<Rightarrow> bool" where
  "Position_equals p other = Position_equals_static (Some p) (Some other)"

definition Position_isBefore_static :: "Position \<Rightarrow> Position \<Rightarrow> bool" where
  "Position_isBefore_static a b =
     (if lineNumber a < lineNumber b then True
      else if lineNumber b < lineNumber a then False
      else column a < column b)"

definition Position_isBefore :: "Position \<Rightarrow> Position \<Rightarrow> bool" where
  "Position_isBefore p other = Position_isBefore_static p other"

definition Position_isBeforeOrEqual_static :: "Position \<Rightarrow> Position \<Rightarrow> bool" where
  "Position_isBeforeOrEqual_static a b =
     (if lineNumber a < lineNumber b then True
      else if lineNumber b < lineNumber a then False
      else column a \<le> column b)"

definition Position_isBeforeOrEqual :: "Position \<Rightarrow> Position \<Rightarrow> bool" where
  "Position_isBeforeOrEqual p other = Position_isBeforeOrEqual_static p other"

text \<open>The comparison coerces all four numbers to 32 bits before it subtracts.\<close>

definition Position_compare :: "Position \<Rightarrow> Position \<Rightarrow> int" where
  "Position_compare a b =
     (let aLineNumber = to_int32 (lineNumber a); bLineNumber = to_int32 (lineNumber b)
      in if aLineNumber = bLineNumber then
           (let aColumn = to_int32 (column a); bColumn = to_int32 (column b)
            in aColumn - bColumn)
         else aLineNumber - bLineNumber)"

definition Position_clone :: "Position \<Rightarrow> Position" where
  "Position_clone p = Position (lineNumber p) (column p)"

definition Position_lift :: "Position \<Rightarrow> Position" where
  "Position_lift p = Position (lineNumber p) (column p)"

instantiation Position :: linorder
begin

definition less_eq_Position :: "Position \<Rightarrow> Position \<Rightarrow> bool" where
  "p \<le> q \<longleftrightarrow> lineNumber p < lineNumber q \<or> lineNumber p = lineNumber q \<and> column p \<le> column q"

definition less_Position :: "Position \<Rightarrow> Position \<Rightarrow> bool" where
  "p < q \<longleftrightarrow> lineNumber p < lineNumber q \<or> lineNumber p = lineNumber q \<and> column p < column q"

instance
proof
  fix p q r :: Position
  show "p < q \<longleftrightarrow> p \<le> q \<and> \<not> q \<le> p"
    by (auto simp: less_eq_Position_def less_Position_def)
  show "p \<le> p" by (simp add: less_eq_Position_def)
  show "p \<le> q \<Longrightarrow> q \<le> r \<Longrightarrow> p \<le> r" by (auto simp: less_eq_Position_def)
  show "p \<le> q \<Longrightarrow> q \<le> p \<Longrightarrow> p = q" by (cases p; cases q) (auto simp: less_eq_Position_def)
  show "p \<le> q \<or> q \<le> p" by (auto simp: less_eq_Position_def)
qed

end

lemmas Position_order = less_eq_Position_def less_Position_def

definition int32_range :: "int \<Rightarrow> bool" where
  "int32_range v \<longleftrightarrow> - (2 ^ 31) \<le> v \<and> v < 2 ^ 31"

definition Position_int32 :: "Position \<Rightarrow> bool" where
  "Position_int32 p \<longleftrightarrow> int32_range (lineNumber p) \<and> int32_range (column p)"

lemma Position_isBefore_less [simp]:
  "Position_isBefore p q \<longleftrightarrow> p < q" "Position_isBeforeOrEqual p q \<longleftrightarrow> p \<le> q"
  by (auto simp: Position_isBefore_def Position_isBefore_static_def Position_isBeforeOrEqual_def
      Position_isBeforeOrEqual_static_def Position_order)

text \<open>
  The four comparisons of \<open>Position\<close> agree on one total order, the
  lexicographic order on (line, column): \<open>isBefore\<close> is its strict part, \<open>equals\<close> its
  equality, and the sign of \<open>compare\<close> decides it as long as the numbers fit into the
  32 bits the method coerces to.
\<close>

theorem Position_comparisons_agree:
  assumes "Position_int32 p" and "Position_int32 q"
  shows "(Position_isBefore p q \<longleftrightarrow> Position_compare p q < 0) \<and>
         (Position_isBeforeOrEqual p q \<longleftrightarrow> Position_compare p q \<le> 0) \<and>
         (Position_equals p q \<longleftrightarrow> Position_compare p q = 0) \<and>
         (Position_equals p q \<longleftrightarrow> \<not> Position_isBefore p q \<and> \<not> Position_isBefore q p)"
proof -
  have "Position_compare p q =
      (if lineNumber p = lineNumber q then column p - column q else lineNumber p - lineNumber q)"
    using assms
    by (simp add: Position_compare_def Position_int32_def int32_range_def to_int32_id)
  moreover have "Position_equals p q \<longleftrightarrow> lineNumber p = lineNumber q \<and> column p = column q"
    by (simp add: Position_equals_def Position_equals_static_def)
  ultimately show ?thesis by (auto simp: Position_order)
qed

theorem Position_comparisons_agree_witness:
  "Position_isBefore (Position 2 9) (Position 3 1) \<and>
   Position_compare (Position 2 9) (Position 3 1) < 0"
proof -
  have "Position_int32 (Position 2 9)" "Position_int32 (Position 3 1)"
    by (simp_all add: Position_int32_def int32_range_def)
  from Position_comparisons_agree [OF this] show ?thesis by (simp add: Position_order)
qed

text \<open>Outside 32 bits the comparison is no longer antisymmetric with the order.\<close>

lemma Position_compare_wraps:
  "Position_compare (Position (2 ^ 31) 1) (Position 1 1) < 0"
  "Position_isBefore (Position 1 1) (Position (2 ^ 31) 1)"
  by (simp_all add: Position_compare_def to_int32_def Position_order)

section \<open>The class Range\<close>

record Range =
  startLineNumber :: int
  startColumn :: int
  endLineNumber :: int
  endColumn :: int

text \<open>The constructor swaps the ends when they are out of order.\<close>

definition new_Range :: "int \<Rightarrow> int \<Rightarrow> int \<Rightarrow> int \<Rightarrow> Range" where
  "new_Range sl sc el ec =
     (if sl > el \<or> sl = el \<and> sc > ec then
        \<lparr>startLineNumber = el, startColumn = ec, endLineNumber = sl, endColumn = sc\<rparr>
      else
        \<lparr>startLineNumber = sl, startColumn = sc, endLineNumber = el, endColumn = ec\<rparr>)"

definition Range_isEmpty :: "Range \<Rightarrow> bool" where
  "Range_isEmpty r \<longleftrightarrow> startLineNumber r = endLineNumber r \<and> startColumn r = endColumn r"

definition Range_containsPosition :: "Range \<Rightarrow> Position \<Rightarrow> bool" where
  "Range_containsPosition r p =
     (if lineNumber p < startLineNumber r \<or> lineNumber p > endLineNumber r then False
      else if lineNumber p = startLineNumber r \<and> column p < startColumn r then False
      else if lineNumber p = endLineNumber r \<and> column p > endColumn r then False
      else True)"

definition Range_strictContainsPosition :: "Range \<Rightarrow> Position \<Rightarrow> bool" where
  "Range_strictContainsPosition r p =
     (if lineNumber p < startLineNumber r \<or> lineNumber p > endLineNumber r then False
      else if lineNumber p = startLineNumber r \<and> column p \<le> startColumn r then False
      else if lineNumber p = endLineNumber r \<and> column p \<ge> endColumn r then False
      else True)"

definition Range_containsRange :: "Range \<Rightarrow> Range \<Rightarrow> bool" where
  "Range_containsRange r other =
     (if startLineNumber other < startLineNumber r \<or> endLineNumber other < startLineNumber r then False
      else if startLineNumber other > endLineNumber r \<or> endLineNumber other > endLineNumber r then False
      else if startLineNumber other = startLineNumber r \<and> startColumn other < startColumn r then False
      else if endLineNumber other = endLineNumber r \<and> endColumn other > endColumn r then False
      else True)"

definition Range_strictContainsRange :: "Range \<Rightarrow> Range \<Rightarrow> bool" where
  "Range_strictContainsRange r other =
     (if startLineNumber other < startLineNumber r \<or> endLineNumber other < startLineNumber r then False
      else if startLineNumber other > endLineNumber r \<or> endLineNumber other > endLineNumber r then False
      else if startLineNumber other = startLineNumber r \<and> startColumn other \<le> startColumn r then False
      else if endLineNumber other = endLineNumber r \<and> endColumn other \<ge> endColumn r then False
      else True)"

definition Range_plusRange :: "Range \<Rightarrow> Range \<Rightarrow> Range" where
  "Range_plusRange a b =
     (let (sl, sc) =
            (if startLineNumber b < startLineNumber a then (startLineNumber b, startColumn b)
             else if startLineNumber b = startLineNumber a
               then (startLineNumber b, min (startColumn b) (startColumn a))
             else (startLineNumber a, startColumn a));
          (el, ec) =
            (if endLineNumber b > endLineNumber a then (endLineNumber b, endColumn b)
             else if endLineNumber b = endLineNumber a
               then (endLineNumber b, max (endColumn b) (endColumn a))
             else (endLineNumber a, endColumn a))
      in new_Range sl sc el ec)"

definition Range_intersectRanges :: "Range \<Rightarrow> Range \<Rightarrow> Range option" where
  "Range_intersectRanges a b =
     (let (sl, sc) =
            (if startLineNumber a < startLineNumber b then (startLineNumber b, startColumn b)
             else if startLineNumber a = startLineNumber b
               then (startLineNumber a, max (startColumn a) (startColumn b))
             else (startLineNumber a, startColumn a));
          (el, ec) =
            (if endLineNumber a > endLineNumber b then (endLineNumber b, endColumn b)
             else if endLineNumber a = endLineNumber b
               then (endLineNumber a, min (endColumn a) (endColumn b))
             else (endLineNumber a, endColumn a))
      in if sl > el then None
         else if sl = el \<and> sc > ec then None
         else Some (new_Range sl sc el ec))"

definition Range_equalsRange :: "Range option \<Rightarrow> Range option \<Rightarrow> bool" where
  "Range_equalsRange a b \<longleftrightarrow>
     (case (a, b) of
        (None, None) \<Rightarrow> True
      | (Some a, Some b) \<Rightarrow>
          startLineNumber a = startLineNumber b \<and> startColumn a = startColumn b \<and>
          endLineNumber a = endLineNumber b \<and> endColumn a = endColumn b
      | _ \<Rightarrow> False)"

definition Range_getEndPosition :: "Range \<Rightarrow> Position" where
  "Range_getEndPosition r = Position (endLineNumber r) (endColumn r)"

definition Range_getStartPosition :: "Range \<Rightarrow> Position" where
  "Range_getStartPosition r = Position (startLineNumber r) (startColumn r)"

definition Range_setEndPosition :: "Range \<Rightarrow> int \<Rightarrow> int \<Rightarrow> Range" where
  "Range_setEndPosition r el ec = new_Range (startLineNumber r) (startColumn r) el ec"

definition Range_setStartPosition :: "Range \<Rightarrow> int \<Rightarrow> int \<Rightarrow> Range" where
  "Range_setStartPosition r sl sc = new_Range sl sc (endLineNumber r) (endColumn r)"

definition Range_collapseToStart :: "Range \<Rightarrow> Range" where
  "Range_collapseToStart r =
     new_Range (startLineNumber r) (startColumn r) (startLineNumber r) (startColumn r)"

definition Range_collapseToEnd :: "Range \<Rightarrow> Range" where
  "Range_collapseToEnd r =
     new_Range (endLineNumber r) (endColumn r) (endLineNumber r) (endColumn r)"

definition Range_delta :: "Range \<Rightarrow> int \<Rightarrow> Range" where
  "Range_delta r lineCount =
     new_Range (startLineNumber r + lineCount) (startColumn r) (endLineNumber r + lineCount) (endColumn r)"

definition Range_isSingleLine :: "Range \<Rightarrow> bool" where
  "Range_isSingleLine r \<longleftrightarrow> startLineNumber r = endLineNumber r"

definition Range_fromPositions :: "Position \<Rightarrow> Position option \<Rightarrow> Range" where
  "Range_fromPositions s e =
     (let e = (case e of None \<Rightarrow> s | Some e \<Rightarrow> e)
      in new_Range (lineNumber s) (column s) (lineNumber e) (column e))"

definition Range_lift :: "Range option \<Rightarrow> Range option" where
  "Range_lift r =
     (case r of None \<Rightarrow> None
      | Some r \<Rightarrow> Some (new_Range (startLineNumber r) (startColumn r) (endLineNumber r) (endColumn r)))"

definition Range_areIntersectingOrTouching :: "Range \<Rightarrow> Range \<Rightarrow> bool" where
  "Range_areIntersectingOrTouching a b =
     (if endLineNumber a < startLineNumber b \<or>
         endLineNumber a = startLineNumber b \<and> endColumn a < startColumn b then False
      else if endLineNumber b < startLineNumber a \<or>
         endLineNumber b = startLineNumber a \<and> endColumn b < startColumn a then False
      else True)"

definition Range_areIntersecting :: "Range \<Rightarrow> Range \<Rightarrow> bool" where
  "Range_areIntersecting a b =
     (if endLineNumber a < startLineNumber b \<or>
         endLineNumber a = startLineNumber b \<and> endColumn a \<le> startColumn b then False
      else if endLineNumber b < startLineNumber a \<or>
         endLineNumber b = startLineNumber a \<and> endColumn b \<le> startColumn a then False
      else True)"

definition Range_areOnlyIntersecting :: "Range \<Rightarrow> Range \<Rightarrow> bool" where
  "Range_areOnlyIntersecting a b =
     (if endLineNumber a < startLineNumber b - 1 \<or>
         endLineNumber a = startLineNumber b \<and> endColumn a < startColumn b - 1 then False
      else if endLineNumber b < startLineNumber a - 1 \<or>
         endLineNumber b = startLineNumber a \<and> endColumn b < startColumn a - 1 then False
      else True)"

definition Range_compareRangesUsingStarts :: "Range option \<Rightarrow> Range option \<Rightarrow> int" where
  "Range_compareRangesUsingStarts a b =
     (case (a, b) of
        (Some a, Some b) \<Rightarrow>
          (let asl = to_int32 (startLineNumber a); bsl = to_int32 (startLineNumber b) in
           if asl = bsl then
             (let asc = to_int32 (startColumn a); bsc = to_int32 (startColumn b) in
              if asc = bsc then
                (let ael = to_int32 (endLineNumber a); bel = to_int32 (endLineNumber b) in
                 if ael = bel then to_int32 (endColumn a) - to_int32 (endColumn b)
                 else ael - bel)
              else asc - bsc)
           else asl - bsl)
      | _ \<Rightarrow> (if a = None then 0 else 1) - (if b = None then 0 else 1))"

definition Range_compareRangesUsingEnds :: "Range \<Rightarrow> Range \<Rightarrow> int" where
  "Range_compareRangesUsingEnds a b =
     (if endLineNumber a = endLineNumber b then
        if endColumn a = endColumn b then
          if startLineNumber a = startLineNumber b then startColumn a - startColumn b
          else startLineNumber a - startLineNumber b
        else endColumn a - endColumn b
      else endLineNumber a - endLineNumber b)"

definition Range_spansMultipleLines :: "Range \<Rightarrow> bool" where
  "Range_spansMultipleLines r \<longleftrightarrow> endLineNumber r > startLineNumber r"

section \<open>Ranges as intervals of positions\<close>

abbreviation rstart :: "Range \<Rightarrow> Position" where
  "rstart r \<equiv> Range_getStartPosition r"

abbreviation rend :: "Range \<Rightarrow> Position" where
  "rend r \<equiv> Range_getEndPosition r"

definition range_wf :: "Range \<Rightarrow> bool" where
  "range_wf r \<longleftrightarrow> rstart r \<le> rend r"

lemmas range_ends = Range_getStartPosition_def Range_getEndPosition_def

lemma new_Range_wf [simp]: "range_wf (new_Range a b c d)"
  by (auto simp: range_wf_def range_ends new_Range_def Position_order)

lemma new_Range_ordered:
  "Position a b \<le> Position c d \<Longrightarrow>
   new_Range a b c d = \<lparr>startLineNumber = a, startColumn = b, endLineNumber = c, endColumn = d\<rparr>"
  by (auto simp: new_Range_def Position_order)

lemma new_Range_ends:
  "rstart (new_Range a b c d) = min (Position a b) (Position c d)"
  "rend (new_Range a b c d) = max (Position a b) (Position c d)"
  by (auto simp: new_Range_def range_ends min_def max_def Position_order)

lemma Range_eqI: "rstart r = rstart r' \<Longrightarrow> rend r = rend r' \<Longrightarrow> r = r'" for r :: Range
  by (cases r; cases r') (simp add: range_ends)

lemma Range_containsPosition_iff: "Range_containsPosition r p \<longleftrightarrow> rstart r \<le> p \<and> p \<le> rend r"
  by (auto simp: Range_containsPosition_def range_ends Position_order)

lemma Range_strictContainsPosition_iff:
  "Range_strictContainsPosition r p \<longleftrightarrow> rstart r < p \<and> p < rend r"
  by (auto simp: Range_strictContainsPosition_def range_ends Position_order)

lemma Range_containsRange_iff:
  assumes "range_wf a" and "range_wf b"
  shows "Range_containsRange a b \<longleftrightarrow> rstart a \<le> rstart b \<and> rend b \<le> rend a"
  using assms
  unfolding Range_containsRange_def range_wf_def range_ends Position_order Position.sel
  by (smt (verit))

lemma Range_strictContainsRange_iff:
  assumes "range_wf a" and "range_wf b"
  shows "Range_strictContainsRange a b \<longleftrightarrow> rstart a < rstart b \<and> rend b < rend a"
  using assms
  unfolding Range_strictContainsRange_def range_wf_def range_ends Position_order Position.sel
  by (smt (verit))

text \<open>
  The relations between ranges are the interval relations of the order on
  positions: containment of every position, strict containment, and the two overlap
  tests, where \<open>areIntersectingOrTouching\<close> holds iff the ranges share a position.
\<close>

theorem Range_relations_correct:
  assumes "range_wf a" and "range_wf b"
  shows "(Range_containsRange a b \<longleftrightarrow>
           (\<forall>p. Range_containsPosition b p \<longrightarrow> Range_containsPosition a p)) \<and>
         (Range_strictContainsRange a b \<longleftrightarrow> rstart a < rstart b \<and> rend b < rend a) \<and>
         (Range_areIntersectingOrTouching a b \<longleftrightarrow>
           (\<exists>p. Range_containsPosition a p \<and> Range_containsPosition b p)) \<and>
         (Range_areIntersecting a b \<longleftrightarrow> rstart b < rend a \<and> rstart a < rend b)"
proof (intro conjI)
  from assms have "Range_containsRange a b \<longleftrightarrow> rstart a \<le> rstart b \<and> rend b \<le> rend a"
    by (rule Range_containsRange_iff)
  then show "Range_containsRange a b \<longleftrightarrow>
      (\<forall>p. Range_containsPosition b p \<longrightarrow> Range_containsPosition a p)"
    using assms by (metis Range_containsPosition_iff order.refl order.trans range_wf_def)
  show "Range_strictContainsRange a b \<longleftrightarrow> rstart a < rstart b \<and> rend b < rend a"
    using assms by (rule Range_strictContainsRange_iff)
  have "Range_areIntersectingOrTouching a b \<longleftrightarrow> rstart b \<le> rend a \<and> rstart a \<le> rend b"
    by (auto simp: Range_areIntersectingOrTouching_def range_ends Position_order)
  also have "\<dots> \<longleftrightarrow> (\<exists>p. Range_containsPosition a p \<and> Range_containsPosition b p)"
    using assms by (metis Range_containsPosition_iff linear order.trans range_wf_def)
  finally show "Range_areIntersectingOrTouching a b \<longleftrightarrow>
      (\<exists>p. Range_containsPosition a p \<and> Range_containsPosition b p)" .
  show "Range_areIntersecting a b \<longleftrightarrow> rstart b < rend a \<and> rstart a < rend b"
    by (auto simp: Range_areIntersecting_def range_ends Position_order)
qed

theorem Range_relations_correct_witness:
  "Range_areIntersectingOrTouching (new_Range 1 1 2 5) (new_Range 2 5 3 1) \<and>
   \<not> Range_areIntersecting (new_Range 1 1 2 5) (new_Range 2 5 3 1) \<and>
   (\<exists>p. Range_containsPosition (new_Range 1 1 2 5) p \<and> Range_containsPosition (new_Range 2 5 3 1) p)"
proof -
  let ?a = "new_Range 1 1 2 5" and ?b = "new_Range 2 5 3 1"
  have wf: "range_wf ?a" "range_wf ?b" by simp_all
  have "Range_areIntersectingOrTouching ?a ?b"
    by (simp add: Range_areIntersectingOrTouching_def new_Range_def)
  moreover have "\<not> (rstart ?b < rend ?a \<and> rstart ?a < rend ?b)"
    by (simp add: range_ends new_Range_def Position_order)
  ultimately show ?thesis
    using Range_relations_correct [OF wf] by blast
qed

lemma Range_plusRange_ends:
  assumes "range_wf a" "range_wf b"
  shows "rstart (Range_plusRange a b) = min (rstart a) (rstart b)"
    and "rend (Range_plusRange a b) = max (rend a) (rend b)"
proof -
  let ?s = "min (rstart a) (rstart b)" and ?e = "max (rend a) (rend b)"
  have s: "(if startLineNumber b < startLineNumber a then (startLineNumber b, startColumn b)
      else if startLineNumber b = startLineNumber a
        then (startLineNumber b, min (startColumn b) (startColumn a))
      else (startLineNumber a, startColumn a)) = (lineNumber ?s, column ?s)"
    by (auto simp: range_ends min_def Position_order)
  have e: "(if endLineNumber b > endLineNumber a then (endLineNumber b, endColumn b)
      else if endLineNumber b = endLineNumber a
        then (endLineNumber b, max (endColumn b) (endColumn a))
      else (endLineNumber a, endColumn a)) = (lineNumber ?e, column ?e)"
    by (auto simp: range_ends max_def Position_order)
  have eq: "Range_plusRange a b = new_Range (lineNumber ?s) (column ?s) (lineNumber ?e) (column ?e)"
    unfolding Range_plusRange_def s e by simp
  have "?s \<le> ?e"
    using assms unfolding range_wf_def by (simp add: min_le_iff_disj le_max_iff_disj)
  then show "rstart (Range_plusRange a b) = ?s" and "rend (Range_plusRange a b) = ?e"
    unfolding eq new_Range_ends by (simp_all add: min_absorb1 max_absorb2)
qed

lemma if_None_chain:
  "(if P then None else if Q then None else Some x) = (if \<not> P \<and> \<not> Q then Some x else None)"
  by simp

lemma Range_intersectRanges_eq:
  "Range_intersectRanges a b =
    (let s = max (rstart a) (rstart b); e = min (rend a) (rend b)
     in if s \<le> e then Some (Range_fromPositions s (Some e)) else None)"
proof -
  let ?s = "max (rstart a) (rstart b)" and ?e = "min (rend a) (rend b)"
  have s: "(if startLineNumber a < startLineNumber b then (startLineNumber b, startColumn b)
      else if startLineNumber a = startLineNumber b
        then (startLineNumber a, max (startColumn a) (startColumn b))
      else (startLineNumber a, startColumn a)) = (lineNumber ?s, column ?s)"
    by (auto simp: range_ends max_def Position_order)
  have e: "(if endLineNumber a > endLineNumber b then (endLineNumber b, endColumn b)
      else if endLineNumber a = endLineNumber b
        then (endLineNumber a, min (endColumn a) (endColumn b))
      else (endLineNumber a, endColumn a)) = (lineNumber ?e, column ?e)"
    by (auto simp: range_ends min_def Position_order)
  have "?s \<le> ?e \<longleftrightarrow> \<not> lineNumber ?s > lineNumber ?e \<and>
      \<not> (lineNumber ?s = lineNumber ?e \<and> column ?s > column ?e)"
    unfolding Position_order by linarith
  then show ?thesis
    unfolding Range_intersectRanges_def s e Range_fromPositions_def Let_def prod.case option.case
    by (simp only: if_None_chain)
qed

text \<open>
  \<open>plusRange\<close> is the smallest range containing both arguments and
  \<open>intersectRanges\<close> their intersection, \<open>null\<close> exactly when they share no position.
\<close>

theorem Range_plus_intersect_correct:
  assumes "range_wf a" and "range_wf b"
  shows "Range_containsRange (Range_plusRange a b) a \<and> Range_containsRange (Range_plusRange a b) b \<and>
         (\<forall>c. range_wf c \<longrightarrow> Range_containsRange c a \<longrightarrow> Range_containsRange c b \<longrightarrow>
              Range_containsRange c (Range_plusRange a b)) \<and>
         (case Range_intersectRanges a b of
            None \<Rightarrow> \<not> Range_areIntersectingOrTouching a b
          | Some i \<Rightarrow> range_wf i \<and> (\<forall>p. Range_containsPosition i p \<longleftrightarrow>
                        Range_containsPosition a p \<and> Range_containsPosition b p))"
proof -
  note contains = Range_containsRange_iff
  have wf: "range_wf (Range_plusRange a b)"
    by (simp add: Range_plusRange_def split: prod.splits)
  note ends = Range_plusRange_ends [OF assms]
  have plus: "Range_containsRange (Range_plusRange a b) a" "Range_containsRange (Range_plusRange a b) b"
    using assms wf by (simp_all add: contains ends)
  have least: "Range_containsRange c (Range_plusRange a b)"
    if "range_wf c" "Range_containsRange c a" "Range_containsRange c b" for c
    using that assms wf by (simp add: contains ends)
  let ?s = "max (rstart a) (rstart b)" and ?e = "min (rend a) (rend b)"
  have inter: "case Range_intersectRanges a b of
            None \<Rightarrow> \<not> Range_areIntersectingOrTouching a b
          | Some i \<Rightarrow> range_wf i \<and> (\<forall>p. Range_containsPosition i p \<longleftrightarrow>
                        Range_containsPosition a p \<and> Range_containsPosition b p)"
  proof (cases "?s \<le> ?e")
    case True
    have fp: "Range_fromPositions ?s (Some ?e) =
        new_Range (lineNumber ?s) (column ?s) (lineNumber ?e) (column ?e)"
      by (simp add: Range_fromPositions_def Let_def)
    have "rstart (Range_fromPositions ?s (Some ?e)) = ?s" "rend (Range_fromPositions ?s (Some ?e)) = ?e"
      unfolding fp new_Range_ends using True by (simp_all add: min_absorb1 max_absorb2)
    then show ?thesis
      using True
      by (auto simp: Range_intersectRanges_eq Let_def range_wf_def Range_containsPosition_iff)
  next
    case False
    then have "\<not> (rstart b \<le> rend a \<and> rstart a \<le> rend b)"
      using assms by (auto simp: range_wf_def)
    then have "\<not> Range_areIntersectingOrTouching a b"
      by (auto simp: Range_areIntersectingOrTouching_def range_ends Position_order)
    moreover have "Range_intersectRanges a b = None"
      using False by (simp only: Range_intersectRanges_eq Let_def if_False)
    ultimately show ?thesis by simp
  qed
  show ?thesis using plus least inter by blast
qed

theorem Range_plus_intersect_correct_witness:
  "Range_containsRange (Range_plusRange (new_Range 1 4 2 1) (new_Range 5 1 6 1)) (new_Range 5 1 6 1) \<and>
   Range_intersectRanges (new_Range 1 4 2 1) (new_Range 5 1 6 1) = None"
proof -
  have wf: "range_wf (new_Range 1 4 2 1)" "range_wf (new_Range 5 1 6 1)" by simp_all
  have "Range_intersectRanges (new_Range 1 4 2 1) (new_Range 5 1 6 1) = None"
    by (simp add: Range_intersectRanges_def new_Range_def)
  then show ?thesis using Range_plus_intersect_correct [OF wf] by blast
qed

end
