(* ===== verification/LineRanges.thy ===== *)
theory LineRanges
  imports ArraysFind OffsetRanges Positions
begin

text \<open>
  \<open>src/vs/editor/common/core/ranges/lineRange.ts\<close>: the class \<open>LineRange\<close> and the set
  of lines \<open>LineRangeSet\<close>, a sorted list of separated ranges searched with the binary
  searches of \<open>arraysFind.ts\<close>.  The searches are used through the interface
  \<open>split_search\<close>, the list facts come from \<open>interval_list\<close>.
\<close>

section \<open>The class LineRange\<close>

record LineRange =
  lr_startLineNumber :: int
  lr_endLineNumberExclusive :: int

definition new_LineRange :: "int \<Rightarrow> int \<Rightarrow> LineRange result" where
  "new_LineRange s e =
     (if s > e then Inl (BugIndicatingError ''startLineNumber cannot be after endLineNumberExclusive'')
      else Inr \<lparr>lr_startLineNumber = s, lr_endLineNumberExclusive = e\<rparr>)"

definition LineRange_ofLength :: "int \<Rightarrow> int \<Rightarrow> LineRange result" where
  "LineRange_ofLength s len = new_LineRange s (s + len)"

definition LineRange_fromRange :: "Range \<Rightarrow> LineRange result" where
  "LineRange_fromRange r = new_LineRange (startLineNumber r) (endLineNumber r)"

definition LineRange_fromRangeInclusive :: "Range \<Rightarrow> LineRange result" where
  "LineRange_fromRangeInclusive r = new_LineRange (startLineNumber r) (endLineNumber r + 1)"

definition LineRange_compareByStart :: "LineRange \<Rightarrow> LineRange \<Rightarrow> int" where
  "LineRange_compareByStart a b = lr_startLineNumber a - lr_startLineNumber b"

definition LineRange_subtract :: "LineRange \<Rightarrow> LineRange option \<Rightarrow> LineRange list result" where
  "LineRange_subtract a b =
     (case b of None \<Rightarrow> Inr [a]
      | Some b \<Rightarrow>
          if lr_startLineNumber a < lr_startLineNumber b \<and>
             lr_endLineNumberExclusive b < lr_endLineNumberExclusive a then
            bindE (new_LineRange (lr_startLineNumber a) (lr_startLineNumber b)) (\<lambda>x.
            bindE (new_LineRange (lr_endLineNumberExclusive b) (lr_endLineNumberExclusive a)) (\<lambda>y.
              Inr [x, y]))
          else if lr_startLineNumber b \<le> lr_startLineNumber a \<and>
             lr_endLineNumberExclusive a \<le> lr_endLineNumberExclusive b then Inr []
          else if lr_endLineNumberExclusive b < lr_endLineNumberExclusive a then
            bindE (new_LineRange (max (lr_endLineNumberExclusive b) (lr_startLineNumber a))
                     (lr_endLineNumberExclusive a)) (\<lambda>x. Inr [x])
          else
            bindE (new_LineRange (lr_startLineNumber a)
                     (min (lr_startLineNumber b) (lr_endLineNumberExclusive a))) (\<lambda>x. Inr [x]))"

definition LineRange_join_static :: "LineRange list \<Rightarrow> LineRange result" where
  "LineRange_join_static lineRanges =
     (case lineRanges of
        [] \<Rightarrow> Inl (BugIndicatingError ''lineRanges cannot be empty'')
      | r # rs \<Rightarrow>
          (let (s, e) = foldl (\<lambda>(s, e) x. (min s (lr_startLineNumber x), max e (lr_endLineNumberExclusive x)))
                          (lr_startLineNumber r, lr_endLineNumberExclusive r) rs
           in new_LineRange s e))"

definition LineRange_deserialize :: "int \<times> int \<Rightarrow> LineRange result" where
  "LineRange_deserialize p = new_LineRange (fst p) (snd p)"

definition LineRange_contains :: "LineRange \<Rightarrow> int \<Rightarrow> bool" where
  "LineRange_contains r n \<longleftrightarrow> lr_startLineNumber r \<le> n \<and> n < lr_endLineNumberExclusive r"

definition LineRange_containsRange :: "LineRange \<Rightarrow> LineRange \<Rightarrow> bool" where
  "LineRange_containsRange r r' \<longleftrightarrow>
     lr_startLineNumber r \<le> lr_startLineNumber r' \<and>
     lr_endLineNumberExclusive r' \<le> lr_endLineNumberExclusive r"

definition LineRange_isEmpty :: "LineRange \<Rightarrow> bool" where
  "LineRange_isEmpty r \<longleftrightarrow> lr_startLineNumber r = lr_endLineNumberExclusive r"

definition LineRange_delta :: "LineRange \<Rightarrow> int \<Rightarrow> LineRange result" where
  "LineRange_delta r offset =
     new_LineRange (lr_startLineNumber r + offset) (lr_endLineNumberExclusive r + offset)"

definition LineRange_deltaLength :: "LineRange \<Rightarrow> int \<Rightarrow> LineRange result" where
  "LineRange_deltaLength r offset =
     new_LineRange (lr_startLineNumber r) (lr_endLineNumberExclusive r + offset)"

definition LineRange_length :: "LineRange \<Rightarrow> int" where
  "LineRange_length r = lr_endLineNumberExclusive r - lr_startLineNumber r"

definition LineRange_join :: "LineRange \<Rightarrow> LineRange \<Rightarrow> LineRange result" where
  "LineRange_join r r' =
     new_LineRange (min (lr_startLineNumber r) (lr_startLineNumber r'))
       (max (lr_endLineNumberExclusive r) (lr_endLineNumberExclusive r'))"

definition LineRange_intersect :: "LineRange \<Rightarrow> LineRange \<Rightarrow> LineRange option result" where
  "LineRange_intersect r r' =
     (let s = max (lr_startLineNumber r) (lr_startLineNumber r');
          e = min (lr_endLineNumberExclusive r) (lr_endLineNumberExclusive r')
      in if s \<le> e then bindE (new_LineRange s e) (\<lambda>x. Inr (Some x)) else Inr None)"

definition LineRange_intersectsStrict :: "LineRange \<Rightarrow> LineRange \<Rightarrow> bool" where
  "LineRange_intersectsStrict r r' \<longleftrightarrow>
     lr_startLineNumber r < lr_endLineNumberExclusive r' \<and>
     lr_startLineNumber r' < lr_endLineNumberExclusive r"

definition LineRange_intersectsOrTouches :: "LineRange \<Rightarrow> LineRange \<Rightarrow> bool" where
  "LineRange_intersectsOrTouches r r' \<longleftrightarrow>
     lr_startLineNumber r \<le> lr_endLineNumberExclusive r' \<and>
     lr_startLineNumber r' \<le> lr_endLineNumberExclusive r"

definition LineRange_equals :: "LineRange \<Rightarrow> LineRange \<Rightarrow> bool" where
  "LineRange_equals r r' \<longleftrightarrow>
     lr_startLineNumber r = lr_startLineNumber r' \<and>
     lr_endLineNumberExclusive r = lr_endLineNumberExclusive r'"

definition LineRange_toInclusiveRange :: "LineRange \<Rightarrow> Range option" where
  "LineRange_toInclusiveRange r =
     (if LineRange_isEmpty r then None
      else Some (new_Range (lr_startLineNumber r) 1 (lr_endLineNumberExclusive r - 1) MAX_SAFE_INTEGER))"

definition LineRange_toExclusiveRange :: "LineRange \<Rightarrow> Range" where
  "LineRange_toExclusiveRange r =
     new_Range (lr_startLineNumber r) 1 (lr_endLineNumberExclusive r) 1"

definition LineRange_mapToLineArray :: "LineRange \<Rightarrow> (int \<Rightarrow> 'b) \<Rightarrow> 'b list" where
  "LineRange_mapToLineArray r f = map f [lr_startLineNumber r..lr_endLineNumberExclusive r - 1]"

definition LineRange_forEach :: "LineRange \<Rightarrow> (int \<Rightarrow> 's \<Rightarrow> 's) \<Rightarrow> 's \<Rightarrow> 's" where
  "LineRange_forEach r f s = fold f [lr_startLineNumber r..lr_endLineNumberExclusive r - 1] s"

definition LineRange_serialize :: "LineRange \<Rightarrow> int \<times> int" where
  "LineRange_serialize r = (lr_startLineNumber r, lr_endLineNumberExclusive r)"

definition LineRange_toOffsetRange :: "LineRange \<Rightarrow> OffsetRange result" where
  "LineRange_toOffsetRange r =
     new_OffsetRange (lr_startLineNumber r - 1) (lr_endLineNumberExclusive r - 1)"

definition LineRange_distanceToRange :: "LineRange \<Rightarrow> LineRange \<Rightarrow> int" where
  "LineRange_distanceToRange r r' =
     (if lr_endLineNumberExclusive r \<le> lr_startLineNumber r'
      then lr_startLineNumber r' - lr_endLineNumberExclusive r
      else if lr_endLineNumberExclusive r' \<le> lr_startLineNumber r
      then lr_startLineNumber r - lr_endLineNumberExclusive r'
      else 0)"

definition LineRange_distanceToLine :: "LineRange \<Rightarrow> int \<Rightarrow> int" where
  "LineRange_distanceToLine r n =
     (if LineRange_contains r n then 0
      else if n < lr_startLineNumber r then lr_startLineNumber r - n
      else n - lr_endLineNumberExclusive r)"

definition LineRange_addMargin :: "LineRange \<Rightarrow> int \<Rightarrow> int \<Rightarrow> LineRange result" where
  "LineRange_addMargin r marginTop marginBottom =
     new_LineRange (lr_startLineNumber r - marginTop) (lr_endLineNumberExclusive r + marginBottom)"

section \<open>The class LineRangeSet\<close>

record LineRangeSet =
  lrs_normalizedRanges :: "LineRange list"

text \<open>
  The two searches of \<open>addRange\<close> and \<open>subtractFrom\<close>: the first range that touches the
  argument or is after it, and the one past the last that touches it or is before it.
\<close>

definition joinRangeStartIdx :: "LineRange list \<Rightarrow> LineRange \<Rightarrow> int result" where
  "joinRangeStartIdx rs rng =
     findFirstIdxMonotonousOrArrLen rs
       (\<lambda>r. lr_endLineNumberExclusive r \<ge> lr_startLineNumber rng) 0 (int (length rs))"

definition joinRangeEndIdxExclusive :: "LineRange list \<Rightarrow> LineRange \<Rightarrow> int result" where
  "joinRangeEndIdxExclusive rs rng =
     bindE (findLastIdxMonotonous rs
       (\<lambda>r. lr_startLineNumber r \<le> lr_endLineNumberExclusive rng) 0 (int (length rs)))
       (\<lambda>i. Inr (i + 1))"

definition LineRangeSet_addRange :: "LineRangeSet \<Rightarrow> LineRange \<Rightarrow> LineRangeSet result" where
  "LineRangeSet_addRange st rng =
     (if LineRange_length rng = 0 then Inr st
      else
        let rs = lrs_normalizedRanges st in
        bindE (joinRangeStartIdx rs rng) (\<lambda>i.
        bindE (joinRangeEndIdxExclusive rs rng) (\<lambda>j.
          if i = j then Inr (st\<lparr>lrs_normalizedRanges := js_splice rs i 0 [rng]\<rparr>)
          else if i = j - 1 then
            bindE (js_get rs i) (\<lambda>joinRange.
            bindE (LineRange_join joinRange rng) (\<lambda>joined.
              Inr (st\<lparr>lrs_normalizedRanges := rs[nat i := joined]\<rparr>)))
          else
            bindE (js_get rs i) (\<lambda>first.
            bindE (js_get rs (j - 1)) (\<lambda>last.
            bindE (LineRange_join first last) (\<lambda>both.
            bindE (LineRange_join both rng) (\<lambda>joinRange.
              Inr (st\<lparr>lrs_normalizedRanges := js_splice rs i (j - i) [joinRange]\<rparr>))))))))"

definition LineRangeSet_contains :: "LineRangeSet \<Rightarrow> int \<Rightarrow> bool result" where
  "LineRangeSet_contains st n =
     bindE (findLastMonotonous (lrs_normalizedRanges st) (\<lambda>r. lr_startLineNumber r \<le> n)) (\<lambda>found.
       Inr (case found of None \<Rightarrow> False | Some r \<Rightarrow> lr_endLineNumberExclusive r > n))"

definition LineRangeSet_intersects :: "LineRangeSet \<Rightarrow> LineRange \<Rightarrow> bool result" where
  "LineRangeSet_intersects st rng =
     bindE (findLastMonotonous (lrs_normalizedRanges st)
              (\<lambda>r. lr_startLineNumber r < lr_endLineNumberExclusive rng)) (\<lambda>found.
       Inr (case found of None \<Rightarrow> False
            | Some r \<Rightarrow> lr_endLineNumberExclusive r > lr_startLineNumber rng))"

text \<open>
  The merge of \<open>getUnion\<close>.  The indices \<open>i1\<close>, \<open>i2\<close> are the suffixes still to read;
  \<open>getUnion_next\<close> takes the range that starts first.
\<close>

fun getUnion_next :: "LineRange list \<Rightarrow> LineRange list \<Rightarrow>
    (LineRange \<times> LineRange list \<times> LineRange list) option" where
  "getUnion_next (x # xs) (y # ys) =
     (if lr_startLineNumber x < lr_startLineNumber y then Some (x, xs, y # ys)
      else Some (y, x # xs, ys))"
| "getUnion_next (x # xs) [] = Some (x, xs, [])"
| "getUnion_next [] (y # ys) = Some (y, [], ys)"
| "getUnion_next [] [] = None"

lemma getUnion_next_length:
  "getUnion_next xs ys = Some (n, xs', ys') \<Longrightarrow> length xs' + length ys' < length xs + length ys"
  by (induction xs ys rule: getUnion_next.induct) (auto split: if_splits)

function getUnion_loop :: "LineRange list \<Rightarrow> LineRange list \<Rightarrow> LineRange list \<Rightarrow> LineRange option \<Rightarrow>
    LineRange list result" where
  "getUnion_loop rs1 rs2 res current =
     (case getUnion_next rs1 rs2 of
        None \<Rightarrow> Inr (case current of None \<Rightarrow> res | Some c \<Rightarrow> res @ [c])
      | Some (next, rs1', rs2') \<Rightarrow>
          (case current of
             None \<Rightarrow> getUnion_loop rs1' rs2' res (Some next)
           | Some c \<Rightarrow>
               if lr_endLineNumberExclusive c \<ge> lr_startLineNumber next then
                 bindE (new_LineRange (lr_startLineNumber c)
                          (max (lr_endLineNumberExclusive c) (lr_endLineNumberExclusive next)))
                   (\<lambda>c'. getUnion_loop rs1' rs2' res (Some c'))
               else getUnion_loop rs1' rs2' (res @ [c]) (Some next)))"
  by pat_completeness auto
termination
  by (relation "measure (\<lambda>(rs1, rs2, res, current). length rs1 + length rs2)")
    (auto dest: getUnion_next_length)

definition LineRangeSet_getUnion :: "LineRangeSet \<Rightarrow> LineRangeSet \<Rightarrow> LineRangeSet result" where
  "LineRangeSet_getUnion st other =
     (if lrs_normalizedRanges st = [] then Inr other
      else if lrs_normalizedRanges other = [] then Inr st
      else bindE (getUnion_loop (lrs_normalizedRanges st) (lrs_normalizedRanges other) [] None)
             (\<lambda>rs. Inr \<lparr>lrs_normalizedRanges = rs\<rparr>))"

definition LineRange_joinMany :: "LineRange list list \<Rightarrow> LineRange list result" where
  "LineRange_joinMany lineRanges =
     (case lineRanges of
        [] \<Rightarrow> Inr []
      | rs # rss \<Rightarrow>
          bindE (foldE (\<lambda>res rs. LineRangeSet_getUnion res \<lparr>lrs_normalizedRanges = rs\<rparr>)
                   \<lparr>lrs_normalizedRanges = rs\<rparr> rss)
            (\<lambda>res. Inr (lrs_normalizedRanges res)))"

fun subtractFrom_loop :: "LineRange list \<Rightarrow> LineRange list \<Rightarrow> int \<Rightarrow> (LineRange list \<times> int) result" where
  "subtractFrom_loop [] res s = Inr (res, s)"
| "subtractFrom_loop (r # rs) res s =
     bindE (if lr_startLineNumber r > s
            then bindE (new_LineRange s (lr_startLineNumber r)) (\<lambda>x. Inr (res @ [x]))
            else Inr res)
       (\<lambda>res'. subtractFrom_loop rs res' (lr_endLineNumberExclusive r))"

definition LineRangeSet_subtractFrom :: "LineRangeSet \<Rightarrow> LineRange \<Rightarrow> LineRangeSet result" where
  "LineRangeSet_subtractFrom st rng =
     (let rs = lrs_normalizedRanges st in
      bindE (joinRangeStartIdx rs rng) (\<lambda>i.
      bindE (joinRangeEndIdxExclusive rs rng) (\<lambda>j.
        if i = j then Inr \<lparr>lrs_normalizedRanges = [rng]\<rparr>
        else
          bindE (subtractFrom_loop (take (nat (j - i)) (drop (nat i) rs)) [] (lr_startLineNumber rng))
            (\<lambda>(res, s).
              if s < lr_endLineNumberExclusive rng then
                bindE (new_LineRange s (lr_endLineNumberExclusive rng)) (\<lambda>x.
                  Inr \<lparr>lrs_normalizedRanges = res @ [x]\<rparr>)
              else Inr \<lparr>lrs_normalizedRanges = res\<rparr>))))"

function getIntersection_loop :: "LineRange list \<Rightarrow> LineRange list \<Rightarrow> LineRange list \<Rightarrow>
    LineRange list result" where
  "getIntersection_loop (r1 # rs1) (r2 # rs2) res =
     bindE (LineRange_intersect r1 r2) (\<lambda>i.
       let res' = (case i of None \<Rightarrow> res
                   | Some x \<Rightarrow> if \<not> LineRange_isEmpty x then res @ [x] else res)
       in if lr_endLineNumberExclusive r1 < lr_endLineNumberExclusive r2
          then getIntersection_loop rs1 (r2 # rs2) res'
          else getIntersection_loop (r1 # rs1) rs2 res')"
| "getIntersection_loop [] rs2 res = Inr res"
| "getIntersection_loop (r1 # rs1) [] res = Inr res"
  by pat_completeness auto
termination
  by (relation "measure (\<lambda>(rs1, rs2, res). length rs1 + length rs2)") auto

definition LineRangeSet_getIntersection :: "LineRangeSet \<Rightarrow> LineRangeSet \<Rightarrow> LineRangeSet result" where
  "LineRangeSet_getIntersection st other =
     bindE (getIntersection_loop (lrs_normalizedRanges st) (lrs_normalizedRanges other) [])
       (\<lambda>rs. Inr \<lparr>lrs_normalizedRanges = rs\<rparr>)"

definition LineRangeSet_getWithDelta :: "LineRangeSet \<Rightarrow> int \<Rightarrow> LineRangeSet result" where
  "LineRangeSet_getWithDelta st v =
     bindE (mapE (\<lambda>r. LineRange_delta r v) (lrs_normalizedRanges st))
       (\<lambda>rs. Inr \<lparr>lrs_normalizedRanges = rs\<rparr>)"

declare getUnion_loop.simps [simp del]


section \<open>Facts about single ranges\<close>

definition lr_wf :: "LineRange \<Rightarrow> bool" where
  "lr_wf r \<longleftrightarrow> lr_startLineNumber r \<le> lr_endLineNumberExclusive r"

lemma new_LineRange_Inr [simp]:
  "s \<le> e \<Longrightarrow> new_LineRange s e = Inr \<lparr>lr_startLineNumber = s, lr_endLineNumberExclusive = e\<rparr>"
  by (simp add: new_LineRange_def)

lemma new_LineRange_eq_Inr:
  "new_LineRange s e = Inr r \<longleftrightarrow>
     s \<le> e \<and> r = \<lparr>lr_startLineNumber = s, lr_endLineNumberExclusive = e\<rparr>"
  by (auto simp: new_LineRange_def)

definition lr_set :: "LineRange \<Rightarrow> int set" where
  "lr_set r = {n. LineRange_contains r n}"

lemma lr_set_atLeastLessThan: "lr_set r = {lr_startLineNumber r ..< lr_endLineNumberExclusive r}"
  by (auto simp: lr_set_def LineRange_contains_def)

interpretation lr_list: interval_list lr_startLineNumber lr_endLineNumberExclusive .

lemma lr_list_ivl: "lr_list.ivl r = lr_set r"
  by (simp add: lr_list.ivl_def lr_set_atLeastLessThan)

text \<open>
  \<open>LineRange.subtract\<close> never throws on well-formed ranges, and the pieces it
  returns hold exactly the lines of the first range that are not in the second.
\<close>

theorem LineRange_subtract_correct:
  assumes "lr_wf a" and "lr_wf b"
  shows "\<exists>rs. LineRange_subtract a (Some b) = Inr rs \<and> length rs \<le> 2 \<and> (\<forall>r \<in> set rs. lr_wf r) \<and>
              (\<Union>r \<in> set rs. lr_set r) = lr_set a - lr_set b"
  using assms
  by (auto simp: LineRange_subtract_def lr_wf_def lr_set_atLeastLessThan min_def max_def)

theorem LineRange_subtract_correct_witness:
  "\<exists>rs. LineRange_subtract \<lparr>lr_startLineNumber = 1, lr_endLineNumberExclusive = 9\<rparr>
          (Some \<lparr>lr_startLineNumber = 3, lr_endLineNumberExclusive = 5\<rparr>) = Inr rs \<and>
        (\<Union>r \<in> set rs. lr_set r) = {1 ..< 9} - {3 ..< 5}"
proof -
  let ?a = "\<lparr>lr_startLineNumber = 1, lr_endLineNumberExclusive = 9\<rparr>"
  let ?b = "\<lparr>lr_startLineNumber = 3, lr_endLineNumberExclusive = 5\<rparr>"
  have "lr_wf ?a" "lr_wf ?b" by (simp_all add: lr_wf_def)
  from LineRange_subtract_correct [OF this] show ?thesis
    by (auto simp: lr_set_atLeastLessThan)
qed

section \<open>The set invariant\<close>

text \<open>Sorted and separated, as the comment in the source says, and no empty range.\<close>

definition lrs_inv :: "LineRangeSet \<Rightarrow> bool" where
  "lrs_inv st \<longleftrightarrow> lr_list.normalized (lrs_normalizedRanges st) \<and>
     (\<forall>r \<in> set (lrs_normalizedRanges st). lr_startLineNumber r < lr_endLineNumberExclusive r)"

definition lrs_lines :: "LineRangeSet \<Rightarrow> int set" where
  "lrs_lines st = lr_list.elems (lrs_normalizedRanges st)"

lemma lrs_wf: "lrs_inv st \<Longrightarrow> r \<in> set (lrs_normalizedRanges st) \<Longrightarrow> lr_wf r"
  by (auto simp: lrs_inv_def lr_wf_def)

text \<open>The two searches cut the list into before, touching, after.\<close>

lemma join_window:
  assumes norm: "lr_list.normalized rs" and wf: "lr_wf rng"
  shows "\<exists>ys ms zs. rs = ys @ ms @ zs \<and>
    joinRangeStartIdx rs rng = Inr (int (length ys)) \<and>
    joinRangeEndIdxExclusive rs rng = Inr (int (length ys + length ms)) \<and>
    (\<forall>y \<in> set ys. lr_endLineNumberExclusive y < lr_startLineNumber rng) \<and>
    (\<forall>m \<in> set ms. lr_startLineNumber rng \<le> lr_endLineNumberExclusive m \<and>
                    lr_startLineNumber m \<le> lr_endLineNumberExclusive rng) \<and>
    (\<forall>z \<in> set zs. lr_endLineNumberExclusive rng < lr_startLineNumber z)"
proof -
  let ?P = "\<lambda>r. lr_endLineNumberExclusive r \<ge> lr_startLineNumber rng"
  let ?Q = "\<lambda>r. lr_startLineNumber r \<le> lr_endLineNumberExclusive rng"
  have "switches_on ?P rs" "switches_on (\<lambda>r. \<not> ?Q r) rs"
    using lr_list.normalized_switches [OF norm] by simp_all
  moreover have "?Q x" if "x \<in> set rs" "\<not> ?P x" for x
    using that norm wf by (auto simp: lr_list.normalized_def lr_wf_def)
  ultimately obtain ys ms zs where w: "rs = ys @ ms @ zs"
    "findFirstIdxMonotonousOrArrLen rs ?P 0 (int (length rs)) = Inr (int (length ys))"
    "findLastIdxMonotonous rs ?Q 0 (int (length rs)) = Inr (int (length ys + length ms) - 1)"
    "\<forall>y \<in> set ys. \<not> ?P y" "\<forall>m \<in> set ms. ?P m \<and> ?Q m" "\<forall>z \<in> set zs. \<not> ?Q z"
    using binary_search.window [of ?P rs ?Q] by blast
  have "joinRangeStartIdx rs rng = Inr (int (length ys))"
    using w(2) by (simp add: joinRangeStartIdx_def)
  moreover have "joinRangeEndIdxExclusive rs rng = Inr (int (length ys + length ms))"
    using w(3) by (simp add: joinRangeEndIdxExclusive_def)
  moreover have "\<forall>y \<in> set ys. lr_endLineNumberExclusive y < lr_startLineNumber rng"
    "\<forall>z \<in> set zs. lr_endLineNumberExclusive rng < lr_startLineNumber z"
    using w(4,6) by (simp_all only: not_le)
  ultimately show ?thesis using w(1,5) by blast
qed

lemma LineRangeSet_update [simp]:
  "st\<lparr>lrs_normalizedRanges := rs\<rparr> = \<lparr>lrs_normalizedRanges = rs\<rparr>"
  for st :: LineRangeSet
  by (cases st) simp

lemma addRange_result:
  assumes inv: "lrs_inv st" and ne: "lr_startLineNumber rng < lr_endLineNumberExclusive rng"
  shows "\<exists>ys ms zs r. lrs_normalizedRanges st = ys @ ms @ zs \<and>
    LineRangeSet_addRange st rng = Inr \<lparr>lrs_normalizedRanges = ys @ r # zs\<rparr> \<and>
    (\<forall>y \<in> set ys. lr_endLineNumberExclusive y < lr_startLineNumber rng) \<and>
    (\<forall>m \<in> set ms. lr_startLineNumber rng \<le> lr_endLineNumberExclusive m \<and>
                    lr_startLineNumber m \<le> lr_endLineNumberExclusive rng) \<and>
    (\<forall>z \<in> set zs. lr_endLineNumberExclusive rng < lr_startLineNumber z) \<and>
    (if ms = [] then r = rng
     else lr_startLineNumber r = min (lr_startLineNumber rng) (lr_startLineNumber (hd ms)) \<and>
          lr_endLineNumberExclusive r =
            max (lr_endLineNumberExclusive rng) (lr_endLineNumberExclusive (last ms)))"
proof -
  have norm: "lr_list.normalized (lrs_normalizedRanges st)" using inv by (simp add: lrs_inv_def)
  have wf: "lr_wf rng" using ne by (simp add: lr_wf_def)
  obtain ys ms zs where rs: "lrs_normalizedRanges st = ys @ ms @ zs"
    and i: "joinRangeStartIdx (lrs_normalizedRanges st) rng = Inr (int (length ys))"
    and j: "joinRangeEndIdxExclusive (lrs_normalizedRanges st) rng = Inr (int (length ys + length ms))"
    and ys: "\<forall>y \<in> set ys. lr_endLineNumberExclusive y < lr_startLineNumber rng"
    and ms: "\<forall>m \<in> set ms. lr_startLineNumber rng \<le> lr_endLineNumberExclusive m \<and>
                    lr_startLineNumber m \<le> lr_endLineNumberExclusive rng"
    and zs: "\<forall>z \<in> set zs. lr_endLineNumberExclusive rng < lr_startLineNumber z"
    using join_window [OF norm wf] by blast
  have wfm: "lr_wf m" if "m \<in> set ms" for m using lrs_wf [OF inv] rs that by simp
  have len: "LineRange_length rng \<noteq> 0" using ne by (simp add: LineRange_length_def)
  consider "ms = []" | m where "ms = [m]" | m m' ms' where "ms = m # m' # ms'"
    by (metis neq_Nil_conv)
  then have "\<exists>r. LineRangeSet_addRange st rng = Inr \<lparr>lrs_normalizedRanges = ys @ r # zs\<rparr> \<and>
    (if ms = [] then r = rng
     else lr_startLineNumber r = min (lr_startLineNumber rng) (lr_startLineNumber (hd ms)) \<and>
          lr_endLineNumberExclusive r =
            max (lr_endLineNumberExclusive rng) (lr_endLineNumberExclusive (last ms)))"
  proof cases
    case 1
    with i j rs len show ?thesis
      by (simp add: LineRangeSet_addRange_def js_splice_insert)
  next
    case 2
    with i j rs len wf wfm show ?thesis
      by (auto simp: LineRangeSet_addRange_def LineRange_join_def lr_wf_def nth_append
          list_update_append min.commute max.commute)
  next
    case 3
    let ?l = "last (m' # ms')"
    have get: "js_get (ys @ ms @ zs) (int (length ys)) = Inr m"
      "js_get (ys @ ms @ zs) (int (length ys + length ms) - 1) = Inr ?l"
      using 3 js_get_block [of ms ys zs] by (simp_all del: of_nat_add)
    have "?l \<in> set (m' # ms')" by (rule last_in_set) simp
    with wfm 3 have "lr_wf m" "lr_wf ?l" by auto
    moreover have "lr_startLineNumber m \<le> lr_startLineNumber ?l"
      "lr_endLineNumberExclusive m \<le> lr_endLineNumberExclusive ?l"
    proof -
      have "lr_endLineNumberExclusive m < lr_startLineNumber ?l"
        using norm rs 3 \<open>?l \<in> set (m' # ms')\<close>
        by (simp add: lr_list.normalized_append lr_list.normalized_Cons del: last.simps)
          (metis Un_iff)
      with \<open>lr_wf m\<close> \<open>lr_wf ?l\<close>
      show "lr_startLineNumber m \<le> lr_startLineNumber ?l"
        "lr_endLineNumberExclusive m \<le> lr_endLineNumberExclusive ?l"
        by (auto simp: lr_wf_def simp del: last.simps)
    qed
    moreover have "js_splice (ys @ ms @ zs) (int (length ys)) (int (length ms)) [r] = ys @ r # zs" for r
      using js_splice_split [of ys ms zs "[r]"] by simp
    moreover have "int (length ys) \<noteq> int (length ys + length ms)"
      "int (length ys) \<noteq> int (length ys + length ms) - 1"
      "int (length ys + length ms) - int (length ys) = int (length ms)"
      "last ms = ?l" "hd ms = m" "ms \<noteq> []"
      using 3 by simp_all
    ultimately show ?thesis
      using i j rs len wf get
      by (auto simp: LineRangeSet_addRange_def LineRange_join_def lr_wf_def min.commute
          max.commute min_absorb1 max_absorb2 simp del: last.simps)
  qed
  with rs ys ms zs show ?thesis by blast
qed

text \<open>
  \<^bold>\<open>C32.\<close> \<open>LineRangeSet.addRange\<close> never throws on a well-formed range, keeps the
  ranges sorted, separated and non-empty, and adds exactly the lines of the range.
\<close>

theorem LineRangeSet_addRange_correct:
  assumes inv: "lrs_inv st" and wf: "lr_wf rng"
  shows "\<exists>st'. LineRangeSet_addRange st rng = Inr st' \<and> lrs_inv st' \<and>
               lrs_lines st' = lrs_lines st \<union> lr_set rng"
proof (cases "lr_startLineNumber rng < lr_endLineNumberExclusive rng")
  case False
  with wf have "LineRange_length rng = 0" "lr_set rng = {}"
    by (simp_all add: lr_wf_def LineRange_length_def lr_set_atLeastLessThan)
  with inv show ?thesis by (simp add: LineRangeSet_addRange_def)
next
  case True
  obtain ys ms zs r where rs: "lrs_normalizedRanges st = ys @ ms @ zs"
    and add: "LineRangeSet_addRange st rng = Inr \<lparr>lrs_normalizedRanges = ys @ r # zs\<rparr>"
    and ys: "\<forall>y \<in> set ys. lr_endLineNumberExclusive y < lr_startLineNumber rng"
    and ms: "\<forall>m \<in> set ms. lr_startLineNumber rng \<le> lr_endLineNumberExclusive m \<and>
                    lr_startLineNumber m \<le> lr_endLineNumberExclusive rng"
    and zs: "\<forall>z \<in> set zs. lr_endLineNumberExclusive rng < lr_startLineNumber z"
    and r: "if ms = [] then r = rng
     else lr_startLineNumber r = min (lr_startLineNumber rng) (lr_startLineNumber (hd ms)) \<and>
          lr_endLineNumberExclusive r =
            max (lr_endLineNumberExclusive rng) (lr_endLineNumberExclusive (last ms))"
    using addRange_result [OF inv True] by blast
  have norm: "lr_list.normalized (ys @ ms @ zs)" using inv rs by (simp add: lrs_inv_def)
  have "lr_list.normalized (ys @ r # zs) \<and>
        lr_list.elems (ys @ r # zs) = lr_list.elems (ys @ ms @ zs) \<union> lr_set rng"
  proof (cases "ms = []")
    case True
    with lr_list.insert_block [of ys zs rng] norm ys zs r wf show ?thesis
      by (simp add: lr_list_ivl lr_wf_def)
  next
    case False
    with lr_list.merge_block [OF norm False ys ms zs, of r] r wf show ?thesis
      by (simp add: lr_wf_def lr_set_atLeastLessThan)
  qed
  moreover have "lr_startLineNumber r < lr_endLineNumberExclusive r"
    using r True by (cases "ms = []") auto
  ultimately show ?thesis
    using add inv rs by (auto simp: lrs_inv_def lrs_lines_def)
qed

theorem LineRangeSet_addRange_correct_witness:
  "\<exists>st'. LineRangeSet_addRange
      \<lparr>lrs_normalizedRanges = [\<lparr>lr_startLineNumber = 1, lr_endLineNumberExclusive = 3\<rparr>,
         \<lparr>lr_startLineNumber = 5, lr_endLineNumberExclusive = 6\<rparr>]\<rparr>
      \<lparr>lr_startLineNumber = 3, lr_endLineNumberExclusive = 5\<rparr> = Inr st' \<and> lrs_inv st' \<and>
    lrs_lines st' = {1 ..< 3} \<union> {5 ..< 6} \<union> {3 ..< 5}"
proof -
  let ?st = "\<lparr>lrs_normalizedRanges = [\<lparr>lr_startLineNumber = 1, lr_endLineNumberExclusive = 3\<rparr>,
         \<lparr>lr_startLineNumber = 5, lr_endLineNumberExclusive = 6\<rparr>]\<rparr>"
  let ?r = "\<lparr>lr_startLineNumber = 3, lr_endLineNumberExclusive = 5\<rparr>"
  have "lrs_inv ?st" "lr_wf ?r" by (simp_all add: lrs_inv_def lr_wf_def lr_list.normalized_Cons)
  from LineRangeSet_addRange_correct [OF this] show ?thesis
    by (simp add: lrs_lines_def lr_list_ivl lr_set_atLeastLessThan)
qed

section \<open>Queries\<close>

text \<open>
  On a set that satisfies its invariant, \<open>contains\<close> decides membership of a line
  and \<open>intersects\<close> decides whether a non-empty range shares a line with the set; neither
  throws.
\<close>

theorem LineRangeSet_queries_correct:
  assumes inv: "lrs_inv st" and ne: "lr_startLineNumber rng < lr_endLineNumberExclusive rng"
  shows "LineRangeSet_contains st n = Inr (n \<in> lrs_lines st) \<and>
         LineRangeSet_intersects st rng = Inr (lrs_lines st \<inter> lr_set rng \<noteq> {})"
proof -
  let ?rs = "lrs_normalizedRanges st"
  have norm: "lr_list.normalized ?rs" using inv by (simp add: lrs_inv_def)
  have P: "findLastMonotonous ?rs P = Inr (if takeWhile P ?rs = [] then None else Some (last (takeWhile P ?rs)))"
    if "switches_on (\<lambda>x. \<not> P x) ?rs" for P using that by (rule findLastMonotonous_eq)
  note sw = lr_list.normalized_switches [OF norm]
  have "n \<in> lrs_lines st \<longleftrightarrow> (\<exists>r \<in> set ?rs. lr_startLineNumber r \<le> n \<and> n < lr_endLineNumberExclusive r)"
    by (auto simp: lrs_lines_def lr_list.elems_def)
  moreover have "lrs_lines st \<inter> lr_set rng \<noteq> {} \<longleftrightarrow>
    (\<exists>r \<in> set ?rs. lr_startLineNumber r < lr_endLineNumberExclusive rng \<and>
                    lr_startLineNumber rng < lr_endLineNumberExclusive r)"
  proof -
    have "lr_set r \<inter> lr_set rng \<noteq> {} \<longleftrightarrow> lr_startLineNumber r < lr_endLineNumberExclusive rng \<and>
        lr_startLineNumber rng < lr_endLineNumberExclusive r" if "r \<in> set ?rs" for r
      using that inv ne by (auto simp: lrs_inv_def lr_set_atLeastLessThan)
    then show ?thesis by (auto simp: lrs_lines_def lr_list.elems_def lr_list_ivl)
  qed
  ultimately show ?thesis
    using P [OF sw(2) [of n]] P [OF sw(3) [of "lr_endLineNumberExclusive rng"]]
      lr_list.last_reaches [OF norm sw(2) [of n], of n]
      lr_list.last_reaches [OF norm sw(3) [of "lr_endLineNumberExclusive rng"], of "lr_startLineNumber rng"]
    by (simp add: LineRangeSet_contains_def LineRangeSet_intersects_def)
qed

theorem LineRangeSet_queries_correct_witness:
  "LineRangeSet_contains
      \<lparr>lrs_normalizedRanges = [\<lparr>lr_startLineNumber = 1, lr_endLineNumberExclusive = 3\<rparr>,
         \<lparr>lr_startLineNumber = 5, lr_endLineNumberExclusive = 6\<rparr>]\<rparr> 4 = Inr False"
proof -
  let ?st = "\<lparr>lrs_normalizedRanges = [\<lparr>lr_startLineNumber = 1, lr_endLineNumberExclusive = 3\<rparr>,
         \<lparr>lr_startLineNumber = 5, lr_endLineNumberExclusive = 6\<rparr>]\<rparr>"
  have "lrs_inv ?st" by (simp add: lrs_inv_def lr_list.normalized_Cons)
  from LineRangeSet_queries_correct
      [OF this, of "\<lparr>lr_startLineNumber = 3, lr_endLineNumberExclusive = 5\<rparr>" 4]
  show ?thesis by (simp add: lrs_lines_def lr_list.elems_def)
qed

section \<open>Union, subtraction and intersection of sets\<close>

definition lr_sep :: "LineRange list \<Rightarrow> bool" where
  "lr_sep rs \<longleftrightarrow> lr_list.normalized rs \<and>
     (\<forall>r \<in> set rs. lr_startLineNumber r < lr_endLineNumberExclusive r)"

lemma lrs_inv_iff: "lrs_inv st \<longleftrightarrow> lr_sep (lrs_normalizedRanges st)"
  by (simp add: lrs_inv_def lr_sep_def)

lemma lr_sep_Nil [simp]: "lr_sep []"
  by (simp add: lr_sep_def)

lemma lr_sep_Cons:
  "lr_sep (r # rs) \<longleftrightarrow> lr_startLineNumber r < lr_endLineNumberExclusive r \<and>
     (\<forall>x \<in> set rs. lr_endLineNumberExclusive r < lr_startLineNumber x) \<and> lr_sep rs"
  by (auto simp: lr_sep_def lr_list.normalized_Cons)

lemma lr_sep_snoc:
  "lr_sep (rs @ [r]) \<longleftrightarrow> lr_sep rs \<and> lr_startLineNumber r < lr_endLineNumberExclusive r \<and>
     (\<forall>x \<in> set rs. lr_endLineNumberExclusive x < lr_startLineNumber r)"
  by (auto simp: lr_sep_def lr_list.normalized_append lr_list.normalized_Cons)

lemma getUnion_next_spec:
  assumes "getUnion_next xs ys = Some (n, xs', ys')" and "lr_sep xs" and "lr_sep ys"
  shows "lr_sep xs' \<and> lr_sep ys' \<and> lr_startLineNumber n < lr_endLineNumberExclusive n \<and>
    set xs' \<union> set ys' \<union> {n} = set xs \<union> set ys \<and>
    (\<forall>r \<in> set xs' \<union> set ys'. lr_startLineNumber n \<le> lr_startLineNumber r)"
proof -
  have first: "\<forall>z \<in> set zs. lr_startLineNumber x < lr_startLineNumber z"
    if "lr_sep (x # zs)" for x zs
    using that by (auto simp: lr_sep_Cons dest: order_less_trans)
  show ?thesis
  proof (cases xs; cases ys)
    fix x xs1 y ys1 assume eq: "xs = x # xs1" "ys = y # ys1"
    show ?thesis
    proof (cases "lr_startLineNumber x < lr_startLineNumber y")
      case True
      moreover from this have "\<forall>z \<in> set ys1. lr_startLineNumber x < lr_startLineNumber z"
        using first [of y ys1] assms eq by (meson order_less_trans)
      ultimately show ?thesis using assms eq first [of x xs1]
        by (auto simp: lr_sep_Cons intro: order_less_imp_le)
    next
      case False
      moreover from this have "\<forall>z \<in> set xs1. lr_startLineNumber y < lr_startLineNumber z"
        using first [of x xs1] assms eq by (meson order_le_less_trans not_le)
      ultimately show ?thesis using assms eq first [of y ys1]
        by (auto simp: lr_sep_Cons intro: order_less_imp_le)
    qed
  qed (use assms first in \<open>auto simp: lr_sep_Cons dest: order_less_imp_le\<close>)
qed

lemma getUnion_loop_spec:
  assumes "lr_sep rs1" and "lr_sep rs2" and "lr_sep res"
    and "case current of None \<Rightarrow> res = []
         | Some c \<Rightarrow> lr_startLineNumber c < lr_endLineNumberExclusive c \<and>
             (\<forall>x \<in> set res. lr_endLineNumberExclusive x < lr_startLineNumber c) \<and>
             (\<forall>x \<in> set rs1 \<union> set rs2. lr_startLineNumber c \<le> lr_startLineNumber x)"
  shows "\<exists>out. getUnion_loop rs1 rs2 res current = Inr out \<and> lr_sep out \<and>
    lr_list.elems out = lr_list.elems (res @ (case current of None \<Rightarrow> [] | Some c \<Rightarrow> [c]) @ rs1 @ rs2)"
  using assms
proof (induction rs1 rs2 res current rule: getUnion_loop.induct)
  case (1 rs1 rs2 res current)
  show ?case
  proof (cases "getUnion_next rs1 rs2")
    case None
    then have "rs1 = []" "rs2 = []" by (induction rs1 rs2 rule: getUnion_next.induct) (auto split: if_splits)
    with None 1(5,6,7) show ?thesis
      by (subst getUnion_loop.simps) (auto simp: lr_sep_snoc split: option.splits)
  next
    case (Some t)
    obtain n xs ys where t: "t = (n, xs, ys)" by (cases t)
    note next_eq = Some [unfolded t]
    note spec = getUnion_next_spec [OF next_eq 1(4) 1(5)]
    have sep: "lr_sep xs" "lr_sep ys"
      and n: "lr_startLineNumber n < lr_endLineNumberExclusive n"
      and sets: "set xs \<union> set ys \<union> {n} = set rs1 \<union> set rs2"
      and lo: "\<forall>r \<in> set xs \<union> set ys. lr_startLineNumber n \<le> lr_startLineNumber r"
      using spec by - (elim conjE, assumption)+
    have el: "lr_list.elems rs1 \<union> lr_list.elems rs2 = lr_list.ivl n \<union> lr_list.elems xs \<union> lr_list.elems ys"
    proof -
      have "lr_list.elems rs1 \<union> lr_list.elems rs2 = (\<Union>r \<in> set rs1 \<union> set rs2. lr_list.ivl r)"
        by (simp add: lr_list.elems_def UN_Un)
      also have "\<dots> = (\<Union>r \<in> set xs \<union> set ys \<union> {n}. lr_list.ivl r)" by (simp only: sets)
      finally show ?thesis by (simp add: lr_list.elems_def UN_Un Un_ac)
    qed
    show ?thesis
    proof (cases current)
      case None
      have step: "getUnion_loop rs1 rs2 res current = getUnion_loop xs ys res (Some n)"
        by (subst getUnion_loop.simps) (simp add: next_eq None)
      have "\<exists>out. getUnion_loop xs ys res (Some n) = Inr out \<and> lr_sep out \<and>
          lr_list.elems out = lr_list.elems (res @ [n] @ xs @ ys)"
        using 1(1) [OF next_eq refl refl None] sep n lo 1(6,7) None by simp
      moreover have "lr_list.elems (res @ [n] @ xs @ ys) = lr_list.elems (res @ rs1 @ rs2)"
        using el by (simp add: Un_ac)
      ultimately show ?thesis using None step by simp
    next
      case (Some c)
      note c = this
      with 1(7) sets have c': "lr_startLineNumber c < lr_endLineNumberExclusive c"
        "\<forall>x \<in> set res. lr_endLineNumberExclusive x < lr_startLineNumber c"
        "lr_startLineNumber c \<le> lr_startLineNumber n"
        "\<forall>x \<in> set xs \<union> set ys. lr_startLineNumber c \<le> lr_startLineNumber x" by auto
      show ?thesis
      proof (cases "lr_endLineNumberExclusive c \<ge> lr_startLineNumber n")
        case True
        let ?c = "\<lparr>lr_startLineNumber = lr_startLineNumber c, lr_endLineNumberExclusive =
          max (lr_endLineNumberExclusive c) (lr_endLineNumberExclusive n)\<rparr>"
        have ivl: "lr_list.ivl ?c = lr_list.ivl c \<union> lr_list.ivl n"
          using True c'(3) by (auto simp: lr_list.ivl_def)
        have "\<exists>out. getUnion_loop xs ys res (Some ?c) = Inr out \<and> lr_sep out \<and>
            lr_list.elems out = lr_list.elems (res @ [?c] @ xs @ ys)"
          using 1(2) [OF next_eq refl refl c True, of ?c]
            sep 1(6) c' by simp
        moreover have "getUnion_loop rs1 rs2 res current = getUnion_loop xs ys res (Some ?c)"
          using True c c'(1) by (subst getUnion_loop.simps) (simp add: next_eq)
        moreover have "lr_list.elems (res @ [?c] @ xs @ ys) = lr_list.elems (res @ [c] @ rs1 @ rs2)"
          using el ivl by (simp add: Un_ac)
        ultimately show ?thesis using c by simp
      next
        case False
        have "\<exists>out. getUnion_loop xs ys (res @ [c]) (Some n) = Inr out \<and> lr_sep out \<and>
            lr_list.elems out = lr_list.elems ((res @ [c]) @ [n] @ xs @ ys)"
        proof -
          have "lr_sep (res @ [c])" using 1(6) c' by (simp add: lr_sep_snoc)
          moreover have "\<forall>x \<in> set (res @ [c]). lr_endLineNumberExclusive x < lr_startLineNumber n"
            using False c' by force
          ultimately show ?thesis
            using 1(3) [OF next_eq refl refl c False] sep n lo by simp
        qed
        moreover have "getUnion_loop rs1 rs2 res current = getUnion_loop xs ys (res @ [c]) (Some n)"
          using False c by (subst getUnion_loop.simps) (simp add: next_eq)
        moreover have "lr_list.elems ((res @ [c]) @ [n] @ xs @ ys) = lr_list.elems (res @ [c] @ rs1 @ rs2)"
          using el by (simp add: Un_ac)
        ultimately show ?thesis using c by simp
      qed
    qed
  qed
qed

lemma getUnion_spec:
  assumes "lrs_inv a" and "lrs_inv b"
  shows "\<exists>u. LineRangeSet_getUnion a b = Inr u \<and> lrs_inv u \<and> lrs_lines u = lrs_lines a \<union> lrs_lines b"
proof (cases "lrs_normalizedRanges a = [] \<or> lrs_normalizedRanges b = []")
  case True
  with assms show ?thesis
    by (auto simp: LineRangeSet_getUnion_def lrs_lines_def)
next
  case False
  have "\<exists>out. getUnion_loop (lrs_normalizedRanges a) (lrs_normalizedRanges b) [] None = Inr out \<and>
      lr_sep out \<and> lr_list.elems out = lr_list.elems (lrs_normalizedRanges a @ lrs_normalizedRanges b)"
    using getUnion_loop_spec [of "lrs_normalizedRanges a" "lrs_normalizedRanges b" "[]" None] assms
    by (simp add: lrs_inv_iff)
  with False show ?thesis
    by (auto simp: LineRangeSet_getUnion_def lrs_lines_def lrs_inv_iff)
qed

text \<open>
  \<^bold>\<open>C33.\<close> The union of two sets that satisfy the invariant never throws, satisfies the
  invariant and holds exactly the lines of either.
\<close>

theorem LineRangeSet_getUnion_correct:
  assumes "lrs_inv a" and "lrs_inv b"
  shows "\<exists>u. LineRangeSet_getUnion a b = Inr u \<and> lrs_inv u \<and> lrs_lines u = lrs_lines a \<union> lrs_lines b"
  using assms by (rule getUnion_spec)

theorem LineRangeSet_getUnion_correct_witness:
  "\<exists>u. LineRangeSet_getUnion
        \<lparr>lrs_normalizedRanges = [\<lparr>lr_startLineNumber = 1, lr_endLineNumberExclusive = 3\<rparr>]\<rparr>
        \<lparr>lrs_normalizedRanges = [\<lparr>lr_startLineNumber = 2, lr_endLineNumberExclusive = 6\<rparr>]\<rparr> = Inr u \<and>
      lrs_lines u = {1 ..< 6}"
proof -
  let ?a = "\<lparr>lrs_normalizedRanges = [\<lparr>lr_startLineNumber = 1, lr_endLineNumberExclusive = 3\<rparr>]\<rparr>"
  let ?b = "\<lparr>lrs_normalizedRanges = [\<lparr>lr_startLineNumber = 2, lr_endLineNumberExclusive = 6\<rparr>]\<rparr>"
  have "lrs_inv ?a" "lrs_inv ?b" by (simp_all add: lrs_inv_iff lr_sep_Cons)
  from LineRangeSet_getUnion_correct [OF this]
  obtain u where "LineRangeSet_getUnion ?a ?b = Inr u" "lrs_lines u = lrs_lines ?a \<union> lrs_lines ?b"
    by blast
  moreover have "lrs_lines ?a \<union> lrs_lines ?b = {1 ..< 6}"
    by (auto simp: lrs_lines_def)
  ultimately show ?thesis by auto
qed

text \<open>Joining many range lists folds the union over them.\<close>

lemma LineRange_joinMany_correct:
  assumes "\<forall>rs \<in> set rss. lr_sep rs"
  shows "\<exists>out. LineRange_joinMany rss = Inr out \<and> lr_sep out \<and>
    lr_list.elems out = (\<Union>rs \<in> set rss. lr_list.elems rs)"
proof -
  have fold: "\<exists>u. foldE (\<lambda>res rs. LineRangeSet_getUnion res \<lparr>lrs_normalizedRanges = rs\<rparr>) st rss = Inr u \<and>
      lrs_inv u \<and> lrs_lines u = lrs_lines st \<union> (\<Union>rs \<in> set rss. lr_list.elems rs)"
    if "lrs_inv st" "\<forall>rs \<in> set rss. lr_sep rs" for st rss
    using that
  proof (induction rss arbitrary: st)
    case (Cons rs rss)
    have "lrs_inv \<lparr>lrs_normalizedRanges = rs\<rparr>" using Cons.prems by (simp add: lrs_inv_iff)
    from getUnion_spec [OF Cons.prems(1) this]
    obtain u where u: "LineRangeSet_getUnion st \<lparr>lrs_normalizedRanges = rs\<rparr> = Inr u" "lrs_inv u"
      "lrs_lines u = lrs_lines st \<union> lr_list.elems rs" by (auto simp: lrs_lines_def)
    with Cons.IH [OF u(2)] Cons.prems show ?case by (simp add: Un_assoc)
  qed simp
  show ?thesis
  proof (cases rss)
    case (Cons rs rss')
    with fold [of "\<lparr>lrs_normalizedRanges = rs\<rparr>" rss'] assms show ?thesis
      by (auto simp: LineRange_joinMany_def lrs_inv_iff lrs_lines_def)
  qed (simp add: LineRange_joinMany_def)
qed

lemma subtractFrom_loop_spec:
  assumes "lr_sep ms" and "lr_sep res" and "\<forall>x \<in> set res. lr_endLineNumberExclusive x < s"
    and "\<forall>m \<in> set ms. s \<le> lr_endLineNumberExclusive m \<and> lr_startLineNumber m \<le> b"
  shows "\<exists>out s'. subtractFrom_loop ms res s = Inr (out, s') \<and> lr_sep out \<and>
    (\<forall>x \<in> set out. lr_endLineNumberExclusive x < s') \<and>
    lr_list.elems out \<union> {s' ..< b} = lr_list.elems res \<union> ({s ..< b} - lr_list.elems ms)"
  using assms
proof (induction ms res s rule: subtractFrom_loop.induct)
  case (2 r rs res s)
  let ?res = "if lr_startLineNumber r > s
    then res @ [\<lparr>lr_startLineNumber = s, lr_endLineNumberExclusive = lr_startLineNumber r\<rparr>] else res"
  have r: "lr_startLineNumber r < lr_endLineNumberExclusive r" "lr_sep rs"
    "\<forall>x \<in> set rs. lr_endLineNumberExclusive r < lr_startLineNumber x"
    "s \<le> lr_endLineNumberExclusive r" "lr_startLineNumber r \<le> b"
    using 2(2,5) by (auto simp: lr_sep_Cons)
  have rest: "\<forall>x \<in> set rs. lr_endLineNumberExclusive r \<le> lr_endLineNumberExclusive x \<and>
      lr_startLineNumber x \<le> b"
  proof
    fix x assume "x \<in> set rs"
    with r 2(5) have "lr_startLineNumber x < lr_endLineNumberExclusive x" "lr_startLineNumber x \<le> b"
      "lr_endLineNumberExclusive r < lr_startLineNumber x" by (auto simp: lr_sep_def)
    then show "lr_endLineNumberExclusive r \<le> lr_endLineNumberExclusive x \<and> lr_startLineNumber x \<le> b"
      by simp
  qed
  have step: "subtractFrom_loop (r # rs) res s = subtractFrom_loop rs ?res (lr_endLineNumberExclusive r)"
    by simp
  have sep: "lr_sep ?res"
    and below: "\<forall>x \<in> set ?res. lr_endLineNumberExclusive x < lr_endLineNumberExclusive r"
    using 2(3,4) r by (auto simp: lr_sep_snoc)
  have el: "lr_list.elems ?res \<union> ({lr_endLineNumberExclusive r ..< b} - lr_list.elems rs) =
      lr_list.elems res \<union> ({s ..< b} - lr_list.elems (r # rs))"
  proof -
    have "n \<notin> lr_list.elems rs" if "n \<le> lr_endLineNumberExclusive r" for n
      using r(3) that by (fastforce simp: lr_list.elems_def)
    then show ?thesis using r by auto
  qed
  have "(if lr_startLineNumber r > s
            then bindE (new_LineRange s (lr_startLineNumber r)) (\<lambda>x. Inr (res @ [x]))
            else Inr res) = Inr ?res" by simp
  from 2(1) [OF this r(2) sep below rest] show ?case
    unfolding step el .
qed auto

text \<open>
  \<^bold>\<open>C34.\<close> \<open>subtractFrom\<close> never throws on a non-empty range and returns a set that
  satisfies the invariant and holds the lines of the range that are not in the set.
\<close>

theorem LineRangeSet_subtractFrom_correct:
  assumes inv: "lrs_inv st" and ne: "lr_startLineNumber rng < lr_endLineNumberExclusive rng"
  shows "\<exists>d. LineRangeSet_subtractFrom st rng = Inr d \<and> lrs_inv d \<and>
              lrs_lines d = lr_set rng - lrs_lines st"
proof -
  let ?a = "lr_startLineNumber rng" and ?b = "lr_endLineNumberExclusive rng"
  have norm: "lr_list.normalized (lrs_normalizedRanges st)" using inv by (simp add: lrs_inv_def)
  have wf: "lr_wf rng" using ne by (simp add: lr_wf_def)
  obtain ys ms zs where rs: "lrs_normalizedRanges st = ys @ ms @ zs"
    and i: "joinRangeStartIdx (lrs_normalizedRanges st) rng = Inr (int (length ys))"
    and j: "joinRangeEndIdxExclusive (lrs_normalizedRanges st) rng = Inr (int (length ys + length ms))"
    and ys: "\<forall>y \<in> set ys. lr_endLineNumberExclusive y < ?a"
    and ms: "\<forall>m \<in> set ms. ?a \<le> lr_endLineNumberExclusive m \<and> lr_startLineNumber m \<le> ?b"
    and zs: "\<forall>z \<in> set zs. ?b < lr_startLineNumber z"
    using join_window [OF norm wf] by blast
  have outside: "lr_set rng - lrs_lines st = {?a ..< ?b} - lr_list.elems ms"
    using ys zs by (force simp: lrs_lines_def rs lr_set_atLeastLessThan lr_list.elems_def)
  have sep: "lr_sep ms"
    using inv rs by (simp add: lrs_inv_iff lr_sep_def lr_list.normalized_append)
  show ?thesis
  proof (cases "ms = []")
    case True
    with i j outside ne show ?thesis
      by (simp add: LineRangeSet_subtractFrom_def lrs_inv_iff lr_sep_Cons lrs_lines_def lr_list.ivl_def)
  next
    case False
    obtain out s where o: "subtractFrom_loop ms [] ?a = Inr (out, s)" "lr_sep out"
      "\<forall>x \<in> set out. lr_endLineNumberExclusive x < s"
      "lr_list.elems out \<union> {s ..< ?b} = {?a ..< ?b} - lr_list.elems ms"
      using subtractFrom_loop_spec [OF sep, of "[]" ?a ?b] ms by auto
    have "take (nat (int (length ys + length ms) - int (length ys)))
        (drop (nat (int (length ys))) (ys @ ms @ zs)) = ms" by simp
    with False i j o(1) have eq: "LineRangeSet_subtractFrom st rng =
        Inr \<lparr>lrs_normalizedRanges = (if s < ?b
               then out @ [\<lparr>lr_startLineNumber = s, lr_endLineNumberExclusive = ?b\<rparr>] else out)\<rparr>"
      by (simp add: LineRangeSet_subtractFrom_def rs)
    show ?thesis
      unfolding eq outside o(4) [symmetric]
      using o(2,3) by (auto simp: lrs_inv_iff lr_sep_snoc lrs_lines_def)
  qed
qed

theorem LineRangeSet_subtractFrom_correct_witness:
  "\<exists>d. LineRangeSet_subtractFrom
        \<lparr>lrs_normalizedRanges = [\<lparr>lr_startLineNumber = 3, lr_endLineNumberExclusive = 5\<rparr>]\<rparr>
        \<lparr>lr_startLineNumber = 1, lr_endLineNumberExclusive = 9\<rparr> = Inr d \<and>
      lrs_lines d = {1 ..< 9} - {3 ..< 5}"
proof -
  let ?st = "\<lparr>lrs_normalizedRanges = [\<lparr>lr_startLineNumber = 3, lr_endLineNumberExclusive = 5\<rparr>]\<rparr>"
  let ?r = "\<lparr>lr_startLineNumber = 1, lr_endLineNumberExclusive = 9\<rparr>"
  have "lrs_inv ?st" "lr_startLineNumber ?r < lr_endLineNumberExclusive ?r"
    by (simp_all add: lrs_inv_iff lr_sep_Cons)
  from LineRangeSet_subtractFrom_correct [OF this]
  obtain d where "LineRangeSet_subtractFrom ?st ?r = Inr d" "lrs_lines d = lr_set ?r - lrs_lines ?st"
    by blast
  moreover have "lr_set ?r - lrs_lines ?st = {1 ..< 9} - {3 ..< 5}"
    by (simp add: lrs_lines_def lr_set_atLeastLessThan lr_list.ivl_def)
  ultimately show ?thesis by auto
qed

lemma push_non_empty:
  "(case (if s \<le> e then Some \<lparr>lr_startLineNumber = s, lr_endLineNumberExclusive = e\<rparr> else None)
      of None \<Rightarrow> res | Some x \<Rightarrow> if \<not> LineRange_isEmpty x then res @ [x] else res) =
   (if s < e then res @ [\<lparr>lr_startLineNumber = s, lr_endLineNumberExclusive = e\<rparr>] else res)"
  by (simp add: LineRange_isEmpty_def)

lemma getIntersection_loop_spec:
  assumes "lr_sep rs1" and "lr_sep rs2" and "lr_sep res"
    and "\<forall>x \<in> set res. \<forall>r \<in> set rs1. \<forall>r' \<in> set rs2.
           lr_endLineNumberExclusive x < max (lr_startLineNumber r) (lr_startLineNumber r')"
  shows "\<exists>out. getIntersection_loop rs1 rs2 res = Inr out \<and> lr_sep out \<and>
    lr_list.elems out = lr_list.elems res \<union> (lr_list.elems rs1 \<inter> lr_list.elems rs2)"
  using assms
proof (induction rs1 rs2 res rule: getIntersection_loop.induct)
  case (1 r1 rs1 r2 rs2 res)
  let ?s = "max (lr_startLineNumber r1) (lr_startLineNumber r2)"
  let ?e = "min (lr_endLineNumberExclusive r1) (lr_endLineNumberExclusive r2)"
  let ?x = "\<lparr>lr_startLineNumber = ?s, lr_endLineNumberExclusive = ?e\<rparr>"
  let ?i = "if ?s \<le> ?e then Some ?x else None"
  let ?res = "if ?s < ?e then res @ [?x] else res"
  have i: "LineRange_intersect r1 r2 = Inr ?i"
    by (simp add: LineRange_intersect_def Let_def del: max_less_iff_conj min_less_iff_conj)
  have res: "(case ?i of None \<Rightarrow> res
      | Some x \<Rightarrow> if \<not> LineRange_isEmpty x then res @ [x] else res) = ?res"
    by (rule push_non_empty)
  have sep: "lr_sep rs1" "lr_sep rs2" "lr_sep (r1 # rs1)" "lr_sep (r2 # rs2)"
    using 1(3,4) by (simp_all add: lr_sep_Cons)
  have after: "\<forall>x \<in> set rs1. lr_endLineNumberExclusive r1 < lr_startLineNumber x"
    "\<forall>x \<in> set rs2. lr_endLineNumberExclusive r2 < lr_startLineNumber x"
    using 1(3,4) by (simp_all add: lr_sep_Cons)
  have rsep: "lr_sep ?res" using 1(5,6) by (simp add: lr_sep_snoc)
  have ivl: "lr_list.elems ?res = lr_list.elems res \<union> (lr_list.ivl r1 \<inter> lr_list.ivl r2)"
    by (auto simp: lr_list.elems_def)
  show ?case
  proof (cases "lr_endLineNumberExclusive r1 < lr_endLineNumberExclusive r2")
    case True
    have sorted: "\<forall>x \<in> set ?res. \<forall>r \<in> set rs1. \<forall>r' \<in> set (r2 # rs2).
        lr_endLineNumberExclusive x < max (lr_startLineNumber r) (lr_startLineNumber r')"
      using 1(6) after(1) True by (auto simp: less_max_iff_disj)
    have "lr_list.ivl r1 \<inter> lr_list.elems rs2 = {}"
      using True after(2) by (fastforce simp: lr_list.elems_def)
    then have el: "lr_list.elems ?res \<union> (lr_list.elems rs1 \<inter> lr_list.elems (r2 # rs2)) =
        lr_list.elems res \<union> (lr_list.elems (r1 # rs1) \<inter> lr_list.elems (r2 # rs2))"
      unfolding ivl by auto
    have "getIntersection_loop (r1 # rs1) (r2 # rs2) res = getIntersection_loop rs1 (r2 # rs2) ?res"
      using True i res by (simp add: Let_def)
    then show ?thesis
      using 1(1) [OF i res [symmetric] True sep(1) sep(4) rsep sorted] unfolding el by simp
  next
    case False
    have sorted: "\<forall>x \<in> set ?res. \<forall>r \<in> set (r1 # rs1). \<forall>r' \<in> set rs2.
        lr_endLineNumberExclusive x < max (lr_startLineNumber r) (lr_startLineNumber r')"
      using 1(6) after(2) False by (auto simp: less_max_iff_disj)
    have "lr_list.ivl r2 \<inter> lr_list.elems rs1 = {}"
      using False after(1) by (fastforce simp: lr_list.elems_def)
    then have el: "lr_list.elems ?res \<union> (lr_list.elems (r1 # rs1) \<inter> lr_list.elems rs2) =
        lr_list.elems res \<union> (lr_list.elems (r1 # rs1) \<inter> lr_list.elems (r2 # rs2))"
      unfolding ivl by auto
    have "getIntersection_loop (r1 # rs1) (r2 # rs2) res = getIntersection_loop (r1 # rs1) rs2 ?res"
      using False i res by (simp add: Let_def)
    then show ?thesis
      using 1(2) [OF i res [symmetric] False sep(3) sep(2) rsep sorted] unfolding el by simp
  qed
qed auto

text \<open>
  The intersection of two sets that satisfy the invariant never throws, satisfies
  the invariant (although the loop never merges neighbours) and holds exactly the common lines;
  shifting a set by a delta shifts its lines and keeps the invariant.
\<close>

theorem LineRangeSet_getIntersection_correct:
  assumes "lrs_inv a" and "lrs_inv b"
  shows "(\<exists>c. LineRangeSet_getIntersection a b = Inr c \<and> lrs_inv c \<and>
              lrs_lines c = lrs_lines a \<inter> lrs_lines b) \<and>
         (\<exists>s. LineRangeSet_getWithDelta a d = Inr s \<and> lrs_inv s \<and>
              lrs_lines s = (\<lambda>n. n + d) ` lrs_lines a)"
proof
  have "lr_sep (lrs_normalizedRanges a)" "lr_sep (lrs_normalizedRanges b)"
    using assms by (simp_all add: lrs_inv_iff)
  from getIntersection_loop_spec [OF this, of "[]"]
  show "\<exists>c. LineRangeSet_getIntersection a b = Inr c \<and> lrs_inv c \<and>
      lrs_lines c = lrs_lines a \<inter> lrs_lines b"
    by (auto simp: LineRangeSet_getIntersection_def lrs_inv_iff lrs_lines_def)
next
  let ?f = "\<lambda>r. \<lparr>lr_startLineNumber = lr_startLineNumber r + d,
                 lr_endLineNumberExclusive = lr_endLineNumberExclusive r + d\<rparr>"
  have "mapE (\<lambda>r. LineRange_delta r d) rs = Inr (map ?f rs) \<and> lr_sep (map ?f rs) \<and>
      lr_list.elems (map ?f rs) = (\<lambda>n. n + d) ` lr_list.elems rs" if "lr_sep rs" for rs
    using that
  proof (induction rs)
    case (Cons r rs)
    then show ?case
      by (auto simp: lr_sep_Cons LineRange_delta_def lr_list.ivl_def image_Un simp del: lr_list.in_ivl)
  qed simp
  from this [of "lrs_normalizedRanges a"] assms
  show "\<exists>s. LineRangeSet_getWithDelta a d = Inr s \<and> lrs_inv s \<and> lrs_lines s = (\<lambda>n. n + d) ` lrs_lines a"
    by (simp add: LineRangeSet_getWithDelta_def lrs_inv_iff lrs_lines_def)
qed

theorem LineRangeSet_getIntersection_correct_witness:
  "\<exists>c. LineRangeSet_getIntersection
        \<lparr>lrs_normalizedRanges = [\<lparr>lr_startLineNumber = 1, lr_endLineNumberExclusive = 5\<rparr>]\<rparr>
        \<lparr>lrs_normalizedRanges = [\<lparr>lr_startLineNumber = 3, lr_endLineNumberExclusive = 9\<rparr>]\<rparr> = Inr c \<and>
      lrs_lines c = {3 ..< 5}"
proof -
  let ?a = "\<lparr>lrs_normalizedRanges = [\<lparr>lr_startLineNumber = 1, lr_endLineNumberExclusive = 5\<rparr>]\<rparr>"
  let ?b = "\<lparr>lrs_normalizedRanges = [\<lparr>lr_startLineNumber = 3, lr_endLineNumberExclusive = 9\<rparr>]\<rparr>"
  have "lrs_inv ?a" "lrs_inv ?b" by (simp_all add: lrs_inv_iff lr_sep_Cons)
  from LineRangeSet_getIntersection_correct [OF this]
  obtain c where "LineRangeSet_getIntersection ?a ?b = Inr c" "lrs_lines c = lrs_lines ?a \<inter> lrs_lines ?b"
    by blast
  moreover have "lrs_lines ?a \<inter> lrs_lines ?b = {3 ..< 5}"
    by (auto simp: lrs_lines_def)
  ultimately show ?thesis by auto
qed

end
