(* ===== verification/Edits.thy ===== *)
theory Edits
  imports OffsetRanges
begin

text \<open>
  \<open>src/vs/editor/common/core/edits/edit.ts\<close>: the abstract class \<open>BaseEdit\<close>, a sorted list
  of disjoint replacements applied at once, and its operations: normalising, composing two edits
  into one, splitting an edit, the ranges of the replacements in the new value and the
  offset transformations.

  The class is abstract in the replacement: \<open>replacement_class\<close> holds the methods of
  \<open>BaseReplacement\<close> that a subclass supplies.  Every operation takes it as an argument, the
  way the source's methods dispatch on it.  An edit is the list of its replacements (the only
  field); \<open>new_BaseEdit\<close> is the constructor with its check.

  The locale \<open>replacement_laws\<close> states what a subclass promises of its methods, relative to
  the data a replacement inserts.  The theorems about all operations are proved there once,
  against the abstract specification \<open>app\<close>: what the edit does to the edited sequence.  It is
  interpreted on string, array, length and annotated replacements in their own theories.
\<close>

section \<open>The interface of a replacement class\<close>

record 'r replacement_class =
  replaceRange :: "'r \<Rightarrow> OffsetRange"
  getNewLength :: "'r \<Rightarrow> int"
  tryJoinTouching :: "'r \<Rightarrow> 'r \<Rightarrow> 'r option result"
  slice_replacement :: "'r \<Rightarrow> OffsetRange \<Rightarrow> OffsetRange option \<Rightarrow> 'r result"
  equals_replacement :: "'r \<Rightarrow> 'r \<Rightarrow> bool"

definition BaseReplacement_delta :: "'r replacement_class \<Rightarrow> 'r \<Rightarrow> int \<Rightarrow> 'r result" where
  "BaseReplacement_delta C r offset =
     bindE (OffsetRange_delta (replaceRange C r) offset) (\<lambda>rng.
     bindE (new_OffsetRange 0 (getNewLength C r)) (\<lambda>whole.
       slice_replacement C r rng (Some whole)))"

definition BaseReplacement_getLengthDelta :: "'r replacement_class \<Rightarrow> 'r \<Rightarrow> int" where
  "BaseReplacement_getLengthDelta C r = getNewLength C r - OffsetRange_length (replaceRange C r)"

definition BaseReplacement_isEmpty :: "'r replacement_class \<Rightarrow> 'r \<Rightarrow> bool" where
  "BaseReplacement_isEmpty C r \<longleftrightarrow>
     getNewLength C r = 0 \<and> OffsetRange_length (replaceRange C r) = 0"

definition BaseReplacement_getRangeAfterReplace :: "'r replacement_class \<Rightarrow> 'r \<Rightarrow> OffsetRange result" where
  "BaseReplacement_getRangeAfterReplace C r =
     new_OffsetRange (start (replaceRange C r)) (start (replaceRange C r) + getNewLength C r)"

section \<open>The class BaseEdit\<close>

fun check_sorted :: "'r replacement_class \<Rightarrow> int \<Rightarrow> 'r list \<Rightarrow> bool" where
  "check_sorted C lastEndEx [] = True"
| "check_sorted C lastEndEx (r # rs) =
     (if \<not> (start (replaceRange C r) \<ge> lastEndEx) then False
      else check_sorted C (endExclusive (replaceRange C r)) rs)"

definition new_BaseEdit :: "'r replacement_class \<Rightarrow> 'r list \<Rightarrow> 'r list result" where
  "new_BaseEdit C rs =
     (if check_sorted C (- 1) rs then Inr rs
      else Inl (BugIndicatingError ''Edits must be disjoint and sorted''))"

definition BaseEdit_equals :: "'r replacement_class \<Rightarrow> 'r list \<Rightarrow> 'r list \<Rightarrow> bool" where
  "BaseEdit_equals C rs rs' \<longleftrightarrow>
     (if length rs \<noteq> length rs' then False
      else list_all (\<lambda>(r, r'). equals_replacement C r r') (zip rs rs'))"

text \<open>\<open>normalize\<close>: \<open>lastR\<close> is the variable \<open>lastReplacement\<close>, \<open>out\<close> is \<open>newReplacements\<close>.\<close>

fun normalize_loop :: "'r replacement_class \<Rightarrow> 'r list \<Rightarrow> 'r option \<Rightarrow> 'r list \<Rightarrow> 'r list result" where
  "normalize_loop C out lastR [] =
     Inr (case lastR of None \<Rightarrow> out | Some l \<Rightarrow> out @ [l])"
| "normalize_loop C out lastR (r # rs) =
     (if getNewLength C r = 0 \<and> OffsetRange_length (replaceRange C r) = 0
      then normalize_loop C out lastR rs
      else
        (case lastR of
           None \<Rightarrow> normalize_loop C out (Some r) rs
         | Some l \<Rightarrow>
             bindE (if endExclusive (replaceRange C l) = start (replaceRange C r)
                    then tryJoinTouching C l r else Inr None)
               (\<lambda>joined. case joined of
                  Some j \<Rightarrow> normalize_loop C out (Some j) rs
                | None \<Rightarrow> normalize_loop C (out @ [l]) (Some r) rs)))"

definition BaseEdit_normalize :: "'r replacement_class \<Rightarrow> 'r list \<Rightarrow> 'r list result" where
  "BaseEdit_normalize C rs = bindE (normalize_loop C [] None rs) (new_BaseEdit C)"

definition BaseEdit_isEmpty :: "'r list \<Rightarrow> bool" where
  "BaseEdit_isEmpty rs \<longleftrightarrow> length rs = 0"

text \<open>
  \<open>compose\<close>.  The first inner loop copies the replacements of \<open>edit1Queue\<close> that end
  before the replacement \<open>r2\<close> of the second edit; it returns the queue, \<open>edit1ToEdit2\<close>
  and the result list.
\<close>

fun compose_copy :: "'r replacement_class \<Rightarrow> 'r \<Rightarrow> 'r list \<Rightarrow> int \<Rightarrow> 'r list \<Rightarrow>
    'r list \<times> int \<times> 'r list" where
  "compose_copy C r2 [] d res = ([], d, res)"
| "compose_copy C r2 (r1 # q) d res =
     (if start (replaceRange C r1) + d + getNewLength C r1 \<ge> start (replaceRange C r2)
      then (r1 # q, d, res)
      else compose_copy C r2 q
             (d + (getNewLength C r1 - OffsetRange_length (replaceRange C r1))) (res @ [r1]))"

text \<open>The second one takes those that intersect or touch \<open>r2\<close> off the queue.\<close>

fun compose_intersect :: "'r replacement_class \<Rightarrow> 'r \<Rightarrow> 'r list \<Rightarrow> int \<Rightarrow> 'r option \<Rightarrow> 'r option \<Rightarrow>
    'r list \<times> int \<times> 'r option \<times> 'r option" where
  "compose_intersect C r2 [] d first lastR = ([], d, first, lastR)"
| "compose_intersect C r2 (r1 # q) d first lastR =
     (if start (replaceRange C r1) + d > endExclusive (replaceRange C r2)
      then (r1 # q, d, first, lastR)
      else compose_intersect C r2 q
             (d + (getNewLength C r1 - OffsetRange_length (replaceRange C r1)))
             (case first of None \<Rightarrow> Some r1 | Some f \<Rightarrow> Some f) (Some r1))"

text \<open>
  The rest of the body of the loop over \<open>edits2\<close>: \<open>r2\<close> is merged with the replacements
  it intersects or touches.
\<close>

definition compose_merge :: "'r replacement_class \<Rightarrow> 'r \<Rightarrow> 'r list \<Rightarrow> int \<Rightarrow> 'r list \<Rightarrow>
    ('r list \<times> int \<times> 'r list) result" where
  "compose_merge C r2 q d res =
     (let firstEdit1ToEdit2 = d;
          (q, d, firstIntersecting, lastIntersecting) = compose_intersect C r2 q d None None
      in case firstIntersecting of
           None \<Rightarrow> bindE (BaseReplacement_delta C r2 (- d)) (\<lambda>r. Inr (q, d, res @ [r]))
         | Some first \<Rightarrow>
             let newReplaceRangeStart =
                   min (start (replaceRange C first)) (start (replaceRange C r2) - firstEdit1ToEdit2);
                 prefixLength =
                   start (replaceRange C r2) - (start (replaceRange C first) + firstEdit1ToEdit2)
             in bindE (if prefixLength > 0 then
                         bindE (OffsetRange_emptyAt newReplaceRangeStart) (\<lambda>rng.
                         bindE (new_OffsetRange 0 prefixLength) (\<lambda>part.
                         bindE (slice_replacement C first rng (Some part)) (\<lambda>prefix.
                           Inr (res @ [prefix]))))
                       else Inr res) (\<lambda>res.
                case lastIntersecting of
                  None \<Rightarrow> Inl (BugIndicatingError ''Invariant violation: lastIntersecting is undefined'')
                | Some lastR \<Rightarrow>
                    let suffixLength =
                          (endExclusive (replaceRange C lastR) + d) - endExclusive (replaceRange C r2)
                    in bindE (if suffixLength > 0 then
                                bindE (OffsetRange_ofStartAndLength (endExclusive (replaceRange C lastR)) 0) (\<lambda>rng.
                                bindE (new_OffsetRange (getNewLength C lastR - suffixLength) (getNewLength C lastR)) (\<lambda>part.
                                bindE (slice_replacement C lastR rng (Some part)) (\<lambda>e.
                                  Inr (e # q, d - (getNewLength C e - OffsetRange_length (replaceRange C e))))))
                              else Inr (q, d)) (\<lambda>(q, d).
                       bindE (new_OffsetRange newReplaceRangeStart (endExclusive (replaceRange C r2) - d)) (\<lambda>newReplaceRange.
                       bindE (new_OffsetRange 0 (getNewLength C r2)) (\<lambda>whole.
                       bindE (slice_replacement C r2 newReplaceRange (Some whole)) (\<lambda>middle.
                         Inr (q, d, res @ [middle])))))))"

definition compose_step :: "'r replacement_class \<Rightarrow> 'r list \<times> int \<times> 'r list \<Rightarrow> 'r \<Rightarrow>
    ('r list \<times> int \<times> 'r list) result" where
  "compose_step C st r2 =
     (case st of (q, d, res) \<Rightarrow>
        case compose_copy C r2 q d res of (q, d, res) \<Rightarrow> compose_merge C r2 q d res)"

definition BaseEdit_compose :: "'r replacement_class \<Rightarrow> 'r list \<Rightarrow> 'r list \<Rightarrow> 'r list result" where
  "BaseEdit_compose C edit other =
     bindE (BaseEdit_normalize C edit) (\<lambda>edits1.
     bindE (BaseEdit_normalize C other) (\<lambda>edits2.
       if BaseEdit_isEmpty edits1 then Inr edits2
       else if BaseEdit_isEmpty edits2 then Inr edits1
       else bindE (foldE (compose_step C) (edits1, 0, []) edits2) (\<lambda>(q, d, res).
              bindE (new_BaseEdit C (res @ q)) (BaseEdit_normalize C))))"

fun decomposeSplit_loop :: "'r replacement_class \<Rightarrow> ('r \<Rightarrow> bool) \<Rightarrow> 'r list \<Rightarrow> 'r list \<Rightarrow> int \<Rightarrow>
    'r list \<Rightarrow> ('r list \<times> 'r list) result" where
  "decomposeSplit_loop C p e1 e2 e2delta [] = Inr (e1, e2)"
| "decomposeSplit_loop C p e1 e2 e2delta (edit # rs) =
     (if p edit then
        decomposeSplit_loop C p (e1 @ [edit]) e2
          (e2delta + (getNewLength C edit - OffsetRange_length (replaceRange C edit))) rs
      else
        bindE (OffsetRange_delta (replaceRange C edit) e2delta) (\<lambda>rng.
        bindE (new_OffsetRange 0 (getNewLength C edit)) (\<lambda>whole.
        bindE (slice_replacement C edit rng (Some whole)) (\<lambda>e.
          decomposeSplit_loop C p e1 (e2 @ [e]) e2delta rs))))"

definition BaseEdit_decomposeSplit :: "'r replacement_class \<Rightarrow> ('r \<Rightarrow> bool) \<Rightarrow> 'r list \<Rightarrow>
    ('r list \<times> 'r list) result" where
  "BaseEdit_decomposeSplit C shouldBeInE1 rs =
     bindE (decomposeSplit_loop C shouldBeInE1 [] [] 0 rs) (\<lambda>(e1, e2).
     bindE (new_BaseEdit C e1) (\<lambda>e1.
     bindE (new_BaseEdit C e2) (\<lambda>e2. Inr (e1, e2))))"

fun getNewRanges_loop :: "'r replacement_class \<Rightarrow> int \<Rightarrow> 'r list \<Rightarrow> OffsetRange list result" where
  "getNewRanges_loop C offset [] = Inr []"
| "getNewRanges_loop C offset (e # rs) =
     bindE (OffsetRange_ofStartAndLength (start (replaceRange C e) + offset) (getNewLength C e)) (\<lambda>r.
     bindE (getNewRanges_loop C (offset + BaseReplacement_getLengthDelta C e) rs) (\<lambda>ranges.
       Inr (r # ranges)))"

definition BaseEdit_getNewRanges :: "'r replacement_class \<Rightarrow> 'r list \<Rightarrow> OffsetRange list result" where
  "BaseEdit_getNewRanges C rs = getNewRanges_loop C 0 rs"

definition BaseEdit_getJoinedReplaceRange :: "'r replacement_class \<Rightarrow> 'r list \<Rightarrow> OffsetRange option result" where
  "BaseEdit_getJoinedReplaceRange C rs =
     (case rs of
        [] \<Rightarrow> Inr None
      | r # _ \<Rightarrow> bindE (OffsetRange_join (replaceRange C r) (replaceRange C (last rs))) (\<lambda>j. Inr (Some j)))"

text \<open>\<open>sumBy\<close> of \<open>src/vs/base/common/arrays.ts\<close>.\<close>

definition sumBy :: "'a list \<Rightarrow> ('a \<Rightarrow> int) \<Rightarrow> int" where
  "sumBy xs f = foldl (\<lambda>acc x. acc + f x) 0 xs"

definition BaseEdit_getLengthDelta :: "'r replacement_class \<Rightarrow> 'r list \<Rightarrow> int" where
  "BaseEdit_getLengthDelta C rs = sumBy rs (BaseReplacement_getLengthDelta C)"

definition BaseEdit_getNewDataLength :: "'r replacement_class \<Rightarrow> 'r list \<Rightarrow> int \<Rightarrow> int" where
  "BaseEdit_getNewDataLength C rs dataLength = dataLength + BaseEdit_getLengthDelta C rs"

fun applyToOffset_loop :: "'r replacement_class \<Rightarrow> int \<Rightarrow> int \<Rightarrow> 'r list \<Rightarrow> int" where
  "applyToOffset_loop C x accumulatedDelta [] = x + accumulatedDelta"
| "applyToOffset_loop C x accumulatedDelta (r # rs) =
     (if start (replaceRange C r) \<le> x then
        if x < endExclusive (replaceRange C r) then start (replaceRange C r) + accumulatedDelta
        else applyToOffset_loop C x
               (accumulatedDelta + (getNewLength C r - OffsetRange_length (replaceRange C r))) rs
      else x + accumulatedDelta)"

definition BaseEdit_applyToOffset :: "'r replacement_class \<Rightarrow> 'r list \<Rightarrow> int \<Rightarrow> int" where
  "BaseEdit_applyToOffset C rs originalOffset = applyToOffset_loop C originalOffset 0 rs"

definition BaseEdit_applyToOffsetRange :: "'r replacement_class \<Rightarrow> 'r list \<Rightarrow> OffsetRange \<Rightarrow> OffsetRange result" where
  "BaseEdit_applyToOffsetRange C rs rng =
     new_OffsetRange (BaseEdit_applyToOffset C rs (start rng))
       (BaseEdit_applyToOffset C rs (endExclusive rng))"

fun applyInverseToOffset_loop :: "'r replacement_class \<Rightarrow> int \<Rightarrow> int \<Rightarrow> 'r list \<Rightarrow> int" where
  "applyInverseToOffset_loop C y accumulatedDelta [] = y - accumulatedDelta"
| "applyInverseToOffset_loop C y accumulatedDelta (edit # rs) =
     (let editLength = getNewLength C edit in
      if start (replaceRange C edit) \<le> y - accumulatedDelta then
        if y - accumulatedDelta < start (replaceRange C edit) + editLength
        then start (replaceRange C edit)
        else applyInverseToOffset_loop C y
               (accumulatedDelta + (editLength - OffsetRange_length (replaceRange C edit))) rs
      else y - accumulatedDelta)"

definition BaseEdit_applyInverseToOffset :: "'r replacement_class \<Rightarrow> 'r list \<Rightarrow> int \<Rightarrow> int" where
  "BaseEdit_applyInverseToOffset C rs postEditsOffset = applyInverseToOffset_loop C postEditsOffset 0 rs"

fun applyToOffsetOrUndefined_loop :: "'r replacement_class \<Rightarrow> int \<Rightarrow> int \<Rightarrow> 'r list \<Rightarrow> int option" where
  "applyToOffsetOrUndefined_loop C x accumulatedDelta [] = Some (x + accumulatedDelta)"
| "applyToOffsetOrUndefined_loop C x accumulatedDelta (edit # rs) =
     (if start (replaceRange C edit) \<le> x then
        if x < endExclusive (replaceRange C edit) then None
        else applyToOffsetOrUndefined_loop C x
               (accumulatedDelta + (getNewLength C edit - OffsetRange_length (replaceRange C edit))) rs
      else Some (x + accumulatedDelta))"

definition BaseEdit_applyToOffsetOrUndefined :: "'r replacement_class \<Rightarrow> 'r list \<Rightarrow> int \<Rightarrow> int option" where
  "BaseEdit_applyToOffsetOrUndefined C rs originalOffset =
     applyToOffsetOrUndefined_loop C originalOffset 0 rs"

definition BaseEdit_applyToOffsetRangeOrUndefined :: "'r replacement_class \<Rightarrow> 'r list \<Rightarrow> OffsetRange \<Rightarrow>
    OffsetRange option result" where
  "BaseEdit_applyToOffsetRangeOrUndefined C rs originalRange =
     (case BaseEdit_applyToOffsetOrUndefined C rs (start originalRange) of
        None \<Rightarrow> Inr None
      | Some s \<Rightarrow>
          (case BaseEdit_applyToOffsetOrUndefined C rs (endExclusive originalRange) of
             None \<Rightarrow> Inr None
           | Some e \<Rightarrow> bindE (new_OffsetRange s e) (\<lambda>r. Inr (Some r))))"

section \<open>The abstract specification\<close>

text \<open>
  \<open>edit_valid C ok p rs n\<close>: the replacements are well-formed, sorted and disjoint, start
  at or after \<open>p\<close> and end at or before \<open>n\<close>.  \<open>edit_app C dat p rs s\<close> is the effect of
  the replacements on \<open>s\<close>, the part of the edited sequence from position \<open>p\<close> on, where
  \<open>dat r\<close> is what a replacement inserts.
\<close>

fun edit_valid :: "'r replacement_class \<Rightarrow> ('r \<Rightarrow> bool) \<Rightarrow> int \<Rightarrow> 'r list \<Rightarrow> int \<Rightarrow> bool" where
  "edit_valid C ok p [] n \<longleftrightarrow> p \<le> n"
| "edit_valid C ok p (r # rs) n \<longleftrightarrow>
     p \<le> start (replaceRange C r) \<and> start (replaceRange C r) \<le> endExclusive (replaceRange C r) \<and>
     ok r \<and> edit_valid C ok (endExclusive (replaceRange C r)) rs n"

fun edit_app :: "'r replacement_class \<Rightarrow> ('r \<Rightarrow> 'd list) \<Rightarrow> int \<Rightarrow> 'r list \<Rightarrow> 'd list \<Rightarrow> 'd list" where
  "edit_app C dat p [] s = s"
| "edit_app C dat p (r # rs) s =
     take (nat (start (replaceRange C r) - p)) s @ dat r @
     edit_app C dat (endExclusive (replaceRange C r)) rs (drop (nat (endExclusive (replaceRange C r) - p)) s)"

locale replacement_laws =
  fixes C :: "'r replacement_class" and dat :: "'r \<Rightarrow> 'd list" and ok :: "'r \<Rightarrow> bool"
  assumes newLength_dat: "ok r \<Longrightarrow> getNewLength C r = int (length (dat r))"
    and join_touching: "ok r \<Longrightarrow> ok r' \<Longrightarrow> or_wf (replaceRange C r) \<Longrightarrow> or_wf (replaceRange C r') \<Longrightarrow>
      endExclusive (replaceRange C r) = start (replaceRange C r') \<Longrightarrow>
      \<exists>j. tryJoinTouching C r r' = Inr j \<and>
        (\<forall>x. j = Some x \<longrightarrow> ok x \<and> start (replaceRange C x) = start (replaceRange C r) \<and>
           endExclusive (replaceRange C x) = endExclusive (replaceRange C r') \<and> dat x = dat r @ dat r')"
    and slice_dat: "ok r \<Longrightarrow> or_wf rng \<Longrightarrow> 0 \<le> a \<Longrightarrow> a \<le> b \<Longrightarrow> b \<le> int (length (dat r)) \<Longrightarrow>
      \<exists>x. slice_replacement C r rng (Some \<lparr>start = a, endExclusive = b\<rparr>) = Inr x \<and> ok x \<and>
          replaceRange C x = rng \<and> dat x = take (nat (b - a)) (drop (nat a) (dat r))"
begin

abbreviation st :: "'r \<Rightarrow> int" where "st r \<equiv> start (replaceRange C r)"
abbreviation en :: "'r \<Rightarrow> int" where "en r \<equiv> endExclusive (replaceRange C r)"
abbreviation valid :: "int \<Rightarrow> 'r list \<Rightarrow> int \<Rightarrow> bool" where "valid \<equiv> edit_valid C ok"
abbreviation app :: "int \<Rightarrow> 'r list \<Rightarrow> 'd list \<Rightarrow> 'd list" where "app \<equiv> edit_app C dat"

lemma slice_whole:
  "ok r \<Longrightarrow> or_wf rng \<Longrightarrow>
   \<exists>x. slice_replacement C r rng (Some \<lparr>start = 0, endExclusive = int (length (dat r))\<rparr>) = Inr x \<and>
       ok x \<and> replaceRange C x = rng \<and> dat x = dat r"
  using slice_dat [of r rng 0 "int (length (dat r))"] by auto

lemma valid_le: "valid p rs n \<Longrightarrow> p \<le> n"
  by (induction rs arbitrary: p) force+

lemma valid_weaken: "valid p rs n \<Longrightarrow> p' \<le> p \<Longrightarrow> valid p' rs n"
  by (cases rs) auto

lemma valid_snoc:
  "valid p (rs @ [r]) n \<longleftrightarrow> valid p rs (st r) \<and> st r \<le> en r \<and> ok r \<and> en r \<le> n"
  by (induction rs arbitrary: p) auto

lemma valid_append:
  "valid p rs m \<Longrightarrow> valid m rs' n \<Longrightarrow> valid p (rs @ rs') n"
  by (induction rs arbitrary: p) (auto intro: valid_weaken)

lemma valid_check: "valid p rs n \<Longrightarrow> p' \<le> p \<Longrightarrow> check_sorted C p' rs"
  by (induction rs arbitrary: p p') auto

lemma valid_new: "valid 0 rs n \<Longrightarrow> new_BaseEdit C rs = Inr rs"
  by (simp add: new_BaseEdit_def valid_check)

text \<open>What lies before the first replacement is kept.\<close>

lemma app_skip:
  assumes "valid (p + int (length U)) rs n"
  shows "app p rs (U @ V) = U @ app (p + int (length U)) rs V"
proof (cases rs)
  case (Cons r rs')
  with assms have "nat (st r - p) = length U + nat (st r - (p + int (length U)))"
    "nat (en r - p) = length U + nat (en r - (p + int (length U)))" by auto
  with Cons show ?thesis by simp
qed simp

lemma app_advance:
  assumes "valid p' rs n" and "p \<le> p'" and "p' - p \<le> int (length s)"
  shows "app p rs s = take (nat (p' - p)) s @ app p' rs (drop (nat (p' - p)) s)"
proof -
  have "p + int (length (take (nat (p' - p)) s)) = p'" using assms by simp
  then show ?thesis
    using app_skip [of p "take (nat (p' - p)) s" rs n "drop (nat (p' - p)) s"] assms(1) by simp
qed

lemma app_Cons_split:
  "nat (st r - p) = length A \<Longrightarrow> nat (en r - p) = length A + length B \<Longrightarrow>
   app p (r # rs) (A @ B @ V) = A @ dat r @ app (en r) rs V"
  by simp

text \<open>The length of the result.\<close>

fun shift :: "'r list \<Rightarrow> int" where
  "shift [] = 0"
| "shift (r # rs) = (getNewLength C r - OffsetRange_length (replaceRange C r)) + shift rs"

lemma length_app:
  "valid p rs n \<Longrightarrow> int (length s) = n - p \<Longrightarrow> int (length (app p rs s)) = n - p + shift rs"
proof (induction rs arbitrary: p s)
  case (Cons r rs)
  then have "int (length (drop (nat (en r - p)) s)) = n - en r"
    using valid_le [of "en r" rs n] by auto
  with Cons show ?case
    by (auto simp: newLength_dat OffsetRange_length_def valid_le dest: valid_le)
qed simp

lemma valid_le_shift: "valid p rs n \<Longrightarrow> p \<le> n + shift rs"
proof (induction rs arbitrary: p)
  case (Cons r rs)
  then have "en r \<le> n + shift rs" "0 \<le> getNewLength C r" by (simp_all add: newLength_dat)
  with Cons.prems show ?case by (simp add: OffsetRange_length_def)
qed simp

lemma shift_eq_getLengthDelta: "BaseEdit_getLengthDelta C rs = shift rs"
proof -
  have "foldl (\<lambda>acc x. acc + BaseReplacement_getLengthDelta C x) a rs = a + shift rs" for a
    by (induction rs arbitrary: a) (simp_all add: BaseReplacement_getLengthDelta_def)
  then show ?thesis by (simp add: BaseEdit_getLengthDelta_def sumBy_def)
qed

subsection \<open>Normalizing\<close>

text \<open>Replacement lists with the same effect wherever the first is valid.\<close>

definition refines :: "int \<Rightarrow> 'r list \<Rightarrow> 'r list \<Rightarrow> bool" where
  "refines n ys ys' \<longleftrightarrow> (\<forall>q s. valid q ys n \<longrightarrow> int (length s) = n - q \<longrightarrow>
     valid q ys' n \<and> app q ys' s = app q ys s)"

lemma refines_trans: "refines n xs ys \<Longrightarrow> refines n ys zs \<Longrightarrow> refines n xs zs"
  unfolding refines_def by metis

lemma refines_Cons:
  assumes "refines n ys ys'"
  shows "refines n (x # ys) (x # ys')"
  unfolding refines_def
proof (intro allI impI)
  fix q and s :: "'d list" assume v: "valid q (x # ys) n" "int (length s) = n - q"
  then have "int (length (drop (nat (en x - q)) s)) = n - en x"
    using valid_le [of "en x" ys n] by auto
  with v assms [unfolded refines_def, rule_format, of "en x" "drop (nat (en x - q)) s"]
  show "valid q (x # ys') n \<and> app q (x # ys') s = app q (x # ys) s" by simp
qed

lemma refines_append: "refines n ys ys' \<Longrightarrow> refines n (xs @ ys) (xs @ ys')"
  by (induction xs) (simp_all add: refines_Cons)

lemma refines_drop_empty:
  assumes "getNewLength C r = 0" and "OffsetRange_length (replaceRange C r) = 0"
  shows "refines n (r # rs) rs"
  unfolding refines_def
proof (intro allI impI)
  fix q and s :: "'d list" assume v: "valid q (r # rs) n" "int (length s) = n - q"
  moreover from v have "dat r = []" "en r = st r"
    using assms newLength_dat [of r] by (simp_all add: OffsetRange_length_def)
  ultimately show "valid q rs n \<and> app q rs s = app q (r # rs) s"
    using app_advance [of "st r" rs n q s] valid_le [of "st r" rs n]
    by (auto intro: valid_weaken)
qed

lemma refines_join:
  assumes "endExclusive (replaceRange C l) = start (replaceRange C r)"
    and "tryJoinTouching C l r = Inr (Some x)"
  shows "refines n (l # r # rs) (x # rs)"
  unfolding refines_def
proof (intro allI impI)
  fix q and s :: "'d list" assume v: "valid q (l # r # rs) n" "int (length s) = n - q"
  then have "or_wf (replaceRange C l)" "or_wf (replaceRange C r)" by (simp_all add: or_wf_def)
  with join_touching [of l r] v(1) assms have x: "ok x" "st x = st l" "en x = en r" "dat x = dat l @ dat r"
    by auto
  moreover have "nat (en r - q) = nat (en r - en l) + nat (en l - q)"
    using v(1) assms(1) nat_add_distrib [of "en r - en l" "en l - q"] by simp
  ultimately show "valid q (x # rs) n \<and> app q (x # rs) s = app q (l # r # rs) s"
    using v(1) assms(1) by simp
qed

lemma normalize_loop_refines:
  assumes "valid p (out @ (case lastR of None \<Rightarrow> [] | Some l \<Rightarrow> [l]) @ rs) n"
  shows "\<exists>res. normalize_loop C out lastR rs = Inr res \<and>
    refines n (out @ (case lastR of None \<Rightarrow> [] | Some l \<Rightarrow> [l]) @ rs) res"
  using assms
proof (induction rs arbitrary: out lastR)
  case Nil
  then show ?case by (cases lastR) (simp_all add: refines_def)
next
  case (Cons r rs)
  let ?pend = "case lastR of None \<Rightarrow> [] | Some l \<Rightarrow> [l]"
  show ?case
  proof (cases "getNewLength C r = 0 \<and> OffsetRange_length (replaceRange C r) = 0")
    case True
    then have ref: "refines n (out @ ?pend @ r # rs) (out @ ?pend @ rs)"
      using refines_append [of n "r # rs" rs "out @ ?pend"] refines_drop_empty [of r n rs] by simp
    then have "valid p (out @ ?pend @ rs) n"
      using Cons.prems valid_le [OF Cons.prems] unfolding refines_def
      by (metis Ex_list_of_length diff_ge_0_iff_ge int_nat_eq)
    from Cons.IH [OF this] True ref show ?thesis
      by (auto intro: refines_trans)
  next
    case False
    show ?thesis
    proof (cases lastR)
      case None
      with Cons.IH [of out "Some r"] Cons.prems False show ?thesis by auto
    next
      case (Some l)
      define touch where "touch = (en l = st r)"
      have v: "valid p (out @ l # r # rs) n" using Cons.prems Some by simp
      then have vs: "ok l" "ok r" "or_wf (replaceRange C l)" "or_wf (replaceRange C r)"
        by (induction out arbitrary: p) (auto simp: or_wf_def)
      obtain j where j: "(if en l = st r then tryJoinTouching C l r else Inr None) = Inr j"
        using join_touching [OF vs] by (cases "en l = st r") auto
      show ?thesis
      proof (cases j)
        case None
        with Cons.IH [of "out @ [l]" "Some r"] v Some False j show ?thesis by auto
      next
        case (Some x)
        with j have x: "en l = st r" "tryJoinTouching C l r = Inr (Some x)"
          by (auto split: if_splits)
        have ref: "refines n (out @ l # r # rs) (out @ x # rs)"
          by (rule refines_append [OF refines_join [OF x]])
        then have "valid p (out @ x # rs) n"
          using v valid_le [OF v] unfolding refines_def
          by (metis Ex_list_of_length diff_ge_0_iff_ge int_nat_eq)
        with Cons.IH [of out "Some x"] x j False \<open>lastR = Some l\<close> ref Some show ?thesis
          by (auto intro: refines_trans)
      qed
    qed
  qed
qed

lemma normalize_spec:
  assumes "valid 0 rs n"
  shows "\<exists>rs'. BaseEdit_normalize C rs = Inr rs' \<and> valid 0 rs' n \<and>
    (\<forall>s. int (length s) = n \<longrightarrow> app 0 rs' s = app 0 rs s)"
proof -
  obtain rs' where rs': "normalize_loop C [] None rs = Inr rs'" "refines n rs rs'"
    using normalize_loop_refines [of 0 "[]" None rs n] assms by auto
  moreover have "valid 0 rs' n"
    using rs'(2) assms valid_le [OF assms] unfolding refines_def
    by (metis Ex_list_of_length diff_zero int_nat_eq)
  ultimately show ?thesis
    using assms valid_new [of rs' n] by (auto simp: BaseEdit_normalize_def refines_def)
qed

subsection \<open>Composing\<close>

text \<open>
  The first inner loop moves a prefix \<open>cs\<close> of the queue to the result.  The copied
  part turns the text before position \<open>p'\<close> into \<open>U\<close>.
\<close>

lemma compose_copy_spec:
  assumes "valid p q n" and "int (length s) = n - p" and "p + d \<le> st r2"
  shows "\<exists>q' d' cs p' U. compose_copy C r2 q d res = (q', d', res @ cs) \<and>
    p \<le> p' \<and> p' + d' \<le> st r2 \<and> valid p' q' n \<and> int (length U) = (p' + d') - (p + d) \<and>
    (q' = [] \<or> st r2 \<le> st (hd q') + d' + getNewLength C (hd q')) \<and>
    app p q s = U @ app p' q' (drop (nat (p' - p)) s) \<and>
    (\<forall>X. app p (cs @ X) s = U @ app p' X (drop (nat (p' - p)) s)) \<and>
    (\<forall>X. valid p' X n \<longrightarrow> valid p (cs @ X) n)"
  using assms
proof (induction q arbitrary: p s d res)
  case Nil
  then show ?case by - (rule exI [of _ "[]"], rule exI [of _ d], rule exI [of _ "[]"], rule exI [of _ p], simp)
next
  case (Cons r1 q)
  show ?case
  proof (cases "start (replaceRange C r1) + d + getNewLength C r1 \<ge> start (replaceRange C r2)")
    case True
    with Cons.prems show ?thesis
      by - (rule exI [of _ "r1 # q"], rule exI [of _ d], rule exI [of _ "[]"], rule exI [of _ p], rule exI [of _ "[]"], simp)
  next
    case False
    let ?d = "d + (getNewLength C r1 - OffsetRange_length (replaceRange C r1))"
    let ?s = "drop (nat (en r1 - p)) s"
    have len: "getNewLength C r1 = int (length (dat r1))" using Cons.prems newLength_dat by simp
    have v: "valid (en r1) q n" "p \<le> st r1" "st r1 \<le> en r1" "en r1 \<le> n"
      using Cons.prems valid_le [of "en r1" q n] by auto
    have "int (length ?s) = n - en r1" using Cons.prems v by auto
    moreover have "en r1 + ?d \<le> st r2" using False by (simp add: OffsetRange_length_def)
    ultimately obtain q' d' cs p' U where *: "compose_copy C r2 q ?d (res @ [r1]) = (q', d', (res @ [r1]) @ cs)"
      "en r1 \<le> p'" "p' + d' \<le> st r2" "valid p' q' n" "int (length U) = (p' + d') - (en r1 + ?d)"
      "q' = [] \<or> st r2 \<le> st (hd q') + d' + getNewLength C (hd q')"
      "app (en r1) q ?s = U @ app p' q' (drop (nat (p' - en r1)) ?s)"
      "\<forall>X. app (en r1) (cs @ X) ?s = U @ app p' X (drop (nat (p' - en r1)) ?s)"
      "\<forall>X. valid p' X n \<longrightarrow> valid (en r1) (cs @ X) n"
      using Cons.IH [OF v(1), of ?s ?d "res @ [r1]"] by metis
    let ?U = "take (nat (st r1 - p)) s @ dat r1 @ U"
    have drp: "drop (nat (p' - en r1)) ?s = drop (nat (p' - p)) s"
    proof -
      have "nat (p' - p) = nat (p' - en r1) + nat (en r1 - p)"
        using *(2) v nat_add_distrib [of "p' - en r1" "en r1 - p"] by simp
      then show ?thesis by simp
    qed
    have "int (length ?U) = (p' + d') - (p + d)"
      using *(5) v Cons.prems(2) by (simp add: len OffsetRange_length_def)
    moreover have "compose_copy C r2 (r1 # q) d res = (q', d', res @ r1 # cs)"
      using *(1) False by simp
    moreover have "app p (r1 # q) s = ?U @ app p' q' (drop (nat (p' - p)) s)"
      using *(7) drp by simp
    moreover have "\<forall>X. app p ((r1 # cs) @ X) s = ?U @ app p' X (drop (nat (p' - p)) s)"
      using *(8) drp by simp
    moreover have "\<forall>X. valid p' X n \<longrightarrow> valid p ((r1 # cs) @ X) n"
      using *(9) v Cons.prems(1) by simp
    moreover have "p \<le> p'" using *(2) v by simp
    ultimately show ?thesis using *(3,4,6) by blast
  qed
qed

text \<open>
  The second inner loop takes a prefix \<open>ms\<close> off the queue.  The text it produces for the
  stretch from the start of the first to the end of the last taken replacement begins
  with the data of the first and ends with the data of the last.
\<close>

lemma compose_intersect_spec:
  assumes "valid p q n" and "int (length s) = n - p"
  shows "\<exists>q' d' ms. compose_intersect C r2 q d first lastR =
      (q', d', (case first of Some f \<Rightarrow> Some f | None \<Rightarrow> if ms = [] then None else Some (hd ms)),
       if ms = [] then lastR else Some (last ms)) \<and>
    q = ms @ q' \<and> (q' = [] \<or> en r2 < st (hd q') + d') \<and>
    (ms = [] \<longrightarrow> d' = d) \<and>
    (ms \<noteq> [] \<longrightarrow> p \<le> st (hd ms) \<and> st (hd ms) \<le> en (last ms) \<and> st (last ms) \<le> en (last ms) \<and>
       st (hd ms) + d \<le> en r2 \<and>
       st (last ms) + (d' - (getNewLength C (last ms) - OffsetRange_length (replaceRange C (last ms)))) \<le> en r2 \<and>
       ok (hd ms) \<and> ok (last ms) \<and> valid (en (last ms)) q' n \<and>
       (\<exists>W W'. dat (hd ms) @ W = W' @ dat (last ms) \<and>
          int (length (W' @ dat (last ms))) = (en (last ms) + d') - (st (hd ms) + d) \<and>
          app p q s = take (nat (st (hd ms) - p)) s @ W' @ dat (last ms) @
            app (en (last ms)) q' (drop (nat (en (last ms) - p)) s)))"
  using assms
proof (induction q arbitrary: p s d first lastR)
  case Nil
  then show ?case by (simp split: option.split)
next
  case (Cons r1 q)
  show ?case
  proof (cases "start (replaceRange C r1) + d > endExclusive (replaceRange C r2)")
    case True
    then show ?thesis by - (rule exI [of _ "r1 # q"], rule exI [of _ d], rule exI [of _ "[]"], simp split: option.split)
  next
    case False
    let ?d = "d + (getNewLength C r1 - OffsetRange_length (replaceRange C r1))"
    let ?s = "drop (nat (en r1 - p)) s"
    have len: "getNewLength C r1 = int (length (dat r1))" using Cons.prems newLength_dat by simp
    have v: "valid (en r1) q n" "p \<le> st r1" "st r1 \<le> en r1" "en r1 \<le> n" "ok r1"
      using Cons.prems valid_le [of "en r1" q n] by auto
    have s: "int (length ?s) = n - en r1" using Cons.prems v by auto
    define f where "f = (case first of None \<Rightarrow> Some r1 | Some f \<Rightarrow> Some f)"
    from Cons.IH [OF v(1) s, of ?d f "Some r1"]
    obtain q' d' ms where *: "compose_intersect C r2 q ?d f (Some r1) =
        (q', d', (case f of Some f \<Rightarrow> Some f | None \<Rightarrow> if ms = [] then None else Some (hd ms)),
         if ms = [] then Some r1 else Some (last ms))"
      "q = ms @ q'" "q' = [] \<or> en r2 < st (hd q') + d'" "ms = [] \<longrightarrow> d' = ?d"
      and ms: "ms \<noteq> [] \<longrightarrow> en r1 \<le> st (hd ms) \<and> st (hd ms) \<le> en (last ms) \<and> st (last ms) \<le> en (last ms) \<and>
       st (hd ms) + ?d \<le> en r2 \<and>
       st (last ms) + (d' - (getNewLength C (last ms) - OffsetRange_length (replaceRange C (last ms)))) \<le> en r2 \<and>
       ok (hd ms) \<and> ok (last ms) \<and> valid (en (last ms)) q' n \<and>
       (\<exists>W W'. dat (hd ms) @ W = W' @ dat (last ms) \<and>
          int (length (W' @ dat (last ms))) = (en (last ms) + d') - (st (hd ms) + ?d) \<and>
          app (en r1) q ?s = take (nat (st (hd ms) - en r1)) ?s @ W' @ dat (last ms) @
            app (en (last ms)) q' (drop (nat (en (last ms) - en r1)) ?s))"
      by blast
    let ?ms = "r1 # ms"
    have step: "compose_intersect C r2 (r1 # q) d first lastR =
        (q', d', (case first of Some f \<Rightarrow> Some f | None \<Rightarrow> if ?ms = [] then None else Some (hd ?ms)),
         if ?ms = [] then lastR else Some (last ?ms))"
      using *(1) False by (auto simp: f_def split: option.splits)
    show ?thesis
    proof (cases "ms = []")
      case True
      then have eq: "q' = q" "d' = ?d" using *(2,4) by simp_all
      have "\<exists>W W'. dat r1 @ W = W' @ dat r1 \<and>
          int (length (W' @ dat r1)) = (en r1 + d') - (st r1 + d) \<and>
          app p (r1 # q) s = take (nat (st r1 - p)) s @ W' @ dat r1 @ app (en r1) q' ?s"
        using eq len by (intro exI [of _ "[]"]) (simp add: OffsetRange_length_def)
      with step True *(3) v False eq show ?thesis
        by - (rule exI [of _ q'], rule exI [of _ d'], rule exI [of _ "?ms"],
          simp add: OffsetRange_length_def del: compose_intersect.simps edit_app.simps)
    next
      case ne: False
      with ms obtain W W' where m: "en r1 \<le> st (hd ms)" "st (hd ms) \<le> en (last ms)"
        and W: "dat (hd ms) @ W = W' @ dat (last ms)"
          "int (length (W' @ dat (last ms))) = (en (last ms) + d') - (st (hd ms) + ?d)"
          "app (en r1) q ?s = take (nat (st (hd ms) - en r1)) ?s @ W' @ dat (last ms) @
            app (en (last ms)) q' (drop (nat (en (last ms) - en r1)) ?s)" by blast
      let ?A = "take (nat (st (hd ms) - en r1)) ?s"
      have n: "en (last ms) \<le> n" using ne ms valid_le by blast
      have "int (length ?A) = st (hd ms) - en r1" using s m n by simp
      then have "int (length ((dat r1 @ ?A @ W') @ dat (last ms))) = (en (last ms) + d') - (st r1 + d)"
        using W(2) len by (simp add: OffsetRange_length_def)
      moreover have "drop (nat (en (last ms) - en r1)) ?s = drop (nat (en (last ms) - p)) s"
      proof -
        have "nat (en (last ms) - p) = nat (en (last ms) - en r1) + nat (en r1 - p)"
          using m v nat_add_distrib [of "en (last ms) - en r1" "en r1 - p"] by simp
        then show ?thesis by simp
      qed
      then have "app p (r1 # q) s = take (nat (st r1 - p)) s @ (dat r1 @ ?A @ W') @ dat (last ms) @
            app (en (last ms)) q' (drop (nat (en (last ms) - p)) s)"
        using W(3) by simp
      moreover have "dat r1 @ (?A @ W' @ dat (last ms)) = (dat r1 @ ?A @ W') @ dat (last ms)" by simp
      ultimately have "\<exists>W W'. dat r1 @ W = W' @ dat (last ms) \<and>
          int (length (W' @ dat (last ms))) = (en (last ms) + d') - (st r1 + d) \<and>
          app p (r1 # q) s = take (nat (st r1 - p)) s @ W' @ dat (last ms) @
            app (en (last ms)) q' (drop (nat (en (last ms) - p)) s)" by blast
      then show ?thesis
        using step *(2,3) ms ne v m False
        by - (rule exI [of _ q'], rule exI [of _ d'], rule exI [of _ "?ms"], simp)
    qed
  qed
qed

lemma compose_merge_disjoint:
  assumes "valid p q n" and "int (length s) = n - p"
    and "p + d \<le> st r2" "st r2 \<le> en r2" "ok r2" "en r2 \<le> p + d + int (length (app p q s))"
    and "compose_intersect C r2 q d None None = (q, d, None, None)"
    and "q = [] \<or> en r2 < st (hd q) + d"
  shows "\<exists>q' d' new p'. compose_merge C r2 q d res = Inr (q', d', res @ new) \<and>
    p \<le> p' \<and> valid p' q' n \<and> p' + d' = en r2 \<and>
    (\<forall>X. valid p' X n \<longrightarrow> valid p (new @ X) n) \<and>
    (\<forall>X. app p (new @ X) s = take (nat (st r2 - (p + d))) (app p q s) @ dat r2 @
            app p' X (drop (nat (p' - p)) s)) \<and>
    drop (nat (en r2 - (p + d))) (app p q s) = app p' q' (drop (nat (p' - p)) s)"
proof -
  let ?p = "en r2 - d"
  have q: "valid ?p q n"
  proof (cases q)
    case Nil
    with assms(2,6) show ?thesis by simp
  next
    case (Cons r1 q')
    with assms(1,8) show ?thesis by simp
  qed
  obtain x where x: "slice_replacement C r2 \<lparr>start = st r2 - d, endExclusive = en r2 - d\<rparr>
      (Some \<lparr>start = 0, endExclusive = int (length (dat r2))\<rparr>) = Inr x"
    "ok x" "replaceRange C x = \<lparr>start = st r2 - d, endExclusive = en r2 - d\<rparr>" "dat x = dat r2"
    using slice_whole [OF assms(5), of "\<lparr>start = st r2 - d, endExclusive = en r2 - d\<rparr>"] assms(4)
    by (auto simp: or_wf_def)
  have step: "compose_merge C r2 q d res = Inr (q, d, res @ [x])"
    using assms(4,5,7) x(1)
    by (simp add: compose_merge_def BaseReplacement_delta_def OffsetRange_delta_def newLength_dat)
  have le: "p \<le> ?p" "?p - p \<le> int (length s)"
    using assms(2,3,4) valid_le [OF q] by linarith+
  note adv = app_advance [OF q le]
  have len: "length (take (nat (?p - p)) s) = nat (?p - p)" using le by simp
  have "take (nat (st r2 - (p + d))) (app p q s) = take (nat (st r2 - d - p)) s"
    using adv assms(3,4) len by (simp add: algebra_simps min_def nat_mono)
  moreover have "drop (nat (en r2 - (p + d))) (app p q s) = app ?p q (drop (nat (?p - p)) s)"
    using adv len by (simp add: algebra_simps)
  ultimately have "\<forall>X. app p ([x] @ X) s = take (nat (st r2 - (p + d))) (app p q s) @ dat r2 @
      app ?p X (drop (nat (?p - p)) s)" using x by simp
  moreover have "\<forall>X. valid ?p X n \<longrightarrow> valid p ([x] @ X) n" using x assms(3,4) by simp
  ultimately show ?thesis
    using step q le \<open>drop _ (app p q s) = _\<close>
    by - (rule exI [of _ q], rule exI [of _ d], rule exI [of _ "[x]"], rule exI [of _ ?p], simp)
qed

text \<open>The part of the first intersecting replacement before \<open>r2\<close>.\<close>

lemma compose_prefix:
  fixes F r2 :: 'r and p d :: int and s :: "'d list"
  defines "ns \<equiv> min (st F) (st r2 - d)" and "pl \<equiv> st r2 - (st F + d)"
  assumes F: "ok F" "p \<le> st F" "st F - p \<le> int (length s)" and "p + d \<le> st r2"
    and pl: "pl \<le> int (length (dat F))"
    and T: "T = take (nat (st F - p)) s @ dat F @ R"
  shows "\<exists>pre. (if pl > 0 then
        bindE (OffsetRange_emptyAt ns) (\<lambda>rng.
        bindE (new_OffsetRange 0 pl) (\<lambda>part.
        bindE (slice_replacement C F rng (Some part)) (\<lambda>prefix. Inr (res @ [prefix]))))
      else Inr res) = Inr (res @ pre) \<and>
    (\<forall>m X. ok m \<longrightarrow> st m = ns \<longrightarrow> ns \<le> en m \<longrightarrow>
       (valid (en m) X n \<longrightarrow> valid p (pre @ m # X) n) \<and>
       app p (pre @ m # X) s =
         take (nat (st r2 - (p + d))) T @ dat m @ app (en m) X (drop (nat (en m - p)) s))"
proof (cases "pl > 0")
  case True
  then have ns: "ns = st F" by (simp add: ns_def pl_def)
  obtain x where x: "slice_replacement C F \<lparr>start = ns, endExclusive = ns\<rparr>
      (Some \<lparr>start = 0, endExclusive = pl\<rparr>) = Inr x" "ok x"
    "replaceRange C x = \<lparr>start = ns, endExclusive = ns\<rparr>" "dat x = take (nat pl) (dat F)"
    using slice_dat [of F "\<lparr>start = ns, endExclusive = ns\<rparr>" 0 pl] F pl True
    by (auto simp: or_wf_def)
  have "length (take (nat (st F - p)) s) = nat (st F - p)" using F by simp
  moreover have "nat (st r2 - (p + d)) = nat (st F - p) + nat pl"
    using F True by (simp add: pl_def)
  ultimately have "take (nat (st r2 - (p + d))) T = take (nat (st F - p)) s @ take (nat pl) (dat F)"
    using pl by (simp add: T)
  moreover have "nat (en m - p) = nat (en m - st F) + nat (st F - p)" if "st F \<le> en m" for m
    using that F(2) nat_add_distrib [of "en m - st F" "st F - p"] by simp
  ultimately show ?thesis
    using True x F ns by - (rule exI [of _ "[x]"], simp add: OffsetRange_emptyAt_def)
next
  case False
  then have ns: "ns = st r2 - d" by (simp add: ns_def pl_def)
  have "nat (st r2 - (p + d)) \<le> length (take (nat (st F - p)) s)"
    using F False by (simp add: pl_def)
  then have "take (nat (st r2 - (p + d))) T = take (nat (st r2 - (p + d))) (take (nat (st F - p)) s)"
    unfolding T by (simp del: take_take length_take)
  also have "\<dots> = take (nat (ns - p)) s"
    using False F unfolding ns pl_def by (simp add: min_def algebra_simps)
  finally show ?thesis
    using False ns assms(6) by - (rule exI [of _ "[]"], simp)
qed

text \<open>The part of the last intersecting replacement after \<open>r2\<close> goes back to the queue.\<close>

lemma compose_suffix:
  fixes L r2 :: 'r and p d d2 :: int and sL :: "'d list"
  defines "sl \<equiv> en L + d2 - en r2"
  assumes L: "ok L" "p + d \<le> en r2" "sl \<le> int (length (dat L))"
    and q2: "valid (en L) q2 n" "int (length sL) = n - en L" "q2 = [] \<or> en r2 < st (hd q2) + d2"
    and T: "T = (G @ dat L) @ app (en L) q2 sL" "int (length (G @ dat L)) = en L + d2 - (p + d)"
      "en r2 \<le> p + d + int (length T)"
  shows "\<exists>q3 d3. (if sl > 0 then
        bindE (OffsetRange_ofStartAndLength (en L) 0) (\<lambda>rng.
        bindE (new_OffsetRange (getNewLength C L - sl) (getNewLength C L)) (\<lambda>part.
        bindE (slice_replacement C L rng (Some part)) (\<lambda>e.
          Inr (e # q2, d2 - (getNewLength C e - OffsetRange_length (replaceRange C e))))))
      else Inr (q2, d2)) = Inr (q3, d3) \<and>
    en L \<le> en r2 - d3 \<and> valid (en r2 - d3) q3 n \<and>
    drop (nat (en r2 - (p + d))) T = app (en r2 - d3) q3 (drop (nat (en r2 - d3 - en L)) sL)"
proof (cases "sl > 0")
  case True
  let ?k = "int (length (dat L))"
  obtain y where y: "slice_replacement C L \<lparr>start = en L, endExclusive = en L\<rparr>
      (Some \<lparr>start = ?k - sl, endExclusive = ?k\<rparr>) = Inr y" "ok y"
    "replaceRange C y = \<lparr>start = en L, endExclusive = en L\<rparr>"
    "dat y = take (nat (?k - (?k - sl))) (drop (nat (?k - sl)) (dat L))"
    using slice_dat [of L "\<lparr>start = en L, endExclusive = en L\<rparr>" "?k - sl" ?k] L True
    by (auto simp: or_wf_def)
  have daty: "dat y = drop (nat (?k - sl)) (dat L)"
    using y(4) L True by simp
  have leny: "getNewLength C y = sl"
    using newLength_dat [OF y(2)] L(3) True by (simp add: daty)
  have "nat (en r2 - (p + d)) = length G + nat (?k - sl)"
    using T(2) L(3) by (simp add: sl_def)
  then have "drop (nat (en r2 - (p + d))) T = dat y @ app (en L) q2 sL"
    using L(3) True by (simp add: T(1) daty)
  moreover have "d2 - (getNewLength C y - OffsetRange_length (replaceRange C y)) = d2 - sl"
    using leny y(3) by (simp add: OffsetRange_length_def)
  ultimately show ?thesis
    using True y(1,2,3) q2(1)
    by - (rule exI [of _ "y # q2"], rule exI [of _ "d2 - sl"],
      simp add: OffsetRange_ofStartAndLength_def newLength_dat [OF L(1)] sl_def)
next
  case False
  have v: "valid (en r2 - d2) q2 n"
  proof (cases q2)
    case Nil
    with T q2 show ?thesis by simp
  next
    case (Cons r q)
    with q2 show ?thesis by simp
  qed
  have le: "en L \<le> en r2 - d2" "en r2 - d2 - en L \<le> int (length sL)"
    using False valid_le [OF v] q2(2) by (simp_all add: sl_def)
  have "nat (en r2 - (p + d)) = length (G @ dat L) + nat (en r2 - d2 - en L)"
    using T(2) le by linarith
  then have "drop (nat (en r2 - (p + d))) T = drop (nat (en r2 - d2 - en L)) (app (en L) q2 sL)"
    by (simp add: T(1))
  also have "\<dots> = app (en r2 - d2) q2 (drop (nat (en r2 - d2 - en L)) sL)"
    using app_advance [OF v le] le by simp
  finally show ?thesis using False v le by - (rule exI [of _ q2], rule exI [of _ d2], simp)
qed

text \<open>
  One round of the loop over the second edit.  \<open>T\<close> is the text after the first edit from
  position \<open>p + d\<close> on; the round emits what \<open>r2\<close> makes of it and leaves a queue that
  produces the rest of \<open>T\<close>.
\<close>

definition round_ok :: "int \<Rightarrow> int \<Rightarrow> 'd list \<Rightarrow> int \<Rightarrow> 'r list \<Rightarrow> 'r \<Rightarrow> 'r list \<Rightarrow> int \<Rightarrow> 'r list \<Rightarrow> bool" where
  "round_ok n p s d q r2 q' d' new \<longleftrightarrow> (\<exists>p'.
     p \<le> p' \<and> valid p' q' n \<and> p' + d' = en r2 \<and>
     (\<forall>X. valid p' X n \<longrightarrow> valid p (new @ X) n) \<and>
     (\<forall>X. app p (new @ X) s = take (nat (st r2 - (p + d))) (app p q s) @ dat r2 @
             app p' X (drop (nat (p' - p)) s)) \<and>
     drop (nat (en r2 - (p + d))) (app p q s) = app p' q' (drop (nat (p' - p)) s))"

lemma compose_merge_spec:
  assumes q: "valid p q n" "int (length s) = n - p"
    and r2: "p + d \<le> st r2" "st r2 \<le> en r2" "ok r2" "en r2 \<le> p + d + int (length (app p q s))"
    and head: "q = [] \<or> st r2 \<le> st (hd q) + d + getNewLength C (hd q)"
  shows "\<exists>q' d' new. compose_merge C r2 q d res = Inr (q', d', res @ new) \<and>
    round_ok n p s d q r2 q' d' new"
proof -
  from compose_intersect_spec [OF q, of r2 d None None, unfolded option.case]
  obtain q2 d2 ms where i: "compose_intersect C r2 q d None None =
      (q2, d2, (if ms = [] then None else Some (hd ms)), if ms = [] then None else Some (last ms))"
    and qs: "q = ms @ q2" "q2 = [] \<or> en r2 < st (hd q2) + d2" "ms = [] \<longrightarrow> d2 = d"
    and ms: "ms \<noteq> [] \<longrightarrow> p \<le> st (hd ms) \<and> st (hd ms) \<le> en (last ms) \<and> st (last ms) \<le> en (last ms) \<and>
       st (hd ms) + d \<le> en r2 \<and>
       st (last ms) + (d2 - (getNewLength C (last ms) - OffsetRange_length (replaceRange C (last ms)))) \<le> en r2 \<and>
       ok (hd ms) \<and> ok (last ms) \<and> valid (en (last ms)) q2 n \<and>
       (\<exists>W W'. dat (hd ms) @ W = W' @ dat (last ms) \<and>
          int (length (W' @ dat (last ms))) = (en (last ms) + d2) - (st (hd ms) + d) \<and>
          app p q s = take (nat (st (hd ms) - p)) s @ W' @ dat (last ms) @
            app (en (last ms)) q2 (drop (nat (en (last ms) - p)) s))"
    by (elim exE conjE)
  show ?thesis
  proof (cases "ms = []")
    case True
    then show ?thesis
      using compose_merge_disjoint [OF q r2, of res] i qs unfolding round_ok_def by auto
  next
    case False
    let ?F = "hd ms" and ?L = "last ms" and ?T = "app p q s"
    let ?ns = "min (st ?F) (st r2 - d)"
    let ?sL = "drop (nat (en ?L - p)) s"
    from ms [rule_format, OF False] obtain W W' where
      F: "p \<le> st ?F" "ok ?F" "st ?F \<le> en ?L" "st ?F + d \<le> en r2"
      and L: "ok ?L" "st ?L \<le> en ?L" "valid (en ?L) q2 n"
        "st ?L + (d2 - (getNewLength C ?L - OffsetRange_length (replaceRange C ?L))) \<le> en r2"
      and W: "dat ?F @ W = W' @ dat ?L"
        "int (length (W' @ dat ?L)) = (en ?L + d2) - (st ?F + d)"
        "?T = take (nat (st ?F - p)) s @ W' @ dat ?L @ app (en ?L) q2 ?sL"
      by blast
    have n: "en ?L \<le> n" using valid_le [OF L(3)] .
    have hdq: "hd q = ?F" "q \<noteq> []" using False qs(1) by simp_all
    have stF: "st ?F - p \<le> int (length s)" using n F(3) q(2) by linarith
    have plen: "st r2 - (st ?F + d) \<le> int (length (dat ?F))"
      using head hdq newLength_dat [OF F(2)] by simp
    have T1: "?T = take (nat (st ?F - p)) s @ dat ?F @ (W @ app (en ?L) q2 ?sL)"
      using W(1,3) by (metis append_assoc)
    obtain pre where pre: "(if st r2 - (st ?F + d) > 0 then
        bindE (OffsetRange_emptyAt ?ns) (\<lambda>rng.
        bindE (new_OffsetRange 0 (st r2 - (st ?F + d))) (\<lambda>part.
        bindE (slice_replacement C ?F rng (Some part)) (\<lambda>prefix. Inr (res @ [prefix]))))
      else Inr res) = Inr (res @ pre)"
      and pre_app: "\<And>m X. ok m \<Longrightarrow> st m = ?ns \<Longrightarrow> ?ns \<le> en m \<Longrightarrow>
       (valid (en m) X n \<longrightarrow> valid p (pre @ m # X) n) \<and>
       app p (pre @ m # X) s =
         take (nat (st r2 - (p + d))) ?T @ dat m @ app (en m) X (drop (nat (en m - p)) s)"
      using compose_prefix [OF F(2,1) stF r2(1) plen T1, of res n] by (elim exE conjE) (rule that, auto)
    have T2: "?T = ((take (nat (st ?F - p)) s @ W') @ dat ?L) @ app (en ?L) q2 ?sL"
      using W(3) by simp
    have lenT2: "int (length ((take (nat (st ?F - p)) s @ W') @ dat ?L)) = en ?L + d2 - (p + d)"
      using W(2) stF F(1) by simp
    have slen: "en ?L + d2 - en r2 \<le> int (length (dat ?L))"
      using L(2,4) newLength_dat [OF L(1)] by (simp add: OffsetRange_length_def)
    have lsL: "int (length ?sL) = n - en ?L" using q(2) n F by simp
    obtain q3 d3 where suf: "(if en ?L + d2 - en r2 > 0 then
        bindE (OffsetRange_ofStartAndLength (en ?L) 0) (\<lambda>rng.
        bindE (new_OffsetRange (getNewLength C ?L - (en ?L + d2 - en r2)) (getNewLength C ?L)) (\<lambda>part.
        bindE (slice_replacement C ?L rng (Some part)) (\<lambda>e.
          Inr (e # q2, d2 - (getNewLength C e - OffsetRange_length (replaceRange C e))))))
      else Inr (q2, d2)) = Inr (q3, d3)"
      and s3: "en ?L \<le> en r2 - d3" "valid (en r2 - d3) q3 n"
        "drop (nat (en r2 - (p + d))) ?T = app (en r2 - d3) q3 (drop (nat (en r2 - d3 - en ?L)) ?sL)"
      using compose_suffix [OF L(1) _ slen L(3) lsL qs(2) T2 lenT2 r2(4)] F r2(1,2) by auto
    let ?R = "\<lparr>start = ?ns, endExclusive = en r2 - d3\<rparr>"
    have R: "?ns \<le> en r2 - d3" using s3(1) F(3) by linarith
    obtain m where m: "slice_replacement C r2 ?R
        (Some \<lparr>start = 0, endExclusive = int (length (dat r2))\<rparr>) = Inr m"
      "ok m" "replaceRange C m = ?R" "dat m = dat r2"
      using slice_whole [OF r2(3), of ?R] R by (auto simp: or_wf_def)
    have "compose_merge C r2 q d res = Inr (q3, d3, res @ pre @ [m])"
      using i False pre suf m(1) R newLength_dat [OF r2(3)]
      by (simp add: compose_merge_def)
    moreover have "round_ok n p s d q r2 q3 d3 (pre @ [m])"
    proof -
      have "nat (en r2 - d3 - en ?L) + nat (en ?L - p) = nat (en r2 - d3 - p)"
        using s3(1) F nat_add_distrib [of "en r2 - d3 - en ?L" "en ?L - p"] by simp
      then have "drop (nat (en r2 - (p + d))) ?T = app (en r2 - d3) q3 (drop (nat (en r2 - d3 - p)) s)"
        using s3(3) by simp
      moreover have "p \<le> en r2 - d3" using s3(1) F by simp
      ultimately show ?thesis
        unfolding round_ok_def using s3(2) pre_app [OF m(2)] m(3,4) R
        by - (rule exI [of _ "en r2 - d3"], simp)
    qed
    ultimately show ?thesis by blast
  qed
qed

lemma compose_step_spec:
  assumes q: "valid p q n" "int (length s) = n - p"
    and r2: "p + d \<le> st r2" "st r2 \<le> en r2" "ok r2" "en r2 \<le> p + d + int (length (app p q s))"
  shows "\<exists>q' d' new. compose_step C (q, d, res) r2 = Inr (q', d', res @ new) \<and>
    round_ok n p s d q r2 q' d' new"
proof -
  from compose_copy_spec [OF q r2(1), of res]
  obtain q1 d1 cs p1 U where c: "compose_copy C r2 q d res = (q1, d1, res @ cs)"
    "p \<le> p1" "p1 + d1 \<le> st r2" "valid p1 q1 n" "int (length U) = (p1 + d1) - (p + d)"
    "q1 = [] \<or> st r2 \<le> st (hd q1) + d1 + getNewLength C (hd q1)"
    "app p q s = U @ app p1 q1 (drop (nat (p1 - p)) s)"
    "\<forall>X. app p (cs @ X) s = U @ app p1 X (drop (nat (p1 - p)) s)"
    "\<forall>X. valid p1 X n \<longrightarrow> valid p (cs @ X) n"
    by (elim exE conjE)
  let ?s = "drop (nat (p1 - p)) s"
  have s: "int (length ?s) = n - p1" using q(2) c(2) valid_le [OF c(4)] by simp
  have "en r2 \<le> p1 + d1 + int (length (app p1 q1 ?s))" using r2(4) c(5,7) by simp
  from compose_merge_spec [OF c(4) s c(3) r2(2,3) this c(6), of "res @ cs"]
  obtain q' d' new where m: "compose_merge C r2 q1 d1 (res @ cs) = Inr (q', d', (res @ cs) @ new)"
    "round_ok n p1 ?s d1 q1 r2 q' d' new" by blast
  then obtain p' where r: "p1 \<le> p'" "valid p' q' n" "p' + d' = en r2"
     "\<forall>X. valid p' X n \<longrightarrow> valid p1 (new @ X) n"
     "\<forall>X. app p1 (new @ X) ?s = take (nat (st r2 - (p1 + d1))) (app p1 q1 ?s) @ dat r2 @
             app p' X (drop (nat (p' - p1)) ?s)"
     "drop (nat (en r2 - (p1 + d1))) (app p1 q1 ?s) = app p' q' (drop (nat (p' - p1)) ?s)"
    unfolding round_ok_def by blast
  have drp: "drop (nat (p' - p1)) ?s = drop (nat (p' - p)) s"
    using r(1) c(2) nat_add_distrib [of "p' - p1" "p1 - p"] by simp
  have off: "nat (st r2 - (p + d)) = length U + nat (st r2 - (p1 + d1))"
    "nat (en r2 - (p + d)) = length U + nat (en r2 - (p1 + d1))"
    using c(3,5) r2(2) by linarith+
  have "round_ok n p s d q r2 q' d' (cs @ new)"
    unfolding round_ok_def
  proof (intro exI [of _ p'] conjI allI impI)
    show "drop (nat (en r2 - (p + d))) (app p q s) = app p' q' (drop (nat (p' - p)) s)"
      using r(6) [unfolded drp] by (simp add: off c(7))
    fix X
    show "app p ((cs @ new) @ X) s = take (nat (st r2 - (p + d))) (app p q s) @ dat r2 @
        app p' X (drop (nat (p' - p)) s)"
      using r(5) [unfolded drp] c(8) by (simp add: off c(7))
  qed (use r c in simp_all)
  moreover have "compose_step C (q, d, res) r2 = Inr (q', d', res @ cs @ new)"
    using c(1) m(1) by (simp add: compose_step_def)
  ultimately show ?thesis by blast
qed

lemma compose_loop_spec:
  assumes "valid p q n" and "int (length s) = n - p"
    and "valid (p + d) es (p + d + int (length (app p q s)))"
  shows "\<exists>q' d' tail. foldE (compose_step C) (q, d, res) es = Inr (q', d', res @ tail) \<and>
    valid p (tail @ q') n \<and> app p (tail @ q') s = app (p + d) es (app p q s)"
  using assms
proof (induction es arbitrary: p q d s res)
  case Nil
  then show ?case by simp
next
  case (Cons r2 es)
  let ?T = "app p q s" and ?N = "p + d + int (length (app p q s))"
  have r2: "p + d \<le> st r2" "st r2 \<le> en r2" "ok r2" "valid (en r2) es ?N"
    using Cons.prems(3) by simp_all
  have le: "en r2 \<le> ?N" using valid_le [OF r2(4)] .
  from compose_step_spec [OF Cons.prems(1,2) r2(1,2,3) le, of res]
  obtain q' d' new where step: "compose_step C (q, d, res) r2 = Inr (q', d', res @ new)"
    and "round_ok n p s d q r2 q' d' new" by blast
  then obtain p' where r: "p \<le> p'" "valid p' q' n" "p' + d' = en r2"
     "\<forall>X. valid p' X n \<longrightarrow> valid p (new @ X) n"
     "\<forall>X. app p (new @ X) s = take (nat (st r2 - (p + d))) ?T @ dat r2 @
             app p' X (drop (nat (p' - p)) s)"
     "drop (nat (en r2 - (p + d))) ?T = app p' q' (drop (nat (p' - p)) s)"
    unfolding round_ok_def by blast
  let ?s = "drop (nat (p' - p)) s"
  have s: "int (length ?s) = n - p'" using Cons.prems(2) r(1) valid_le [OF r(2)] by simp
  have "int (length (app p' q' ?s)) = ?N - en r2"
    using arg_cong [OF r(6), of length] r2 le by simp
  then have "valid (p' + d') es (p' + d' + int (length (app p' q' ?s)))"
    using r2(4) r(3) by simp
  from Cons.IH [OF r(2) s this, of "res @ new"]
  obtain q'' d'' tail where t: "foldE (compose_step C) (q', d', res @ new) es = Inr (q'', d'', (res @ new) @ tail)"
    "valid p' (tail @ q'') n" "app p' (tail @ q'') ?s = app (p' + d') es (app p' q' ?s)" by blast
  have "app p ((new @ tail) @ q'') s = app (p + d) (r2 # es) ?T"
    using r(5) [rule_format, of "tail @ q''"] t(3) r(3,6) by simp
  moreover have "valid p ((new @ tail) @ q'') n" using r(4) t(2) by simp
  moreover have "foldE (compose_step C) (q, d, res) (r2 # es) = Inr (q'', d'', res @ new @ tail)"
    using step t(1) by simp
  ultimately show ?case by blast
qed

text \<open>Composing never throws on valid edits and has the effect of the two edits in order.\<close>

lemma compose_spec:
  assumes e1: "valid 0 e1 n" and e2: "valid 0 e2 (n + shift e1)"
  shows "\<exists>e. BaseEdit_compose C e1 e2 = Inr e \<and> valid 0 e n \<and>
    (\<forall>s. int (length s) = n \<longrightarrow> app 0 e s = app 0 e2 (app 0 e1 s))"
proof -
  let ?m = "n + shift e1"
  from normalize_spec [OF e1] obtain a where a: "BaseEdit_normalize C e1 = Inr a" "valid 0 a n"
    "\<And>s. int (length s) = n \<Longrightarrow> app 0 a s = app 0 e1 s" by blast
  from normalize_spec [OF e2] obtain b where b: "BaseEdit_normalize C e2 = Inr b" "valid 0 b ?m"
    "\<And>s. int (length s) = ?m \<Longrightarrow> app 0 b s = app 0 e2 s" by blast
  have len: "int (length (app 0 e1 s)) = ?m" if "int (length s) = n" for s
    using length_app [OF e1] that by simp
  have n: "0 \<le> n" using valid_le [OF e1] .
  then obtain s0 :: "'d list" where s0: "int (length s0) = n" by (metis Ex_list_of_length int_nat_eq)
  have shift_a: "shift a = shift e1"
    using length_app [OF a(2), of s0] length_app [OF e1, of s0] a(3) [OF s0] s0 by simp
  consider "a = []" | "a \<noteq> []" "b = []" | "a \<noteq> []" "b \<noteq> []" by blast
  then show ?thesis
  proof cases
    case 1
    with a b len shift_a show ?thesis
      by (auto simp: BaseEdit_compose_def BaseEdit_isEmpty_def)
  next
    case 2
    with a b len show ?thesis
      by (auto simp: BaseEdit_compose_def BaseEdit_isEmpty_def)
  next
    case 3
    have both: "\<exists>q d tail. foldE (compose_step C) (a, 0, []) b = Inr (q, d, tail) \<and>
        valid 0 (tail @ q) n \<and> app 0 (tail @ q) s = app 0 e2 (app 0 e1 s)" if s: "int (length s) = n" for s
    proof -
      have "valid (0 + 0) b (0 + 0 + int (length (app 0 a s)))" using b(2) len [OF s] a(3) [OF s] by simp
      from compose_loop_spec [OF a(2) _ this, of "[]"] s show ?thesis
        using a(3) [OF s] b(3) [OF len [OF s]] by simp
    qed
    from both [OF s0] obtain q d tail where l: "foldE (compose_step C) (a, 0, []) b = Inr (q, d, tail)"
      "valid 0 (tail @ q) n" by blast
    from normalize_spec [OF l(2)] obtain e where e: "BaseEdit_normalize C (tail @ q) = Inr e" "valid 0 e n"
      "\<forall>s. int (length s) = n \<longrightarrow> app 0 e s = app 0 (tail @ q) s" by blast
    have "BaseEdit_compose C e1 e2 = Inr e"
      using 3 a(1) b(1) l e(1) valid_new [OF l(2)] by (simp add: BaseEdit_compose_def BaseEdit_isEmpty_def)
    moreover have "app 0 (tail @ q) s = app 0 e2 (app 0 e1 s)" if "int (length s) = n" for s
      using both [OF that] l(1) by auto
    ultimately show ?thesis using e by auto
  qed
qed

subsection \<open>Splitting\<close>

text \<open>
  The two halves of a split: the accumulators only grow, the second half is shifted by what
  the first half inserts before it, and applying them in order has the effect of the whole.
\<close>

lemma decomposeSplit_loop_spec:
  assumes "valid p rs n"
  shows "\<exists>a b. decomposeSplit_loop C P e1 e2 d rs = Inr (e1 @ a, e2 @ b) \<and>
    valid p a n \<and> valid (p + d) b (n + d + shift a) \<and> a = filter P rs \<and>
    (\<forall>s. int (length s) = n - p \<longrightarrow> app (p + d) b (app p a s) = app p rs s)"
  using assms
proof (induction rs arbitrary: p d e1 e2)
  case Nil
  then show ?case by (intro exI [of _ "[]"]) simp
next
  case (Cons r rs)
  have r: "p \<le> st r" "st r \<le> en r" "ok r" "valid (en r) rs n" using Cons.prems by simp_all
  have n: "en r \<le> n" using valid_le [OF r(4)] .
  have len: "getNewLength C r = int (length (dat r))" using newLength_dat [OF r(3)] .
  have tail: "int (length (drop (nat (en r - p)) s)) = n - en r" if "int (length s) = n - p" for s :: "'d list"
    using that r n by simp
  show ?case
  proof (cases "P r")
    case True
    let ?d = "d + (getNewLength C r - OffsetRange_length (replaceRange C r))"
    from Cons.IH [OF r(4), of "e1 @ [r]" e2 ?d] obtain a b where
      ab: "decomposeSplit_loop C P (e1 @ [r]) e2 ?d rs = Inr ((e1 @ [r]) @ a, e2 @ b)"
      "valid (en r) a n" "valid (en r + ?d) b (n + ?d + shift a)" "a = filter P rs"
      "\<forall>s. int (length s) = n - en r \<longrightarrow> app (en r + ?d) b (app (en r) a s) = app (en r) rs s" by blast
    have pos: "en r + ?d = st r + d + int (length (dat r))" by (simp add: len OffsetRange_length_def)
    have "app (p + d) b (app p (r # a) s) = app p (r # rs) s" if s: "int (length s) = n - p" for s
    proof -
      let ?U = "take (nat (st r - p)) s @ dat r"
      have U: "p + d + int (length ?U) = en r + ?d" using s r n pos by simp
      have "app (p + d) b (?U @ app (en r) a (drop (nat (en r - p)) s)) =
          ?U @ app (en r + ?d) b (app (en r) a (drop (nat (en r - p)) s))"
        using app_skip [of "p + d" ?U b] ab(3) unfolding U by blast
      with ab(5) tail [OF s] show ?thesis by simp
    qed
    moreover have "valid (p + d) b (n + d + shift (r # a))"
      using ab(3) pos r by (auto simp: algebra_simps intro: valid_weaken)
    ultimately show ?thesis
      using True ab r by - (rule exI [of _ "r # a"], rule exI [of _ b], simp)
  next
    case False
    let ?R = "\<lparr>start = st r + d, endExclusive = en r + d\<rparr>"
    obtain x where x: "slice_replacement C r ?R
        (Some \<lparr>start = 0, endExclusive = int (length (dat r))\<rparr>) = Inr x"
      "ok x" "replaceRange C x = ?R" "dat x = dat r"
      using slice_whole [OF r(3), of ?R] r by (auto simp: or_wf_def)
    from Cons.IH [OF r(4), of e1 "e2 @ [x]" d] obtain a b where
      ab: "decomposeSplit_loop C P e1 (e2 @ [x]) d rs = Inr (e1 @ a, (e2 @ [x]) @ b)"
      "valid (en r) a n" "valid (en r + d) b (n + d + shift a)" "a = filter P rs"
      "\<forall>s. int (length s) = n - en r \<longrightarrow> app (en r + d) b (app (en r) a s) = app (en r) rs s" by blast
    have "app (p + d) (x # b) (app p a s) = app p (r # rs) s" if s: "int (length s) = n - p" for s
    proof -
      have adv: "app p a s = take (nat (en r - p)) s @ app (en r) a (drop (nat (en r - p)) s)"
        using app_advance [OF ab(2), of p s] s r n by simp
      have lt: "length (take (nat (en r - p)) s) = nat (en r - p)" using s n r by simp
      have "take (nat (st r - p)) (app p a s) = take (nat (st r - p)) s"
        using r lt by (simp add: adv min_absorb2 nat_mono)
      moreover have "drop (nat (en r - p)) (app p a s) = app (en r) a (drop (nat (en r - p)) s)"
        using lt by (simp add: adv)
      ultimately show ?thesis using ab(5) tail [OF s] x by simp
    qed
    moreover have "decomposeSplit_loop C P e1 e2 d (r # rs) = Inr (e1 @ a, e2 @ x # b)"
      using False r x(1) ab(1) by (simp add: OffsetRange_delta_def len)
    moreover have "valid p a n" using ab(2) r by (auto intro: valid_weaken)
    ultimately show ?thesis
      using False ab r x(2,3) by - (rule exI [of _ a], rule exI [of _ "x # b"], simp)
  qed
qed

lemma decomposeSplit_spec:
  assumes "valid 0 rs n"
  shows "\<exists>e1 e2. BaseEdit_decomposeSplit C P rs = Inr (e1, e2) \<and> e1 = filter P rs \<and>
    (\<forall>s. int (length s) = n \<longrightarrow> app 0 e2 (app 0 e1 s) = app 0 rs s)"
proof -
  from decomposeSplit_loop_spec [OF assms, of P "[]" "[]" 0] obtain a b where
    "decomposeSplit_loop C P [] [] 0 rs = Inr (a, b)" "valid 0 a n" "valid 0 b (n + shift a)"
    "a = filter P rs" "\<forall>s. int (length s) = n \<longrightarrow> app 0 b (app 0 a s) = app 0 rs s" by auto
  then show ?thesis by (simp add: BaseEdit_decomposeSplit_def valid_new)
qed

subsection \<open>Offsets\<close>

lemma applyToOffset_before: "valid p rs n \<Longrightarrow> x < p \<Longrightarrow> applyToOffset_loop C x d rs = x + d"
  by (cases rs) auto

lemma applyToOffset_ge: "valid p rs n \<Longrightarrow> p \<le> x \<Longrightarrow> p + d \<le> applyToOffset_loop C x d rs"
proof (induction rs arbitrary: p d)
  case (Cons r rs)
  have "0 \<le> getNewLength C r" using Cons.prems newLength_dat by simp
  with Cons.IH [of "en r" "d + (getNewLength C r - OffsetRange_length (replaceRange C r))"] Cons.prems
  show ?case by (auto simp: OffsetRange_length_def)
qed simp

lemma applyToOffset_mono:
  "valid p rs n \<Longrightarrow> x \<le> y \<Longrightarrow> applyToOffset_loop C x d rs \<le> applyToOffset_loop C y d rs"
proof (induction rs arbitrary: p d)
  case (Cons r rs)
  let ?d = "d + (getNewLength C r - OffsetRange_length (replaceRange C r))"
  have len: "0 \<le> getNewLength C r" using Cons.prems newLength_dat by simp
  have v: "valid (en r) rs n" "st r \<le> en r" using Cons.prems by simp_all
  have ge: "st r + d + getNewLength C r \<le> applyToOffset_loop C z ?d rs" if "en r \<le> z" for z
    using applyToOffset_ge [OF v(1) that, of ?d] by (simp add: OffsetRange_length_def)
  show ?case
    using Cons.IH [OF v(1) Cons.prems(2)] ge [of y] len v(2) Cons.prems(2) by auto
qed simp

text \<open>An offset outside the replaced ranges comes back.\<close>

lemma applyInverse_roundtrip:
  "valid p rs n \<Longrightarrow> applyToOffsetOrUndefined_loop C x d rs = Some y \<Longrightarrow>
   applyInverseToOffset_loop C y d rs = x \<and> applyToOffset_loop C x d rs = y"
proof (induction rs arbitrary: p d)
  case (Cons r rs)
  let ?d = "d + (getNewLength C r - OffsetRange_length (replaceRange C r))"
  have len: "0 \<le> getNewLength C r" using Cons.prems newLength_dat by simp
  have v: "valid (en r) rs n" "st r \<le> en r" using Cons.prems by simp_all
  show ?case
  proof (cases "st r \<le> x")
    case True
    with Cons.prems have x: "en r \<le> x" "applyToOffsetOrUndefined_loop C x ?d rs = Some y"
      by (auto split: if_splits)
    with Cons.IH [OF v(1)] have y: "applyInverseToOffset_loop C y ?d rs = x" "applyToOffset_loop C x ?d rs = y"
      by auto
    with applyToOffset_ge [OF v(1) x(1), of ?d] have "st r + d + getNewLength C r \<le> y"
      by (simp add: OffsetRange_length_def)
    with True x v y len show ?thesis by (simp add: Let_def)
  next
    case False
    with Cons.prems show ?thesis by (simp add: Let_def)
  qed
qed simp

text \<open>
  Where offsets go: those inside a replaced range to its start, and all are moved by what the
  replacements that end before them add.
\<close>

definition delta :: "'r \<Rightarrow> int" where
  "delta r = int (length (dat r)) - (en r - st r)"

lemma none_after: "valid p rs n \<Longrightarrow> x < p \<Longrightarrow>
   filter (\<lambda>r. en r \<le> x) rs = [] \<and> find (\<lambda>r. st r \<le> x \<and> x < en r) rs = None"
proof (induction rs arbitrary: p)
  case (Cons r rs)
  then have "x < en r" "\<not> st r \<le> x" "valid (en r) rs n" by auto
  with Cons.IH [of "en r"] show ?case by auto
qed simp

lemma applyToOffset_closed:
  "valid p rs n \<Longrightarrow> applyToOffset_loop C x d rs =
     (case find (\<lambda>r. st r \<le> x \<and> x < en r) rs of None \<Rightarrow> x | Some r \<Rightarrow> st r) + d +
     sum_list (map delta (filter (\<lambda>r. en r \<le> x) rs))"
proof (induction rs arbitrary: p d)
  case (Cons r rs)
  have v: "valid (en r) rs n" "st r \<le> en r" "getNewLength C r = int (length (dat r))"
    using Cons.prems newLength_dat by simp_all
  consider "st r \<le> x" "en r \<le> x" | "x < en r" using v(2) by linarith
  then show ?case
  proof cases
    case 1
    with Cons.IH [OF v(1)] v(3) show ?thesis by (simp add: delta_def OffsetRange_length_def)
  next
    case 2
    with none_after [OF v(1) 2] show ?thesis by auto
  qed
qed simp

lemma applyToOffsetOrUndefined_closed:
  "valid p rs n \<Longrightarrow> applyToOffsetOrUndefined_loop C x d rs =
     (if \<exists>r \<in> set rs. st r \<le> x \<and> x < en r then None else Some (applyToOffset_loop C x d rs))"
proof (induction rs arbitrary: p d)
  case (Cons r rs)
  have v: "valid (en r) rs n" "st r \<le> en r" using Cons.prems by simp_all
  consider "en r \<le> x" | "st r \<le> x" "x < en r" | "x < st r" by linarith
  then show ?case
  proof cases
    case 1
    with Cons.IH [OF v(1)] v(2) show ?thesis by auto
  next
    case 3
    then have "find (\<lambda>r. st r \<le> x \<and> x < en r) rs = None" using none_after [OF v(1)] v(2) by auto
    with 3 show ?thesis by (auto simp: find_None_iff)
  qed auto
qed simp

lemma start_shifted: "valid p rs n \<Longrightarrow> i < length rs \<Longrightarrow> p \<le> st (rs ! i) + sum_list (map delta (take i rs))"
proof (induction rs arbitrary: p i)
  case (Cons r rs)
  then show ?case
  proof (cases i)
    case (Suc j)
    with Cons have "en r \<le> st (rs ! j) + sum_list (map delta (take j rs))" "p \<le> st r" by auto
    with Suc show ?thesis by (simp add: delta_def [of r])
  qed simp
qed simp

lemma applyInverse_inserted:
  "valid p rs n \<Longrightarrow> i < length rs \<Longrightarrow> 0 \<le> k \<Longrightarrow> k < int (length (dat (rs ! i))) \<Longrightarrow>
   applyInverseToOffset_loop C (st (rs ! i) + d + sum_list (map delta (take i rs)) + k) d rs = st (rs ! i)"
proof (induction rs arbitrary: p i d)
  case (Cons r rs)
  have v: "valid (en r) rs n" "st r \<le> en r" "getNewLength C r = int (length (dat r))"
    using Cons.prems newLength_dat by simp_all
  show ?case
  proof (cases i)
    case 0
    with Cons.prems v show ?thesis by simp
  next
    case (Suc j)
    define y where "y = st (rs ! j) + (d + delta r) + sum_list (map delta (take j rs)) + k"
    have y: "st ((r # rs) ! i) + d + sum_list (map delta (take i (r # rs))) + k = y" by (simp add: Suc y_def)
    have "en r \<le> st (rs ! j) + sum_list (map delta (take j rs))" using start_shifted [OF v(1)] Suc Cons.prems(2) by simp
    then have "st r + int (length (dat r)) \<le> y - d" using Cons.prems(3) by (simp add: y_def delta_def [of r])
    moreover have "applyInverseToOffset_loop C y (d + delta r) rs = st (rs ! j)"
      using Cons.IH [OF v(1), of j "d + delta r"] Cons.prems Suc by (simp add: y_def)
    moreover have "delta r = getNewLength C r - OffsetRange_length (replaceRange C r)"
      by (simp add: delta_def v(3) OffsetRange_length_def)
    ultimately show ?thesis unfolding y using v(2,3) Suc by (simp add: Let_def)
  qed
qed simp

lemma applyToOffsetRange_spec:
  "valid p rs n \<Longrightarrow> or_wf rng \<Longrightarrow>
   BaseEdit_applyToOffsetRange C rs rng =
     Inr \<lparr>start = BaseEdit_applyToOffset C rs (start rng),
          endExclusive = BaseEdit_applyToOffset C rs (endExclusive rng)\<rparr>"
  using applyToOffset_mono [of p rs n "start rng" "endExclusive rng" 0]
  by (simp add: BaseEdit_applyToOffsetRange_def BaseEdit_applyToOffset_def or_wf_def)

text \<open>The element at a surviving offset is found at the image of the offset.\<close>

lemma app_nth:
  "valid p rs n \<Longrightarrow> int (length s) = n - p \<Longrightarrow> p \<le> x \<Longrightarrow> x < n \<Longrightarrow>
   applyToOffsetOrUndefined_loop C x d rs = Some y \<Longrightarrow>
   p + d \<le> y \<and> nat (y - (p + d)) < length (app p rs s) \<and> app p rs s ! nat (y - (p + d)) = s ! nat (x - p)"
proof (induction rs arbitrary: p d s)
  case (Cons r rs)
  let ?d = "d + (getNewLength C r - OffsetRange_length (replaceRange C r))"
  have len: "getNewLength C r = int (length (dat r))" using Cons.prems newLength_dat by simp
  have v: "valid (en r) rs n" "p \<le> st r" "st r \<le> en r" "en r \<le> n"
    using Cons.prems valid_le [of "en r" rs n] by auto
  have lt: "length (take (nat (st r - p)) s) = nat (st r - p)" using Cons.prems v by simp
  show ?case
  proof (cases "st r \<le> x")
    case True
    let ?s = "drop (nat (en r - p)) s"
    have x: "en r \<le> x" "applyToOffsetOrUndefined_loop C x ?d rs = Some y"
      using Cons.prems(5) True by (auto split: if_splits)
    have "int (length ?s) = n - en r" using Cons.prems v by simp
    from Cons.IH [OF v(1) this x(1) Cons.prems(4) x(2)]
    have IH: "en r + ?d \<le> y" "nat (y - (en r + ?d)) < length (app (en r) rs ?s)"
      "app (en r) rs ?s ! nat (y - (en r + ?d)) = ?s ! nat (x - en r)" by simp_all
    have off: "nat (y - (p + d)) = nat (st r - p) + length (dat r) + nat (y - (en r + ?d))"
      using IH(1) v len by (simp add: OffsetRange_length_def)
    have "?s ! nat (x - en r) = s ! nat (x - p)"
      using x(1) v Cons.prems(2,4) nat_add_distrib [of "en r - p" "x - en r"] by simp
    then show ?thesis
      using IH v lt len by (auto simp: off nth_append OffsetRange_length_def simp del: length_take)
  next
    case False
    with Cons.prems lt show ?thesis
      by (auto simp: nth_append nat_less_eq_zless)
  qed
qed auto

lemma getNewRanges_loop_spec:
  assumes "valid p rs n" and "int (length s) = n - p"
  shows "\<exists>rngs. getNewRanges_loop C d rs = Inr rngs \<and> length rngs = length rs \<and>
    list_all2 (\<lambda>r g. p + d \<le> start g \<and> OffsetRange_length g = int (length (dat r)) \<and>
       take (length (dat r)) (drop (nat (start g - (p + d))) (app p rs s)) = dat r) rs rngs"
  using assms
proof (induction rs arbitrary: p d s)
  case (Cons r rs)
  let ?d = "d + BaseReplacement_getLengthDelta C r" and ?s = "drop (nat (en r - p)) s"
  have len: "getNewLength C r = int (length (dat r))" using Cons.prems newLength_dat by simp
  have v: "valid (en r) rs n" "p \<le> st r" "st r \<le> en r" "en r \<le> n"
    using Cons.prems valid_le [of "en r" rs n] by auto
  have lt: "length (take (nat (st r - p)) s) = nat (st r - p)" using Cons.prems v by simp
  have "int (length ?s) = n - en r" using Cons.prems v by simp
  from Cons.IH [OF v(1) this, of ?d] obtain rngs where IH: "getNewRanges_loop C ?d rs = Inr rngs"
    "length rngs = length rs"
    "list_all2 (\<lambda>r g. en r0 + ?d \<le> start g \<and> OffsetRange_length g = int (length (dat r)) \<and>
       take (length (dat r)) (drop (nat (start g - (en r0 + ?d))) (app (en r0) rs ?s)) = dat r) rs rngs"
    if "r0 = r" for r0 by blast
  have off: "en r + ?d = st r + d + int (length (dat r))"
    by (simp add: BaseReplacement_getLengthDelta_def OffsetRange_length_def len)
  have "list_all2 (\<lambda>r' g. p + d \<le> start g \<and> OffsetRange_length g = int (length (dat r')) \<and>
       take (length (dat r')) (drop (nat (start g - (p + d))) (app p (r # rs) s)) = dat r') rs rngs"
    using IH(3) [OF refl]
  proof (rule list_all2_mono, elim conjE, intro conjI)
    fix r' g assume g: "en r + ?d \<le> start g" "OffsetRange_length g = int (length (dat r'))"
      "take (length (dat r')) (drop (nat (start g - (en r + ?d))) (app (en r) rs ?s)) = dat r'"
    show "p + d \<le> start g" using g(1) v(2) off by simp
    have "nat (start g - (p + d)) = nat (st r - p) + (length (dat r) + nat (start g - (en r + ?d)))"
      using g(1) v(2) off by simp
    then show "take (length (dat r')) (drop (nat (start g - (p + d))) (app p (r # rs) s)) = dat r'"
      using g(3) lt by (simp del: length_take)
  qed
  moreover have "take (length (dat r)) (drop (nat (st r + d - (p + d))) (app p (r # rs) s)) = dat r"
    using lt by simp
  ultimately show ?case
    using IH(1,2) v(2) len by (simp add: OffsetRange_ofStartAndLength_def OffsetRange_length_def)
qed simp

subsection \<open>Inverting\<close>

text \<open>
  \<open>is_inverse S d rs inv\<close>: each replacement of \<open>inv\<close> puts the part of \<open>S\<close> that the one of
  \<open>rs\<close> replaced back in the place of what it inserted; \<open>d\<close> is the length change so far.
\<close>

fun is_inverse :: "'d list \<Rightarrow> int \<Rightarrow> 'r list \<Rightarrow> 'r list \<Rightarrow> bool" where
  "is_inverse S d [] invs \<longleftrightarrow> invs = []"
| "is_inverse S d (r # rs) [] \<longleftrightarrow> False"
| "is_inverse S d (r # rs) (i # invs) \<longleftrightarrow>
     st i = st r + d \<and> en i = st r + d + int (length (dat r)) \<and> ok i \<and>
     dat i = take (nat (en r - st r)) (drop (nat (st r)) S) \<and>
     is_inverse S (d + (getNewLength C r - OffsetRange_length (replaceRange C r))) rs invs"

lemma inverse_app:
  assumes "valid p rs (int (length S))" and "0 \<le> p" and "is_inverse S d rs invs"
  shows "valid (p + d) invs (int (length S) + d + shift rs) \<and>
    app (p + d) invs (app p rs (drop (nat p) S)) = drop (nat p) S"
  using assms
proof (induction rs arbitrary: p d invs)
  case Nil
  then show ?case by simp
next
  case (Cons r rs)
  let ?d = "d + (getNewLength C r - OffsetRange_length (replaceRange C r))"
  from Cons.prems(3) obtain i invs' where invs: "invs = i # invs'" by (cases invs) auto
  have i: "st i = st r + d" "en i = st r + d + int (length (dat r))" "ok i"
    "dat i = take (nat (en r - st r)) (drop (nat (st r)) S)" "is_inverse S ?d rs invs'"
    using Cons.prems(3) invs by simp_all
  have v: "p \<le> st r" "st r \<le> en r" "ok r" "valid (en r) rs (int (length S))" using Cons.prems by simp_all
  have n: "en r \<le> int (length S)" using valid_le [OF v(4)] .
  have IH: "valid (en r + ?d) invs' (int (length S) + ?d + shift rs)"
    "app (en r + ?d) invs' (app (en r) rs (drop (nat (en r)) S)) = drop (nat (en r)) S"
    using Cons.IH [OF v(4) _ i(5)] v Cons.prems(2) by simp_all
  have off: "en r + ?d = en i" using i(2) newLength_dat [OF v(3)] by (simp add: OffsetRange_length_def)
  let ?A = "take (nat (st r - p)) (drop (nat p) S)" and ?V = "app (en r) rs (drop (nat (en r)) S)"
  have lA: "length ?A = nat (st r - p)" using v n Cons.prems(2) by simp
  have sums: "nat (st r - p) + nat p = nat (st r)" "nat (en r - st r) + nat (st r) = nat (en r)"
    "nat (en r - p) + nat p = nat (en r)"
    using v Cons.prems(2) by (simp_all add: nat_add_distrib [symmetric])
  have cut1: "drop (nat p) S = ?A @ drop (nat (st r)) S"
    using append_take_drop_id [of "nat (st r - p)" "drop (nat p) S"] by (simp add: sums(1))
  have cut2: "drop (nat (st r)) S = dat i @ drop (nat (en r)) S"
    using append_take_drop_id [of "nat (en r - st r)" "drop (nat (st r)) S"] by (simp add: i(4) sums(2))
  have "app p (r # rs) (drop (nat p) S) = ?A @ dat r @ ?V" by (simp add: sums(3))
  then have "app (p + d) (i # invs') (app p (r # rs) (drop (nat p) S)) =
      app (p + d) (i # invs') (?A @ dat r @ ?V)" by (simp only:)
  also have "\<dots> = ?A @ dat i @ app (en i) invs' ?V"
    using app_Cons_split [of i "p + d" ?A "dat r" invs' ?V] i(1,2) v(1) lA
    by (simp del: edit_app.simps length_take length_drop)
  also have "app (en i) invs' ?V = drop (nat (en r)) S" using IH(2) unfolding off .
  also have "?A @ dat i @ drop (nat (en r)) S = drop (nat p) S"
    using cut1 cut2 by (simp only:)
  finally have "app (p + d) (i # invs') (app p (r # rs) (drop (nat p) S)) = drop (nat p) S" .
  moreover have "valid (p + d) (i # invs') (int (length S) + d + shift (r # rs))"
    using IH(1) i v unfolding off by (simp add: algebra_simps)
  ultimately show ?case by (simp add: invs del: edit_app.simps edit_valid.simps)
qed

end

section \<open>Classes whose touching replacements always join\<close>

locale joining_replacements = replacement_laws +
  assumes always_joins: "ok r \<Longrightarrow> ok r' \<Longrightarrow> or_wf (replaceRange C r) \<Longrightarrow> or_wf (replaceRange C r') \<Longrightarrow>
    endExclusive (replaceRange C r) = start (replaceRange C r') \<Longrightarrow>
    \<exists>x. tryJoinTouching C r r' = Inr (Some x)"
begin

text \<open>The normal form: no empty replacement, and a gap between any two.\<close>

definition normal :: "'a list \<Rightarrow> bool" where
  "normal rs \<longleftrightarrow> (\<forall>r \<in> set rs. \<not> BaseReplacement_isEmpty C r) \<and> sorted_wrt (\<lambda>l r. en l < st r) rs"

lemma normal_snoc:
  "normal (rs @ [r]) \<longleftrightarrow> normal rs \<and> \<not> BaseReplacement_isEmpty C r \<and> (\<forall>l \<in> set rs. en l < st r)"
  by (auto simp: normal_def sorted_wrt_append)

lemma valid_snoc_member:
  assumes "valid p (out @ l # rs) n"
  shows "ok l" "st l \<le> en l" "valid (en l) rs n"
  using assms by (induction out arbitrary: p) auto

lemma normalize_loop_normal:
  assumes "valid p (out @ (case lastR of None \<Rightarrow> [] | Some l \<Rightarrow> [l]) @ rs) n"
    and "normal (out @ (case lastR of None \<Rightarrow> [] | Some l \<Rightarrow> [l]))" and "lastR = None \<longrightarrow> out = []"
    and "normalize_loop C out lastR rs = Inr res"
  shows "normal res"
  using assms
proof (induction rs arbitrary: out lastR)
  case Nil
  then show ?case by (cases lastR) simp_all
next
  case (Cons r rs)
  show ?case
  proof (cases "getNewLength C r = 0 \<and> OffsetRange_length (replaceRange C r) = 0")
    case True
    let ?pend = "out @ (case lastR of None \<Rightarrow> [] | Some l \<Rightarrow> [l])"
    have "valid p (?pend @ rs) n"
    proof -
      have "valid q (xs @ rs) n" if "valid q (xs @ r # rs) n" for q xs
        using that
      proof (induction xs arbitrary: q)
        case Nil
        then have "st r = en r" using True by (simp add: OffsetRange_length_def)
        with Nil show ?case by (auto intro: valid_weaken)
      qed simp
      with Cons.prems(1) show ?thesis by (metis append_assoc)
    qed
    with Cons.IH [of out lastR] Cons.prems(2,3,4) True show ?thesis by auto
  next
    case False
    then have ne: "\<not> BaseReplacement_isEmpty C r" by (simp add: BaseReplacement_isEmpty_def)
    show ?thesis
    proof (cases lastR)
      case None
      with Cons.IH [of "[]" "Some r"] Cons.prems False ne show ?thesis
        by (auto simp: normal_def)
    next
      case (Some l)
      then have v: "valid p (out @ l # r # rs) n" using Cons.prems(1) by simp
      note l = valid_snoc_member [OF v]
      then have r: "ok r" "st r \<le> en r" "en l \<le> st r" by simp_all
      show ?thesis
      proof (cases "en l = st r")
        case True
        obtain x where x: "tryJoinTouching C l r = Inr (Some x)"
          using always_joins [of l r] l r True by (auto simp: or_wf_def)
        have xs: "ok x" "st x = st l" "en x = en r" "dat x = dat l @ dat r"
          using join_touching [of l r] l r True x by (auto simp: or_wf_def)
        have "valid p (out @ x # rs) n"
          using v xs l r by (induction out arbitrary: p) auto
        moreover have "\<not> BaseReplacement_isEmpty C x"
          using ne xs l r by (auto simp: BaseReplacement_isEmpty_def newLength_dat OffsetRange_length_def
              simp del: of_nat_add)
        ultimately show ?thesis
          using Cons.IH [of out "Some x"] Cons.prems(2,4) Some True x xs False
          by (auto simp: normal_snoc)
      next
        case sep: False
        have "normal (out @ [l])" using Cons.prems(2) Some by simp
        moreover have "en k < st r" if "k \<in> set (out @ [l])" for k
        proof (cases "k \<in> set out")
          case True
          with \<open>normal (out @ [l])\<close> have "en k < st l" by (simp add: normal_snoc)
          with l(2) r(3) show ?thesis by simp
        next
          case False
          with that sep r(3) show ?thesis by simp
        qed
        ultimately have nrm: "normal ((out @ [l]) @ [r])" using ne normal_snoc by blast
        have step: "normalize_loop C out lastR (r # rs) = normalize_loop C (out @ [l]) (Some r) rs"
          using Some sep False by auto
        show ?thesis
          using Cons.IH [of "out @ [l]" "Some r"] v nrm Cons.prems(4) unfolding step by simp
      qed
    qed
  qed
qed

lemma normalize_loop_id:
  "normal (out @ (case lastR of None \<Rightarrow> [] | Some l \<Rightarrow> [l]) @ rs) \<Longrightarrow>
   normalize_loop C out lastR rs = Inr (out @ (case lastR of None \<Rightarrow> [] | Some l \<Rightarrow> [l]) @ rs)"
proof (induction rs arbitrary: out lastR)
  case (Cons r rs)
  have ne: "\<not> (getNewLength C r = 0 \<and> OffsetRange_length (replaceRange C r) = 0)"
    using Cons.prems by (auto simp: normal_def BaseReplacement_isEmpty_def)
  show ?case
  proof (cases lastR)
    case None
    with Cons.IH [of out "Some r"] Cons.prems ne show ?thesis by auto
  next
    case (Some l)
    with Cons.prems have "en l \<noteq> st r" by (auto simp: normal_def sorted_wrt_append)
    with Cons.IH [of "out @ [l]" "Some r"] Cons.prems ne Some show ?thesis by auto
  qed
qed (simp split: option.split)

lemma normalize_normal:
  assumes "valid 0 rs n"
  shows "\<exists>rs'. BaseEdit_normalize C rs = Inr rs' \<and> normal rs' \<and> BaseEdit_normalize C rs' = Inr rs'"
proof -
  from normalize_spec [OF assms] obtain rs' where rs': "BaseEdit_normalize C rs = Inr rs'" "valid 0 rs' n"
    by blast
  then have "normalize_loop C [] None rs = Inr rs'"
    by (auto simp: BaseEdit_normalize_def bindE_eq_Inr new_BaseEdit_def split: if_splits)
  then have "normal rs'" using normalize_loop_normal [of 0 "[]" None rs n rs'] assms by (simp add: normal_def)
  with normalize_loop_id [of "[]" None rs'] valid_new [OF rs'(2)] rs'(1) show ?thesis
    by (simp add: BaseEdit_normalize_def)
qed

end

section \<open>The class AnnotationReplacement\<close>

record 'a AnnotationReplacement =
  ar_replaceRange :: OffsetRange
  ar_newLength :: int
  ar_annotation :: 'a

definition AnnotationReplacement_equals :: "'a AnnotationReplacement \<Rightarrow> 'a AnnotationReplacement \<Rightarrow> bool" where
  "AnnotationReplacement_equals r r' \<longleftrightarrow>
     OffsetRange_equals (ar_replaceRange r) (ar_replaceRange r') \<and>
     ar_newLength r = ar_newLength r' \<and> ar_annotation r = ar_annotation r'"

definition AnnotationReplacement_tryJoinTouching ::
  "'a AnnotationReplacement \<Rightarrow> 'a AnnotationReplacement \<Rightarrow> 'a AnnotationReplacement option result" where
  "AnnotationReplacement_tryJoinTouching r r' =
     (if ar_annotation r \<noteq> ar_annotation r' then Inr None
      else bindE (OffsetRange_joinRightTouching (ar_replaceRange r) (ar_replaceRange r')) (\<lambda>rng.
             Inr (Some \<lparr>ar_replaceRange = rng, ar_newLength = ar_newLength r + ar_newLength r',
                        ar_annotation = ar_annotation r\<rparr>)))"

definition AnnotationReplacement_slice ::
  "'a AnnotationReplacement \<Rightarrow> OffsetRange \<Rightarrow> OffsetRange option \<Rightarrow> 'a AnnotationReplacement result" where
  "AnnotationReplacement_slice r rng rangeInReplacement =
     Inr \<lparr>ar_replaceRange = rng,
          ar_newLength = (case rangeInReplacement of Some p \<Rightarrow> OffsetRange_length p | None \<Rightarrow> ar_newLength r),
          ar_annotation = ar_annotation r\<rparr>"

definition AnnotationReplacement_class :: "'a AnnotationReplacement replacement_class" where
  "AnnotationReplacement_class =
     \<lparr>replaceRange = ar_replaceRange, getNewLength = ar_newLength,
      tryJoinTouching = AnnotationReplacement_tryJoinTouching,
      slice_replacement = AnnotationReplacement_slice,
      equals_replacement = AnnotationReplacement_equals\<rparr>"

text \<open>
  The data of an annotated replacement is its annotation, once for each position it inserts, so
  the laws say that every operation keeps each annotation at the positions it belongs to.
\<close>

definition ar_data :: "'a AnnotationReplacement \<Rightarrow> 'a list" where
  "ar_data r = replicate (nat (ar_newLength r)) (ar_annotation r)"

definition ar_ok :: "'a AnnotationReplacement \<Rightarrow> bool" where
  "ar_ok r \<longleftrightarrow> 0 \<le> ar_newLength r"

interpretation annotation: replacement_laws AnnotationReplacement_class ar_data ar_ok
proof
  fix r r' :: "'a AnnotationReplacement"
  assume "ar_ok r" "ar_ok r'" "or_wf (replaceRange AnnotationReplacement_class r)"
    "or_wf (replaceRange AnnotationReplacement_class r')"
    "endExclusive (replaceRange AnnotationReplacement_class r) =
      start (replaceRange AnnotationReplacement_class r')"
  then show "\<exists>j. tryJoinTouching AnnotationReplacement_class r r' = Inr j \<and>
      (\<forall>x. j = Some x \<longrightarrow> ar_ok x \<and>
        start (replaceRange AnnotationReplacement_class x) = start (replaceRange AnnotationReplacement_class r) \<and>
        endExclusive (replaceRange AnnotationReplacement_class x) =
          endExclusive (replaceRange AnnotationReplacement_class r') \<and>
        ar_data x = ar_data r @ ar_data r')"
    by (auto simp: AnnotationReplacement_class_def AnnotationReplacement_tryJoinTouching_def
        OffsetRange_joinRightTouching_def or_wf_def ar_ok_def ar_data_def nat_add_distrib replicate_add)
qed (auto simp: AnnotationReplacement_class_def AnnotationReplacement_slice_def ar_ok_def ar_data_def
      OffsetRange_length_def min_def)

end
