(* ===== verification/StringEdits.thy ===== *)
theory StringEdits
  imports Edits
begin

text \<open>
  \<open>src/vs/editor/common/core/edits/stringEdit.ts\<close>: edits on strings.  Applying, inverting
  and rebasing an edit, normalising it on a source text, composing sequences of replacements,
  and moving ranges through an edit; the annotated variant shares the replacement interface.

  \<open>StringReplacement_class\<close> and \<open>AnnotatedStringReplacement_class\<close> give the methods that
  \<open>BaseEdit\<close> (theory \<open>Edits\<close>) dispatches on, and the interpretations at the end of the
  second section make its theorems available here.  The methods of \<open>BaseStringEdit\<close> read
  only the range and the new text of a replacement; they are defined on \<open>StringReplacement\<close>.
\<close>

section \<open>Common prefixes and suffixes\<close>

text \<open>\<open>src/vs/base/common/strings.ts\<close>: the loops over the code units.\<close>

function commonPrefix_loop :: "js_string \<Rightarrow> js_string \<Rightarrow> nat \<Rightarrow> nat \<Rightarrow> nat" where
  "commonPrefix_loop a b len i =
     (if i < len then if a ! i \<noteq> b ! i then i else commonPrefix_loop a b len (Suc i) else len)"
  by pat_completeness auto
termination by (relation "measure (\<lambda>(a, b, len, i). len - i)") auto

definition commonPrefixLength :: "js_string \<Rightarrow> js_string \<Rightarrow> nat" where
  "commonPrefixLength a b = commonPrefix_loop a b (min (length a) (length b)) 0"

function commonSuffix_loop :: "js_string \<Rightarrow> js_string \<Rightarrow> nat \<Rightarrow> nat \<Rightarrow> nat" where
  "commonSuffix_loop a b len i =
     (if i < len
      then if a ! (length a - 1 - i) \<noteq> b ! (length b - 1 - i) then i
           else commonSuffix_loop a b len (Suc i)
      else len)"
  by pat_completeness auto
termination by (relation "measure (\<lambda>(a, b, len, i). len - i)") auto

definition commonSuffixLength :: "js_string \<Rightarrow> js_string \<Rightarrow> nat" where
  "commonSuffixLength a b = commonSuffix_loop a b (min (length a) (length b)) 0"

declare commonPrefix_loop.simps [simp del] commonSuffix_loop.simps [simp del]

section \<open>Replacements\<close>

record StringReplacement =
  sr_replaceRange :: OffsetRange
  sr_newText :: js_string

definition new_StringReplacement :: "OffsetRange \<Rightarrow> js_string \<Rightarrow> StringReplacement" where
  "new_StringReplacement rng text = \<lparr>sr_replaceRange = rng, sr_newText = text\<rparr>"

definition StringReplacement_insert :: "int \<Rightarrow> js_string \<Rightarrow> StringReplacement result" where
  "StringReplacement_insert offset text =
     bindE (OffsetRange_emptyAt offset) (\<lambda>rng. Inr (new_StringReplacement rng text))"

definition StringReplacement_replace :: "OffsetRange \<Rightarrow> js_string \<Rightarrow> StringReplacement" where
  "StringReplacement_replace rng text = new_StringReplacement rng text"

definition StringReplacement_delete :: "OffsetRange \<Rightarrow> StringReplacement" where
  "StringReplacement_delete rng = new_StringReplacement rng []"

definition StringReplacement_equals :: "StringReplacement \<Rightarrow> StringReplacement \<Rightarrow> bool" where
  "StringReplacement_equals r r' \<longleftrightarrow>
     OffsetRange_equals (sr_replaceRange r) (sr_replaceRange r') \<and> sr_newText r = sr_newText r'"

definition StringReplacement_tryJoinTouching ::
  "StringReplacement \<Rightarrow> StringReplacement \<Rightarrow> StringReplacement option result" where
  "StringReplacement_tryJoinTouching r r' =
     bindE (OffsetRange_joinRightTouching (sr_replaceRange r) (sr_replaceRange r')) (\<lambda>rng.
       Inr (Some (new_StringReplacement rng (sr_newText r @ sr_newText r'))))"

definition StringReplacement_slice ::
  "StringReplacement \<Rightarrow> OffsetRange \<Rightarrow> OffsetRange option \<Rightarrow> StringReplacement result" where
  "StringReplacement_slice r rng rangeInReplacement =
     Inr (new_StringReplacement rng
       (case rangeInReplacement of
          Some p \<Rightarrow> OffsetRange_substring p (sr_newText r)
        | None \<Rightarrow> sr_newText r))"

definition BaseStringReplacement_getNewLength :: "StringReplacement \<Rightarrow> int" where
  "BaseStringReplacement_getNewLength r = int (length (sr_newText r))"

definition StringReplacement_class :: "StringReplacement replacement_class" where
  "StringReplacement_class =
     \<lparr>replaceRange = sr_replaceRange, getNewLength = BaseStringReplacement_getNewLength,
      tryJoinTouching = StringReplacement_tryJoinTouching,
      slice_replacement = StringReplacement_slice,
      equals_replacement = StringReplacement_equals\<rparr>"

definition BaseStringReplacement_replace :: "StringReplacement \<Rightarrow> js_string \<Rightarrow> js_string" where
  "BaseStringReplacement_replace r str =
     js_substring str 0 (start (sr_replaceRange r)) @ sr_newText r @
     js_substring_from str (endExclusive (sr_replaceRange r))"

definition BaseStringReplacement_isNeutralOn :: "StringReplacement \<Rightarrow> js_string \<Rightarrow> bool" where
  "BaseStringReplacement_isNeutralOn r text \<longleftrightarrow>
     sr_newText r =
       js_substring text (start (sr_replaceRange r)) (endExclusive (sr_replaceRange r))"

definition BaseStringReplacement_removeCommonSuffixPrefix ::
  "StringReplacement \<Rightarrow> js_string \<Rightarrow> StringReplacement result" where
  "BaseStringReplacement_removeCommonSuffixPrefix r originalText =
     (let rng = sr_replaceRange r;
          oldText = js_substring originalText (start rng) (endExclusive rng);
          prefixLen = int (commonPrefixLength oldText (sr_newText r));
          suffixLen = min (int (length oldText) - prefixLen)
            (min (int (length (sr_newText r)) - prefixLen)
              (int (commonSuffixLength oldText (sr_newText r))))
      in bindE (new_OffsetRange (start rng + prefixLen) (endExclusive rng - suffixLen)) (\<lambda>rng.
           Inr (new_StringReplacement rng
             (js_substring (sr_newText r) prefixLen (int (length (sr_newText r)) - suffixLen)))))"

definition BaseStringReplacement_removeCommonPrefix ::
  "StringReplacement \<Rightarrow> js_string \<Rightarrow> StringReplacement result" where
  "BaseStringReplacement_removeCommonPrefix r source =
     (let oldText = OffsetRange_substring (sr_replaceRange r) source;
          prefixLen = int (commonPrefixLength oldText (sr_newText r))
      in if prefixLen = 0 then Inr r
         else
           bindE (OffsetRange_deltaStart (sr_replaceRange r) prefixLen) (\<lambda>rng.
           bindE (new_OffsetRange prefixLen (int (length (sr_newText r)))) (\<lambda>part.
             StringReplacement_slice r rng (Some part))))"

definition BaseStringReplacement_removeCommonSuffix ::
  "StringReplacement \<Rightarrow> js_string \<Rightarrow> StringReplacement result" where
  "BaseStringReplacement_removeCommonSuffix r source =
     (let oldText = OffsetRange_substring (sr_replaceRange r) source;
          suffixLen = int (commonSuffixLength oldText (sr_newText r))
      in if suffixLen = 0 then Inr r
         else
           bindE (OffsetRange_deltaEnd (sr_replaceRange r) (- suffixLen)) (\<lambda>rng.
           bindE (new_OffsetRange 0 (int (length (sr_newText r)) - suffixLen)) (\<lambda>part.
             StringReplacement_slice r rng (Some part))))"

definition BaseStringReplacement_removeCommonSuffixAndPrefix ::
  "StringReplacement \<Rightarrow> js_string \<Rightarrow> StringReplacement result" where
  "BaseStringReplacement_removeCommonSuffixAndPrefix r source =
     bindE (BaseStringReplacement_removeCommonSuffix r source) (\<lambda>r'.
       BaseStringReplacement_removeCommonPrefix r' source)"

text \<open>The global regular-expression replace of CR LF or LF: left to right, the longer first.\<close>

fun replace_eol :: "js_string \<Rightarrow> js_string \<Rightarrow> js_string" where
  "replace_eol eol (a # b # t) =
     (if a = 13 \<and> b = 10 then eol @ replace_eol eol t
      else if a = 10 then eol @ replace_eol eol (b # t)
      else a # replace_eol eol (b # t))"
| "replace_eol eol [a] = (if a = 10 then eol else [a])"
| "replace_eol eol [] = []"

definition BaseStringReplacement_normalizeEOL :: "StringReplacement \<Rightarrow> js_string \<Rightarrow> StringReplacement" where
  "BaseStringReplacement_normalizeEOL r eol =
     new_StringReplacement (sr_replaceRange r) (replace_eol eol (sr_newText r))"

record ISerializedStringReplacement =
  sj_txt :: js_string
  sj_pos :: int
  sj_len :: int

definition BaseStringReplacement_toJson :: "StringReplacement \<Rightarrow> ISerializedStringReplacement" where
  "BaseStringReplacement_toJson r =
     \<lparr>sj_txt = sr_newText r, sj_pos = start (sr_replaceRange r), sj_len = OffsetRange_length (sr_replaceRange r)\<rparr>"

definition StringReplacement_fromJson :: "ISerializedStringReplacement \<Rightarrow> StringReplacement result" where
  "StringReplacement_fromJson j =
     bindE (OffsetRange_ofStartAndLength (sj_pos j) (sj_len j)) (\<lambda>rng. Inr (new_StringReplacement rng (sj_txt j)))"

section \<open>Edits\<close>

definition new_StringEdit :: "StringReplacement list \<Rightarrow> StringReplacement list result" where
  "new_StringEdit rs = new_BaseEdit StringReplacement_class rs"

definition StringEdit_single :: "StringReplacement \<Rightarrow> StringReplacement list result" where
  "StringEdit_single r = new_StringEdit [r]"

definition StringEdit_replace :: "OffsetRange \<Rightarrow> js_string \<Rightarrow> StringReplacement list result" where
  "StringEdit_replace rng text = new_StringEdit [new_StringReplacement rng text]"

definition StringEdit_insert :: "int \<Rightarrow> js_string \<Rightarrow> StringReplacement list result" where
  "StringEdit_insert offset text =
     bindE (OffsetRange_emptyAt offset) (\<lambda>rng. new_StringEdit [new_StringReplacement rng text])"

definition StringEdit_delete :: "OffsetRange \<Rightarrow> StringReplacement list result" where
  "StringEdit_delete rng = new_StringEdit [new_StringReplacement rng []]"

definition StringEdit_fromJson :: "ISerializedStringReplacement list \<Rightarrow> StringReplacement list result" where
  "StringEdit_fromJson js = bindE (mapE StringReplacement_fromJson js) new_StringEdit"

definition BaseStringEdit_toJson :: "StringReplacement list \<Rightarrow> ISerializedStringReplacement list" where
  "BaseStringEdit_toJson rs = map BaseStringReplacement_toJson rs"

text \<open>\<open>apply\<close>: the pieces are joined in the order they are pushed.\<close>

fun apply_loop :: "js_string \<Rightarrow> int \<Rightarrow> StringReplacement list \<Rightarrow> js_string" where
  "apply_loop base pos [] = js_substring_from base pos"
| "apply_loop base pos (edit # rs) =
     js_substring base pos (start (sr_replaceRange edit)) @ sr_newText edit @
     apply_loop base (endExclusive (sr_replaceRange edit)) rs"

definition BaseStringEdit_apply :: "StringReplacement list \<Rightarrow> js_string \<Rightarrow> js_string" where
  "BaseStringEdit_apply rs base = apply_loop base 0 rs"

fun inverse_loop :: "(int \<Rightarrow> int \<Rightarrow> js_string) \<Rightarrow> int \<Rightarrow> StringReplacement list \<Rightarrow>
    StringReplacement list result" where
  "inverse_loop getOriginalSlice offset [] = Inr []"
| "inverse_loop getOriginalSlice offset (e # rs) =
     bindE (OffsetRange_ofStartAndLength (start (sr_replaceRange e) + offset) (int (length (sr_newText e)))) (\<lambda>rng.
     bindE (inverse_loop getOriginalSlice
              (offset + (int (length (sr_newText e)) - OffsetRange_length (sr_replaceRange e))) rs) (\<lambda>edits.
       Inr (StringReplacement_replace rng
              (getOriginalSlice (start (sr_replaceRange e)) (endExclusive (sr_replaceRange e))) # edits)))"

definition BaseStringEdit_inverseOnSlice ::
  "StringReplacement list \<Rightarrow> (int \<Rightarrow> int \<Rightarrow> js_string) \<Rightarrow> StringReplacement list result" where
  "BaseStringEdit_inverseOnSlice rs getOriginalSlice =
     bindE (inverse_loop getOriginalSlice 0 rs) new_StringEdit"

definition BaseStringEdit_inverse :: "StringReplacement list \<Rightarrow> js_string \<Rightarrow> StringReplacement list result" where
  "BaseStringEdit_inverse rs original = BaseStringEdit_inverseOnSlice rs (js_substring original)"

definition areConcurrentInserts :: "OffsetRange \<Rightarrow> OffsetRange \<Rightarrow> bool" where
  "areConcurrentInserts r1 r2 \<longleftrightarrow>
     OffsetRange_isEmpty r1 \<and> OffsetRange_isEmpty r2 \<and> start r1 = start r2"

definition isInsertStrictlyInsideRange :: "OffsetRange \<Rightarrow> OffsetRange \<Rightarrow> bool" where
  "isInsertStrictlyInsideRange ins rng \<longleftrightarrow>
     OffsetRange_isEmpty ins \<and> start rng < start ins \<and> start ins < endExclusive rng"

text \<open>
  The loop of \<open>_tryRebase\<close>; the two indices are the suffixes still to read, \<open>None\<close> is the
  \<open>return undefined\<close>.
\<close>

function tryRebase_loop :: "bool \<Rightarrow> StringReplacement list \<Rightarrow> StringReplacement list \<Rightarrow> int \<Rightarrow>
    StringReplacement list \<Rightarrow> StringReplacement list option result" where
  "tryRebase_loop noOverlap [] bases offset newEdits = Inr (Some newEdits)"
| "tryRebase_loop noOverlap (our # ours) [] offset newEdits =
     bindE (OffsetRange_delta (sr_replaceRange our) offset) (\<lambda>transformedRange.
       tryRebase_loop noOverlap ours [] offset
         (newEdits @ [new_StringReplacement transformedRange (sr_newText our)]))"
| "tryRebase_loop noOverlap (our # ours) (base # bases) offset newEdits =
     (if OffsetRange_intersects (sr_replaceRange our) (sr_replaceRange base) \<or>
         areConcurrentInserts (sr_replaceRange our) (sr_replaceRange base) \<or>
         isInsertStrictlyInsideRange (sr_replaceRange our) (sr_replaceRange base) \<or>
         isInsertStrictlyInsideRange (sr_replaceRange base) (sr_replaceRange our)
      then if noOverlap then Inr None
           else tryRebase_loop noOverlap ours (base # bases) offset newEdits
      else if start (sr_replaceRange our) < start (sr_replaceRange base) \<or>
              (OffsetRange_isEmpty (sr_replaceRange our) \<and>
               start (sr_replaceRange our) = start (sr_replaceRange base))
      then bindE (OffsetRange_delta (sr_replaceRange our) offset) (\<lambda>transformedRange.
             tryRebase_loop noOverlap ours (base # bases) offset
               (newEdits @ [new_StringReplacement transformedRange (sr_newText our)]))
      else tryRebase_loop noOverlap (our # ours) bases
             (offset + (int (length (sr_newText base)) - OffsetRange_length (sr_replaceRange base))) newEdits)"
  by pat_completeness auto
termination
  by (relation "measure (\<lambda>(noOverlap, ours, bases, offset, newEdits). length ours + length bases)") auto

definition BaseStringEdit_tryRebase_internal :: "StringReplacement list \<Rightarrow> StringReplacement list \<Rightarrow> bool \<Rightarrow>
    StringReplacement list option result" where
  "BaseStringEdit_tryRebase_internal rs base noOverlap =
     bindE (tryRebase_loop noOverlap rs base 0 []) (\<lambda>res.
       case res of None \<Rightarrow> Inr None
       | Some newEdits \<Rightarrow> bindE (new_StringEdit newEdits) (\<lambda>e. Inr (Some e)))"

definition BaseStringEdit_tryRebase :: "StringReplacement list \<Rightarrow> StringReplacement list \<Rightarrow>
    StringReplacement list option result" where
  "BaseStringEdit_tryRebase rs base = BaseStringEdit_tryRebase_internal rs base True"

definition BaseStringEdit_rebaseSkipConflicting :: "StringReplacement list \<Rightarrow> StringReplacement list \<Rightarrow>
    StringReplacement list option result" where
  "BaseStringEdit_rebaseSkipConflicting rs base = BaseStringEdit_tryRebase_internal rs base False"

definition BaseStringEdit_trySwap :: "StringReplacement list \<Rightarrow> StringReplacement list \<Rightarrow>
    (StringReplacement list \<times> StringReplacement list) option result" where
  "BaseStringEdit_trySwap e1 e2 =
     bindE (BaseStringEdit_inverseOnSlice e1 (\<lambda>s e. replicate (nat (e - s)) 32)) (\<lambda>e1Inv.
     bindE (BaseStringEdit_tryRebase e2 e1Inv) (\<lambda>r1.
       case r1 of None \<Rightarrow> Inr None
       | Some e1' \<Rightarrow>
           bindE (BaseStringEdit_tryRebase e1 e1') (\<lambda>r2.
             case r2 of None \<Rightarrow> Inr None | Some e2' \<Rightarrow> Inr (Some (e1', e2')))))"

definition BaseStringEdit_isNeutralOn :: "StringReplacement list \<Rightarrow> js_string \<Rightarrow> bool" where
  "BaseStringEdit_isNeutralOn rs text \<longleftrightarrow> list_all (\<lambda>e. BaseStringReplacement_isNeutralOn e text) rs"

fun removeCommonSuffixPrefix_loop :: "StringReplacement list \<Rightarrow> js_string \<Rightarrow> StringReplacement list result" where
  "removeCommonSuffixPrefix_loop [] originalText = Inr []"
| "removeCommonSuffixPrefix_loop (e # rs) originalText =
     bindE (BaseStringReplacement_removeCommonSuffixPrefix e originalText) (\<lambda>edit.
     bindE (removeCommonSuffixPrefix_loop rs originalText) (\<lambda>edits.
       Inr (if \<not> BaseReplacement_isEmpty StringReplacement_class edit then edit # edits else edits)))"

definition BaseStringEdit_removeCommonSuffixPrefix :: "StringReplacement list \<Rightarrow> js_string \<Rightarrow>
    StringReplacement list result" where
  "BaseStringEdit_removeCommonSuffixPrefix rs originalText =
     bindE (removeCommonSuffixPrefix_loop rs originalText) new_StringEdit"

definition BaseStringEdit_normalizeEOL :: "StringReplacement list \<Rightarrow> js_string \<Rightarrow> StringReplacement list result" where
  "BaseStringEdit_normalizeEOL rs eol =
     new_StringEdit (map (\<lambda>e. BaseStringReplacement_normalizeEOL e eol) rs)"

definition BaseStringEdit_normalizeOnSource :: "StringReplacement list \<Rightarrow> js_string \<Rightarrow>
    StringReplacement list result" where
  "BaseStringEdit_normalizeOnSource rs source =
     (let res = BaseStringEdit_apply rs source in
      bindE (OffsetRange_ofLength (int (length source))) (\<lambda>rng.
      bindE (BaseStringReplacement_removeCommonSuffixAndPrefix (StringReplacement_replace rng res) source) (\<lambda>e.
        if BaseReplacement_isEmpty StringReplacement_class e then new_StringEdit []
        else new_StringEdit [e])))"

definition BaseStringEdit_removeCommonSuffixAndPrefix :: "StringReplacement list \<Rightarrow> js_string \<Rightarrow>
    StringReplacement list result" where
  "BaseStringEdit_removeCommonSuffixAndPrefix rs source =
     bindE (mapE (\<lambda>e. BaseStringReplacement_removeCommonSuffixAndPrefix e source) rs) (\<lambda>es.
     bindE (new_StringEdit es) (BaseEdit_normalize StringReplacement_class))"

definition BaseStringEdit_composeOrUndefined :: "StringReplacement list list \<Rightarrow>
    StringReplacement list option result" where
  "BaseStringEdit_composeOrUndefined edits =
     (case edits of
        [] \<Rightarrow> Inr None
      | e # es \<Rightarrow> bindE (foldE (BaseEdit_compose StringReplacement_class) e es) (\<lambda>r. Inr (Some r)))"

definition StringEdit_compose :: "StringReplacement list list \<Rightarrow> StringReplacement list result" where
  "StringEdit_compose edits =
     (case edits of
        [] \<Rightarrow> new_StringEdit []
      | e # es \<Rightarrow> foldE (BaseEdit_compose StringReplacement_class) e es)"

text \<open>
  The loop of \<open>composeSequentialReplacements\<close> over \<open>edit\<close> and \<open>curEditReplacements\<close>,
  which is kept in the source's (reversed) order.
\<close>

fun composeSequential_loop :: "StringReplacement list \<Rightarrow> StringReplacement list \<Rightarrow> StringReplacement list \<Rightarrow>
    StringReplacement list result" where
  "composeSequential_loop edit cur [] =
     bindE (new_StringEdit (rev cur)) (BaseEdit_compose StringReplacement_class edit)"
| "composeSequential_loop edit cur (r # rs) =
     (if cur = [] \<or> OffsetRange_isBefore (sr_replaceRange r) (sr_replaceRange (last cur))
      then composeSequential_loop edit (cur @ [r]) rs
      else
        bindE (new_StringEdit (rev cur)) (\<lambda>e.
        bindE (BaseEdit_compose StringReplacement_class edit e) (\<lambda>edit.
          composeSequential_loop edit [r] rs)))"

definition StringEdit_composeSequentialReplacements :: "StringReplacement list \<Rightarrow>
    StringReplacement list result" where
  "StringEdit_composeSequentialReplacements rs = composeSequential_loop [] [] rs"

section \<open>Moving ranges through an edit\<close>

text \<open>
  \<open>applyEditsToRanges\<close>: the two inner loops split the sorted ranges, the \<open>for\<close> loop puts
  the changed intersecting ranges back in front, the first of them extended by the new text.
\<close>

fun ranges_before :: "OffsetRange list \<Rightarrow> OffsetRange \<Rightarrow> int \<Rightarrow> OffsetRange list \<Rightarrow>
    (OffsetRange list \<times> OffsetRange list) result" where
  "ranges_before [] e offset res = Inr ([], res)"
| "ranges_before (r # rs) e offset res =
     (if endExclusive r \<ge> start e then Inr (r # rs, res)
      else bindE (OffsetRange_delta r offset) (\<lambda>r'. ranges_before rs e offset (res @ [r'])))"

fun ranges_intersecting :: "OffsetRange list \<Rightarrow> OffsetRange \<Rightarrow> OffsetRange list \<Rightarrow>
    OffsetRange list \<times> OffsetRange list" where
  "ranges_intersecting [] e hit = ([], hit)"
| "ranges_intersecting (r # rs) e hit =
     (if \<not> OffsetRange_intersectsOrTouches r e then (r # rs, hit)
      else ranges_intersecting rs e (hit @ [r]))"

definition change_range :: "StringReplacement \<Rightarrow> bool \<Rightarrow> OffsetRange \<Rightarrow> OffsetRange result" where
  "change_range e isFirst r =
     (let er = sr_replaceRange e; newLen = int (length (sr_newText e)) in
      bindE (OffsetRange_intersect r er) (\<lambda>i.
      case i of
        None \<Rightarrow> Inl TypeError
      | Some i \<Rightarrow>
          let overlap = OffsetRange_length i in
          bindE (OffsetRange_deltaEnd r (- overlap + (if isFirst then newLen else 0))) (\<lambda>r.
          let rangeAheadOfReplaceRange = start r - start er in
          bindE (if rangeAheadOfReplaceRange > 0 then OffsetRange_delta r (- rangeAheadOfReplaceRange)
                 else Inr r) (\<lambda>r.
          bindE (if \<not> isFirst then OffsetRange_delta r newLen else Inr r) (\<lambda>r.
            OffsetRange_delta r (- (newLen - OffsetRange_length er)))))))"

definition change_ranges :: "StringReplacement \<Rightarrow> OffsetRange list \<Rightarrow> OffsetRange list result" where
  "change_ranges e hit =
     (case hit of
        [] \<Rightarrow> Inr []
      | r # rs \<Rightarrow> bindE (mapE (change_range e False) rs) (\<lambda>rs'.
                  bindE (change_range e True r) (\<lambda>r'. Inr (r' # rs'))))"

fun applyEdits_loop :: "OffsetRange list \<Rightarrow> StringReplacement list \<Rightarrow> int \<Rightarrow> OffsetRange list \<Rightarrow>
    OffsetRange list result" where
  "applyEdits_loop rs [] offset res =
     bindE (mapE (\<lambda>r. OffsetRange_delta r offset) rs) (\<lambda>rest. Inr (res @ rest))"
| "applyEdits_loop rs (e # es) offset res =
     bindE (ranges_before rs (sr_replaceRange e) offset res) (\<lambda>(rs, res).
     case ranges_intersecting rs (sr_replaceRange e) [] of (rs, hit) \<Rightarrow>
       bindE (change_ranges e hit) (\<lambda>changed.
         applyEdits_loop (changed @ rs) es
           (offset + (int (length (sr_newText e)) - OffsetRange_length (sr_replaceRange e))) res))"

definition applyEditsToRanges :: "OffsetRange list \<Rightarrow> StringReplacement list \<Rightarrow> OffsetRange list result" where
  "applyEditsToRanges sortedRanges edit = applyEdits_loop sortedRanges edit 0 []"

section \<open>Annotated replacements\<close>

text \<open>The data of an annotated replacement comes with its own \<open>join\<close> (\<open>IEditData\<close>).\<close>

record 't AnnotatedStringReplacement = StringReplacement +
  asr_data :: 't

definition AnnotatedStringReplacement_equals ::
  "'t AnnotatedStringReplacement \<Rightarrow> 't AnnotatedStringReplacement \<Rightarrow> bool" where
  "AnnotatedStringReplacement_equals r r' \<longleftrightarrow>
     OffsetRange_equals (sr_replaceRange r) (sr_replaceRange r') \<and> sr_newText r = sr_newText r' \<and>
     asr_data r = asr_data r'"

definition AnnotatedStringReplacement_tryJoinTouching ::
  "('t \<Rightarrow> 't \<Rightarrow> 't option) \<Rightarrow> 't AnnotatedStringReplacement \<Rightarrow> 't AnnotatedStringReplacement \<Rightarrow>
   't AnnotatedStringReplacement option result" where
  "AnnotatedStringReplacement_tryJoinTouching join r r' =
     (case join (asr_data r) (asr_data r') of
        None \<Rightarrow> Inr None
      | Some joined \<Rightarrow>
          bindE (OffsetRange_joinRightTouching (sr_replaceRange r) (sr_replaceRange r')) (\<lambda>rng.
            Inr (Some \<lparr>sr_replaceRange = rng, sr_newText = sr_newText r @ sr_newText r', asr_data = joined\<rparr>)))"

definition AnnotatedStringReplacement_slice ::
  "'t AnnotatedStringReplacement \<Rightarrow> OffsetRange \<Rightarrow> OffsetRange option \<Rightarrow> 't AnnotatedStringReplacement result" where
  "AnnotatedStringReplacement_slice r rng rangeInReplacement =
     Inr \<lparr>sr_replaceRange = rng,
          sr_newText = (case rangeInReplacement of
                          Some p \<Rightarrow> OffsetRange_substring p (sr_newText r)
                        | None \<Rightarrow> sr_newText r),
          asr_data = asr_data r\<rparr>"

definition AnnotatedStringReplacement_class ::
  "('t \<Rightarrow> 't \<Rightarrow> 't option) \<Rightarrow> 't AnnotatedStringReplacement replacement_class" where
  "AnnotatedStringReplacement_class join =
     \<lparr>replaceRange = sr_replaceRange, getNewLength = \<lambda>r. int (length (sr_newText r)),
      tryJoinTouching = AnnotatedStringReplacement_tryJoinTouching join,
      slice_replacement = AnnotatedStringReplacement_slice,
      equals_replacement = AnnotatedStringReplacement_equals\<rparr>"

definition AnnotatedStringEdit_toStringEdit :: "'t AnnotatedStringReplacement list \<Rightarrow>
    ('t AnnotatedStringReplacement \<Rightarrow> bool) option \<Rightarrow> StringReplacement list result" where
  "AnnotatedStringEdit_toStringEdit rs flt =
     new_StringEdit (map (\<lambda>r. new_StringReplacement (sr_replaceRange r) (sr_newText r))
       (filter (\<lambda>r. case flt of None \<Rightarrow> True | Some f \<Rightarrow> f r) rs))"

definition BaseStringEdit_mapData :: "('t \<Rightarrow> 't \<Rightarrow> 't option) \<Rightarrow> StringReplacement list \<Rightarrow>
    (StringReplacement \<Rightarrow> 't) \<Rightarrow> 't AnnotatedStringReplacement list result" where
  "BaseStringEdit_mapData join rs f =
     new_BaseEdit (AnnotatedStringReplacement_class join)
       (map (\<lambda>e. \<lparr>sr_replaceRange = sr_replaceRange e, sr_newText = sr_newText e, asr_data = f e\<rparr>) rs)"

section \<open>The replacement interface\<close>

lemma substring_slice:
  "0 \<le> a \<Longrightarrow> a \<le> b \<Longrightarrow> b \<le> int (length s) \<Longrightarrow>
   OffsetRange_substring \<lparr>start = a, endExclusive = b\<rparr> s = take (nat (b - a)) (drop (nat a) s)"
  by (simp add: OffsetRange_substring_def js_substring_bounds)

lemma StringReplacement_class_simps [simp]:
  "replaceRange StringReplacement_class = sr_replaceRange"
  "getNewLength StringReplacement_class r = int (length (sr_newText r))"
  "tryJoinTouching StringReplacement_class = StringReplacement_tryJoinTouching"
  "slice_replacement StringReplacement_class = StringReplacement_slice"
  by (simp_all add: StringReplacement_class_def BaseStringReplacement_getNewLength_def)

lemma new_StringReplacement_simps [simp]:
  "sr_replaceRange (new_StringReplacement rng t) = rng" "sr_newText (new_StringReplacement rng t) = t"
  by (simp_all add: new_StringReplacement_def)

abbreviation any_replacement :: "'r \<Rightarrow> bool" where "any_replacement \<equiv> \<lambda>_. True"

interpretation str: joining_replacements StringReplacement_class sr_newText any_replacement
  by unfold_locales
    (auto simp: StringReplacement_tryJoinTouching_def StringReplacement_slice_def
      OffsetRange_joinRightTouching_def or_wf_def substring_slice)

interpretation annotated: replacement_laws "AnnotatedStringReplacement_class join" sr_newText any_replacement
  for join :: "'t \<Rightarrow> 't \<Rightarrow> 't option"
  by unfold_locales
    (auto simp: AnnotatedStringReplacement_class_def AnnotatedStringReplacement_tryJoinTouching_def
      AnnotatedStringReplacement_slice_def OffsetRange_joinRightTouching_def or_wf_def substring_slice
      split: option.splits)

section \<open>Applying and composing\<close>

text \<open>\<open>fits rs s\<close>: the replacements are sorted, disjoint and lie within the text \<open>s\<close>.\<close>

definition fits :: "StringReplacement list \<Rightarrow> js_string \<Rightarrow> bool" where
  "fits rs s \<longleftrightarrow> edit_valid StringReplacement_class any_replacement 0 rs (int (length s))"

lemma apply_loop_app:
  "str.valid p rs (int (length s)) \<Longrightarrow> 0 \<le> p \<Longrightarrow> apply_loop s p rs = str.app p rs (drop (nat p) s)"
proof (induction rs arbitrary: p)
  case Nil
  then show ?case by (simp add: js_substring_from_bounds)
next
  case (Cons r rs)
  let ?R = "sr_replaceRange r"
  have v: "p \<le> start ?R" "start ?R \<le> endExclusive ?R" "str.valid (endExclusive ?R) rs (int (length s))"
    using Cons.prems by simp_all
  have "endExclusive ?R \<le> int (length s)" using str.valid_le [OF v(3)] .
  with v Cons.prems(2) have "js_substring s p (start ?R) = take (nat (start ?R - p)) (drop (nat p) s)"
    by (simp add: js_substring_bounds)
  moreover have "nat (endExclusive ?R) = nat (endExclusive ?R - p) + nat p"
    using v Cons.prems(2) nat_add_distrib [of "endExclusive ?R - p" p] by simp
  ultimately show ?case using Cons.IH [OF v(3)] v Cons.prems(2) by simp
qed

lemma apply_app: "fits rs s \<Longrightarrow> BaseStringEdit_apply rs s = str.app 0 rs s"
  using apply_loop_app [of 0 rs s] by (simp add: fits_def BaseStringEdit_apply_def)

lemma fits_new: "fits rs s \<Longrightarrow> new_StringEdit rs = Inr rs"
  by (simp add: fits_def new_StringEdit_def str.valid_new)

lemma fits_length: "fits rs s \<Longrightarrow> length s' = length s \<Longrightarrow> fits rs s'"
  by (simp add: fits_def)

lemma length_apply:
  "fits rs s \<Longrightarrow> int (length (BaseStringEdit_apply rs s)) = int (length s) + str.shift rs"
  using str.length_app [of 0 rs "int (length s)" s] apply_app [of rs s] by (simp add: fits_def)

text \<open>
  \<^bold>\<open>C2.\<close> \<open>compose\<close> never throws when the first edit fits a text and the second fits the
  text after it; the composed edit fits the first text and has the effect of applying the
  two in order (the invariant in the doc comment of \<open>BaseEdit.compose\<close>).
\<close>

lemma compose_apply:
  assumes "fits e1 s" and "fits e2 (BaseStringEdit_apply e1 s)"
  shows "\<exists>e. BaseEdit_compose StringReplacement_class e1 e2 = Inr e \<and> fits e s \<and>
    BaseStringEdit_apply e s = BaseStringEdit_apply e2 (BaseStringEdit_apply e1 s)"
proof -
  have "str.valid 0 e1 (int (length s))" "str.valid 0 e2 (int (length s) + str.shift e1)"
    using assms length_apply [OF assms(1)] by (simp_all add: fits_def)
  from str.compose_spec [OF this] obtain e where e: "BaseEdit_compose StringReplacement_class e1 e2 = Inr e"
    "str.valid 0 e (int (length s))" "str.app 0 e s = str.app 0 e2 (str.app 0 e1 s)" by blast
  then have "fits e s" by (simp add: fits_def)
  with e assms show ?thesis by (metis apply_app)
qed

theorem BaseEdit_compose_correct:
  assumes "fits e1 s" and "fits e2 (BaseStringEdit_apply e1 s)"
  shows "\<exists>e. BaseEdit_compose StringReplacement_class e1 e2 = Inr e \<and> fits e s \<and>
    BaseStringEdit_apply e s = BaseStringEdit_apply e2 (BaseStringEdit_apply e1 s)"
  using assms by (rule compose_apply)

theorem BaseEdit_compose_correct_witness:
  "\<exists>e. BaseEdit_compose StringReplacement_class
         [\<lparr>sr_replaceRange = \<lparr>start = 1, endExclusive = 3\<rparr>, sr_newText = [7, 8, 9 :: 16 word]\<rparr>]
         [\<lparr>sr_replaceRange = \<lparr>start = 2, endExclusive = 5\<rparr>, sr_newText = [6]\<rparr>] = Inr e \<and>
       BaseStringEdit_apply e [1, 2, 3, 4, 5] = [1, 7, 6, 5]"
proof -
  let ?e1 = "[\<lparr>sr_replaceRange = \<lparr>start = 1, endExclusive = 3\<rparr>, sr_newText = [7, 8, 9 :: 16 word]\<rparr>]"
  let ?e2 = "[\<lparr>sr_replaceRange = \<lparr>start = 2, endExclusive = 5\<rparr>, sr_newText = [6 :: 16 word]\<rparr>]"
  have a: "BaseStringEdit_apply ?e1 [1, 2, 3, 4, 5] = [1, 7, 8, 9, 4, 5]"
    by (simp add: BaseStringEdit_apply_def js_substring_def js_substring_from_def clamp_def)
  have b: "BaseStringEdit_apply ?e2 [1, 7, 8, 9, 4, 5] = [1, 7, 6, 5]"
    by (simp add: BaseStringEdit_apply_def js_substring_def js_substring_from_def clamp_def)
  have "fits ?e1 [1, 2, 3, 4, 5]" "fits ?e2 (BaseStringEdit_apply ?e1 [1, 2, 3, 4, 5])"
    unfolding a by (simp_all add: fits_def)
  from BaseEdit_compose_correct [OF this] a b show ?thesis by auto
qed

text \<open>
  \<^bold>\<open>C28.\<close> \<open>normalize\<close> never throws on an edit that fits, keeps its effect, and reaches a
  normal form: no empty replacement is left, any two are separated by a gap, and normalizing
  again changes nothing.
\<close>

theorem BaseEdit_normalize_correct:
  assumes "fits e s"
  shows "\<exists>e'. BaseEdit_normalize StringReplacement_class e = Inr e' \<and> fits e' s \<and>
    BaseStringEdit_apply e' s = BaseStringEdit_apply e s \<and>
    (\<forall>r \<in> set e'. \<not> BaseReplacement_isEmpty StringReplacement_class r) \<and>
    sorted_wrt (\<lambda>l r. endExclusive (sr_replaceRange l) < start (sr_replaceRange r)) e' \<and>
    BaseEdit_normalize StringReplacement_class e' = Inr e'"
proof -
  have v: "str.valid 0 e (int (length s))" using assms by (simp add: fits_def)
  from str.normalize_spec [OF v] obtain e' where e': "BaseEdit_normalize StringReplacement_class e = Inr e'"
    "str.valid 0 e' (int (length s))" "str.app 0 e' s = str.app 0 e s" by blast
  then have "fits e' s" by (simp add: fits_def)
  moreover from str.normalize_normal [OF v] e'(1) have "str.normal e'"
    "BaseEdit_normalize StringReplacement_class e' = Inr e'" by auto
  ultimately show ?thesis using e' assms by (auto simp: apply_app str.normal_def)
qed

theorem BaseEdit_normalize_correct_witness:
  "\<exists>e'. BaseEdit_normalize StringReplacement_class
         [\<lparr>sr_replaceRange = \<lparr>start = 1, endExclusive = 2\<rparr>, sr_newText = [7 :: 16 word]\<rparr>,
          \<lparr>sr_replaceRange = \<lparr>start = 2, endExclusive = 3\<rparr>, sr_newText = []\<rparr>] = Inr e' \<and>
       BaseStringEdit_apply e' [1, 2, 3, 4] = [1, 7, 4]"
proof -
  let ?e = "[\<lparr>sr_replaceRange = \<lparr>start = 1, endExclusive = 2\<rparr>, sr_newText = [7 :: 16 word]\<rparr>,
          \<lparr>sr_replaceRange = \<lparr>start = 2, endExclusive = 3\<rparr>, sr_newText = []\<rparr>]"
  have "fits ?e [1, 2, 3, 4]" by (simp add: fits_def)
  moreover have "BaseStringEdit_apply ?e [1, 2, 3, 4] = [1, 7, 4]"
    by (simp add: BaseStringEdit_apply_def js_substring_def js_substring_from_def clamp_def)
  ultimately show ?thesis using BaseEdit_normalize_correct by fastforce
qed

text \<open>
  \<open>decomposeSplit\<close> never throws on an edit that fits; the first half holds the
  chosen replacements unchanged, and applying the two halves in order has the effect of the
  whole edit.
\<close>

theorem BaseEdit_decomposeSplit_correct:
  assumes "fits e s"
  shows "\<exists>e1 e2. BaseEdit_decomposeSplit StringReplacement_class P e = Inr (e1, e2) \<and> e1 = filter P e \<and>
    fits e1 s \<and> fits e2 (BaseStringEdit_apply e1 s) \<and>
    BaseStringEdit_apply e2 (BaseStringEdit_apply e1 s) = BaseStringEdit_apply e s"
proof -
  let ?n = "int (length s)"
  have v: "str.valid 0 e ?n" using assms by (simp add: fits_def)
  from str.decomposeSplit_loop_spec [OF v, of P "[]" "[]" 0] obtain a b where
    ab: "decomposeSplit_loop StringReplacement_class P [] [] 0 e = Inr (a, b)" "str.valid 0 a ?n"
    "str.valid 0 b (?n + str.shift a)" "a = filter P e"
    "str.app 0 b (str.app 0 a s) = str.app 0 e s" by auto
  have "fits a s" using ab(2) by (simp add: fits_def)
  moreover from this have "fits b (BaseStringEdit_apply a s)"
    using ab(3) length_apply [of a s] by (simp add: fits_def)
  moreover have "BaseEdit_decomposeSplit StringReplacement_class P e = Inr (a, b)"
    using ab by (simp add: BaseEdit_decomposeSplit_def str.valid_new)
  ultimately show ?thesis using ab(4,5) assms by (auto simp: apply_app)
qed

theorem BaseEdit_decomposeSplit_correct_witness:
  "\<exists>e1 e2. BaseEdit_decomposeSplit StringReplacement_class (\<lambda>r. sr_newText r = [])
         [\<lparr>sr_replaceRange = \<lparr>start = 0, endExclusive = 2\<rparr>, sr_newText = []\<rparr>,
          \<lparr>sr_replaceRange = \<lparr>start = 3, endExclusive = 3\<rparr>, sr_newText = [9 :: 16 word]\<rparr>] = Inr (e1, e2) \<and>
       BaseStringEdit_apply e2 (BaseStringEdit_apply e1 [1, 2, 3, 4]) = [3, 9, 4]"
proof -
  let ?e = "[\<lparr>sr_replaceRange = \<lparr>start = 0, endExclusive = 2\<rparr>, sr_newText = []\<rparr>,
          \<lparr>sr_replaceRange = \<lparr>start = 3, endExclusive = 3\<rparr>, sr_newText = [9 :: 16 word]\<rparr>]"
  have "fits ?e [1, 2, 3, 4]" by (simp add: fits_def)
  moreover have "BaseStringEdit_apply ?e [1, 2, 3, 4] = [3, 9, 4]"
    by (simp add: BaseStringEdit_apply_def js_substring_def js_substring_from_def clamp_def)
  ultimately show ?thesis using BaseEdit_decomposeSplit_correct by fastforce
qed

section \<open>Offsets and ranges in the new text\<close>

definition inside_replaced :: "StringReplacement list \<Rightarrow> int \<Rightarrow> StringReplacement option" where
  "inside_replaced e x = find (\<lambda>r. start (sr_replaceRange r) \<le> x \<and> x < endExclusive (sr_replaceRange r)) e"

definition added_length :: "StringReplacement list \<Rightarrow> int" where
  "added_length e = sum_list (map (\<lambda>r. int (length (sr_newText r)) -
     (endExclusive (sr_replaceRange r) - start (sr_replaceRange r))) e)"

text \<open>
  \<^bold>\<open>C31.\<close> For an edit that fits a text: \<open>applyToOffset\<close> takes an offset inside a replaced range
  to the start of that range and leaves the others, and then adds what the replacements that end
  at or before the offset add to the length; \<open>applyToOffsetOrUndefined\<close> is undefined exactly for
  the offsets inside a replaced range and agrees with \<open>applyToOffset\<close> elsewhere.
  \<open>applyInverseToOffset\<close> takes the image of an offset outside the replaced ranges back to it, and
  the offsets of an inserted text to the start of its range; the code unit at an offset outside
  the replaced ranges is found at its image in the new text; and \<open>applyToOffsetRange\<close> never
  throws and maps both ends.
\<close>

theorem BaseEdit_offsets_correct:
  assumes "fits e s" and "or_wf rng"
  shows "(\<forall>x. BaseEdit_applyToOffset StringReplacement_class e x =
            (case inside_replaced e x of None \<Rightarrow> x | Some r \<Rightarrow> start (sr_replaceRange r)) +
            added_length (filter (\<lambda>r. endExclusive (sr_replaceRange r) \<le> x) e)) \<and>
         (\<forall>x. BaseEdit_applyToOffsetOrUndefined StringReplacement_class e x =
            (if inside_replaced e x = None then Some (BaseEdit_applyToOffset StringReplacement_class e x) else None)) \<and>
         (\<forall>x. inside_replaced e x = None \<longrightarrow>
            BaseEdit_applyInverseToOffset StringReplacement_class e (BaseEdit_applyToOffset StringReplacement_class e x) = x \<and>
            (0 \<le> x \<and> x < int (length s) \<longrightarrow>
               js_at (BaseStringEdit_apply e s) (BaseEdit_applyToOffset StringReplacement_class e x) = Some (s ! nat x))) \<and>
         (\<forall>i < length e. \<forall>k. 0 \<le> k \<and> k < int (length (sr_newText (e ! i))) \<longrightarrow>
            BaseEdit_applyInverseToOffset StringReplacement_class e
              (start (sr_replaceRange (e ! i)) + added_length (take i e) + k) = start (sr_replaceRange (e ! i))) \<and>
         BaseEdit_applyToOffsetRange StringReplacement_class e rng =
           Inr \<lparr>start = BaseEdit_applyToOffset StringReplacement_class e (start rng),
                endExclusive = BaseEdit_applyToOffset StringReplacement_class e (endExclusive rng)\<rparr>"
proof (intro conjI allI impI)
  have v: "str.valid 0 e (int (length s))" using assms by (simp add: fits_def)
  have delta: "str.delta = (\<lambda>r. int (length (sr_newText r)) - (endExclusive (sr_replaceRange r) - start (sr_replaceRange r)))"
    by (rule ext) (simp add: str.delta_def)
  show "BaseEdit_applyToOffset StringReplacement_class e x =
      (case inside_replaced e x of None \<Rightarrow> x | Some r \<Rightarrow> start (sr_replaceRange r)) +
      added_length (filter (\<lambda>r. endExclusive (sr_replaceRange r) \<le> x) e)" for x
    using str.applyToOffset_closed [OF v, of x 0]
    by (simp add: BaseEdit_applyToOffset_def inside_replaced_def added_length_def delta cong: option.case_cong)
  show und: "BaseEdit_applyToOffsetOrUndefined StringReplacement_class e x =
      (if inside_replaced e x = None then Some (BaseEdit_applyToOffset StringReplacement_class e x) else None)" for x
    using str.applyToOffsetOrUndefined_closed [OF v, of x 0]
    by (auto simp: BaseEdit_applyToOffset_def BaseEdit_applyToOffsetOrUndefined_def inside_replaced_def find_None_iff)
  show "BaseEdit_applyInverseToOffset StringReplacement_class e (BaseEdit_applyToOffset StringReplacement_class e x) = x"
    if "inside_replaced e x = None" for x
    using str.applyInverse_roundtrip [OF v, of x 0] und [of x] that
    by (simp add: BaseEdit_applyToOffset_def BaseEdit_applyInverseToOffset_def BaseEdit_applyToOffsetOrUndefined_def)
  show "js_at (BaseStringEdit_apply e s) (BaseEdit_applyToOffset StringReplacement_class e x) = Some (s ! nat x)"
    if x: "inside_replaced e x = None" "0 \<le> x \<and> x < int (length s)" for x
  proof -
    let ?y = "BaseEdit_applyToOffset StringReplacement_class e x"
    have "applyToOffsetOrUndefined_loop StringReplacement_class x 0 e = Some ?y"
      using und [of x] x(1) by (simp add: BaseEdit_applyToOffsetOrUndefined_def)
    with str.app_nth [OF v, of s x 0 ?y] x(2)
    have "0 \<le> ?y" "nat ?y < length (str.app 0 e s)" "str.app 0 e s ! nat ?y = s ! nat x" by simp_all
    then show ?thesis by (simp add: apply_app [OF assms(1)] js_at_Some_iff nat_less_iff)
  qed
  show "BaseEdit_applyInverseToOffset StringReplacement_class e
      (start (sr_replaceRange (e ! i)) + added_length (take i e) + k) = start (sr_replaceRange (e ! i))"
    if "i < length e" "0 \<le> k \<and> k < int (length (sr_newText (e ! i)))" for i k
    using str.applyInverse_inserted [OF v that(1), of k 0] that(2)
    by (simp add: BaseEdit_applyInverseToOffset_def added_length_def delta)
  show "BaseEdit_applyToOffsetRange StringReplacement_class e rng =
           Inr \<lparr>start = BaseEdit_applyToOffset StringReplacement_class e (start rng),
                endExclusive = BaseEdit_applyToOffset StringReplacement_class e (endExclusive rng)\<rparr>"
    by (rule str.applyToOffsetRange_spec [OF v assms(2)])
qed

theorem BaseEdit_offsets_correct_witness:
  "BaseEdit_applyToOffset StringReplacement_class
      [\<lparr>sr_replaceRange = \<lparr>start = 1, endExclusive = 3\<rparr>, sr_newText = [7, 8, 9 :: 16 word]\<rparr>] 3 = 4 \<and>
   BaseEdit_applyToOffsetOrUndefined StringReplacement_class
      [\<lparr>sr_replaceRange = \<lparr>start = 1, endExclusive = 3\<rparr>, sr_newText = [7, 8, 9 :: 16 word]\<rparr>] 2 = None"
proof -
  let ?e = "[\<lparr>sr_replaceRange = \<lparr>start = 1, endExclusive = 3\<rparr>, sr_newText = [7, 8, 9 :: 16 word]\<rparr>]"
  have f: "fits ?e [1, 2, 3, 4, 5]" "or_wf \<lparr>start = 0, endExclusive = 4\<rparr>"
    by (simp_all add: fits_def or_wf_def)
  have "inside_replaced ?e 3 = None" "inside_replaced ?e 2 \<noteq> None"
    "added_length (filter (\<lambda>r. endExclusive (sr_replaceRange r) \<le> 3) ?e) = 1"
    by (simp_all add: inside_replaced_def added_length_def)
  then show ?thesis
    using conjunct1 [OF BaseEdit_offsets_correct [OF f], rule_format, of 3]
      conjunct1 [OF conjunct2 [OF BaseEdit_offsets_correct [OF f]], rule_format, of 2] by simp
qed

lemma list_all2_map_eq: "list_all2 (\<lambda>x y. f y = h x) xs ys \<Longrightarrow> map f ys = map h xs"
  by (induction rule: list_all2_induct) simp_all

text \<open>
  \<open>getNewRanges\<close> never throws on an edit that fits, and its i-th range holds, in the
  new text, exactly the text of the i-th replacement; \<open>getNewDataLength\<close> is the length of the
  new text.
\<close>

theorem BaseEdit_getNewRanges_correct:
  assumes "fits e s"
  shows "(\<exists>rngs. BaseEdit_getNewRanges StringReplacement_class e = Inr rngs \<and>
            map (\<lambda>g. OffsetRange_substring g (BaseStringEdit_apply e s)) rngs = map sr_newText e) \<and>
         BaseEdit_getNewDataLength StringReplacement_class e (int (length s)) =
           int (length (BaseStringEdit_apply e s))"
proof
  have v: "str.valid 0 e (int (length s))" using assms by (simp add: fits_def)
  obtain rngs where g: "getNewRanges_loop StringReplacement_class 0 e = Inr rngs"
    and all: "list_all2 (\<lambda>r g. 0 \<le> start g \<and> OffsetRange_length g = int (length (sr_newText r)) \<and>
       take (length (sr_newText r)) (drop (nat (start g)) (str.app 0 e s)) = sr_newText r) e rngs"
    using str.getNewRanges_loop_spec [OF v, of s 0] by auto
  have "OffsetRange_substring g (BaseStringEdit_apply e s) = sr_newText r"
    if "0 \<le> start g \<and> OffsetRange_length g = int (length (sr_newText r)) \<and>
       take (length (sr_newText r)) (drop (nat (start g)) (str.app 0 e s)) = sr_newText r" for r g
  proof -
    let ?t = "str.app 0 e s"
    from that have g: "0 \<le> start g" "endExclusive g = start g + int (length (sr_newText r))"
      "take (length (sr_newText r)) (drop (nat (start g)) ?t) = sr_newText r"
      by (auto simp: OffsetRange_length_def)
    then have "length (sr_newText r) \<le> length ?t - nat (start g)"
      by (metis length_drop length_take min.cobounded1)
    show ?thesis
    proof (cases "sr_newText r = []")
      case True
      with g show ?thesis by (simp add: OffsetRange_substring_def js_substring_def Let_def)
    next
      case False
      with \<open>length (sr_newText r) \<le> _\<close> have "start g + int (length (sr_newText r)) \<le> int (length ?t)"
        by (cases "sr_newText r") auto
      with g show ?thesis
        by (simp add: OffsetRange_substring_def apply_app [OF assms] js_substring_bounds)
    qed
  qed
  then have "list_all2 (\<lambda>r g. OffsetRange_substring g (BaseStringEdit_apply e s) = sr_newText r) e rngs"
    by (intro list_all2_mono [OF all])
  then have "map (\<lambda>g. OffsetRange_substring g (BaseStringEdit_apply e s)) rngs = map sr_newText e"
    by (rule list_all2_map_eq)
  with g show "\<exists>rngs. BaseEdit_getNewRanges StringReplacement_class e = Inr rngs \<and>
            map (\<lambda>g. OffsetRange_substring g (BaseStringEdit_apply e s)) rngs = map sr_newText e"
    by (auto simp: BaseEdit_getNewRanges_def)
  show "BaseEdit_getNewDataLength StringReplacement_class e (int (length s)) =
           int (length (BaseStringEdit_apply e s))"
    using length_apply [OF assms] by (simp add: BaseEdit_getNewDataLength_def str.shift_eq_getLengthDelta)
qed

theorem BaseEdit_getNewRanges_correct_witness:
  "\<exists>rngs. BaseEdit_getNewRanges StringReplacement_class
        [\<lparr>sr_replaceRange = \<lparr>start = 0, endExclusive = 2\<rparr>, sr_newText = [5 :: 16 word]\<rparr>,
         \<lparr>sr_replaceRange = \<lparr>start = 3, endExclusive = 3\<rparr>, sr_newText = [9]\<rparr>] = Inr rngs \<and>
      map (\<lambda>g. OffsetRange_substring g [5, 3, 9, 4]) rngs = [[5 :: 16 word], [9]]"
proof -
  let ?e = "[\<lparr>sr_replaceRange = \<lparr>start = 0, endExclusive = 2\<rparr>, sr_newText = [5 :: 16 word]\<rparr>,
         \<lparr>sr_replaceRange = \<lparr>start = 3, endExclusive = 3\<rparr>, sr_newText = [9]\<rparr>]"
  have "fits ?e [1, 2, 3, 4]" by (simp add: fits_def)
  moreover have "BaseStringEdit_apply ?e [1, 2, 3, 4] = [5, 3, 9, 4]"
    by (simp add: BaseStringEdit_apply_def js_substring_def js_substring_from_def clamp_def)
  ultimately show ?thesis using BaseEdit_getNewRanges_correct [of ?e "[1, 2, 3, 4]"] by simp
qed

section \<open>Inverting\<close>

lemma inverse_loop_spec:
  "str.valid p rs (int (length S)) \<Longrightarrow> 0 \<le> p \<Longrightarrow>
   \<exists>inv. inverse_loop (js_substring S) d rs = Inr inv \<and> str.is_inverse S d rs inv"
proof (induction rs arbitrary: p d)
  case (Cons r rs)
  let ?R = "sr_replaceRange r"
  have v: "start ?R \<le> endExclusive ?R" "str.valid (endExclusive ?R) rs (int (length S))" "0 \<le> start ?R"
    using Cons.prems by auto
  have n: "endExclusive ?R \<le> int (length S)" using str.valid_le [OF v(2)] .
  from Cons.IH [OF v(2), of "d + (int (length (sr_newText r)) - OffsetRange_length ?R)"] v obtain inv where
    "inverse_loop (js_substring S) (d + (int (length (sr_newText r)) - OffsetRange_length ?R)) rs = Inr inv"
    "str.is_inverse S (d + (int (length (sr_newText r)) - OffsetRange_length ?R)) rs inv" by auto
  with v n show ?case
    by (simp add: OffsetRange_ofStartAndLength_def StringReplacement_replace_def js_substring_bounds)
qed simp

text \<open>
  \<^bold>\<open>C27.\<close> \<open>inverse\<close> never throws on an edit that fits the text, and the inverse applied to
  the new text gives the original text back.
\<close>

theorem BaseStringEdit_inverse_correct:
  assumes "fits e s"
  shows "\<exists>i. BaseStringEdit_inverse e s = Inr i \<and> fits i (BaseStringEdit_apply e s) \<and>
    BaseStringEdit_apply i (BaseStringEdit_apply e s) = s"
proof -
  have v: "str.valid 0 e (int (length s))" using assms by (simp add: fits_def)
  from inverse_loop_spec [OF v, of 0] obtain i where i: "inverse_loop (js_substring s) 0 e = Inr i"
    "str.is_inverse s 0 e i" by auto
  have inv: "str.valid 0 i (int (length s) + str.shift e)" "str.app 0 i (str.app 0 e s) = s"
    using str.inverse_app [OF v _ i(2)] by simp_all
  then have "fits i (BaseStringEdit_apply e s)"
    using length_apply [OF assms] by (simp add: fits_def)
  with i inv assms show ?thesis
    by (auto simp: BaseStringEdit_inverse_def BaseStringEdit_inverseOnSlice_def fits_new apply_app)
qed

theorem BaseStringEdit_inverse_correct_witness:
  "\<exists>i. BaseStringEdit_inverse
        [\<lparr>sr_replaceRange = \<lparr>start = 0, endExclusive = 2\<rparr>, sr_newText = [5 :: 16 word]\<rparr>] [1, 2, 3] = Inr i \<and>
      BaseStringEdit_apply i [5, 3] = [1, 2, 3]"
proof -
  let ?e = "[\<lparr>sr_replaceRange = \<lparr>start = 0, endExclusive = 2\<rparr>, sr_newText = [5 :: 16 word]\<rparr>]"
  have "fits ?e [1, 2, 3]" by (simp add: fits_def)
  moreover have "BaseStringEdit_apply ?e [1, 2, 3] = [5, 3]"
    by (simp add: BaseStringEdit_apply_def js_substring_def js_substring_from_def clamp_def)
  ultimately show ?thesis using BaseStringEdit_inverse_correct [of ?e "[1, 2, 3]"] by auto
qed

section \<open>Rebasing\<close>

text \<open>
  \<open>converges\<close>: \<open>o'\<close> is \<open>ours\<close> rebased over \<open>bs\<close> and \<open>b'\<close> is \<open>bs\<close> rebased over \<open>ours\<close>,
  from position \<open>p\<close> on, where the other side has shifted the positions by \<open>dO\<close> and \<open>dB\<close>.
  Both orders lead to the same text.
\<close>

definition converges :: "int \<Rightarrow> int \<Rightarrow> int \<Rightarrow> StringReplacement list \<Rightarrow> StringReplacement list \<Rightarrow>
    int \<Rightarrow> StringReplacement list \<Rightarrow> StringReplacement list \<Rightarrow> bool" where
  "converges p n dO o' bs dB b' ours \<longleftrightarrow>
     str.valid (p + dO) o' (n + dO + str.shift bs) \<and> str.valid (p + dB) b' (n + dB + str.shift ours) \<and>
     (\<forall>s. int (length s) = n - p \<longrightarrow>
        str.app (p + dO) o' (str.app p bs s) = str.app (p + dB) b' (str.app p ours s))"

lemma converges_sym: "converges p n dO o' bs dB b' ours \<longleftrightarrow> converges p n dB b' ours dO o' bs"
  by (auto simp: converges_def)

definition moved :: "int \<Rightarrow> StringReplacement \<Rightarrow> StringReplacement" where
  "moved d r = new_StringReplacement
     \<lparr>start = start (sr_replaceRange r) + d, endExclusive = endExclusive (sr_replaceRange r) + d\<rparr> (sr_newText r)"

lemma moved_simps [simp]:
  "start (sr_replaceRange (moved d r)) = start (sr_replaceRange r) + d"
  "endExclusive (sr_replaceRange (moved d r)) = endExclusive (sr_replaceRange r) + d"
  "sr_newText (moved d r) = sr_newText r"
  by (simp_all add: moved_def)

lemma delta_moved:
  "start (sr_replaceRange r) \<le> endExclusive (sr_replaceRange r) \<Longrightarrow>
   bindE (OffsetRange_delta (sr_replaceRange r) d) (\<lambda>rng. f (new_StringReplacement rng (sr_newText r))) =
   f (moved d r)"
  by (simp add: OffsetRange_delta_def moved_def)

lemma tryRebase_rest:
  "str.valid p os n \<Longrightarrow>
   tryRebase_loop nov os [] d new = Inr (Some (new @ map (moved d) os)) \<and>
   str.valid (p + d) (map (moved d) os) (n + d) \<and>
   str.app (p + d) (map (moved d) os) s = str.app p os s"
proof (induction os arbitrary: p new s)
  case (Cons r os)
  then have "tryRebase_loop nov (r # os) [] d new = tryRebase_loop nov os [] d (new @ [moved d r])"
    using delta_moved [of r d "\<lambda>m. tryRebase_loop nov os [] d (new @ [m])"] by simp
  moreover have "str.valid (endExclusive (sr_replaceRange r)) os n" using Cons.prems by simp
  note Cons.IH [OF this, of "new @ [moved d r]" "drop (nat (endExclusive (sr_replaceRange r) - p)) s"]
  ultimately show ?case using Cons.prems by simp
qed simp

lemma converges_step:
  assumes conv: "converges (endExclusive (sr_replaceRange r)) n dO o' bs
      (dB + (int (length (sr_newText r)) - OffsetRange_length (sr_replaceRange r))) b' os"
    and r: "str.valid p (r # os) n" and bs: "str.valid (endExclusive (sr_replaceRange r)) bs n"
  shows "converges p n dO (moved dO r # o') bs dB b' (r # os)"
  unfolding converges_def
proof (intro conjI allI impI)
  let ?S = "start (sr_replaceRange r)" and ?E = "endExclusive (sr_replaceRange r)"
  let ?k = "int (length (sr_newText r))"
  let ?d = "dB + (?k - OffsetRange_length (sr_replaceRange r))"
  have v: "p \<le> ?S" "?S \<le> ?E" "?E \<le> n" using r bs str.valid_le [OF bs] by simp_all
  have off: "?E + ?d = ?S + dB + ?k" by (simp add: OffsetRange_length_def)
  show "str.valid (p + dO) (moved dO r # o') (n + dO + str.shift bs)"
    using conv v by (simp add: converges_def)
  have b': "str.valid (?E + ?d) b' (n + dB + str.shift (r # os))"
    using conv by (simp add: converges_def algebra_simps)
  then show "str.valid (p + dB) b' (n + dB + str.shift (r # os))"
    using off v by (auto intro: str.valid_weaken)
  fix s :: js_string assume s: "int (length s) = n - p"
  let ?s = "drop (nat (?E - p)) s" and ?A = "take (nat (?S - p)) s"
  have ls: "int (length ?s) = n - ?E" using s v by simp
  have adv: "str.app p bs s = take (nat (?E - p)) s @ str.app ?E bs ?s"
    using str.app_advance [OF bs, of p s] v s by simp
  have "take (nat (?E - p)) s = ?A @ take (nat (?E - ?S)) (drop (nat (?S - p)) s)"
    using v nat_add_distrib [of "?S - p" "?E - ?S"] by (simp add: take_add)
  then have "str.app p bs s = ?A @ take (nat (?E - ?S)) (drop (nat (?S - p)) s) @ str.app ?E bs ?s"
    using adv by simp
  moreover have lA: "length ?A = nat (?S - p)" using s v by simp
  moreover have "length (take (nat (?E - ?S)) (drop (nat (?S - p)) s)) = nat (?E - ?S)"
    using s v by simp
  ultimately have "str.app (p + dO) (moved dO r # o') (str.app p bs s) =
      ?A @ sr_newText r @ str.app (?E + dO) o' (str.app ?E bs ?s)"
    using str.app_Cons_split [of "moved dO r" "p + dO" ?A "take (nat (?E - ?S)) (drop (nat (?S - p)) s)" o'
        "str.app ?E bs ?s"] v nat_add_distrib [of "?S - p" "?E - ?S"]
    by (simp del: edit_app.simps length_take length_drop)
  also have "str.app (?E + dO) o' (str.app ?E bs ?s) = str.app (?E + ?d) b' (str.app ?E os ?s)"
    using conv ls by (simp add: converges_def)
  also have "?A @ sr_newText r @ \<dots> = str.app (p + dB) b' ((?A @ sr_newText r) @ str.app ?E os ?s)"
  proof -
    have "p + dB + int (length (?A @ sr_newText r)) = ?E + ?d" using lA v off by simp
    from str.app_skip [of "p + dB" "?A @ sr_newText r" b', unfolded this, OF b'] show ?thesis
      by (metis append_assoc)
  qed
  also have "(?A @ sr_newText r) @ str.app ?E os ?s = str.app p (r # os) s" by simp
  finally show "str.app (p + dO) (moved dO r # o') (str.app p bs s) =
    str.app (p + dB) b' (str.app p (r # os) s)" .
qed

definition conflicting :: "StringReplacement \<Rightarrow> StringReplacement \<Rightarrow> bool" where
  "conflicting a b \<longleftrightarrow>
     OffsetRange_intersects (sr_replaceRange a) (sr_replaceRange b) \<or>
     areConcurrentInserts (sr_replaceRange a) (sr_replaceRange b) \<or>
     isInsertStrictlyInsideRange (sr_replaceRange a) (sr_replaceRange b) \<or>
     isInsertStrictlyInsideRange (sr_replaceRange b) (sr_replaceRange a)"

definition goes_first :: "StringReplacement \<Rightarrow> StringReplacement \<Rightarrow> bool" where
  "goes_first a b \<longleftrightarrow> start (sr_replaceRange a) < start (sr_replaceRange b) \<or>
     (OffsetRange_isEmpty (sr_replaceRange a) \<and> start (sr_replaceRange a) = start (sr_replaceRange b))"

lemma conflicting_sym: "conflicting a b \<longleftrightarrow> conflicting b a"
  by (auto simp: conflicting_def OffsetRange_intersects_def areConcurrentInserts_def Let_def max.commute min.commute)

lemma goes_first_cases:
  assumes "\<not> conflicting a b" and "or_wf (sr_replaceRange a)" and "or_wf (sr_replaceRange b)"
  shows "goes_first a b \<longleftrightarrow> \<not> goes_first b a"
    and "goes_first a b \<Longrightarrow> endExclusive (sr_replaceRange a) \<le> start (sr_replaceRange b)"
  using assms unfolding conflicting_def goes_first_def OffsetRange_intersects_def
    areConcurrentInserts_def isInsertStrictlyInsideRange_def OffsetRange_isEmpty_def or_wf_def Let_def
  by (smt (verit))+

lemma tryRebase_loop_Cons:
  assumes "or_wf (sr_replaceRange a)"
  shows "tryRebase_loop nov (a # os) (b # bs) d new =
    (if conflicting a b then if nov then Inr None else tryRebase_loop nov os (b # bs) d new
     else if goes_first a b then tryRebase_loop nov os (b # bs) d (new @ [moved d a])
     else tryRebase_loop nov (a # os) bs
            (d + (int (length (sr_newText b)) - OffsetRange_length (sr_replaceRange b))) new)"
  using delta_moved [of a d "\<lambda>m. tryRebase_loop nov os (b # bs) d (new @ [m])"] assms
  by (simp add: conflicting_def goes_first_def or_wf_def)

text \<open>The outcome of rebasing two edits over each other: both succeed and converge, or none does.\<close>

definition rebase_agree :: "StringReplacement list \<Rightarrow> StringReplacement list \<Rightarrow> int \<Rightarrow> int \<Rightarrow> int \<Rightarrow>
    StringReplacement list \<Rightarrow> int \<Rightarrow> StringReplacement list \<Rightarrow> bool" where
  "rebase_agree os bs p n dO newO dB newB \<longleftrightarrow>
     (\<exists>o' b'. tryRebase_loop True os bs dO newO = Inr (Some (newO @ o')) \<and>
              tryRebase_loop True bs os dB newB = Inr (Some (newB @ b')) \<and>
              converges p n dO o' bs dB b' os) \<or>
     (tryRebase_loop True os bs dO newO = Inr None \<and> tryRebase_loop True bs os dB newB = Inr None)"

lemma rebase_agree_sym: "rebase_agree os bs p n dO newO dB newB \<longleftrightarrow> rebase_agree bs os p n dB newB dO newO"
  using converges_sym [of p n dO _ bs dB _ os] unfolding rebase_agree_def by blast

lemma rebase_agree_step:
  assumes nc: "\<not> conflicting a b" "goes_first a b" "\<not> goes_first b a"
    and wf: "or_wf (sr_replaceRange a)" "or_wf (sr_replaceRange b)"
    and v: "str.valid p (a # os) n" "str.valid p (b # bs) n"
    and IH: "\<And>p dO newO dB newB. str.valid p os n \<Longrightarrow> str.valid p (b # bs) n \<Longrightarrow>
      rebase_agree os (b # bs) p n dO newO dB newB"
  shows "rebase_agree (a # os) (b # bs) p n dO newO dB newB"
proof -
  let ?E = "endExclusive (sr_replaceRange a)"
  let ?d = "dB + (int (length (sr_newText a)) - OffsetRange_length (sr_replaceRange a))"
  have vb: "str.valid ?E (b # bs) n" using v(2) goes_first_cases(2) [OF nc(1) wf nc(2)] by simp
  have va: "str.valid ?E os n" using v(1) by simp
  have "tryRebase_loop True (a # os) (b # bs) dO newO =
      tryRebase_loop True os (b # bs) dO (newO @ [moved dO a])"
    "tryRebase_loop True (b # bs) (a # os) dB newB = tryRebase_loop True (b # bs) os ?d newB"
    using nc wf conflicting_sym [of a b] by (simp_all add: tryRebase_loop_Cons del: tryRebase_loop.simps)
  with IH [OF va vb, of dO "newO @ [moved dO a]" ?d newB] show ?thesis
    using converges_step [OF _ v(1) vb] unfolding rebase_agree_def by (auto simp del: tryRebase_loop.simps)
qed

lemma tryRebase_converges:
  assumes "str.valid p os n" and "str.valid p bs n"
  shows "rebase_agree os bs p n dO newO dB newB"
  using assms
proof (induction "length os + length bs" arbitrary: os bs p dO dB newO newB rule: less_induct)
  case (less os bs p dO dB newO newB)
  have n: "p \<le> n" using str.valid_le [OF less.prems(1)] .
  consider "os = []" | "bs = []" | a os' b bs' where "os = a # os'" "bs = b # bs'"
    by (metis neq_Nil_conv)
  then show ?case
  proof cases
    case 1
    moreover have "tryRebase_loop True bs [] dB newB = Inr (Some (newB @ map (moved dB) bs))"
      "converges p n dO [] bs dB (map (moved dB) bs) []"
      using tryRebase_rest [OF less.prems(2)] str.valid_le_shift [OF less.prems(2)] n
      by (auto simp: converges_def)
    ultimately show ?thesis by (auto simp: rebase_agree_def)
  next
    case 2
    moreover have "tryRebase_loop True os [] dO newO = Inr (Some (newO @ map (moved dO) os))"
      "converges p n dO (map (moved dO) os) [] dB [] os"
      using tryRebase_rest [OF less.prems(1)] str.valid_le_shift [OF less.prems(1)] n
      by (auto simp: converges_def)
    moreover have "tryRebase_loop True [] os dB newB = Inr (Some newB)" by simp
    ultimately show ?thesis by (auto simp: rebase_agree_def)
  next
    case 3
    have wf: "or_wf (sr_replaceRange a)" "or_wf (sr_replaceRange b)"
      using less.prems 3 by (simp_all add: or_wf_def)
    consider "conflicting a b" | "\<not> conflicting a b" "goes_first a b" "\<not> goes_first b a"
      | "\<not> conflicting a b" "\<not> goes_first a b" "goes_first b a"
      using goes_first_cases(1) [OF _ wf] by blast
    then show ?thesis
    proof cases
      case 1
      with 3 wf show ?thesis using conflicting_sym [of a b]
        by (simp add: rebase_agree_def tryRebase_loop_Cons del: tryRebase_loop.simps)
    next
      case 2
      show ?thesis unfolding 3
        using rebase_agree_step [OF 2 wf] less.prems less.hyps unfolding 3 by simp
    next
      case c: 3
      have "\<not> conflicting b a" using c(1) by (simp add: conflicting_sym)
      from rebase_agree_step [OF this c(3,2) wf(2,1), of p bs' n os' dB newB dO newO]
        less.prems less.hyps [of bs' "a # os'"]
      show ?thesis unfolding 3 by (simp add: rebase_agree_sym)
    qed
  qed
qed

text \<open>Skipping the conflicting replacements always leaves an edit that fits.\<close>

lemma tryRebase_skip:
  assumes "str.valid p os n" and "str.valid p bs n"
  shows "\<exists>o'. tryRebase_loop False os bs d new = Inr (Some (new @ o')) \<and>
    str.valid (p + d) o' (n + d + str.shift bs)"
  using assms
proof (induction "length os + length bs" arbitrary: os bs p d new rule: less_induct)
  case (less os bs p d new)
  consider "os = []" | "bs = []" | a os' b bs' where "os = a # os'" "bs = b # bs'"
    by (metis neq_Nil_conv)
  then show ?case
  proof cases
    case 1
    with str.valid_le_shift [OF less.prems(2)] show ?thesis by simp
  next
    case 2
    with tryRebase_rest [OF less.prems(1), of False d new] show ?thesis by auto
  next
    case 3
    let ?A = "sr_replaceRange a" and ?B = "sr_replaceRange b"
    have wf: "or_wf ?A" "or_wf ?B" using less.prems 3 by (simp_all add: or_wf_def)
    have v: "p \<le> start ?A" "start ?A \<le> endExclusive ?A" "str.valid (endExclusive ?A) os' n"
      "p \<le> start ?B" "start ?B \<le> endExclusive ?B" "str.valid (endExclusive ?B) bs' n"
      using less.prems 3 by simp_all
    consider "conflicting a b" | "\<not> conflicting a b" "goes_first a b"
      | "\<not> conflicting b a" "\<not> goes_first a b" "goes_first b a"
      using goes_first_cases(1) [OF _ wf] conflicting_sym by blast
    then show ?thesis
    proof cases
      case 1
      have "str.valid p os' n" using v by (auto intro: str.valid_weaken)
      with less.hyps [of os' bs p d new] less.prems(2) 1 3 wf show ?thesis
        by (simp add: tryRebase_loop_Cons del: tryRebase_loop.simps)
    next
      case 2
      have "str.valid (endExclusive ?A) bs n"
        using goes_first_cases(2) [OF 2(1) wf 2(2)] less.prems(2) 3 by simp
      from less.hyps [OF _ v(3) this, of d "new @ [moved d a]"] 3 obtain o' where
        "tryRebase_loop False os' bs d (new @ [moved d a]) = Inr (Some ((new @ [moved d a]) @ o'))"
        "str.valid (endExclusive ?A + d) o' (n + d + str.shift bs)" by auto
      with 2 3 wf v show ?thesis
        by (intro exI [of _ "moved d a # o'"]) (simp add: tryRebase_loop_Cons del: tryRebase_loop.simps)
    next
      case c: 3
      let ?d = "d + (int (length (sr_newText b)) - OffsetRange_length ?B)"
      have "str.valid (endExclusive ?B) os n"
        using goes_first_cases(2) [OF c(1) wf(2,1) c(3)] less.prems(1) 3 by simp
      from less.hyps [OF _ this v(6), of ?d new] 3 obtain o' where
        o': "tryRebase_loop False os bs' ?d new = Inr (Some (new @ o'))"
        "str.valid (endExclusive ?B + ?d) o' (n + ?d + str.shift bs')" by auto
      have "str.valid (p + d) o' (n + d + str.shift bs)"
        using str.valid_weaken [OF o'(2), of "p + d"] v 3 by (simp add: OffsetRange_length_def algebra_simps)
      with o' c 3 wf show ?thesis
        by (simp add: conflicting_sym tryRebase_loop_Cons del: tryRebase_loop.simps)
    qed
  qed
qed

text \<open>
  \<^bold>\<open>C26.\<close> Rebasing two edits of the same text over each other: either both attempts report a
  conflict or both succeed, the rebased edits fit, and the two orders of application lead to
  the same text; \<open>rebaseSkipConflicting\<close> never throws and never returns \<open>undefined\<close>.
\<close>

theorem BaseStringEdit_tryRebase_correct:
  assumes "fits a s" and "fits b s"
  shows "(BaseStringEdit_tryRebase a b = Inr None \<and> BaseStringEdit_tryRebase b a = Inr None \<or>
          (\<exists>a' b'. BaseStringEdit_tryRebase a b = Inr (Some a') \<and> BaseStringEdit_tryRebase b a = Inr (Some b') \<and>
             fits a' (BaseStringEdit_apply b s) \<and> fits b' (BaseStringEdit_apply a s) \<and>
             BaseStringEdit_apply a' (BaseStringEdit_apply b s) =
             BaseStringEdit_apply b' (BaseStringEdit_apply a s))) \<and>
         (\<exists>c. BaseStringEdit_rebaseSkipConflicting a b = Inr (Some c) \<and> fits c (BaseStringEdit_apply b s))"
proof
  let ?n = "int (length s)"
  have v: "str.valid 0 a ?n" "str.valid 0 b ?n" using assms by (simp_all add: fits_def)
  show "BaseStringEdit_tryRebase a b = Inr None \<and> BaseStringEdit_tryRebase b a = Inr None \<or>
          (\<exists>a' b'. BaseStringEdit_tryRebase a b = Inr (Some a') \<and> BaseStringEdit_tryRebase b a = Inr (Some b') \<and>
             fits a' (BaseStringEdit_apply b s) \<and> fits b' (BaseStringEdit_apply a s) \<and>
             BaseStringEdit_apply a' (BaseStringEdit_apply b s) =
             BaseStringEdit_apply b' (BaseStringEdit_apply a s))"
  proof (cases "tryRebase_loop True a b 0 [] = Inr None \<and> tryRebase_loop True b a 0 [] = Inr None")
    case True
    then show ?thesis by (simp add: BaseStringEdit_tryRebase_def BaseStringEdit_tryRebase_internal_def)
  next
    case False
    with tryRebase_converges [OF v, of 0 "[]" 0 "[]"] obtain a' b' where
      l: "tryRebase_loop True a b 0 [] = Inr (Some a')" "tryRebase_loop True b a 0 [] = Inr (Some b')"
      and conv: "converges 0 ?n 0 a' b 0 b' a" by (auto simp: rebase_agree_def)
    from conv have "fits a' (BaseStringEdit_apply b s)" "fits b' (BaseStringEdit_apply a s)"
      using length_apply [OF assms(1)] length_apply [OF assms(2)] by (simp_all add: fits_def converges_def)
    moreover from this have "BaseStringEdit_apply a' (BaseStringEdit_apply b s) =
        BaseStringEdit_apply b' (BaseStringEdit_apply a s)"
      using conv assms by (simp add: apply_app converges_def)
    ultimately show ?thesis
      using l by (simp add: BaseStringEdit_tryRebase_def BaseStringEdit_tryRebase_internal_def fits_new)
  qed
  from tryRebase_skip [OF v, of 0 "[]"] obtain c where
    c: "tryRebase_loop False a b 0 [] = Inr (Some c)" "str.valid 0 c (?n + str.shift b)" by auto
  then have "fits c (BaseStringEdit_apply b s)"
    using length_apply [OF assms(2)] by (simp add: fits_def)
  with c(1) show "\<exists>c. BaseStringEdit_rebaseSkipConflicting a b = Inr (Some c) \<and>
      fits c (BaseStringEdit_apply b s)"
    by (simp add: BaseStringEdit_rebaseSkipConflicting_def BaseStringEdit_tryRebase_internal_def fits_new)
qed

theorem BaseStringEdit_tryRebase_correct_witness:
  "\<exists>a' b'. BaseStringEdit_tryRebase
       [\<lparr>sr_replaceRange = \<lparr>start = 0, endExclusive = 1\<rparr>, sr_newText = [7, 8 :: 16 word]\<rparr>]
       [\<lparr>sr_replaceRange = \<lparr>start = 2, endExclusive = 3\<rparr>, sr_newText = []\<rparr>] = Inr (Some a') \<and>
     BaseStringEdit_tryRebase
       [\<lparr>sr_replaceRange = \<lparr>start = 2, endExclusive = 3\<rparr>, sr_newText = []\<rparr>]
       [\<lparr>sr_replaceRange = \<lparr>start = 0, endExclusive = 1\<rparr>, sr_newText = [7, 8]\<rparr>] = Inr (Some b') \<and>
     BaseStringEdit_apply a' [1, 2] = BaseStringEdit_apply b' [7, 8, 2, 3]"
proof -
  let ?a = "[\<lparr>sr_replaceRange = \<lparr>start = 0, endExclusive = 1\<rparr>, sr_newText = [7, 8 :: 16 word]\<rparr>]"
  let ?b = "[\<lparr>sr_replaceRange = \<lparr>start = 2, endExclusive = 3\<rparr>, sr_newText = [] :: js_string\<rparr>]"
  have "fits ?a [1, 2, 3]" "fits ?b [1, 2, 3]" by (simp_all add: fits_def)
  moreover have "BaseStringEdit_apply ?a [1, 2, 3] = [7, 8, 2, 3]" "BaseStringEdit_apply ?b [1, 2, 3] = [1, 2]"
    by (simp_all add: BaseStringEdit_apply_def js_substring_def js_substring_from_def clamp_def)
  moreover have "BaseStringEdit_tryRebase ?a ?b \<noteq> Inr None"
    by (simp add: BaseStringEdit_tryRebase_def BaseStringEdit_tryRebase_internal_def OffsetRange_intersects_def
        areConcurrentInserts_def isInsertStrictlyInsideRange_def OffsetRange_isEmpty_def Let_def
        OffsetRange_delta_def new_StringEdit_def new_BaseEdit_def)
  ultimately show ?thesis using BaseStringEdit_tryRebase_correct [of ?a "[1, 2, 3]" ?b] by auto
qed

section \<open>Trimming against the source text\<close>

lemma commonPrefix_loop_spec:
  "take i a = take i b \<Longrightarrow> i \<le> k \<Longrightarrow> k \<le> length a \<Longrightarrow> k \<le> length b \<Longrightarrow>
   commonPrefix_loop a b k i \<le> k \<and> take (commonPrefix_loop a b k i) a = take (commonPrefix_loop a b k i) b"
proof (induction a b k i rule: commonPrefix_loop.induct)
  case (1 a b k i)
  show ?case
  proof (cases "i < k \<and> a ! i = b ! i")
    case True
    with 1 have "take (Suc i) a = take (Suc i) b" by (simp add: take_Suc_conv_app_nth)
    with 1 True show ?thesis by (subst (1 2 3) commonPrefix_loop.simps) auto
  next
    case False
    with 1 show ?thesis by (subst (1 2 3) commonPrefix_loop.simps) auto
  qed
qed

lemma commonPrefixLength_spec:
  "commonPrefixLength a b \<le> length a" "commonPrefixLength a b \<le> length b"
  "take (commonPrefixLength a b) a = take (commonPrefixLength a b) b"
  using commonPrefix_loop_spec [of 0 a b "min (length a) (length b)"]
  by (simp_all add: commonPrefixLength_def)

text \<open>The suffix loop is the prefix loop on the reversed strings.\<close>

lemma commonSuffix_loop_rev:
  "k \<le> length a \<Longrightarrow> k \<le> length b \<Longrightarrow> commonSuffix_loop a b k i = commonPrefix_loop (rev a) (rev b) k i"
proof (induction a b k i rule: commonSuffix_loop.induct)
  case (1 a b k i)
  then show ?case
    by (subst commonSuffix_loop.simps, subst commonPrefix_loop.simps) (auto simp: rev_nth)
qed

lemma commonSuffixLength_rev: "commonSuffixLength a b = commonPrefixLength (rev a) (rev b)"
  by (simp add: commonSuffixLength_def commonPrefixLength_def commonSuffix_loop_rev)

lemma commonSuffixLength_spec:
  "commonSuffixLength a b \<le> length a" "commonSuffixLength a b \<le> length b"
  "k \<le> commonSuffixLength a b \<Longrightarrow> drop (length a - k) a = drop (length b - k) b"
proof -
  show le: "commonSuffixLength a b \<le> length a" "commonSuffixLength a b \<le> length b"
    using commonPrefixLength_spec(1,2) [of "rev a" "rev b"] by (simp_all add: commonSuffixLength_rev)
  assume "k \<le> commonSuffixLength a b"
  then have k: "k \<le> commonPrefixLength (rev a) (rev b)" by (simp add: commonSuffixLength_rev)
  have "take k (take (commonPrefixLength (rev a) (rev b)) (rev a)) =
      take k (take (commonPrefixLength (rev a) (rev b)) (rev b))"
    by (simp only: commonPrefixLength_spec(3) [of "rev a" "rev b"])
  with k have "take k (rev a) = take k (rev b)" by (simp add: min_absorb1)
  then have "rev (take k (rev a)) = rev (take k (rev b))" by simp
  then show "drop (length a - k) a = drop (length b - k) b" by (simp add: rev_take)
qed

text \<open>
  \<open>trimmed S r r'\<close>: \<open>r'\<close> is \<open>r\<close> with a common prefix and suffix of the replaced text
  and the new text taken away on both sides.
\<close>

definition old_text :: "js_string \<Rightarrow> StringReplacement \<Rightarrow> js_string" where
  "old_text S r = take (nat (OffsetRange_length (sr_replaceRange r))) (drop (nat (start (sr_replaceRange r))) S)"

definition within :: "js_string \<Rightarrow> StringReplacement \<Rightarrow> bool" where
  "within S r \<longleftrightarrow> 0 \<le> start (sr_replaceRange r) \<and> or_wf (sr_replaceRange r) \<and>
     endExclusive (sr_replaceRange r) \<le> int (length S)"

definition trimmed :: "js_string \<Rightarrow> StringReplacement \<Rightarrow> StringReplacement \<Rightarrow> bool" where
  "trimmed S r r' \<longleftrightarrow> (\<exists>P X Q N. old_text S r = P @ X @ Q \<and> sr_newText r = P @ N @ Q \<and> sr_newText r' = N \<and>
     start (sr_replaceRange r') = start (sr_replaceRange r) + int (length P) \<and>
     endExclusive (sr_replaceRange r') = endExclusive (sr_replaceRange r) - int (length Q))"

lemma length_old_text: "within S r \<Longrightarrow> int (length (old_text S r)) = OffsetRange_length (sr_replaceRange r)"
  by (auto simp: within_def old_text_def or_wf_def OffsetRange_length_def)

lemma trimmed_within: "trimmed S r r' \<Longrightarrow> within S r \<Longrightarrow> within S r'"
  using length_old_text [of S r]
  by (auto simp: trimmed_def within_def or_wf_def OffsetRange_length_def)

lemma trimmed_old_text:
  assumes "within S r" and "old_text S r = P @ X @ Q"
    and "start (sr_replaceRange r') = start (sr_replaceRange r) + int (length P)"
    and "endExclusive (sr_replaceRange r') = endExclusive (sr_replaceRange r) - int (length Q)"
  shows "old_text S r' = X"
proof -
  let ?x = "nat (start (sr_replaceRange r))" and ?l = "nat (OffsetRange_length (sr_replaceRange r))"
  have l: "?l = length P + length X + length Q"
    using arg_cong [OF assms(2), of length] length_old_text [OF assms(1)] by simp
  then have "nat (OffsetRange_length (sr_replaceRange r')) = length X"
    using assms(1,3,4) by (simp add: OffsetRange_length_def within_def or_wf_def)
  moreover have "nat (start (sr_replaceRange r')) = length P + ?x"
    using assms(1,3) by (simp add: within_def nat_add_distrib)
  ultimately have "old_text S r' = take (length X) (drop (length P) (take ?l (drop ?x S)))"
    unfolding old_text_def l by (simp add: drop_take)
  also have "take ?l (drop ?x S) = P @ X @ Q" using assms(2) by (simp add: old_text_def)
  finally show ?thesis by simp
qed

lemma trimmed_trans:
  assumes "within S r" and "trimmed S r r'" and "trimmed S r' r''"
  shows "trimmed S r r''"
proof -
  from assms(2) obtain P X Q N where 1: "old_text S r = P @ X @ Q" "sr_newText r = P @ N @ Q" "sr_newText r' = N"
    "start (sr_replaceRange r') = start (sr_replaceRange r) + int (length P)"
    "endExclusive (sr_replaceRange r') = endExclusive (sr_replaceRange r) - int (length Q)"
    unfolding trimmed_def by blast
  from assms(3) trimmed_old_text [OF assms(1) 1(1,4,5)] obtain P' X' Q' N' where
    2: "X = P' @ X' @ Q'" "N = P' @ N' @ Q'" "sr_newText r'' = N'"
    "start (sr_replaceRange r'') = start (sr_replaceRange r') + int (length P')"
    "endExclusive (sr_replaceRange r'') = endExclusive (sr_replaceRange r') - int (length Q')"
    using 1(3) unfolding trimmed_def by auto
  show ?thesis
    unfolding trimmed_def using 1 2
    by (intro exI [of _ "P @ P'"] exI [of _ X'] exI [of _ "Q' @ Q"] exI [of _ N']) simp
qed

lemma trimmed_step:
  assumes t: "trimmed S r r'" and v: "str.valid p (r # rs) (int (length S))" and p: "0 \<le> p"
    and rest: "str.valid (endExclusive (sr_replaceRange r)) rs' (int (length S))"
      "str.app (endExclusive (sr_replaceRange r)) rs' (drop (nat (endExclusive (sr_replaceRange r))) S) =
       str.app (endExclusive (sr_replaceRange r)) rs (drop (nat (endExclusive (sr_replaceRange r))) S)"
  shows "str.valid p (r' # rs') (int (length S))"
    and "str.app p (r' # rs') (drop (nat p) S) = str.app p (r # rs) (drop (nat p) S)"
proof -
  let ?x = "start (sr_replaceRange r)" and ?y = "endExclusive (sr_replaceRange r)"
  have w: "p \<le> ?x" "?x \<le> ?y" "?y \<le> int (length S)" using v str.valid_le [OF rest(1)] by simp_all
  then have "within S r" using p by (simp add: within_def or_wf_def)
  from t obtain P X Q N where *: "old_text S r = P @ X @ Q" "sr_newText r = P @ N @ Q" "sr_newText r' = N"
    "start (sr_replaceRange r') = ?x + int (length P)"
    "endExclusive (sr_replaceRange r') = ?y - int (length Q)"
    unfolding trimmed_def by blast
  have len: "?y - ?x = int (length P) + int (length X) + int (length Q)"
    using length_old_text [OF \<open>within S r\<close>] *(1) by (simp add: OffsetRange_length_def)
  have restv: "str.valid (?y - int (length Q)) rs' (int (length S))"
    using rest(1) by (rule str.valid_weaken) simp
  then show "str.valid p (r' # rs') (int (length S))" using * len w by simp
  let ?A = "take (nat (?x - p)) (drop (nat p) S)" and ?V = "drop (nat ?y) S"
  have lA: "length ?A = nat (?x - p)" using w p by simp
  have "nat (?x - p) + nat p = nat ?x" using w p nat_add_distrib [of "?x - p" p] by simp
  then have S1: "drop (nat p) S = ?A @ drop (nat ?x) S"
    using append_take_drop_id [of "nat (?x - p)" "drop (nat p) S"] by simp
  have "nat (?y - ?x) + nat ?x = nat ?y" using w p nat_add_distrib [of "?y - ?x" ?x] by simp
  then have "drop (nat ?x) S = old_text S r @ ?V"
    using append_take_drop_id [of "nat (?y - ?x)" "drop (nat ?x) S"]
    by (simp add: old_text_def OffsetRange_length_def)
  then have S2: "drop (nat p) S = (?A @ P) @ X @ (Q @ ?V)" "drop (nat p) S = ?A @ (P @ X @ Q) @ ?V"
    using S1 *(1) by simp_all
  have "str.app p (r' # rs') ((?A @ P) @ X @ (Q @ ?V)) = (?A @ P) @ N @ str.app (?y - int (length Q)) rs' (Q @ ?V)"
    using str.app_Cons_split [of r' p "?A @ P" X rs' "Q @ ?V"] * len lA w
    by (simp del: edit_app.simps length_take length_drop)
  also have "str.app (?y - int (length Q)) rs' (Q @ ?V) = Q @ str.app ?y rs' ?V"
    using str.app_skip [of "?y - int (length Q)" Q rs'] rest(1) by simp
  also have "str.app ?y rs' ?V = str.app ?y rs ?V" using rest(2) .
  also have "(?A @ P) @ N @ Q @ str.app ?y rs ?V = str.app p (r # rs) (?A @ (P @ X @ Q) @ ?V)"
    using str.app_Cons_split [of r p ?A "P @ X @ Q" rs ?V] *(2) len lA w
    by (simp del: edit_app.simps length_take length_drop)
  finally show "str.app p (r' # rs') (drop (nat p) S) = str.app p (r # rs) (drop (nat p) S)"
    unfolding S2(1) [symmetric] S2(2) [symmetric] .
qed

lemma split3:
  assumes "a + b \<le> length l"
  shows "l = take a l @ take (length l - b - a) (drop a l) @ drop (length l - b) l"
proof -
  have "drop a l = take (length l - b - a) (drop a l) @ drop (length l - b - a) (drop a l)"
    by (rule append_take_drop_id [symmetric])
  moreover have "drop (length l - b - a) (drop a l) = drop (length l - b) l"
    using assms by simp
  ultimately show ?thesis by (metis append_take_drop_id)
qed

text \<open>Cutting \<open>a\<close> common units in front and \<open>b\<close> at the back.\<close>

lemma trimmedI:
  assumes w: "within S r"
    and a: "take a (old_text S r) = take a (sr_newText r)"
    and b: "drop (length (old_text S r) - b) (old_text S r) = drop (length (sr_newText r) - b) (sr_newText r)"
    and ab: "a + b \<le> length (old_text S r)" "a + b \<le> length (sr_newText r)"
    and r': "start (sr_replaceRange r') = start (sr_replaceRange r) + int a"
      "endExclusive (sr_replaceRange r') = endExclusive (sr_replaceRange r) - int b"
      "sr_newText r' = take (length (sr_newText r) - b - a) (drop a (sr_newText r))"
  shows "trimmed S r r'"
  unfolding trimmed_def
proof (intro exI conjI)
  let ?old = "old_text S r" and ?new = "sr_newText r"
  show "?old = take a ?old @ take (length ?old - b - a) (drop a ?old) @ drop (length ?old - b) ?old"
    by (rule split3 [OF ab(1)])
  show "?new = take a ?old @ sr_newText r' @ drop (length ?old - b) ?old"
    unfolding a b r'(3) by (rule split3 [OF ab(2)])
  show "start (sr_replaceRange r') = start (sr_replaceRange r) + int (length (take a ?old))"
    "endExclusive (sr_replaceRange r') = endExclusive (sr_replaceRange r) - int (length (drop (length ?old - b) ?old))"
    using ab r' by simp_all
qed simp

lemma substring_old_text:
  "within S r \<Longrightarrow> js_substring S (start (sr_replaceRange r)) (endExclusive (sr_replaceRange r)) = old_text S r"
  by (simp add: within_def or_wf_def js_substring_bounds old_text_def OffsetRange_length_def)

lemma removeCommonSuffixPrefix_trimmed:
  assumes w: "within S r"
  shows "\<exists>r'. BaseStringReplacement_removeCommonSuffixPrefix r S = Inr r' \<and> trimmed S r r'"
proof -
  let ?old = "old_text S r" and ?new = "sr_newText r" and ?R = "sr_replaceRange r"
  define a where "a = commonPrefixLength ?old ?new"
  define b where "b = min (length ?old - a) (min (length ?new - a) (commonSuffixLength ?old ?new))"
  have al: "a \<le> length ?old" "a \<le> length ?new"
    using commonPrefixLength_spec(1,2) by (simp_all add: a_def)
  have "b \<le> length ?old - a" "b \<le> length ?new - a" by (simp_all add: b_def)
  with al have ab: "a + b \<le> length ?old" "a + b \<le> length ?new" by linarith+
  have suf: "min (int (length ?old) - int a) (min (int (length ?new) - int a) (int (commonSuffixLength ?old ?new))) = int b"
    using al by (simp add: b_def of_nat_diff)
  let ?r' = "new_StringReplacement \<lparr>start = start ?R + int a, endExclusive = endExclusive ?R - int b\<rparr>
    (take (length ?new - b - a) (drop a ?new))"
  have "start ?R + int a \<le> endExclusive ?R - int b"
    using ab(1) length_old_text [OF w] by (simp add: OffsetRange_length_def)
  moreover have "js_substring ?new (int a) (int (length ?new) - int b) = take (length ?new - b - a) (drop a ?new)"
    using ab by (simp add: js_substring_bounds nat_diff_distrib flip: of_nat_diff)
  ultimately have "BaseStringReplacement_removeCommonSuffixPrefix r S = Inr ?r'"
    by (simp add: BaseStringReplacement_removeCommonSuffixPrefix_def Let_def substring_old_text [OF w]
        a_def [symmetric] suf)
  moreover have "trimmed S r ?r'"
    by (rule trimmedI [OF w _ _ ab])
      (auto simp: a_def commonPrefixLength_spec b_def intro!: commonSuffixLength_spec(3))
  ultimately show ?thesis by blast
qed

lemma removeCommonSuffix_trimmed:
  assumes w: "within S r"
  shows "\<exists>r'. BaseStringReplacement_removeCommonSuffix r S = Inr r' \<and> trimmed S r r'"
proof -
  let ?old = "old_text S r" and ?new = "sr_newText r" and ?R = "sr_replaceRange r"
  define b where "b = commonSuffixLength ?old ?new"
  have b: "b \<le> length ?old" "b \<le> length ?new"
    using commonSuffixLength_spec(1,2) by (simp_all add: b_def)
  let ?r' = "new_StringReplacement \<lparr>start = start ?R, endExclusive = endExclusive ?R - int b\<rparr>
    (take (length ?new - b) ?new)"
  have t: "trimmed S r ?r'"
    by (rule trimmedI [OF w, of 0 b]) (use b in \<open>auto simp: b_def intro!: commonSuffixLength_spec(3)\<close>)
  show ?thesis
  proof (cases "b = 0")
    case True
    then have "trimmed S r r"
      by (intro trimmedI [OF w, of 0 0]) auto
    with True show ?thesis
      by (simp add: BaseStringReplacement_removeCommonSuffix_def OffsetRange_substring_def
          substring_old_text [OF w] b_def)
  next
    case False
    have "start ?R \<le> endExclusive ?R - int b"
      using b(1) length_old_text [OF w] by (simp add: OffsetRange_length_def)
    moreover have "OffsetRange_substring \<lparr>start = 0, endExclusive = int (length ?new) - int b\<rparr> ?new =
        take (length ?new - b) ?new"
      using b by (simp add: substring_slice flip: of_nat_diff)
    ultimately have "BaseStringReplacement_removeCommonSuffix r S = Inr ?r'"
      using False b
      by (simp add: BaseStringReplacement_removeCommonSuffix_def OffsetRange_substring_def [of ?R]
          substring_old_text [OF w] b_def [symmetric] OffsetRange_deltaEnd_def StringReplacement_slice_def)
    with t show ?thesis by blast
  qed
qed

lemma removeCommonPrefix_trimmed:
  assumes w: "within S r"
  shows "\<exists>r'. BaseStringReplacement_removeCommonPrefix r S = Inr r' \<and> trimmed S r r'"
proof -
  let ?old = "old_text S r" and ?new = "sr_newText r" and ?R = "sr_replaceRange r"
  define a where "a = commonPrefixLength ?old ?new"
  have a: "a \<le> length ?old" "a \<le> length ?new"
    using commonPrefixLength_spec(1,2) by (simp_all add: a_def)
  let ?r' = "new_StringReplacement \<lparr>start = start ?R + int a, endExclusive = endExclusive ?R\<rparr> (drop a ?new)"
  have t: "trimmed S r ?r'"
    by (rule trimmedI [OF w, of a 0]) (use a in \<open>auto simp: a_def commonPrefixLength_spec(3)\<close>)
  show ?thesis
  proof (cases "a = 0")
    case True
    then have "trimmed S r r"
      by (intro trimmedI [OF w, of 0 0]) auto
    with True show ?thesis
      by (simp add: BaseStringReplacement_removeCommonPrefix_def OffsetRange_substring_def
          substring_old_text [OF w] a_def)
  next
    case False
    have "start ?R + int a \<le> endExclusive ?R"
      using a(1) length_old_text [OF w] by (simp add: OffsetRange_length_def)
    moreover have "OffsetRange_substring \<lparr>start = int a, endExclusive = int (length ?new)\<rparr> ?new = drop a ?new"
      using a by (simp add: substring_slice)
    ultimately have "BaseStringReplacement_removeCommonPrefix r S = Inr ?r'"
      using False a
      by (simp add: BaseStringReplacement_removeCommonPrefix_def OffsetRange_substring_def [of ?R]
          substring_old_text [OF w] a_def [symmetric] OffsetRange_deltaStart_def StringReplacement_slice_def)
    with t show ?thesis by blast
  qed
qed

lemma removeCommonSuffixAndPrefix_trimmed:
  assumes w: "within S r"
  shows "\<exists>r'. BaseStringReplacement_removeCommonSuffixAndPrefix r S = Inr r' \<and> trimmed S r r'"
proof -
  obtain r1 where 1: "BaseStringReplacement_removeCommonSuffix r S = Inr r1" "trimmed S r r1"
    using removeCommonSuffix_trimmed [OF w] by blast
  obtain r2 where "BaseStringReplacement_removeCommonPrefix r1 S = Inr r2" "trimmed S r1 r2"
    using removeCommonPrefix_trimmed [OF trimmed_within [OF 1(2) w]] by blast
  with 1 trimmed_trans [OF w 1(2)] show ?thesis
    by (simp add: BaseStringReplacement_removeCommonSuffixAndPrefix_def)
qed

text \<open>Dropping an empty replacement in front of an edit.\<close>

lemma app_drop_empty:
  assumes "BaseReplacement_isEmpty StringReplacement_class r" and "str.valid p (r # rs) (int (length S))" and "0 \<le> p"
  shows "str.valid p rs (int (length S))" "str.app p rs (drop (nat p) S) = str.app p (r # rs) (drop (nat p) S)"
proof -
  have "int (length (drop (nat p) S)) = int (length S) - p" using str.valid_le [OF assms(2)] assms(3) by simp
  then show "str.valid p rs (int (length S))" "str.app p rs (drop (nat p) S) = str.app p (r # rs) (drop (nat p) S)"
    using str.refines_drop_empty [of r "int (length S)" rs] assms(1,2)
    unfolding BaseReplacement_isEmpty_def str.refines_def by blast+
qed

lemma valid_within: "str.valid p (r # rs) (int (length S)) \<Longrightarrow> 0 \<le> p \<Longrightarrow> within S r"
  using str.valid_le [of "endExclusive (sr_replaceRange r)" rs "int (length S)"]
  by (simp add: within_def or_wf_def)

lemma removeCommonSuffixPrefix_loop_spec:
  "str.valid p rs (int (length S)) \<Longrightarrow> 0 \<le> p \<Longrightarrow>
   \<exists>rs'. removeCommonSuffixPrefix_loop rs S = Inr rs' \<and> str.valid p rs' (int (length S)) \<and>
     str.app p rs' (drop (nat p) S) = str.app p rs (drop (nat p) S)"
proof (induction rs arbitrary: p)
  case (Cons r rs)
  have v: "str.valid (endExclusive (sr_replaceRange r)) rs (int (length S))" "0 \<le> endExclusive (sr_replaceRange r)"
    using Cons.prems by auto
  obtain r' where r': "BaseStringReplacement_removeCommonSuffixPrefix r S = Inr r'" "trimmed S r r'"
    using removeCommonSuffixPrefix_trimmed [OF valid_within [OF Cons.prems]] by blast
  from Cons.IH [OF v] obtain rs' where
    rs': "removeCommonSuffixPrefix_loop rs S = Inr rs'"
    "str.valid (endExclusive (sr_replaceRange r)) rs' (int (length S))"
    "str.app (endExclusive (sr_replaceRange r)) rs' (drop (nat (endExclusive (sr_replaceRange r))) S) =
     str.app (endExclusive (sr_replaceRange r)) rs (drop (nat (endExclusive (sr_replaceRange r))) S)" by blast
  note step = trimmed_step [OF r'(2) Cons.prems rs'(2,3)]
  show ?case
    using r' rs'(1) step app_drop_empty [OF _ step(1) Cons.prems(2)]
    by (cases "BaseReplacement_isEmpty StringReplacement_class r'") (simp_all del: edit_app.simps edit_valid.simps)
qed simp

lemma mapE_removeCommon_spec:
  "str.valid p rs (int (length S)) \<Longrightarrow> 0 \<le> p \<Longrightarrow>
   \<exists>rs'. mapE (\<lambda>e. BaseStringReplacement_removeCommonSuffixAndPrefix e S) rs = Inr rs' \<and>
     str.valid p rs' (int (length S)) \<and> str.app p rs' (drop (nat p) S) = str.app p rs (drop (nat p) S)"
proof (induction rs arbitrary: p)
  case (Cons r rs)
  have v: "str.valid (endExclusive (sr_replaceRange r)) rs (int (length S))" "0 \<le> endExclusive (sr_replaceRange r)"
    using Cons.prems by auto
  obtain r' where r': "BaseStringReplacement_removeCommonSuffixAndPrefix r S = Inr r'" "trimmed S r r'"
    using removeCommonSuffixAndPrefix_trimmed [OF valid_within [OF Cons.prems]] by blast
  from Cons.IH [OF v] obtain rs' where
    rs': "mapE (\<lambda>e. BaseStringReplacement_removeCommonSuffixAndPrefix e S) rs = Inr rs'"
    "str.valid (endExclusive (sr_replaceRange r)) rs' (int (length S))"
    "str.app (endExclusive (sr_replaceRange r)) rs' (drop (nat (endExclusive (sr_replaceRange r))) S) =
     str.app (endExclusive (sr_replaceRange r)) rs (drop (nat (endExclusive (sr_replaceRange r))) S)" by blast
  from trimmed_step [OF r'(2) Cons.prems rs'(2,3)] r'(1) rs'(1) show ?case
    by (simp del: edit_app.simps edit_valid.simps)
qed simp

text \<open>
  \<^bold>\<open>C30.\<close> On an edit that fits the source text, \<open>removeCommonSuffixPrefix\<close>,
  \<open>removeCommonSuffixAndPrefix\<close> and \<open>normalizeOnSource\<close> never throw and keep the effect on that
  text; \<open>normalizeOnSource\<close> returns at most one replacement, and edits with the same effect get
  the same result.
\<close>

theorem BaseStringEdit_trim_correct:
  assumes "fits e s"
  shows "(\<exists>e'. BaseStringEdit_removeCommonSuffixPrefix e s = Inr e' \<and> fits e' s \<and>
            BaseStringEdit_apply e' s = BaseStringEdit_apply e s) \<and>
         (\<exists>e'. BaseStringEdit_removeCommonSuffixAndPrefix e s = Inr e' \<and> fits e' s \<and>
            BaseStringEdit_apply e' s = BaseStringEdit_apply e s) \<and>
         (\<exists>e'. BaseStringEdit_normalizeOnSource e s = Inr e' \<and> fits e' s \<and> length e' \<le> 1 \<and>
            BaseStringEdit_apply e' s = BaseStringEdit_apply e s \<and>
            (\<forall>f. BaseStringEdit_apply f s = BaseStringEdit_apply e s \<longrightarrow>
                 BaseStringEdit_normalizeOnSource f s = Inr e'))"
proof (intro conjI)
  have v: "str.valid 0 e (int (length s))" using assms by (simp add: fits_def)
  from removeCommonSuffixPrefix_loop_spec [OF v] obtain e' where
    1: "removeCommonSuffixPrefix_loop e s = Inr e'" "str.valid 0 e' (int (length s))"
      "str.app 0 e' s = str.app 0 e s" by auto
  then have "fits e' s" by (simp add: fits_def)
  with 1 show "\<exists>e'. BaseStringEdit_removeCommonSuffixPrefix e s = Inr e' \<and> fits e' s \<and>
      BaseStringEdit_apply e' s = BaseStringEdit_apply e s"
    using assms by (simp add: BaseStringEdit_removeCommonSuffixPrefix_def fits_new apply_app)
next
  have v: "str.valid 0 e (int (length s))" using assms by (simp add: fits_def)
  from mapE_removeCommon_spec [OF v] obtain e1 where
    1: "mapE (\<lambda>e. BaseStringReplacement_removeCommonSuffixAndPrefix e s) e = Inr e1"
      "str.valid 0 e1 (int (length s))" "str.app 0 e1 s = str.app 0 e s" by auto
  from str.normalize_spec [OF 1(2)] obtain e' where 2: "BaseEdit_normalize StringReplacement_class e1 = Inr e'"
    "str.valid 0 e' (int (length s))" "str.app 0 e' s = str.app 0 e1 s" by blast
  have "fits e1 s" "fits e' s" using 1 2 by (simp_all add: fits_def)
  with 1 2 show "\<exists>e'. BaseStringEdit_removeCommonSuffixAndPrefix e s = Inr e' \<and> fits e' s \<and>
      BaseStringEdit_apply e' s = BaseStringEdit_apply e s"
    using assms by (simp add: BaseStringEdit_removeCommonSuffixAndPrefix_def fits_new apply_app)
next
  let ?t = "BaseStringEdit_apply e s"
  let ?R = "\<lparr>start = 0, endExclusive = int (length s)\<rparr>"
  let ?r = "new_StringReplacement ?R ?t"
  have w: "within s ?r" by (simp add: within_def or_wf_def)
  obtain r' where r': "BaseStringReplacement_removeCommonSuffixAndPrefix ?r s = Inr r'" "trimmed s ?r r'"
    using removeCommonSuffixAndPrefix_trimmed [OF w] by blast
  have v: "str.valid 0 [?r] (int (length s))" by simp
  have "str.app 0 [?r] s = ?t" by simp
  with trimmed_step [OF r'(2) v, of "[]"] have v': "str.valid 0 [r'] (int (length s))" "str.app 0 [r'] s = ?t"
    by simp_all
  let ?e' = "if BaseReplacement_isEmpty StringReplacement_class r' then [] else [r']"
  have e': "str.valid 0 ?e' (int (length s))" "str.app 0 ?e' s = ?t"
    using v' app_drop_empty [OF _ v'(1)] by (auto simp del: edit_app.simps edit_valid.simps)
  have "fits ?e' s" unfolding fits_def using e'(1) .
  moreover have "BaseStringEdit_normalizeOnSource f s = Inr ?e'" if "BaseStringEdit_apply f s = ?t" for f
    using that r'(1) fits_new [OF \<open>fits ?e' s\<close>]
    by (auto simp: BaseStringEdit_normalizeOnSource_def Let_def OffsetRange_ofLength_def StringReplacement_replace_def)
  ultimately show "\<exists>e'. BaseStringEdit_normalizeOnSource e s = Inr e' \<and> fits e' s \<and> length e' \<le> 1 \<and>
      BaseStringEdit_apply e' s = BaseStringEdit_apply e s \<and>
      (\<forall>f. BaseStringEdit_apply f s = BaseStringEdit_apply e s \<longrightarrow> BaseStringEdit_normalizeOnSource f s = Inr e')"
    using e'(2) by (intro exI [of _ ?e']) (simp add: apply_app)
qed

theorem BaseStringEdit_trim_correct_witness:
  "\<exists>e'. BaseStringEdit_normalizeOnSource
        [\<lparr>sr_replaceRange = \<lparr>start = 0, endExclusive = 3\<rparr>, sr_newText = [1, 5, 3 :: 16 word]\<rparr>] [1, 2, 3] = Inr e' \<and>
      length e' \<le> 1 \<and> BaseStringEdit_apply e' [1, 2, 3] = [1, 5, 3]"
proof -
  let ?e = "[\<lparr>sr_replaceRange = \<lparr>start = 0, endExclusive = 3\<rparr>, sr_newText = [1, 5, 3 :: 16 word]\<rparr>]"
  have "fits ?e [1, 2, 3]" by (simp add: fits_def)
  moreover have "BaseStringEdit_apply ?e [1, 2, 3] = [1, 5, 3]"
    by (simp add: BaseStringEdit_apply_def js_substring_def js_substring_from_def clamp_def)
  ultimately show ?thesis using BaseStringEdit_trim_correct [of ?e "[1, 2, 3]"] by auto
qed

section \<open>Sequential replacements\<close>

text \<open>Applying replacements one after the other, each to the result of those before it.\<close>

fun apply_sequentially :: "StringReplacement list \<Rightarrow> js_string \<Rightarrow> js_string" where
  "apply_sequentially [] s = s"
| "apply_sequentially (r # rs) s = apply_sequentially rs (BaseStringReplacement_replace r s)"

fun fits_sequentially :: "StringReplacement list \<Rightarrow> js_string \<Rightarrow> bool" where
  "fits_sequentially [] s \<longleftrightarrow> True"
| "fits_sequentially (r # rs) s \<longleftrightarrow> within s r \<and> fits_sequentially rs (BaseStringReplacement_replace r s)"

lemma within_single: "within s r \<Longrightarrow> fits [r] s \<and> BaseStringReplacement_replace r s = BaseStringEdit_apply [r] s"
  by (simp add: within_def or_wf_def fits_def BaseStringEdit_apply_def BaseStringReplacement_replace_def)

text \<open>A replacement before a sorted group may be applied after the group.\<close>

lemma apply_front:
  assumes "fits (r # rs) t"
  shows "fits rs t" and "BaseStringEdit_apply (r # rs) t = BaseStringReplacement_replace r (BaseStringEdit_apply rs t)"
proof -
  let ?R = "sr_replaceRange r" and ?n = "int (length t)"
  have v: "0 \<le> start ?R" "start ?R \<le> endExclusive ?R" "str.valid (endExclusive ?R) rs ?n"
    using assms by (simp_all add: fits_def)
  then have "str.valid 0 rs ?n" by (auto intro: str.valid_weaken)
  then show "fits rs t" by (simp add: fits_def)
  let ?u = "BaseStringEdit_apply rs t"
  have n: "endExclusive ?R \<le> ?n" using str.valid_le [OF v(3)] .
  have u: "?u = take (nat (endExclusive ?R)) t @ str.app (endExclusive ?R) rs (drop (nat (endExclusive ?R)) t)"
    using str.app_advance [OF v(3), of 0 t] v n by (simp add: apply_app [OF \<open>fits rs t\<close>])
  then have "endExclusive ?R \<le> int (length ?u)" using n by simp
  then have "BaseStringReplacement_replace r ?u =
      take (nat (start ?R)) ?u @ sr_newText r @ drop (nat (endExclusive ?R)) ?u"
    using v by (simp add: BaseStringReplacement_replace_def js_substring_bounds js_substring_from_bounds)
  also have "take (nat (start ?R)) ?u = take (nat (start ?R)) t"
    using v n by (simp add: u min_absorb1 nat_mono)
  also have "drop (nat (endExclusive ?R)) ?u = str.app (endExclusive ?R) rs (drop (nat (endExclusive ?R)) t)"
    using n by (simp add: u)
  finally show "BaseStringEdit_apply (r # rs) t = BaseStringReplacement_replace r ?u"
    by (simp add: apply_app [OF assms])
qed

lemma composeSequential_loop_spec:
  assumes "fits edit s" and "fits (rev cur) (BaseStringEdit_apply edit s)"
    and "fits_sequentially rs (BaseStringEdit_apply (rev cur) (BaseStringEdit_apply edit s))"
  shows "\<exists>e. composeSequential_loop edit cur rs = Inr e \<and> fits e s \<and>
    BaseStringEdit_apply e s =
      apply_sequentially rs (BaseStringEdit_apply (rev cur) (BaseStringEdit_apply edit s))"
  using assms
proof (induction rs arbitrary: edit cur)
  case Nil
  then show ?case using compose_apply [OF Nil(1,2)] fits_new [OF Nil(2)] by auto
next
  case (Cons r rs)
  let ?t = "BaseStringEdit_apply edit s"
  let ?u = "BaseStringEdit_apply (rev cur) ?t"
  have w: "within ?u r" "fits_sequentially rs (BaseStringReplacement_replace r ?u)" using Cons.prems(3) by simp_all
  show ?case
  proof (cases "cur = [] \<or> OffsetRange_isBefore (sr_replaceRange r) (sr_replaceRange (last cur))")
    case True
    have "fits (rev (cur @ [r])) ?t"
    proof (cases "cur = []")
      case True
      with w(1) show ?thesis by (simp add: fits_def within_def or_wf_def BaseStringEdit_apply_def js_simps)
    next
      case False
      then obtain c l where "cur = c @ [l]" by (metis append_butlast_last_id)
      with True False Cons.prems(2) w(1) show ?thesis
        by (auto simp: fits_def within_def or_wf_def OffsetRange_isBefore_def)
    qed
    moreover from apply_front [OF this [unfolded rev_append, simplified]]
    have "BaseStringEdit_apply (rev (cur @ [r])) ?t = BaseStringReplacement_replace r ?u" by simp
    ultimately show ?thesis
      using Cons.IH [of edit "cur @ [r]"] Cons.prems(1) w(2) True by simp
  next
    case False
    from compose_apply [OF Cons.prems(1,2)] obtain e where
      e: "BaseEdit_compose StringReplacement_class edit (rev cur) = Inr e" "fits e s"
      "BaseStringEdit_apply e s = ?u" by blast
    from within_single [OF w(1)] have "fits (rev [r]) (BaseStringEdit_apply e s)"
      "BaseStringEdit_apply (rev [r]) (BaseStringEdit_apply e s) = BaseStringReplacement_replace r ?u"
      by (simp_all add: e(3))
    with Cons.IH [OF e(2), of "[r]"] e w(2) False fits_new [OF Cons.prems(2)] show ?thesis
      by simp
  qed
qed

text \<open>
  \<^bold>\<open>C29.\<close> \<open>composeSequentialReplacements\<close> never throws when every replacement lies within the
  text left by those before it; the single edit it returns has the effect of applying the
  replacements one after the other.
\<close>

theorem composeSequentialReplacements_correct:
  assumes "fits_sequentially rs s"
  shows "\<exists>e. StringEdit_composeSequentialReplacements rs = Inr e \<and> fits e s \<and>
    BaseStringEdit_apply e s = apply_sequentially rs s"
proof -
  have "fits [] s" by (simp add: fits_def)
  moreover have "BaseStringEdit_apply [] s = s" by (simp add: BaseStringEdit_apply_def js_simps)
  ultimately show ?thesis
    using composeSequential_loop_spec [of "[]" s "[]" rs] assms
    by (simp add: StringEdit_composeSequentialReplacements_def)
qed

theorem composeSequentialReplacements_correct_witness:
  "\<exists>e. StringEdit_composeSequentialReplacements
        [\<lparr>sr_replaceRange = \<lparr>start = 2, endExclusive = 3\<rparr>, sr_newText = [9 :: 16 word]\<rparr>,
         \<lparr>sr_replaceRange = \<lparr>start = 0, endExclusive = 1\<rparr>, sr_newText = []\<rparr>,
         \<lparr>sr_replaceRange = \<lparr>start = 1, endExclusive = 2\<rparr>, sr_newText = [8]\<rparr>] = Inr e \<and>
      BaseStringEdit_apply e [1, 2, 3] = [2, 8]"
proof -
  let ?rs = "[\<lparr>sr_replaceRange = \<lparr>start = 2, endExclusive = 3\<rparr>, sr_newText = [9 :: 16 word]\<rparr>,
         \<lparr>sr_replaceRange = \<lparr>start = 0, endExclusive = 1\<rparr>, sr_newText = []\<rparr>,
         \<lparr>sr_replaceRange = \<lparr>start = 1, endExclusive = 2\<rparr>, sr_newText = [8]\<rparr>]"
  have "fits_sequentially ?rs [1, 2, 3]" "apply_sequentially ?rs [1, 2, 3] = [2, 8]"
    by (simp_all add: within_def or_wf_def BaseStringReplacement_replace_def js_substring_def
        js_substring_from_def clamp_def)
  then show ?thesis using composeSequentialReplacements_correct [of ?rs "[1, 2, 3]"] by metis
qed

end
