(* ===== verification/ArrayEdits.thy ===== *)
theory ArrayEdits
  imports StringEdits
begin

text \<open>
  \<open>src/vs/editor/common/core/edits/arrayEdit.ts\<close> and \<open>lengthEdit.ts\<close>: edits on arrays and
  edits that keep only the lengths.  Both are instances of the replacement interface of
  \<open>Edits\<close>; a length replacement stands for that many copies of one item.
\<close>

section \<open>The class ArrayEdit\<close>

record 'a ArrayReplacement =
  arr_replaceRange :: OffsetRange
  arr_newValue :: "'a list"

definition ArrayReplacement_equals :: "'a ArrayReplacement \<Rightarrow> 'a ArrayReplacement \<Rightarrow> bool" where
  "ArrayReplacement_equals r r' \<longleftrightarrow>
     OffsetRange_equals (arr_replaceRange r) (arr_replaceRange r') \<and>
     length (arr_newValue r) = length (arr_newValue r') \<and>
     list_all (\<lambda>(v, v'). v = v') (zip (arr_newValue r) (arr_newValue r'))"

definition ArrayReplacement_getNewLength :: "'a ArrayReplacement \<Rightarrow> int" where
  "ArrayReplacement_getNewLength r = int (length (arr_newValue r))"

definition ArrayReplacement_tryJoinTouching ::
  "'a ArrayReplacement \<Rightarrow> 'a ArrayReplacement \<Rightarrow> 'a ArrayReplacement option result" where
  "ArrayReplacement_tryJoinTouching r r' =
     bindE (OffsetRange_joinRightTouching (arr_replaceRange r) (arr_replaceRange r')) (\<lambda>rng.
       Inr (Some \<lparr>arr_replaceRange = rng, arr_newValue = arr_newValue r @ arr_newValue r'\<rparr>))"

text \<open>The second argument of \<open>slice\<close> is not optional here: calling it without is a TypeError.\<close>

definition ArrayReplacement_slice ::
  "'a ArrayReplacement \<Rightarrow> OffsetRange \<Rightarrow> OffsetRange option \<Rightarrow> 'a ArrayReplacement result" where
  "ArrayReplacement_slice r rng rangeInReplacement =
     (case rangeInReplacement of
        None \<Rightarrow> Inl TypeError
      | Some p \<Rightarrow> Inr \<lparr>arr_replaceRange = rng, arr_newValue = OffsetRange_slice p (arr_newValue r)\<rparr>)"

definition ArrayReplacement_class :: "'a ArrayReplacement replacement_class" where
  "ArrayReplacement_class =
     \<lparr>replaceRange = arr_replaceRange, getNewLength = ArrayReplacement_getNewLength,
      tryJoinTouching = ArrayReplacement_tryJoinTouching,
      slice_replacement = ArrayReplacement_slice,
      equals_replacement = ArrayReplacement_equals\<rparr>"

definition new_ArrayEdit :: "'a ArrayReplacement list \<Rightarrow> 'a ArrayReplacement list result" where
  "new_ArrayEdit rs = new_BaseEdit ArrayReplacement_class rs"

definition ArrayEdit_replace :: "OffsetRange \<Rightarrow> 'a list \<Rightarrow> 'a ArrayReplacement list result" where
  "ArrayEdit_replace rng xs = new_ArrayEdit [\<lparr>arr_replaceRange = rng, arr_newValue = xs\<rparr>]"

definition ArrayEdit_insert :: "int \<Rightarrow> 'a list \<Rightarrow> 'a ArrayReplacement list result" where
  "ArrayEdit_insert offset xs =
     bindE (OffsetRange_emptyAt offset) (\<lambda>rng. new_ArrayEdit [\<lparr>arr_replaceRange = rng, arr_newValue = xs\<rparr>])"

definition ArrayEdit_delete :: "OffsetRange \<Rightarrow> 'a ArrayReplacement list result" where
  "ArrayEdit_delete rng = new_ArrayEdit [\<lparr>arr_replaceRange = rng, arr_newValue = []\<rparr>]"

fun ArrayEdit_apply_loop :: "'a list \<Rightarrow> int \<Rightarrow> 'a ArrayReplacement list \<Rightarrow> 'a list" where
  "ArrayEdit_apply_loop xs p [] = js_slice_from xs p"
| "ArrayEdit_apply_loop xs p (edit # rs) =
     js_slice xs p (start (arr_replaceRange edit)) @ arr_newValue edit @
     ArrayEdit_apply_loop xs (endExclusive (arr_replaceRange edit)) rs"

definition ArrayEdit_apply :: "'a ArrayReplacement list \<Rightarrow> 'a list \<Rightarrow> 'a list" where
  "ArrayEdit_apply rs xs = ArrayEdit_apply_loop xs 0 rs"

fun ArrayEdit_inverse_loop :: "'a list \<Rightarrow> int \<Rightarrow> 'a ArrayReplacement list \<Rightarrow> 'a ArrayReplacement list result" where
  "ArrayEdit_inverse_loop xs offset [] = Inr []"
| "ArrayEdit_inverse_loop xs offset (e # rs) =
     bindE (OffsetRange_ofStartAndLength (start (arr_replaceRange e) + offset) (int (length (arr_newValue e)))) (\<lambda>rng.
     bindE (ArrayEdit_inverse_loop xs
              (offset + (int (length (arr_newValue e)) - OffsetRange_length (arr_replaceRange e))) rs) (\<lambda>edits.
       Inr (\<lparr>arr_replaceRange = rng,
             arr_newValue = js_slice xs (start (arr_replaceRange e)) (endExclusive (arr_replaceRange e))\<rparr> # edits)))"

definition ArrayEdit_inverse :: "'a ArrayReplacement list \<Rightarrow> 'a list \<Rightarrow> 'a ArrayReplacement list result" where
  "ArrayEdit_inverse rs xs = bindE (ArrayEdit_inverse_loop xs 0 rs) new_ArrayEdit"

section \<open>The class LengthEdit\<close>

record LengthReplacement =
  lr_replaceRange :: OffsetRange
  lr_newLength :: int

definition LengthReplacement_create :: "int \<Rightarrow> int \<Rightarrow> int \<Rightarrow> LengthReplacement result" where
  "LengthReplacement_create s e n =
     bindE (new_OffsetRange s e) (\<lambda>rng. Inr \<lparr>lr_replaceRange = rng, lr_newLength = n\<rparr>)"

definition LengthReplacement_equals :: "LengthReplacement \<Rightarrow> LengthReplacement \<Rightarrow> bool" where
  "LengthReplacement_equals r r' \<longleftrightarrow>
     OffsetRange_equals (lr_replaceRange r) (lr_replaceRange r') \<and> lr_newLength r = lr_newLength r'"

definition LengthReplacement_tryJoinTouching ::
  "LengthReplacement \<Rightarrow> LengthReplacement \<Rightarrow> LengthReplacement option result" where
  "LengthReplacement_tryJoinTouching r r' =
     bindE (OffsetRange_joinRightTouching (lr_replaceRange r) (lr_replaceRange r')) (\<lambda>rng.
       Inr (Some \<lparr>lr_replaceRange = rng, lr_newLength = lr_newLength r + lr_newLength r'\<rparr>))"

definition LengthReplacement_slice ::
  "LengthReplacement \<Rightarrow> OffsetRange \<Rightarrow> OffsetRange option \<Rightarrow> LengthReplacement result" where
  "LengthReplacement_slice r rng rangeInReplacement =
     (case rangeInReplacement of
        None \<Rightarrow> Inl TypeError
      | Some p \<Rightarrow> Inr \<lparr>lr_replaceRange = rng, lr_newLength = OffsetRange_length p\<rparr>)"

definition LengthReplacement_class :: "LengthReplacement replacement_class" where
  "LengthReplacement_class =
     \<lparr>replaceRange = lr_replaceRange, getNewLength = lr_newLength,
      tryJoinTouching = LengthReplacement_tryJoinTouching,
      slice_replacement = LengthReplacement_slice,
      equals_replacement = LengthReplacement_equals\<rparr>"

definition new_LengthEdit :: "LengthReplacement list \<Rightarrow> LengthReplacement list result" where
  "new_LengthEdit rs = new_BaseEdit LengthReplacement_class rs"

text \<open>\<open>fromEdit\<close> takes an edit of any class.\<close>

definition LengthEdit_fromEdit :: "'r replacement_class \<Rightarrow> 'r list \<Rightarrow> LengthReplacement list result" where
  "LengthEdit_fromEdit C rs =
     new_LengthEdit (map (\<lambda>r. \<lparr>lr_replaceRange = replaceRange C r, lr_newLength = getNewLength C r\<rparr>) rs)"

definition LengthEdit_replace :: "OffsetRange \<Rightarrow> int \<Rightarrow> LengthReplacement list result" where
  "LengthEdit_replace rng n = new_LengthEdit [\<lparr>lr_replaceRange = rng, lr_newLength = n\<rparr>]"

definition LengthEdit_insert :: "int \<Rightarrow> int \<Rightarrow> LengthReplacement list result" where
  "LengthEdit_insert offset n =
     bindE (OffsetRange_emptyAt offset) (\<lambda>rng. new_LengthEdit [\<lparr>lr_replaceRange = rng, lr_newLength = n\<rparr>])"

definition LengthEdit_delete :: "OffsetRange \<Rightarrow> LengthReplacement list result" where
  "LengthEdit_delete rng = new_LengthEdit [\<lparr>lr_replaceRange = rng, lr_newLength = 0\<rparr>]"

definition LengthEdit_compose :: "LengthReplacement list list \<Rightarrow> LengthReplacement list result" where
  "LengthEdit_compose edits = foldE (BaseEdit_compose LengthReplacement_class) [] edits"

fun LengthEdit_inverse_loop :: "int \<Rightarrow> LengthReplacement list \<Rightarrow> LengthReplacement list result" where
  "LengthEdit_inverse_loop offset [] = Inr []"
| "LengthEdit_inverse_loop offset (e # rs) =
     bindE (OffsetRange_ofStartAndLength (start (lr_replaceRange e) + offset) (lr_newLength e)) (\<lambda>rng.
     bindE (LengthEdit_inverse_loop (offset + (lr_newLength e - OffsetRange_length (lr_replaceRange e))) rs) (\<lambda>edits.
       Inr (\<lparr>lr_replaceRange = rng, lr_newLength = OffsetRange_length (lr_replaceRange e)\<rparr> # edits)))"

definition LengthEdit_inverse :: "LengthReplacement list \<Rightarrow> LengthReplacement list result" where
  "LengthEdit_inverse rs = bindE (LengthEdit_inverse_loop 0 rs) new_LengthEdit"

text \<open>
  \<open>applyArray\<close>: the values written at \<open>dstPos++\<close>, in order.  \<open>arr[i]\<close> outside the array is
  \<open>undefined\<close>; slots of the preallocated array that are never written stay empty.  A negative
  array length is an error.
\<close>

fun applyArray_loop :: "'a list \<Rightarrow> 'a \<Rightarrow> int \<Rightarrow> LengthReplacement list \<Rightarrow> 'a option list" where
  "applyArray_loop arr fillItem srcPos [] = map (js_at arr) [srcPos..int (length arr) - 1]"
| "applyArray_loop arr fillItem srcPos (r # rs) =
     map (js_at arr) [srcPos..start (lr_replaceRange r) - 1] @
     replicate (nat (lr_newLength r)) (Some fillItem) @
     applyArray_loop arr fillItem (endExclusive (lr_replaceRange r)) rs"

definition LengthEdit_applyArray :: "LengthReplacement list \<Rightarrow> 'a list \<Rightarrow> 'a \<Rightarrow> 'a option list result" where
  "LengthEdit_applyArray rs arr fillItem =
     (let n = BaseEdit_getNewDataLength LengthReplacement_class rs (int (length arr));
          written = applyArray_loop arr fillItem 0 rs
      in if n < 0 then Inl (GenericError ''RangeError: Invalid array length'')
         else Inr (written @ replicate (nat n - length written) None))"

section \<open>The replacement interface\<close>

lemma ArrayReplacement_class_simps [simp]:
  "replaceRange ArrayReplacement_class = arr_replaceRange"
  "getNewLength ArrayReplacement_class r = int (length (arr_newValue r))"
  "tryJoinTouching ArrayReplacement_class = ArrayReplacement_tryJoinTouching"
  "slice_replacement ArrayReplacement_class = ArrayReplacement_slice"
  by (simp_all add: ArrayReplacement_class_def ArrayReplacement_getNewLength_def)

lemma LengthReplacement_class_simps [simp]:
  "replaceRange LengthReplacement_class = lr_replaceRange"
  "getNewLength LengthReplacement_class = lr_newLength"
  "tryJoinTouching LengthReplacement_class = LengthReplacement_tryJoinTouching"
  "slice_replacement LengthReplacement_class = LengthReplacement_slice"
  by (simp_all add: LengthReplacement_class_def)

interpretation array: joining_replacements ArrayReplacement_class arr_newValue any_replacement
  by unfold_locales
    (auto simp: ArrayReplacement_tryJoinTouching_def ArrayReplacement_slice_def
      OffsetRange_joinRightTouching_def or_wf_def OffsetRange_slice_def js_slice_bounds)

definition lr_ok :: "LengthReplacement \<Rightarrow> bool" where
  "lr_ok r \<longleftrightarrow> 0 \<le> lr_newLength r"

text \<open>The data of a length replacement is \<open>newLength\<close> copies of any item.\<close>

definition lr_data :: "'a \<Rightarrow> LengthReplacement \<Rightarrow> 'a list" where
  "lr_data x r = replicate (nat (lr_newLength r)) x"

interpretation len: joining_replacements LengthReplacement_class "lr_data x" lr_ok
  for x :: 'a
  by unfold_locales
    (auto simp: LengthReplacement_tryJoinTouching_def LengthReplacement_slice_def lr_ok_def lr_data_def
      OffsetRange_joinRightTouching_def or_wf_def OffsetRange_length_def nat_add_distrib replicate_add
      min_def)

section \<open>Array edits\<close>

definition array_fits :: "'a ArrayReplacement list \<Rightarrow> 'a list \<Rightarrow> bool" where
  "array_fits rs xs \<longleftrightarrow> edit_valid ArrayReplacement_class any_replacement 0 rs (int (length xs))"

lemma ArrayEdit_apply_loop_app:
  "array.valid p rs (int (length s)) \<Longrightarrow> 0 \<le> p \<Longrightarrow> ArrayEdit_apply_loop s p rs = array.app p rs (drop (nat p) s)"
proof (induction rs arbitrary: p)
  case Nil
  then show ?case by (simp add: js_slice_from_bounds)
next
  case (Cons r rs)
  let ?R = "arr_replaceRange r"
  have v: "p \<le> start ?R" "start ?R \<le> endExclusive ?R" "array.valid (endExclusive ?R) rs (int (length s))"
    using Cons.prems by simp_all
  have "endExclusive ?R \<le> int (length s)" using array.valid_le [OF v(3)] .
  with v Cons.prems(2) have "js_slice s p (start ?R) = take (nat (start ?R - p)) (drop (nat p) s)"
    by (simp add: js_slice_bounds)
  moreover have "nat (endExclusive ?R) = nat (endExclusive ?R - p) + nat p"
    using v Cons.prems(2) nat_add_distrib [of "endExclusive ?R - p" p] by simp
  ultimately show ?case using Cons.IH [OF v(3)] v Cons.prems(2) by simp
qed

lemma ArrayEdit_apply_app: "array_fits rs xs \<Longrightarrow> ArrayEdit_apply rs xs = array.app 0 rs xs"
  using ArrayEdit_apply_loop_app [of 0 rs xs] by (simp add: array_fits_def ArrayEdit_apply_def)

lemma ArrayEdit_length_apply:
  "array_fits rs xs \<Longrightarrow> int (length (ArrayEdit_apply rs xs)) = int (length xs) + array.shift rs"
  using array.length_app [of 0 rs "int (length xs)" xs] ArrayEdit_apply_app [of rs xs]
  by (simp add: array_fits_def)

lemma ArrayEdit_inverse_loop_spec:
  "array.valid p rs (int (length S)) \<Longrightarrow> 0 \<le> p \<Longrightarrow>
   \<exists>invs. ArrayEdit_inverse_loop S d rs = Inr invs \<and> array.is_inverse S d rs invs"
proof (induction rs arbitrary: p d)
  case (Cons r rs)
  let ?R = "arr_replaceRange r"
  let ?d = "d + (int (length (arr_newValue r)) - OffsetRange_length ?R)"
  have v: "start ?R \<le> endExclusive ?R" "array.valid (endExclusive ?R) rs (int (length S))" "0 \<le> start ?R"
    using Cons.prems by auto
  have n: "endExclusive ?R \<le> int (length S)" using array.valid_le [OF v(2)] .
  from Cons.IH [OF v(2), of ?d] v obtain invs where
    "ArrayEdit_inverse_loop S ?d rs = Inr invs" "array.is_inverse S ?d rs invs" by auto
  with v n show ?case
    by (simp add: OffsetRange_ofStartAndLength_def js_slice_bounds)
qed simp

text \<open>
  \<^bold>\<open>C37.\<close> Array edits that fit: composing never throws and has the effect of applying the two
  in order; \<open>normalize\<close> never throws, keeps the effect and leaves no empty replacement and no two
  that touch; and \<open>inverse\<close> never throws and restores the array.
\<close>

theorem ArrayEdit_correct:
  assumes "array_fits e1 xs" and "array_fits e2 (ArrayEdit_apply e1 xs)"
  shows "(\<exists>e. BaseEdit_compose ArrayReplacement_class e1 e2 = Inr e \<and> array_fits e xs \<and>
            ArrayEdit_apply e xs = ArrayEdit_apply e2 (ArrayEdit_apply e1 xs)) \<and>
         (\<exists>e. BaseEdit_normalize ArrayReplacement_class e1 = Inr e \<and> array_fits e xs \<and>
            ArrayEdit_apply e xs = ArrayEdit_apply e1 xs \<and>
            (\<forall>r \<in> set e. \<not> BaseReplacement_isEmpty ArrayReplacement_class r) \<and>
            sorted_wrt (\<lambda>l r. endExclusive (arr_replaceRange l) < start (arr_replaceRange r)) e \<and>
            BaseEdit_normalize ArrayReplacement_class e = Inr e) \<and>
         (\<exists>i. ArrayEdit_inverse e1 xs = Inr i \<and> array_fits i (ArrayEdit_apply e1 xs) \<and>
            ArrayEdit_apply i (ArrayEdit_apply e1 xs) = xs)"
proof (intro conjI)
  let ?n = "int (length xs)"
  have v: "array.valid 0 e1 ?n" "array.valid 0 e2 (?n + array.shift e1)"
    using assms ArrayEdit_length_apply [OF assms(1)] by (simp_all add: array_fits_def)
  from array.compose_spec [OF v] obtain e where e: "BaseEdit_compose ArrayReplacement_class e1 e2 = Inr e"
    "array.valid 0 e ?n" "array.app 0 e xs = array.app 0 e2 (array.app 0 e1 xs)" by blast
  then have "array_fits e xs" by (simp add: array_fits_def)
  with e assms show "\<exists>e. BaseEdit_compose ArrayReplacement_class e1 e2 = Inr e \<and> array_fits e xs \<and>
      ArrayEdit_apply e xs = ArrayEdit_apply e2 (ArrayEdit_apply e1 xs)"
    by (metis ArrayEdit_apply_app)
  from array.normalize_spec [OF v(1)] obtain d where d: "BaseEdit_normalize ArrayReplacement_class e1 = Inr d"
    "array.valid 0 d ?n" "array.app 0 d xs = array.app 0 e1 xs" by blast
  then have "array_fits d xs" by (simp add: array_fits_def)
  moreover from array.normalize_normal [OF v(1)] d(1) have "array.normal d"
    "BaseEdit_normalize ArrayReplacement_class d = Inr d" by auto
  ultimately show "\<exists>e. BaseEdit_normalize ArrayReplacement_class e1 = Inr e \<and> array_fits e xs \<and>
      ArrayEdit_apply e xs = ArrayEdit_apply e1 xs \<and>
      (\<forall>r \<in> set e. \<not> BaseReplacement_isEmpty ArrayReplacement_class r) \<and>
      sorted_wrt (\<lambda>l r. endExclusive (arr_replaceRange l) < start (arr_replaceRange r)) e \<and>
      BaseEdit_normalize ArrayReplacement_class e = Inr e"
    using d assms(1) by (auto simp: ArrayEdit_apply_app array.normal_def)
  from ArrayEdit_inverse_loop_spec [OF v(1), of 0] obtain i where
    i: "ArrayEdit_inverse_loop xs 0 e1 = Inr i" "array.is_inverse xs 0 e1 i" by auto
  have inv: "array.valid 0 i (?n + array.shift e1)" "array.app 0 i (array.app 0 e1 xs) = xs"
    using array.inverse_app [OF v(1) _ i(2)] by simp_all
  then have "array_fits i (ArrayEdit_apply e1 xs)"
    using ArrayEdit_length_apply [OF assms(1)] by (simp add: array_fits_def)
  with i inv assms(1) show "\<exists>i. ArrayEdit_inverse e1 xs = Inr i \<and> array_fits i (ArrayEdit_apply e1 xs) \<and>
      ArrayEdit_apply i (ArrayEdit_apply e1 xs) = xs"
    by (auto simp: ArrayEdit_inverse_def new_ArrayEdit_def ArrayEdit_apply_app array.valid_new)
qed

theorem ArrayEdit_correct_witness:
  "\<exists>i. ArrayEdit_inverse [\<lparr>arr_replaceRange = \<lparr>start = 1, endExclusive = 2\<rparr>, arr_newValue = [7, 8 :: int]\<rparr>]
        [1, 2, 3] = Inr i \<and> ArrayEdit_apply i [1, 7, 8, 3] = [1, 2, 3]"
proof -
  let ?e = "[\<lparr>arr_replaceRange = \<lparr>start = 1, endExclusive = 2\<rparr>, arr_newValue = [7, 8 :: int]\<rparr>]"
  have a: "ArrayEdit_apply ?e [1, 2, 3] = [1, 7, 8, 3]"
    by (simp add: ArrayEdit_apply_def js_slice_def js_slice_from_def js_rel_def Let_def)
  have "array_fits ?e [1, 2, 3]" "array_fits [] (ArrayEdit_apply ?e [1, 2, 3])"
    by (simp_all add: array_fits_def)
  from ArrayEdit_correct [OF this] show ?thesis unfolding a by blast
qed

section \<open>Length edits\<close>

definition length_fits :: "LengthReplacement list \<Rightarrow> nat \<Rightarrow> bool" where
  "length_fits rs n \<longleftrightarrow> edit_valid LengthReplacement_class lr_ok 0 rs (int n)"

lemma map_js_at_upto:
  "0 \<le> a \<Longrightarrow> a \<le> b \<Longrightarrow> b \<le> int (length xs) \<Longrightarrow>
   map (js_at xs) [a..b - 1] = map Some (take (nat (b - a)) (drop (nat a) xs))"
  by (rule nth_equalityI) (auto simp: js_at_def nat_add_distrib)

lemma applyArray_loop_app:
  "edit_valid LengthReplacement_class lr_ok p rs (int (length arr)) \<Longrightarrow> 0 \<le> p \<Longrightarrow>
   applyArray_loop arr x p rs =
     map Some (edit_app LengthReplacement_class (lr_data x) p rs (drop (nat p) arr))"
proof (induction rs arbitrary: p)
  case Nil
  then show ?case using map_js_at_upto [of p "int (length arr)" arr] by simp
next
  case (Cons r rs)
  let ?R = "lr_replaceRange r"
  have v: "p \<le> start ?R" "start ?R \<le> endExclusive ?R"
    "edit_valid LengthReplacement_class lr_ok (endExclusive ?R) rs (int (length arr))"
    using Cons.prems by simp_all
  have n: "endExclusive ?R \<le> int (length arr)" using len.valid_le [OF v(3)] .
  have "nat (endExclusive ?R) = nat (endExclusive ?R - p) + nat p"
    using v Cons.prems(2) nat_add_distrib [of "endExclusive ?R - p" p] by simp
  with Cons.IH [OF v(3)] v n Cons.prems(2) map_js_at_upto [of p "start ?R" arr] show ?case
    by (simp add: lr_data_def)
qed

lemma applyArray_app:
  assumes "length_fits rs (length arr)"
  shows "LengthEdit_applyArray rs arr x =
      Inr (map Some (edit_app LengthReplacement_class (lr_data x) 0 rs arr)) \<and>
    int (length (edit_app LengthReplacement_class (lr_data x) 0 rs arr)) =
      BaseEdit_getNewDataLength LengthReplacement_class rs (int (length arr))"
proof -
  have v: "edit_valid LengthReplacement_class lr_ok 0 rs (int (length arr))"
    using assms by (simp add: length_fits_def)
  have len: "int (length (edit_app LengthReplacement_class (lr_data x) 0 rs arr)) =
      BaseEdit_getNewDataLength LengthReplacement_class rs (int (length arr))"
    using len.length_app [OF v, of arr x] len.shift_eq_getLengthDelta [of rs]
    by (simp add: BaseEdit_getNewDataLength_def)
  with applyArray_loop_app [OF v, of x] show ?thesis
    by (simp add: LengthEdit_applyArray_def Let_def flip: len)
qed

text \<open>
  On length edits that fit: \<open>applyArray\<close> never throws, leaves no slot empty and returns an array of
  the length \<open>getNewDataLength\<close> announces; \<open>compose\<close> never throws and applying its result is
  applying the two edits in order.
\<close>

lemma LengthEdit_compose_apply:
  assumes "length_fits e1 (length arr)"
    and "int n = BaseEdit_getNewDataLength LengthReplacement_class e1 (int (length arr))"
    and "length_fits e2 n"
  shows "\<exists>out e. LengthEdit_applyArray e1 arr x = Inr (map Some out) \<and> length out = n \<and>
    LengthEdit_compose [e1, e2] = Inr e \<and> length_fits e (length arr) \<and>
    LengthEdit_applyArray e arr x = LengthEdit_applyArray e2 out x"
proof -
  let ?n = "int (length arr)" and ?C = "LengthReplacement_class"
  have v1: "edit_valid ?C lr_ok 0 e1 ?n" using assms(1) by (simp add: length_fits_def)
  have v0: "edit_valid ?C lr_ok 0 [] ?n" by simp
  from len.compose_spec [OF v0, of e1 x] v1 obtain a where
    a: "BaseEdit_compose ?C [] e1 = Inr a" "edit_valid ?C lr_ok 0 a ?n"
    "\<And>s. int (length s) = ?n \<Longrightarrow> edit_app ?C (lr_data x) 0 a s = edit_app ?C (lr_data x) 0 e1 s" by auto
  let ?out = "edit_app ?C (lr_data x) 0 e1 arr"
  have out: "LengthEdit_applyArray e1 arr x = Inr (map Some ?out)" "length ?out = n"
    using applyArray_app [OF assms(1), of x] assms(2) by simp_all
  have "int (length ?out) = ?n + len.shift a"
    using len.length_app [OF a(2), of arr x] a(3) [of arr] by simp
  then have "edit_valid ?C lr_ok 0 e2 (?n + len.shift a)"
    using assms(3) out(2) by (simp add: length_fits_def)
  from len.compose_spec [OF a(2) this, of x] obtain e where
    e: "BaseEdit_compose ?C a e2 = Inr e" "edit_valid ?C lr_ok 0 e ?n"
    "edit_app ?C (lr_data x) 0 e arr = edit_app ?C (lr_data x) 0 e2 ?out" using a(3) by auto
  have "length_fits e (length arr)" using e(2) by (simp add: length_fits_def)
  moreover from applyArray_app [OF this, of x] e(3) applyArray_app [of e2 ?out x] assms(3) out(2)
  have "LengthEdit_applyArray e arr x = LengthEdit_applyArray e2 ?out x" by simp
  ultimately show ?thesis
    using out a(1) e(1) by (auto simp: LengthEdit_compose_def)
qed

section \<open>The length edit of an edit\<close>

text \<open>An edit, with what it inserts paired with \<open>x\<close>, acts on data and annotations together.\<close>

definition annotated :: "'b \<Rightarrow> 'a ArrayReplacement \<Rightarrow> ('a \<times> 'b) ArrayReplacement" where
  "annotated x r = \<lparr>arr_replaceRange = arr_replaceRange r, arr_newValue = map (\<lambda>v. (v, x)) (arr_newValue r)\<rparr>"

definition lengths_of :: "'a ArrayReplacement list \<Rightarrow> LengthReplacement list" where
  "lengths_of e = map (\<lambda>r. \<lparr>lr_replaceRange = arr_replaceRange r, lr_newLength = int (length (arr_newValue r))\<rparr>) e"

lemma edit_app_annotated:
  "edit_app ArrayReplacement_class arr_newValue p e (map fst ps) =
     map fst (edit_app ArrayReplacement_class arr_newValue p (map (annotated x) e) ps)"
  "edit_app LengthReplacement_class (lr_data x) p (lengths_of e) (map snd ps) =
     map snd (edit_app ArrayReplacement_class arr_newValue p (map (annotated x) e) ps)"
  by (induction e arbitrary: p ps)
    (simp_all add: annotated_def lengths_of_def lr_data_def comp_def take_map drop_map map_replicate_const)

lemma lengths_valid:
  "edit_valid LengthReplacement_class lr_ok p (lengths_of e) n = edit_valid ArrayReplacement_class any_replacement p e n"
  "edit_valid ArrayReplacement_class any_replacement p (map (annotated x) e) n =
     edit_valid ArrayReplacement_class any_replacement p e n"
  by (induction e arbitrary: p) (simp_all add: lengths_of_def lr_ok_def annotated_def)

lemma fromEdit_lengths:
  assumes "array_fits e xs"
  shows "LengthEdit_fromEdit ArrayReplacement_class e = Inr (lengths_of e) \<and> length_fits (lengths_of e) (length xs)"
proof -
  have v: "edit_valid LengthReplacement_class lr_ok 0 (lengths_of e) (int (length xs))"
    using assms by (simp add: array_fits_def lengths_valid)
  then show ?thesis
    by (simp add: LengthEdit_fromEdit_def new_LengthEdit_def lengths_of_def [symmetric] len.valid_new length_fits_def)
qed

lemma fromEdit_acts:
  assumes "array_fits e xs" and "length arr = length xs"
  shows "LengthEdit_applyArray (lengths_of e) arr x =
      Inr (map (Some \<circ> snd) (ArrayEdit_apply (map (annotated x) e) (zip xs arr))) \<and>
    ArrayEdit_apply e xs = map fst (ArrayEdit_apply (map (annotated x) e) (zip xs arr))"
proof -
  have f: "array_fits (map (annotated x) e) (zip xs arr)" using assms by (simp add: array_fits_def lengths_valid)
  have z: "map fst (zip xs arr) = xs" "map snd (zip xs arr) = arr" using assms(2) by simp_all
  have "length_fits (lengths_of e) (length arr)" using fromEdit_lengths [OF assms(1)] assms(2) by simp
  from applyArray_app [OF this, of x] edit_app_annotated [where p = 0 and e = e and ps = "zip xs arr" and x = x, unfolded z]
  show ?thesis by (simp add: ArrayEdit_apply_app [OF f] ArrayEdit_apply_app [OF assms(1)])
qed

text \<open>
  \<^bold>\<open>C38.\<close> The length edit of an array edit acts on annotations of the elements the way the edit
  acts on the elements.  For edits \<open>e1\<close>, \<open>e2\<close> that fit an array and its result: \<open>fromEdit\<close> never
  throws; applying \<open>fromEdit e1\<close> to an array of annotations and \<open>e1\<close> to the array of elements
  are the two halves of applying \<open>e1\<close>, with \<open>x\<close> annotating what it inserts, to the pairs, so that
  no slot stays empty and the result has the length \<open>getNewDataLength\<close> announces; and \<open>compose\<close> of
  the two length edits never throws and its effect on the annotations is that of \<open>e1\<close> and then
  \<open>e2\<close> on the pairs.
\<close>

theorem LengthEdit_correct:
  assumes "array_fits e1 xs" and "array_fits e2 (ArrayEdit_apply e1 xs)" and "length arr = length xs"
  shows "\<exists>l1 l2 c ps qs. LengthEdit_fromEdit ArrayReplacement_class e1 = Inr l1 \<and>
    LengthEdit_fromEdit ArrayReplacement_class e2 = Inr l2 \<and>
    ps = ArrayEdit_apply (map (annotated x) e1) (zip xs arr) \<and> qs = ArrayEdit_apply (map (annotated x) e2) ps \<and>
    LengthEdit_applyArray l1 arr x = Inr (map (Some \<circ> snd) ps) \<and> ArrayEdit_apply e1 xs = map fst ps \<and>
    int (length ps) = BaseEdit_getNewDataLength LengthReplacement_class l1 (int (length arr)) \<and>
    LengthEdit_compose [l1, l2] = Inr c \<and>
    LengthEdit_applyArray c arr x = Inr (map (Some \<circ> snd) qs) \<and> ArrayEdit_apply e2 (ArrayEdit_apply e1 xs) = map fst qs"
proof -
  define ps where "ps = ArrayEdit_apply (map (annotated x) e1) (zip xs arr)"
  define qs where "qs = ArrayEdit_apply (map (annotated x) e2) ps"
  have a1: "LengthEdit_applyArray (lengths_of e1) arr x = Inr (map Some (map snd ps))" "ArrayEdit_apply e1 xs = map fst ps"
    using fromEdit_acts [OF assms(1,3), of x] by (simp_all add: ps_def)
  have fits1: "length_fits (lengths_of e1) (length arr)" using fromEdit_lengths [OF assms(1)] assms(3) by simp
  have len: "int (length ps) = BaseEdit_getNewDataLength LengthReplacement_class (lengths_of e1) (int (length arr))"
    using applyArray_app [OF fits1, of x] a1(1) by (metis Inr_inject length_map)
  have fits2: "length_fits (lengths_of e2) (length ps)" using fromEdit_lengths [OF assms(2)] a1(2) by simp
  obtain out c where c: "LengthEdit_applyArray (lengths_of e1) arr x = Inr (map Some out)"
    "LengthEdit_compose [lengths_of e1, lengths_of e2] = Inr c"
    "LengthEdit_applyArray c arr x = LengthEdit_applyArray (lengths_of e2) out x"
    using LengthEdit_compose_apply [OF fits1 len fits2, of x] by blast
  have "out = map snd ps" using c(1) a1(1) inj_map_eq_map [of Some out "map snd ps"] by simp
  moreover have "zip (map fst ps) (map snd ps) = ps" by (rule zip_map_fst_snd)
  ultimately have "LengthEdit_applyArray c arr x = Inr (map (Some \<circ> snd) qs)" "ArrayEdit_apply e2 (map fst ps) = map fst qs"
    using c(3) fromEdit_acts [of e2 "map fst ps" "map snd ps" x] assms(2) a1(2) by (simp_all add: qs_def)
  then show ?thesis
    using fromEdit_lengths [OF assms(1)] fromEdit_lengths [OF assms(2)] a1 len c(2)
    by (intro exI [of _ "lengths_of e1"] exI [of _ "lengths_of e2"] exI [of _ c] exI [of _ ps] exI [of _ qs])
      (simp add: ps_def [symmetric] qs_def [symmetric])
qed

theorem LengthEdit_correct_witness:
  "\<exists>l. LengthEdit_fromEdit ArrayReplacement_class [\<lparr>arr_replaceRange = \<lparr>start = 1, endExclusive = 2\<rparr>, arr_newValue = [7, 8 :: int]\<rparr>] = Inr l \<and>
     LengthEdit_applyArray l ''abc'' CHR ''x'' = Inr (map Some ''axxc'')"
proof -
  let ?e = "[\<lparr>arr_replaceRange = \<lparr>start = 1, endExclusive = 2\<rparr>, arr_newValue = [7, 8 :: int]\<rparr>]"
  have f: "array_fits ?e [1, 2, 3]" "array_fits [] (ArrayEdit_apply ?e [1, 2, 3])" "length ''abc'' = length [1, 2, 3 :: int]"
    by (simp_all add: array_fits_def)
  have "map (Some \<circ> snd) (ArrayEdit_apply (map (annotated CHR ''x'') ?e) (zip [1, 2, 3] ''abc'')) = map Some ''axxc''"
    by (simp add: ArrayEdit_apply_def annotated_def js_slice_def js_slice_from_def js_rel_def Let_def)
  with LengthEdit_correct [OF f, of "CHR ''x''"] show ?thesis by auto
qed

end
