(* ===== verification/Simulation.thy ===== *)
theory Simulation
  imports Prelude
begin

text \<open>
  Sequences of calls on an object and the interface \<open>simulation\<close> between the object of the code
  and an abstract one: a call returns, with the answer the abstract object gives, and keeps the
  two related.  A call that does not end is \<open>None\<close>, one that throws is \<open>Inl\<close>.
\<close>

fun run_calls :: "('op \<Rightarrow> 'c \<Rightarrow> ('r \<times> 'c) result option) \<Rightarrow> 'op list \<Rightarrow> 'c \<Rightarrow> ('r list \<times> 'c) result option" where
  "run_calls call [] c = Some (Inr ([], c))"
| "run_calls call (op # ops) c =
     (case call op c of
        None \<Rightarrow> None
      | Some (Inl e) \<Rightarrow> Some (Inl e)
      | Some (Inr (r, c)) \<Rightarrow>
          (case run_calls call ops c of
             None \<Rightarrow> None
           | Some (Inl e) \<Rightarrow> Some (Inl e)
           | Some (Inr (rs, c)) \<Rightarrow> Some (Inr (r # rs, c))))"

fun spec_calls :: "('op \<Rightarrow> 'a \<Rightarrow> 'r \<times> 'a) \<Rightarrow> 'op list \<Rightarrow> 'a \<Rightarrow> 'r list \<times> 'a" where
  "spec_calls spec [] a = ([], a)"
| "spec_calls spec (op # ops) a =
     (let (r, a) = spec op a; (rs, a) = spec_calls spec ops a in (r # rs, a))"

lemma spec_calls_append: "snd (spec_calls spec (xs @ ys) a) = snd (spec_calls spec ys (snd (spec_calls spec xs a)))"
  by (induction xs arbitrary: a) (simp_all add: split_beta Let_def)

definition answers :: "('r \<times> 'c) result option \<Rightarrow> 'r \<Rightarrow> ('c \<Rightarrow> bool) \<Rightarrow> bool" where
  "answers m r Q \<longleftrightarrow> (\<exists>c. m = Some (Inr (r, c)) \<and> Q c)"

lemma answersI: "m = Some (Inr (r, c)) \<Longrightarrow> Q c \<Longrightarrow> answers m r Q"
  by (auto simp: answers_def)

text \<open>Calls that are legal in the abstract state they are made in.\<close>

fun legal_calls :: "('op \<Rightarrow> 'a \<Rightarrow> bool) \<Rightarrow> ('op \<Rightarrow> 'a \<Rightarrow> 'r \<times> 'a) \<Rightarrow> 'op list \<Rightarrow> 'a \<Rightarrow> bool" where
  "legal_calls legal spec [] a = True"
| "legal_calls legal spec (op # ops) a = (legal op a \<and> legal_calls legal spec ops (snd (spec op a)))"

lemma legal_calls_const: "legal_calls (\<lambda>op _. legal op) spec ops a = list_all legal ops"
  by (induction ops arbitrary: a) simp_all

locale guarded_simulation =
  fixes call :: "'op \<Rightarrow> 'c \<Rightarrow> ('r \<times> 'c) result option" and spec :: "'op \<Rightarrow> 'a \<Rightarrow> 'r \<times> 'a"
    and rel :: "'c \<Rightarrow> 'a \<Rightarrow> bool" and legal :: "'op \<Rightarrow> 'a \<Rightarrow> bool"
  assumes simulates: "rel c a \<Longrightarrow> legal op a \<Longrightarrow> answers (call op c) (fst (spec op a)) (\<lambda>c'. rel c' (snd (spec op a)))"
begin

lemma runs_simulate:
  "rel c a \<Longrightarrow> legal_calls legal spec ops a \<Longrightarrow>
   answers (run_calls call ops c) (fst (spec_calls spec ops a)) (\<lambda>c'. rel c' (snd (spec_calls spec ops a)))"
proof (induction ops arbitrary: c a)
  case Nil
  then show ?case by (simp add: answers_def)
next
  case (Cons op ops)
  from Cons.prems obtain c' where c': "call op c = Some (Inr (fst (spec op a), c'))" "rel c' (snd (spec op a))"
    using simulates [of c a op] by (auto simp: answers_def)
  from Cons.IH [OF c'(2)] Cons.prems(2) c'(1) show ?case
    by (auto simp: answers_def split_def Let_def)
qed

end

text \<open>Where the legality of a call does not depend on the state.\<close>

locale simulation =
  fixes call :: "'op \<Rightarrow> 'c \<Rightarrow> ('r \<times> 'c) result option" and spec :: "'op \<Rightarrow> 'a \<Rightarrow> 'r \<times> 'a"
    and rel :: "'c \<Rightarrow> 'a \<Rightarrow> bool" and legal :: "'op \<Rightarrow> bool"
  assumes simulates: "rel c a \<Longrightarrow> legal op \<Longrightarrow> answers (call op c) (fst (spec op a)) (\<lambda>c'. rel c' (snd (spec op a)))"

sublocale simulation \<subseteq> guarded: guarded_simulation call spec rel "\<lambda>op _. legal op"
  by unfold_locales (rule simulates)

context simulation
begin

lemma run_simulates:
  "rel c a \<Longrightarrow> list_all legal ops \<Longrightarrow>
   answers (run_calls call ops c) (fst (spec_calls spec ops a)) (\<lambda>c'. rel c' (snd (spec_calls spec ops a)))"
  using guarded.runs_simulate [of c a ops] by (simp add: legal_calls_const)

end

end
