(* ===== verification/PrefixSums.thy ===== *)
theory PrefixSums
  imports Simulation
begin

text \<open>
  \<open>src/vs/editor/common/model/prefixSumComputer.ts\<close> with \<open>toUint32\<close> of \<open>base/common/uint.ts\<close>
  and \<open>arrayInsert\<close> of \<open>base/common/arrays.ts\<close>: prefix sums over the heights or lengths of
  lines, cached up to a valid index.  Typed arrays are lists of 32-bit words, so sums wrap
  around as the stores to a \<open>Uint32Array\<close> do; reading outside an array gives \<open>undefined\<close>, the
  \<open>None\<close> of \<open>js_at\<close>.

  The abstract state of either class is the list of values alone; the invariants \<open>psc_inv\<close> and
  \<open>ctp_inv\<close> say that what the caches hold up to the valid index are the sums of the values.
\<close>

section \<open>Coercions and typed arrays\<close>

definition toUint32 :: "int \<Rightarrow> int" where
  "toUint32 v = (if v < 0 then 0 else if v > 4294967295 then 4294967295 else to_int32 v)"

text \<open>\<open>target.set(src, offset)\<close>: a RangeError when the source does not fit.\<close>

definition typed_set :: "'a list \<Rightarrow> 'a list \<Rightarrow> int \<Rightarrow> 'a list result" where
  "typed_set target src offset =
     (if offset < 0 \<or> offset + int (length src) > int (length target)
      then Inl (GenericError ''RangeError: offset is out of bounds'')
      else Inr (take (nat offset) target @ src @ drop (nat offset + length src) target))"

text \<open>A store \<open>target[i] = v\<close> outside a typed array has no effect.\<close>

definition typed_store :: "'a list \<Rightarrow> int \<Rightarrow> 'a \<Rightarrow> 'a list" where
  "typed_store target i v = (if 0 \<le> i then target[nat i := v] else target)"

definition arrayInsert :: "'a list \<Rightarrow> int \<Rightarrow> 'a list \<Rightarrow> 'a list" where
  "arrayInsert target insertIndex insertArr =
     js_slice target 0 insertIndex @ insertArr @ js_slice_from target insertIndex"

section \<open>The class PrefixSumComputer\<close>

record PrefixSumComputer =
  psc_values :: "32 word list"
  psc_prefixSum :: "32 word list"
  psc_prefixSumValidIndex :: int

record PrefixSumIndexOfResult =
  index :: int
  remainder :: int

definition new_PrefixSumComputer :: "32 word list \<Rightarrow> PrefixSumComputer" where
  "new_PrefixSumComputer values =
     \<lparr>psc_values = values, psc_prefixSum = replicate (length values) 0, psc_prefixSumValidIndex = - 1\<rparr>"

definition PrefixSumComputer_getCount :: "PrefixSumComputer \<Rightarrow> int" where
  "PrefixSumComputer_getCount st = int (length (psc_values st))"

text \<open>
  The tail that \<open>insertValues\<close> and \<open>removeValues\<close> share: the valid index is lowered and the
  valid part of the sums is copied to a new array of the new length.
\<close>

definition psc_truncate :: "PrefixSumComputer \<Rightarrow> 32 word list \<Rightarrow> int \<Rightarrow> PrefixSumComputer result" where
  "psc_truncate st values changed =
     (let valid = (if changed - 1 < psc_prefixSumValidIndex st then changed - 1
                   else psc_prefixSumValidIndex st);
          fresh = replicate (length values) 0
      in bindE (if valid \<ge> 0 then typed_set fresh (js_slice (psc_prefixSum st) 0 (valid + 1)) 0 else Inr fresh)
           (\<lambda>sums. Inr \<lparr>psc_values = values, psc_prefixSum = sums, psc_prefixSumValidIndex = valid\<rparr>))"

definition PrefixSumComputer_insertValues ::
  "PrefixSumComputer \<Rightarrow> int \<Rightarrow> 32 word list \<Rightarrow> (bool \<times> PrefixSumComputer) result" where
  "PrefixSumComputer_insertValues st insertIndex insertValues =
     (let insertIndex = toUint32 insertIndex; oldValues = psc_values st; n = int (length insertValues)
      in if n = 0 then Inr (False, st)
         else
           bindE (typed_set (replicate (length oldValues + length insertValues) 0)
                    (js_slice oldValues 0 insertIndex) 0) (\<lambda>v1.
           bindE (typed_set v1 (js_slice_from oldValues insertIndex) (insertIndex + n)) (\<lambda>v2.
           bindE (typed_set v2 insertValues insertIndex) (\<lambda>v3.
           bindE (psc_truncate st v3 insertIndex) (\<lambda>st'. Inr (True, st'))))))"

definition PrefixSumComputer_setValue :: "PrefixSumComputer \<Rightarrow> int \<Rightarrow> int \<Rightarrow> bool \<times> PrefixSumComputer" where
  "PrefixSumComputer_setValue st idx value =
     (let idx = toUint32 idx; value = toUint32 value
      in if map_option uint (js_at (psc_values st) idx) = Some value then (False, st)
         else
           (True, st\<lparr>psc_values := typed_store (psc_values st) idx (word_of_int value),
                     psc_prefixSumValidIndex :=
                       (if idx - 1 < psc_prefixSumValidIndex st then idx - 1
                        else psc_prefixSumValidIndex st)\<rparr>))"

definition PrefixSumComputer_removeValues ::
  "PrefixSumComputer \<Rightarrow> int \<Rightarrow> int \<Rightarrow> (bool \<times> PrefixSumComputer) result" where
  "PrefixSumComputer_removeValues st startIndex count =
     (let startIndex = toUint32 startIndex; count = toUint32 count; oldValues = psc_values st;
          n = int (length oldValues)
      in if startIndex \<ge> n then Inr (False, st)
         else
           let count = (if count \<ge> n - startIndex then n - startIndex else count)
           in if count = 0 then Inr (False, st)
              else
                bindE (typed_set (replicate (nat (n - count)) 0) (js_slice oldValues 0 startIndex) 0) (\<lambda>v1.
                bindE (typed_set v1 (js_slice_from oldValues (startIndex + count)) startIndex) (\<lambda>v2.
                bindE (psc_truncate st v2 startIndex) (\<lambda>st'. Inr (True, st')))))"

text \<open>The loop of \<open>_getPrefixSum\<close>; \<open>i\<close> and \<open>idx\<close> are positions of the array.\<close>

function prefixSum_loop :: "32 word list \<Rightarrow> 32 word list \<Rightarrow> int \<Rightarrow> int \<Rightarrow> 32 word list" where
  "prefixSum_loop vals sums i idx =
     (if i \<le> idx
      then prefixSum_loop vals (typed_store sums i (sums ! nat (i - 1) + vals ! nat i)) (i + 1) idx
      else sums)"
  by pat_completeness auto
termination by (relation "measure (\<lambda>(vals, sums, i, idx). nat (idx - i + 1))") auto

definition PrefixSumComputer_getPrefixSum_internal ::
  "PrefixSumComputer \<Rightarrow> int \<Rightarrow> 32 word option \<times> PrefixSumComputer" where
  "PrefixSumComputer_getPrefixSum_internal st idx =
     (if idx \<le> psc_prefixSumValidIndex st then (js_at (psc_prefixSum st) idx, st)
      else
        let startIndex = psc_prefixSumValidIndex st + 1;
            vals = psc_values st;
            (sums, startIndex) =
              (if startIndex = 0
               then (case js_at vals 0 of
                       Some v \<Rightarrow> typed_store (psc_prefixSum st) 0 v | None \<Rightarrow> psc_prefixSum st, 1)
               else (psc_prefixSum st, startIndex));
            idx = (if idx \<ge> int (length vals) then int (length vals) - 1 else idx);
            sums = prefixSum_loop vals sums startIndex idx
        in (js_at sums idx,
            st\<lparr>psc_prefixSum := sums, psc_prefixSumValidIndex := max (psc_prefixSumValidIndex st) idx\<rparr>))"

definition PrefixSumComputer_getTotalSum :: "PrefixSumComputer \<Rightarrow> 32 word option \<times> PrefixSumComputer" where
  "PrefixSumComputer_getTotalSum st =
     (if length (psc_values st) = 0 then (Some 0, st)
      else PrefixSumComputer_getPrefixSum_internal st (int (length (psc_values st)) - 1))"

definition PrefixSumComputer_getPrefixSum :: "PrefixSumComputer \<Rightarrow> int \<Rightarrow> 32 word option \<times> PrefixSumComputer" where
  "PrefixSumComputer_getPrefixSum st idx =
     (if idx < 0 then (Some 0, st) else PrefixSumComputer_getPrefixSum_internal st (toUint32 idx))"

text \<open>
  The binary search of \<open>getIndexOf\<close>; the variables are the last \<open>mid\<close> and \<open>midStart\<close>.  The
  coercion \<open>| 0\<close> of the midpoint is the rounding down, on arrays of fewer than \<open>2 ^ 31\<close>
  elements.
\<close>

function indexOf_loop :: "32 word list \<Rightarrow> 32 word list \<Rightarrow> int \<Rightarrow> int \<Rightarrow> int \<Rightarrow> int \<Rightarrow> int \<Rightarrow> int \<times> int" where
  "indexOf_loop vals sums s low high mid midStart =
     (if low \<le> high then
        let mid = low + (high - low) div 2;
            midStop = uint (sums ! nat mid);
            midStart = midStop - uint (vals ! nat mid)
        in if s < midStart then indexOf_loop vals sums s low (mid - 1) mid midStart
           else if s \<ge> midStop then indexOf_loop vals sums s (mid + 1) high mid midStart
           else (mid, midStart)
      else (mid, midStart))"
  by pat_completeness auto
termination
  by (relation "measure (\<lambda>(vals, sums, s, low, high, mid, midStart). nat (high - low + 1))")
    (auto simp: zdiv_mono1 intro: le_less_trans)

definition PrefixSumComputer_getIndexOf ::
  "PrefixSumComputer \<Rightarrow> int \<Rightarrow> PrefixSumIndexOfResult \<times> PrefixSumComputer" where
  "PrefixSumComputer_getIndexOf st s =
     (let st' = snd (PrefixSumComputer_getTotalSum st);
          (mid, midStart) =
            indexOf_loop (psc_values st') (psc_prefixSum st') s 0 (int (length (psc_values st')) - 1) 0 0
      in (\<lparr>index = mid, remainder = s - midStart\<rparr>, st'))"

declare prefixSum_loop.simps [simp del] indexOf_loop.simps [simp del]

section \<open>The class ConstantTimePrefixSumComputer\<close>

text \<open>
  Plain arrays: a store past the end extends the array, leaving holes (\<open>None\<close>) between;
  assigning \<open>length\<close> cuts it or pads it with holes.
\<close>

definition js_store :: "'a option list \<Rightarrow> nat \<Rightarrow> 'a \<Rightarrow> 'a option list" where
  "js_store xs i v = (if i < length xs then xs[i := Some v] else xs @ replicate (i - length xs) None @ [Some v])"

definition js_set_length :: "'a option list \<Rightarrow> nat \<Rightarrow> 'a option list" where
  "js_set_length xs n = take n xs @ replicate (n - length xs) None"

definition js_read :: "'a option list \<Rightarrow> int \<Rightarrow> 'a option" where
  "js_read xs i = Option.bind (js_at xs i) id"

record ConstantTimePrefixSumComputer =
  ctp_values :: "int list"
  ctp_isValid :: bool
  ctp_validEndIndex :: int
  ctp_prefixSum :: "int option list"
  ctp_indexBySum :: "int option list"

definition new_ConstantTimePrefixSumComputer :: "int list \<Rightarrow> ConstantTimePrefixSumComputer" where
  "new_ConstantTimePrefixSumComputer values =
     \<lparr>ctp_values = values, ctp_isValid = False, ctp_validEndIndex = - 1, ctp_prefixSum = [], ctp_indexBySum = []\<rparr>"

text \<open>The inner loop stores \<open>i\<close> at \<open>value\<close> places from \<open>sumAbove\<close> on.\<close>

definition store_index :: "int option list \<Rightarrow> int \<Rightarrow> int \<Rightarrow> int \<Rightarrow> int option list" where
  "store_index ibs sumAbove value i = fold (\<lambda>j xs. js_store xs (nat (sumAbove + j)) i) [0..value - 1] ibs"

fun ensureValid_loop :: "int list \<Rightarrow> int \<Rightarrow> int option list \<Rightarrow> int option list \<Rightarrow> int option list \<times> int option list" where
  "ensureValid_loop [] i sums ibs = (sums, ibs)"
| "ensureValid_loop (value # values) i sums ibs =
     (let sumAbove = (if i > 0 then the (js_read sums (i - 1)) else 0)
      in ensureValid_loop values (i + 1) (js_store sums (nat i) (sumAbove + value))
           (store_index ibs sumAbove value i))"

definition ConstantTimePrefixSumComputer_ensureValid ::
  "ConstantTimePrefixSumComputer \<Rightarrow> ConstantTimePrefixSumComputer" where
  "ConstantTimePrefixSumComputer_ensureValid st =
     (if ctp_isValid st then st
      else
        let vals = ctp_values st;
            first = ctp_validEndIndex st + 1;
            (sums, ibs) = ensureValid_loop (drop (nat first) vals) first (ctp_prefixSum st) (ctp_indexBySum st);
            sums = js_set_length sums (length vals);
            ibs = js_set_length ibs
                    (if length vals > 0 then nat (the (js_read sums (int (length vals) - 1))) else 0)
        in st\<lparr>ctp_prefixSum := sums, ctp_indexBySum := ibs, ctp_isValid := True,
               ctp_validEndIndex := int (length vals) - 1\<rparr>)"

definition ConstantTimePrefixSumComputer_getTotalSum ::
  "ConstantTimePrefixSumComputer \<Rightarrow> int \<times> ConstantTimePrefixSumComputer" where
  "ConstantTimePrefixSumComputer_getTotalSum st =
     (let st = ConstantTimePrefixSumComputer_ensureValid st in (int (length (ctp_indexBySum st)), st))"

definition ConstantTimePrefixSumComputer_getPrefixSum ::
  "ConstantTimePrefixSumComputer \<Rightarrow> int \<Rightarrow> int option \<times> ConstantTimePrefixSumComputer" where
  "ConstantTimePrefixSumComputer_getPrefixSum st count =
     (let st = ConstantTimePrefixSumComputer_ensureValid st
      in (if count = 0 then Some 0 else js_read (ctp_prefixSum st) (count - 1), st))"

definition ConstantTimePrefixSumComputer_getIndexOf ::
  "ConstantTimePrefixSumComputer \<Rightarrow> int \<Rightarrow> PrefixSumIndexOfResult \<times> ConstantTimePrefixSumComputer" where
  "ConstantTimePrefixSumComputer_getIndexOf st s =
     (let st = ConstantTimePrefixSumComputer_ensureValid st
      in case js_read (ctp_indexBySum st) s of
           None \<Rightarrow>
             let lastIdx = max 0 (int (length (ctp_values st)) - 1);
                 lastPrefixSum = (if lastIdx > 0 then the (js_read (ctp_prefixSum st) (lastIdx - 1)) else 0)
             in (\<lparr>index = lastIdx, remainder = s - lastPrefixSum\<rparr>, st)
         | Some idx \<Rightarrow>
             let viewLinesAbove = (if idx > 0 then the (js_read (ctp_prefixSum st) (idx - 1)) else 0)
             in (\<lparr>index = idx, remainder = s - viewLinesAbove\<rparr>, st))"

definition ctp_invalidate :: "ConstantTimePrefixSumComputer \<Rightarrow> int \<Rightarrow> ConstantTimePrefixSumComputer" where
  "ctp_invalidate st idx =
     st\<lparr>ctp_isValid := False, ctp_validEndIndex := min (ctp_validEndIndex st) (idx - 1)\<rparr>"

definition ConstantTimePrefixSumComputer_removeValues ::
  "ConstantTimePrefixSumComputer \<Rightarrow> int \<Rightarrow> int \<Rightarrow> ConstantTimePrefixSumComputer" where
  "ConstantTimePrefixSumComputer_removeValues st s deleteCount =
     ctp_invalidate (st\<lparr>ctp_values := js_splice (ctp_values st) s deleteCount []\<rparr>) s"

definition ConstantTimePrefixSumComputer_insertValues ::
  "ConstantTimePrefixSumComputer \<Rightarrow> int \<Rightarrow> int list \<Rightarrow> ConstantTimePrefixSumComputer" where
  "ConstantTimePrefixSumComputer_insertValues st insertIndex insertArr =
     ctp_invalidate (st\<lparr>ctp_values := arrayInsert (ctp_values st) insertIndex insertArr\<rparr>) insertIndex"

text \<open>
  A store at the length of the array appends.  Further out, or at a negative index, it would leave
  an array with holes or with a property that is no element, which a list of numbers is not:
  \<open>None\<close>.
\<close>

definition ConstantTimePrefixSumComputer_setValue ::
  "ConstantTimePrefixSumComputer \<Rightarrow> int \<Rightarrow> int \<Rightarrow> ConstantTimePrefixSumComputer option" where
  "ConstantTimePrefixSumComputer_setValue st idx value =
     (if js_at (ctp_values st) idx = Some value then Some st
      else if 0 \<le> idx \<and> idx \<le> int (length (ctp_values st))
      then Some (ctp_invalidate (st\<lparr>ctp_values := take (nat idx) (ctp_values st) @ [value] @
             drop (nat idx + 1) (ctp_values st)\<rparr>) idx)
      else None)"

section \<open>PrefixSumComputer: the invariant\<close>

text \<open>The sum of the first \<open>k\<close> values, in 32 bits and in the integers.\<close>

definition wsum :: "32 word list \<Rightarrow> nat \<Rightarrow> 32 word" where
  "wsum vals k = sum_list (take k vals)"

definition isum :: "32 word list \<Rightarrow> nat \<Rightarrow> int" where
  "isum vals k = sum_list (map uint (take k vals))"

definition psc_inv :: "PrefixSumComputer \<Rightarrow> bool" where
  "psc_inv st \<longleftrightarrow>
     length (psc_prefixSum st) = length (psc_values st) \<and> length (psc_values st) < 2 ^ 31 \<and>
     - 1 \<le> psc_prefixSumValidIndex st \<and> psc_prefixSumValidIndex st < int (length (psc_values st)) \<and>
     (\<forall>k. int k \<le> psc_prefixSumValidIndex st \<longrightarrow> psc_prefixSum st ! k = wsum (psc_values st) (Suc k))"

lemma uint_wsum: "uint (wsum vals k) = isum vals k mod 2 ^ 32"
proof -
  have "uint (sum_list xs :: 32 word) = sum_list (map uint xs) mod 2 ^ 32" for xs :: "32 word list"
    by (induction xs) (simp_all add: uint_word_ariths mod_add_right_eq)
  then show ?thesis by (simp add: wsum_def isum_def)
qed

lemma isum_simps: "isum vals 0 = 0" "k < length vals \<Longrightarrow> isum vals (Suc k) = isum vals k + uint (vals ! k)"
  by (simp_all add: isum_def take_Suc_conv_app_nth)

lemma wsum_Suc: "k < length vals \<Longrightarrow> wsum vals (Suc k) = wsum vals k + vals ! k"
  by (simp add: wsum_def take_Suc_conv_app_nth)

lemma isum_mono: "k \<le> m \<Longrightarrow> 0 \<le> isum vals k \<and> isum vals k \<le> isum vals m"
proof -
  assume "k \<le> m"
  have nonneg: "0 \<le> sum_list (map uint xs)" for xs :: "32 word list" by (induction xs) simp_all
  have "take m vals = take k vals @ take (m - k) (drop k vals)"
    using \<open>k \<le> m\<close> take_add [of k "m - k" vals] by simp
  then show ?thesis using nonneg by (simp add: isum_def)
qed

lemma toUint32_id [simp]: "0 \<le> v \<Longrightarrow> v < 2 ^ 31 \<Longrightarrow> toUint32 v = v"
  by (simp add: toUint32_def to_int32_id)

lemma typed_store_length [simp]: "length (typed_store xs i v) = length xs"
  by (simp add: typed_store_def)

lemma prefixSum_loop_spec:
  "length sums = length vals \<Longrightarrow> 1 \<le> i \<Longrightarrow> idx < int (length vals) \<Longrightarrow>
   \<forall>k. int k < i \<longrightarrow> k < length vals \<longrightarrow> sums ! k = wsum vals (Suc k) \<Longrightarrow>
   length (prefixSum_loop vals sums i idx) = length vals \<and>
   (\<forall>k. int k < i \<or> int k \<le> idx \<longrightarrow> k < length vals \<longrightarrow>
      prefixSum_loop vals sums i idx ! k = wsum vals (Suc k))"
proof (induction vals sums i idx rule: prefixSum_loop.induct)
  case (1 vals sums i idx)
  show ?case
  proof (cases "i \<le> idx")
    case True
    let ?m = "nat i"
    let ?sums = "typed_store sums i (sums ! nat (i - 1) + vals ! ?m)"
    define j where "j = nat (i - 1)"
    have j: "?m = Suc j" "nat (i - 1) = j" "i = int (Suc j)" using 1(3) by (simp_all add: j_def)
    have "sums ! j = wsum vals (Suc j)" using 1(4,5) True j by simp
    then have new: "sums ! nat (i - 1) + vals ! ?m = wsum vals (Suc ?m)"
      using wsum_Suc [of "Suc j" vals] True 1(4) j by simp
    have "\<forall>k. int k < i + 1 \<longrightarrow> k < length vals \<longrightarrow> ?sums ! k = wsum vals (Suc k)"
    proof (intro allI impI)
      fix k assume k: "int k < i + 1" "k < length vals"
      show "?sums ! k = wsum vals (Suc k)"
      proof (cases "k = ?m")
        case True
        with k new 1(2,3) show ?thesis by (simp add: typed_store_def)
      next
        case False
        with k 1(3) have "int k < i" by linarith
        with False k 1(3,5) show ?thesis by (simp add: typed_store_def)
      qed
    qed
    with 1(1) [OF True] 1(2,3,4) have IH: "length (prefixSum_loop vals ?sums (i + 1) idx) = length vals"
      "\<And>k. int k < i + 1 \<or> int k \<le> idx \<Longrightarrow> k < length vals \<Longrightarrow>
         prefixSum_loop vals ?sums (i + 1) idx ! k = wsum vals (Suc k)" by (simp, auto)
    have "prefixSum_loop vals sums i idx = prefixSum_loop vals ?sums (i + 1) idx"
      by (subst prefixSum_loop.simps) (simp add: True)
    with IH show ?thesis by simp
  next
    case False
    then have "prefixSum_loop vals sums i idx = sums" by (subst prefixSum_loop.simps) simp
    with 1 False show ?thesis by auto
  qed
qed

lemma getPrefixSum_internal_spec:
  assumes inv: "psc_inv st" and idx: "0 \<le> idx" "idx < int (length (psc_values st))"
  shows "\<exists>st'. PrefixSumComputer_getPrefixSum_internal st idx = (Some (wsum (psc_values st) (nat idx + 1)), st') \<and>
    psc_inv st' \<and> psc_values st' = psc_values st \<and> idx \<le> psc_prefixSumValidIndex st'"
proof (cases "idx \<le> psc_prefixSumValidIndex st")
  case True
  with assms show ?thesis
    by (auto simp: PrefixSumComputer_getPrefixSum_internal_def psc_inv_def js_at_def)
next
  case False
  let ?vals = "psc_values st" and ?v = "psc_prefixSumValidIndex st"
  have inv': "length (psc_prefixSum st) = length ?vals" "- 1 \<le> ?v" "?v < int (length ?vals)"
    "\<And>k. int k \<le> ?v \<Longrightarrow> psc_prefixSum st ! k = wsum ?vals (Suc k)"
    using inv by (auto simp: psc_inv_def)
  define sums0 where "sums0 = (if ?v + 1 = 0 then typed_store (psc_prefixSum st) 0 (?vals ! 0) else psc_prefixSum st)"
  define i0 where "i0 = (if ?v + 1 = 0 then 1 else ?v + 1)"
  have ne: "0 < length ?vals" using idx by (cases ?vals) simp_all
  have s0: "length sums0 = length ?vals" "1 \<le> i0" using inv' by (auto simp: sums0_def i0_def)
  have pre: "\<forall>k. int k < i0 \<longrightarrow> k < length ?vals \<longrightarrow> sums0 ! k = wsum ?vals (Suc k)"
  proof (intro allI impI)
    fix k assume k: "int k < i0" "k < length ?vals"
    show "sums0 ! k = wsum ?vals (Suc k)"
    proof (cases "?v + 1 = 0")
      case True
      with k have "k = 0" by (simp add: i0_def)
      with True ne inv'(1) show ?thesis
        by (simp add: sums0_def typed_store_def wsum_def take_Suc_conv_app_nth)
    next
      case False
      with k inv'(4) show ?thesis by (simp add: sums0_def i0_def)
    qed
  qed
  let ?sums = "prefixSum_loop ?vals sums0 i0 idx"
  note loop = prefixSum_loop_spec [OF s0 idx(2) pre]
  have i0: "i0 \<le> idx + 1" using False idx by (auto simp: i0_def)
  have res: "PrefixSumComputer_getPrefixSum_internal st idx =
      (js_at ?sums idx, st\<lparr>psc_prefixSum := ?sums, psc_prefixSumValidIndex := max ?v idx\<rparr>)"
    using False idx ne
    by (simp add: PrefixSumComputer_getPrefixSum_internal_def Let_def js_at_def sums0_def i0_def)
  have "js_at ?sums idx = Some (wsum ?vals (nat idx + 1))" using loop idx by (simp add: js_at_def)
  moreover have "psc_inv (st\<lparr>psc_prefixSum := ?sums, psc_prefixSumValidIndex := max ?v idx\<rparr>)"
    using loop inv idx False by (auto simp: psc_inv_def max_def)
  ultimately show ?thesis using res by auto
qed

lemma getTotalSum_spec:
  assumes "psc_inv st"
  shows "\<exists>st'. PrefixSumComputer_getTotalSum st = (Some (wsum (psc_values st) (length (psc_values st))), st') \<and>
    psc_inv st' \<and> psc_values st' = psc_values st \<and>
    psc_prefixSumValidIndex st' = int (length (psc_values st)) - 1"
proof (cases "psc_values st")
  case Nil
  with assms show ?thesis by (auto simp: PrefixSumComputer_getTotalSum_def psc_inv_def wsum_def)
next
  case (Cons a list)
  let ?n = "length (psc_values st)"
  have n: "?n \<noteq> 0" using Cons by simp
  then have "nat (int ?n - 1) + 1 = ?n" by linarith
  with getPrefixSum_internal_spec [OF assms, of "int ?n - 1"] n obtain st' where
    st': "PrefixSumComputer_getPrefixSum_internal st (int ?n - 1) = (Some (wsum (psc_values st) ?n), st')"
    "psc_inv st'" "psc_values st' = psc_values st" "int ?n - 1 \<le> psc_prefixSumValidIndex st'" by auto
  then have "psc_prefixSumValidIndex st' = int ?n - 1" by (simp add: psc_inv_def)
  with st' n show ?thesis by (simp add: PrefixSumComputer_getTotalSum_def)
qed

text \<open>
  On a state that satisfies the invariant, \<open>getPrefixSum\<close> and \<open>getTotalSum\<close> return
  the sums of the values (modulo \<open>2 ^ 32\<close>), whatever part of the cache was valid, and keep the
  values and the invariant.
\<close>

theorem PrefixSumComputer_sums_correct:
  assumes inv: "psc_inv st" and idx: "0 \<le> idx" "idx < int (length (psc_values st))"
  shows "(\<exists>w st'. PrefixSumComputer_getPrefixSum st idx = (Some w, st') \<and>
            uint w = isum (psc_values st) (nat idx + 1) mod 2 ^ 32 \<and>
            psc_inv st' \<and> psc_values st' = psc_values st) \<and>
         (\<exists>w st'. PrefixSumComputer_getTotalSum st = (Some w, st') \<and>
            uint w = isum (psc_values st) (length (psc_values st)) mod 2 ^ 32 \<and>
            psc_inv st' \<and> psc_values st' = psc_values st)"
proof
  have "toUint32 idx = idx" using inv idx by (simp add: psc_inv_def)
  with getPrefixSum_internal_spec [OF assms] idx
  show "\<exists>w st'. PrefixSumComputer_getPrefixSum st idx = (Some w, st') \<and>
            uint w = isum (psc_values st) (nat idx + 1) mod 2 ^ 32 \<and>
            psc_inv st' \<and> psc_values st' = psc_values st"
    by (auto simp: PrefixSumComputer_getPrefixSum_def uint_wsum)
  from getTotalSum_spec [OF inv]
  show "\<exists>w st'. PrefixSumComputer_getTotalSum st = (Some w, st') \<and>
            uint w = isum (psc_values st) (length (psc_values st)) mod 2 ^ 32 \<and>
            psc_inv st' \<and> psc_values st' = psc_values st"
    by (auto simp: uint_wsum)
qed

theorem PrefixSumComputer_sums_correct_witness:
  "\<exists>w st'. PrefixSumComputer_getPrefixSum (new_PrefixSumComputer [4294967295, 3]) 1 = (Some w, st') \<and> uint w = 2"
proof -
  let ?st = "new_PrefixSumComputer [4294967295, 3]"
  have "psc_inv ?st" "(0 :: int) \<le> 1" "1 < int (length (psc_values ?st))"
    by (simp_all add: psc_inv_def new_PrefixSumComputer_def)
  from PrefixSumComputer_sums_correct [OF this] show ?thesis
    by (auto simp: new_PrefixSumComputer_def isum_def)
qed

section \<open>PrefixSumComputer: searching\<close>

lemma uint_sums:
  assumes "k < length vals" and "isum vals (length vals) < 2 ^ 32"
    and "sums ! k = wsum vals (Suc k)"
  shows "uint (sums ! k) = isum vals (Suc k)" and "uint (sums ! k) - uint (vals ! k) = isum vals k"
proof -
  have "isum vals (Suc k) \<le> isum vals (length vals)" "0 \<le> isum vals (Suc k)"
    using isum_mono [of "Suc k" "length vals" vals] assms(1) by simp_all
  then have "isum vals (Suc k) mod 2 ^ 32 = isum vals (Suc k)"
    using assms(2) by (intro mod_pos_pos_trivial) simp_all
  then show "uint (sums ! k) = isum vals (Suc k)" by (simp add: assms(3) uint_wsum)
  then show "uint (sums ! k) - uint (vals ! k) = isum vals k" using isum_simps(2) [OF assms(1)] by simp
qed

lemma indexOf_loop_spec:
  assumes "0 \<le> low" and "high < int (length vals)" and "low \<le> high + 1"
    and "isum vals (nat low) \<le> s" and "s < isum vals (nat (high + 1))"
    and "isum vals (length vals) < 2 ^ 32"
    and "\<And>k. k < length vals \<Longrightarrow> sums ! k = wsum vals (Suc k)"
  shows "\<exists>m. indexOf_loop vals sums s low high mid midStart = (int m, isum vals m) \<and>
    m < length vals \<and> isum vals m \<le> s \<and> s < isum vals (Suc m)"
  using assms
proof (induction vals sums s low high mid midStart rule: indexOf_loop.induct)
  case (1 vals sums s low high mid midStart)
  let ?mid = "low + (high - low) div 2"
  have "low \<le> high"
  proof (rule ccontr)
    assume "\<not> low \<le> high"
    with 1(5) have "low = high + 1" by simp
    with 1(6,7) show False by simp
  qed
  then have mid: "low \<le> ?mid" "?mid \<le> high" by linarith+
  let ?m = "nat ?mid"
  have m: "?m < length vals" "int ?m = ?mid" using mid 1(3,4) by linarith+
  have u: "uint (sums ! ?m) = isum vals (Suc ?m)" "uint (sums ! ?m) - uint (vals ! ?m) = isum vals ?m"
    using uint_sums [of ?m vals sums] m(1) 1(8,9) by simp_all
  have suc: "nat (?mid + 1) = Suc ?m" using mid 1(3) by simp
  have step: "indexOf_loop vals sums s low high mid midStart =
      (if s < isum vals ?m then indexOf_loop vals sums s low (?mid - 1) ?mid (isum vals ?m)
       else if s \<ge> isum vals (Suc ?m) then indexOf_loop vals sums s (?mid + 1) high ?mid (isum vals ?m)
       else (?mid, isum vals ?m))"
    using \<open>low \<le> high\<close> u by (subst indexOf_loop.simps) (simp add: Let_def)
  have u2: "isum vals (Suc ?m) - uint (vals ! ?m) = isum vals ?m" using u by simp
  note IH = 1(1,2) [OF \<open>low \<le> high\<close> refl refl refl, unfolded u(1) u2]
  consider "s < isum vals ?m" | "\<not> s < isum vals ?m" "s \<ge> isum vals (Suc ?m)"
    | "isum vals ?m \<le> s" "s < isum vals (Suc ?m)" by linarith
  then show ?case
  proof cases
    case a: 1
    have "?mid - 1 < int (length vals)" "low \<le> ?mid - 1 + 1" "s < isum vals (nat (?mid - 1 + 1))"
      using a mid 1(4) by simp_all
    from IH(1) [OF a 1(3) this(1,2) 1(6) this(3) 1(8,9)] a show ?thesis unfolding step by simp
  next
    case b: 2
    have "0 \<le> ?mid + 1" "?mid + 1 \<le> high + 1" "isum vals (nat (?mid + 1)) \<le> s"
      using b mid 1(3) by (simp_all add: suc)
    from IH(2) [OF b this(1) 1(4) this(2,3) 1(7,8,9)] b show ?thesis unfolding step by simp
  next
    case 3
    with m show ?thesis unfolding step by (intro exI [of _ ?m]) simp
  qed
qed

text \<open>
  When the total of the values fits 32 bits and \<open>s\<close> is below it, \<open>getIndexOf\<close>
  returns the index whose value covers \<open>s\<close> and the distance from the sum before it.
\<close>

theorem PrefixSumComputer_getIndexOf_correct:
  assumes inv: "psc_inv st" and total: "isum (psc_values st) (length (psc_values st)) < 2 ^ 32"
    and s: "0 \<le> s" "s < isum (psc_values st) (length (psc_values st))"
  shows "\<exists>r st' m. PrefixSumComputer_getIndexOf st s = (r, st') \<and> psc_inv st' \<and> psc_values st' = psc_values st \<and>
    index r = int m \<and> m < length (psc_values st) \<and>
    isum (psc_values st) m \<le> s \<and> s < isum (psc_values st) (Suc m) \<and>
    remainder r = s - isum (psc_values st) m"
proof -
  let ?vals = "psc_values st" and ?n = "length (psc_values st)"
  obtain st' where st': "snd (PrefixSumComputer_getTotalSum st) = st'" "psc_inv st'" "psc_values st' = ?vals"
    "psc_prefixSumValidIndex st' = int ?n - 1"
    using getTotalSum_spec [OF inv] by auto
  have sums: "psc_prefixSum st' ! k = wsum ?vals (Suc k)" if "k < ?n" for k
    using st'(2,3,4) that by (simp add: psc_inv_def)
  have "isum ?vals (nat 0) \<le> s" "s < isum ?vals (nat (int ?n - 1 + 1))" using s by (simp_all add: isum_simps)
  with indexOf_loop_spec [of 0 "int ?n - 1" ?vals s "psc_prefixSum st'" 0 0] total sums obtain m where
    "indexOf_loop ?vals (psc_prefixSum st') s 0 (int ?n - 1) 0 0 = (int m, isum ?vals m)"
    "m < ?n" "isum ?vals m \<le> s" "s < isum ?vals (Suc m)" by auto
  with st' show ?thesis by (auto simp: PrefixSumComputer_getIndexOf_def Let_def)
qed

theorem PrefixSumComputer_getIndexOf_correct_witness:
  "\<exists>r st'. PrefixSumComputer_getIndexOf (new_PrefixSumComputer [2, 3, 4]) 3 = (r, st') \<and> index r = 1 \<and> remainder r = 1"
proof -
  let ?st = "new_PrefixSumComputer [2, 3, 4]"
  have a: "psc_inv ?st" by (simp add: psc_inv_def new_PrefixSumComputer_def)
  have b: "isum (psc_values ?st) (length (psc_values ?st)) < 2 ^ 32" "(0 :: int) \<le> 3"
    "3 < isum (psc_values ?st) (length (psc_values ?st))"
    by (simp_all add: new_PrefixSumComputer_def isum_def)
  from PrefixSumComputer_getIndexOf_correct [OF a b] obtain r st' m where
    r: "PrefixSumComputer_getIndexOf ?st 3 = (r, st')" "index r = int m" "m < 3"
    "isum [2, 3, 4] m \<le> 3" "3 < isum [2, 3, 4] (Suc m)" "remainder r = 3 - isum [2, 3, 4] m"
    by (auto simp: new_PrefixSumComputer_def)
  from \<open>m < 3\<close> consider "m = 0" | "m = 1" | "m = 2" by linarith
  then have "m = 1" by cases (use r(4,5) in \<open>simp_all add: isum_def\<close>)
  with r show ?thesis by (simp add: isum_def)
qed

section \<open>PrefixSumComputer: changing values\<close>

lemma typed_set_at:
  "typed_set (xs @ ys @ zs) src (int (length xs)) = Inr (xs @ src @ zs)" if "length ys = length src"
  using that by (simp add: typed_set_def nat_int_add)

lemma psc_truncate_spec:
  assumes inv: "psc_inv st" and c: "0 \<le> c" "c \<le> int (length vals)" and len: "length vals < 2 ^ 31"
    and same: "take (nat c) vals = take (nat c) (psc_values st)" and c': "c \<le> int (length (psc_values st))"
  shows "\<exists>st'. psc_truncate st vals c = Inr st' \<and> psc_inv st' \<and> psc_values st' = vals"
proof -
  let ?v = "if c - 1 < psc_prefixSumValidIndex st then c - 1 else psc_prefixSumValidIndex st"
  let ?k = "nat (?v + 1)" and ?sums = "psc_prefixSum st"
  have v: "- 1 \<le> ?v" "?v \<le> c - 1" "?v \<le> psc_prefixSumValidIndex st"
    using inv c by (auto simp: psc_inv_def)
  have k: "?k \<le> length ?sums" "?k \<le> length vals" "?k \<le> nat c"
    using v c c' inv by (auto simp: psc_inv_def)
  let ?new = "take ?k ?sums @ replicate (length vals - ?k) 0"
  have "typed_set (replicate (length vals) 0) (take ?k ?sums) 0 = Inr ?new"
    using typed_set_at [of "replicate ?k 0" "take ?k ?sums" "[]" "replicate (length vals - ?k) 0"] k
    by (simp flip: replicate_add)
  moreover have "js_slice ?sums 0 (?v + 1) = take ?k ?sums"
    using v k by (simp add: js_slice_bounds nat_le_iff)
  moreover have "?new = replicate (length vals) 0" if "\<not> ?v \<ge> 0" using that v by simp
  ultimately have t: "psc_truncate st vals c =
      Inr \<lparr>psc_values = vals, psc_prefixSum = ?new, psc_prefixSumValidIndex = ?v\<rparr>"
    by (auto simp: psc_truncate_def Let_def)
  have "?new ! i = wsum vals (Suc i)" if "int i \<le> ?v" for i
  proof -
    have i: "i < ?k" "int i \<le> psc_prefixSumValidIndex st" using that v by linarith+
    then have "?new ! i = wsum (psc_values st) (Suc i)"
      using inv k(1) by (simp add: nth_append psc_inv_def)
    also have "take (Suc i) vals = take (Suc i) (psc_values st)"
      using arg_cong [OF same, of "take (Suc i)"] i(1) k(3) by (simp add: min_def split: if_splits)
    then have "wsum (psc_values st) (Suc i) = wsum vals (Suc i)" by (simp add: wsum_def)
    finally show ?thesis .
  qed
  then have "psc_inv \<lparr>psc_values = vals, psc_prefixSum = ?new, psc_prefixSumValidIndex = ?v\<rparr>"
    using len k v c by (auto simp: psc_inv_def)
  with t show ?thesis by simp
qed

lemma insertValues_spec:
  assumes inv: "psc_inv st" and i: "0 \<le> i" "i \<le> int (length (psc_values st))"
    and len: "length (psc_values st) + length ins < 2 ^ 31"
  shows "\<exists>b st'. PrefixSumComputer_insertValues st i ins = Inr (b, st') \<and> psc_inv st' \<and>
    psc_values st' = take (nat i) (psc_values st) @ ins @ drop (nat i) (psc_values st) \<and>
    (b \<longleftrightarrow> ins \<noteq> [])"
proof (cases "ins = []")
  case True
  have "toUint32 i = i" using i len by simp
  with True inv show ?thesis by (auto simp: PrefixSumComputer_insertValues_def)
next
  case False
  let ?vals = "psc_values st" and ?k = "nat i"
  let ?new = "take ?k ?vals @ ins @ drop ?k ?vals"
  have k: "?k \<le> length ?vals" "i = int (length (take ?k ?vals))" "toUint32 i = i" using i len by simp_all
  let ?z = "replicate (length ins) (0 :: 32 word)" and ?w = "replicate (length ?vals - ?k) (0 :: 32 word)"
  have z: "replicate (length ?vals + length ins) (0 :: 32 word) = replicate ?k 0 @ ?z @ ?w"
    using k(1) by (simp flip: replicate_add)
  have s1: "typed_set (replicate (length ?vals + length ins) 0) (js_slice ?vals 0 i) 0 =
      Inr (take ?k ?vals @ ?z @ ?w)"
    using typed_set_at [of "replicate ?k 0" "take ?k ?vals" "[]" "?z @ ?w"] k i
    by (simp add: z js_slice_bounds)
  have s2: "typed_set (take ?k ?vals @ ?z @ ?w) (js_slice_from ?vals i) (i + int (length ins)) =
      Inr (take ?k ?vals @ ?z @ drop ?k ?vals)"
    using typed_set_at [of ?w "drop ?k ?vals" "take ?k ?vals @ ?z" "[]"] k i
    by (simp add: js_slice_from_bounds min_def)
  have s3: "typed_set (take ?k ?vals @ ?z @ drop ?k ?vals) ins i = Inr ?new"
    using typed_set_at [of ?z ins "take ?k ?vals" "drop ?k ?vals"] k i by (simp add: min_def)
  obtain st' where "psc_truncate st ?new i = Inr st'" "psc_inv st'" "psc_values st' = ?new"
    using psc_truncate_spec [OF inv i(1), of ?new] i len k(1) by auto
  then show ?thesis
    using False k(3) s1 s2 s3 by (auto simp: PrefixSumComputer_insertValues_def Let_def)
qed

lemma removeValues_spec:
  assumes inv: "psc_inv st" and i: "0 \<le> i" "0 \<le> c" "c < 2 ^ 31" "i < 2 ^ 31"
  shows "\<exists>b st'. PrefixSumComputer_removeValues st i c = Inr (b, st') \<and> psc_inv st' \<and>
    psc_values st' = take (nat i) (psc_values st) @ drop (nat (i + c)) (psc_values st) \<and>
    (b \<longleftrightarrow> c \<noteq> 0 \<and> i < int (length (psc_values st)))"
proof -
  let ?vals = "psc_values st" and ?n = "int (length (psc_values st))" and ?k = "nat i"
  have u: "toUint32 i = i" "toUint32 c = c" using i by simp_all
  consider "?n \<le> i" | "i < ?n" "c = 0" | "i < ?n" "c \<noteq> 0" by linarith
  then show ?thesis
  proof cases
    case 1
    then have "take ?k ?vals = ?vals" "drop (nat (i + c)) ?vals = []" using i by simp_all
    with 1 inv u show ?thesis by (auto simp: PrefixSumComputer_removeValues_def)
  next
    case 2
    with inv u show ?thesis by (auto simp: PrefixSumComputer_removeValues_def)
  next
    case 3
    define d where "d = (if c \<ge> ?n - i then ?n - i else c)"
    have d: "0 < d" "i + d \<le> ?n" using 3 i by (auto simp: d_def)
    have rest: "drop (nat (i + d)) ?vals = drop (nat (i + c)) ?vals"
      using 3 by (cases "c \<ge> ?n - i") (simp_all add: d_def)
    let ?new = "take ?k ?vals @ drop (nat (i + d)) ?vals"
    let ?w = "replicate (length ?vals - nat (i + d)) (0 :: 32 word)"
    have k: "?k \<le> length ?vals" "i = int (length (take ?k ?vals))" using 3 i by simp_all
    have z: "replicate (nat (?n - d)) (0 :: 32 word) = replicate ?k 0 @ ?w"
      using d i by (simp flip: replicate_add)
    have s1: "typed_set (replicate (nat (?n - d)) 0) (js_slice ?vals 0 i) 0 = Inr (take ?k ?vals @ ?w)"
      using typed_set_at [of "replicate ?k 0" "take ?k ?vals" "[]" ?w] k i 3(1)
      by (simp add: z js_slice_bounds)
    have s2: "typed_set (take ?k ?vals @ ?w) (js_slice_from ?vals (i + d)) i = Inr ?new"
      using typed_set_at [of ?w "drop (nat (i + d)) ?vals" "take ?k ?vals" "[]"] k i d
      by (simp add: js_slice_from_bounds min_def)
    have "length ?new \<le> length ?vals" using d i by simp
    then have "length ?new < 2 ^ 31" "i \<le> int (length ?new)"
      using inv k by (simp_all add: psc_inv_def)
    then obtain st' where "psc_truncate st ?new i = Inr st'" "psc_inv st'" "psc_values st' = ?new"
      using psc_truncate_spec [OF inv i(1), of ?new] 3(1) k(1) by (auto simp: min_def)
    then show ?thesis
      using 3 u s1 s2 d by (auto simp: PrefixSumComputer_removeValues_def Let_def d_def [symmetric] rest)
  qed
qed

lemma setValue_spec:
  assumes inv: "psc_inv st" and i: "0 \<le> i" "i < int (length (psc_values st))" and v: "0 \<le> v" "v < 2 ^ 31"
  shows "\<exists>b st'. PrefixSumComputer_setValue st i v = (b, st') \<and> psc_inv st' \<and>
    psc_values st' = (psc_values st)[nat i := word_of_int v] \<and>
    (b \<longleftrightarrow> psc_values st ! nat i \<noteq> word_of_int v)"
proof -
  let ?vals = "psc_values st" and ?k = "nat i"
  have u: "toUint32 i = i" "toUint32 v = v" using inv i v by (simp_all add: psc_inv_def)
  have at: "js_at ?vals i = Some (?vals ! ?k)" using i by (simp add: js_at_def)
  have eq: "uint (?vals ! ?k) = v \<longleftrightarrow> ?vals ! ?k = word_of_int v"
  proof
    assume "?vals ! ?k = word_of_int v"
    then show "uint (?vals ! ?k) = v" using v by (simp add: uint_word_of_int)
  qed auto
  show ?thesis
  proof (cases "?vals ! ?k = word_of_int v")
    case True
    then have "?vals[?k := word_of_int v] = ?vals" by (simp flip: True)
    with True at eq u inv show ?thesis by (auto simp: PrefixSumComputer_setValue_def)
  next
    case False
    let ?valid = "if i - 1 < psc_prefixSumValidIndex st then i - 1 else psc_prefixSumValidIndex st"
    let ?st = "st\<lparr>psc_values := ?vals[?k := word_of_int v], psc_prefixSumValidIndex := ?valid\<rparr>"
    have "PrefixSumComputer_setValue st i v = (True, ?st)"
      using False at eq u i by (simp add: PrefixSumComputer_setValue_def typed_store_def)
    moreover have "wsum (?vals[?k := w]) (Suc m) = wsum ?vals (Suc m)" if "int m \<le> ?valid" for m w
    proof -
      have "Suc m \<le> ?k" using that by (simp split: if_splits)
      then show ?thesis by (simp add: wsum_def take_update_cancel)
    qed
    then have "psc_inv ?st" using inv i by (auto simp: psc_inv_def)
    ultimately show ?thesis using False by auto
  qed
qed

text \<open>
  \<^bold>\<open>C40.\<close> \<open>insertValues\<close>, \<open>removeValues\<close> and \<open>setValue\<close> never throw on indices of the
  array, change the values the way their names say, report whether anything changed, and keep
  the invariant: the part of the cache that stays valid holds the sums of the new values.
\<close>

theorem PrefixSumComputer_changes_correct:
  assumes inv: "psc_inv st" and i: "0 \<le> i" "i < int (length (psc_values st))"
    and len: "length (psc_values st) + length ins < 2 ^ 31"
    and c: "0 \<le> c" "c < 2 ^ 31" and v: "0 \<le> v" "v < 2 ^ 31"
  shows "(\<exists>b st'. PrefixSumComputer_insertValues st i ins = Inr (b, st') \<and> psc_inv st' \<and>
            psc_values st' = take (nat i) (psc_values st) @ ins @ drop (nat i) (psc_values st) \<and>
            (b \<longleftrightarrow> ins \<noteq> [])) \<and>
         (\<exists>b st'. PrefixSumComputer_removeValues st i c = Inr (b, st') \<and> psc_inv st' \<and>
            psc_values st' = take (nat i) (psc_values st) @ drop (nat (i + c)) (psc_values st) \<and>
            (b \<longleftrightarrow> c \<noteq> 0)) \<and>
         (\<exists>b st'. PrefixSumComputer_setValue st i v = (b, st') \<and> psc_inv st' \<and>
            psc_values st' = (psc_values st)[nat i := word_of_int v] \<and>
            (b \<longleftrightarrow> psc_values st ! nat i \<noteq> word_of_int v))"
proof (intro conjI)
  have i': "i < 2 ^ 31" using i len by simp
  show "\<exists>b st'. PrefixSumComputer_insertValues st i ins = Inr (b, st') \<and> psc_inv st' \<and>
            psc_values st' = take (nat i) (psc_values st) @ ins @ drop (nat i) (psc_values st) \<and>
            (b \<longleftrightarrow> ins \<noteq> [])"
    using insertValues_spec [OF inv i(1) less_imp_le [OF i(2)] len] .
  show "\<exists>b st'. PrefixSumComputer_removeValues st i c = Inr (b, st') \<and> psc_inv st' \<and>
            psc_values st' = take (nat i) (psc_values st) @ drop (nat (i + c)) (psc_values st) \<and>
            (b \<longleftrightarrow> c \<noteq> 0)"
    using removeValues_spec [OF inv i(1) c i'] i(2) by simp
  show "\<exists>b st'. PrefixSumComputer_setValue st i v = (b, st') \<and> psc_inv st' \<and>
            psc_values st' = (psc_values st)[nat i := word_of_int v] \<and>
            (b \<longleftrightarrow> psc_values st ! nat i \<noteq> word_of_int v)"
    using setValue_spec [OF inv i v] .
qed

theorem PrefixSumComputer_changes_correct_witness:
  "\<exists>b st'. PrefixSumComputer_removeValues (snd (PrefixSumComputer_getTotalSum (new_PrefixSumComputer [2, 3, 4]))) 1 1
     = Inr (b, st') \<and> psc_values st' = [2, 4] \<and> b"
proof -
  let ?st = "snd (PrefixSumComputer_getTotalSum (new_PrefixSumComputer [2, 3, 4]))"
  have "psc_inv (new_PrefixSumComputer [2, 3, 4])" by (simp add: psc_inv_def new_PrefixSumComputer_def)
  with getTotalSum_spec obtain a: "psc_inv ?st" and v: "psc_values ?st = [2, 3, 4]"
    by (fastforce simp: new_PrefixSumComputer_def)
  have b: "(0 :: int) \<le> 1" "1 < int (length (psc_values ?st))"
    "length (psc_values ?st) + length ([] :: 32 word list) < 2 ^ 31" "(1 :: int) < 2 ^ 31"
    by (simp_all add: v)
  from PrefixSumComputer_changes_correct [OF a b(1,2,3) b(1,4) b(1,4)] show ?thesis
    by (auto simp: v)
qed

section \<open>ConstantTimePrefixSumComputer\<close>

text \<open>What the two caches hold when they are valid.\<close>

definition csums :: "int list \<Rightarrow> int list" where
  "csums vals = map (\<lambda>k. sum_list (take (Suc k) vals)) [0..<length vals]"

definition index_by_sum :: "int list \<Rightarrow> int list" where
  "index_by_sum vals = concat (map (\<lambda>k. replicate (nat (vals ! k)) (int k)) [0..<length vals])"

definition ctp_inv :: "ConstantTimePrefixSumComputer \<Rightarrow> bool" where
  "ctp_inv st \<longleftrightarrow>
     (let vals = ctp_values st; v = ctp_validEndIndex st; pre = take (nat (v + 1)) vals
      in (\<forall>x \<in> set vals. 0 \<le> x) \<and> - 1 \<le> v \<and> v < int (length vals) \<and>
         take (length pre) (ctp_prefixSum st) = map Some (csums pre) \<and>
         take (nat (sum_list pre)) (ctp_indexBySum st) = map Some (index_by_sum pre) \<and>
         (ctp_isValid st \<longrightarrow> ctp_prefixSum st = map Some (csums vals) \<and>
            ctp_indexBySum st = map Some (index_by_sum vals)))"

lemma csums_snoc: "csums (pre @ [x]) = csums pre @ [sum_list pre + x]"
  by (simp add: csums_def)

lemma csums_length [simp]: "length (csums vals) = length vals"
  by (simp add: csums_def)

lemma index_by_sum_snoc: "index_by_sum (pre @ [x]) = index_by_sum pre @ replicate (nat x) (int (length pre))"
proof -
  have "map (\<lambda>k. replicate (nat ((pre @ [x]) ! k)) (int k)) [0..<length pre] =
    map (\<lambda>k. replicate (nat (pre ! k)) (int k)) [0..<length pre]"
    by (rule map_cong) (simp_all add: nth_append)
  then have "concat (map (\<lambda>k. replicate (nat ((pre @ [x]) ! k)) (int k)) [0..<length pre]) = index_by_sum pre"
    unfolding index_by_sum_def by (rule arg_cong)
  then show ?thesis unfolding index_by_sum_def length_append by simp
qed

lemma index_by_sum_length: "\<forall>x \<in> set vals. 0 \<le> x \<Longrightarrow> length (index_by_sum vals) = nat (sum_list vals)"
proof (induction vals rule: rev_induct)
  case (snoc x vals)
  then show ?case by (simp add: index_by_sum_snoc nat_add_distrib sum_list_nonneg)
qed (simp add: index_by_sum_def)

lemma js_store_take:
  assumes "take k xs = map Some ys" and "length ys = k"
  shows "take (Suc k) (js_store xs k v) = map Some (ys @ [v])"
proof -
  have "k \<le> length xs" using arg_cong [OF assms(1), of length] assms(2) by simp
  then have "take (Suc k) (js_store xs k v) = take k xs @ [Some v]"
    by (cases "k < length xs") (simp_all add: js_store_def take_Suc_conv_app_nth)
  then show ?thesis by (simp add: assms)
qed

lemma store_index_take:
  assumes "take (nat a) xs = map Some ys" and "length ys = nat a" and "0 \<le> a"
  shows "take (nat a + n) (store_index xs a (int n) i) = map Some (ys @ replicate n i)"
proof (induction n)
  case 0
  with assms show ?case by (simp add: store_index_def)
next
  case (Suc n)
  have "[0..int (Suc n) - 1] = [0..int n - 1] @ [int n]" using upto_rec2 [of 0 "int n"] by simp
  then have "store_index xs a (int (Suc n)) i = js_store (store_index xs a (int n) i) (nat (a + int n)) i"
    by (simp add: store_index_def)
  moreover have "nat (a + int n) = nat a + n" using assms(3) by simp
  ultimately show ?case
    using js_store_take [OF Suc] assms(2) by (simp flip: replicate_append_same)
qed

lemma js_read_last:
  assumes "take k xs = map Some ys" and "length ys = k" and "0 < k"
  shows "js_read xs (int k - 1) = Some (last ys)"
proof -
  have "k \<le> length xs" using arg_cong [OF assms(1), of length] assms(2) by simp
  moreover have "xs ! (k - 1) = map Some ys ! (k - 1)" using assms by (metis diff_less nth_take zero_less_one)
  moreover have "nat (int k - 1) = k - 1" using assms(3) by simp
  ultimately show ?thesis
    using assms(2,3) last_conv_nth [of ys] by (auto simp: js_read_def js_at_def)
qed

lemma csums_last: "vals \<noteq> [] \<Longrightarrow> last (csums vals) = sum_list vals"
  by (cases vals rule: rev_cases) (simp_all add: csums_snoc)

lemma ensureValid_loop_spec:
  assumes "\<forall>x \<in> set (pre @ vals). 0 \<le> x"
    and "take (length pre) sums = map Some (csums pre)"
    and "take (nat (sum_list pre)) ibs = map Some (index_by_sum pre)"
    and "ensureValid_loop vals (int (length pre)) sums ibs = (sums', ibs')"
  shows "take (length (pre @ vals)) sums' = map Some (csums (pre @ vals)) \<and>
    take (nat (sum_list (pre @ vals))) ibs' = map Some (index_by_sum (pre @ vals))"
  using assms
proof (induction vals arbitrary: pre sums ibs)
  case (Cons x vals)
  let ?a = "sum_list pre"
  have above: "(if int (length pre) > 0 then the (js_read sums (int (length pre) - 1)) else 0) = ?a"
    using js_read_last [OF Cons.prems(2)] csums_last [of pre] by auto
  have nn: "0 \<le> ?a" "0 \<le> x" using Cons.prems(1) by (auto intro: sum_list_nonneg)
  have "take (length (pre @ [x])) (js_store sums (length pre) (?a + x)) = map Some (csums (pre @ [x]))"
    using js_store_take [OF Cons.prems(2)] by (simp add: csums_snoc)
  moreover have "take (nat (sum_list (pre @ [x]))) (store_index ibs ?a x (int (length pre))) =
      map Some (index_by_sum (pre @ [x]))"
    using store_index_take [OF Cons.prems(3), of "nat x" "int (length pre)"] nn
      index_by_sum_length [of pre] Cons.prems(1)
    by (simp add: index_by_sum_snoc nat_add_distrib sum_list_nonneg)
  moreover have "ensureValid_loop vals (int (length (pre @ [x]))) (js_store sums (length pre) (?a + x))
      (store_index ibs ?a x (int (length pre))) = (sums', ibs')"
    using Cons.prems(4) unfolding ensureValid_loop.simps Let_def above by (simp add: ac_simps)
  ultimately show ?case using Cons.IH [of "pre @ [x]"] Cons.prems(1) by simp
qed simp

lemma js_set_length_take: "take n xs = ys \<Longrightarrow> length ys = n \<Longrightarrow> js_set_length xs n = ys"
  by (auto simp: js_set_length_def)

lemma ensureValid_spec:
  assumes inv: "ctp_inv st"
  defines "st' \<equiv> ConstantTimePrefixSumComputer_ensureValid st"
  shows "ctp_inv st' \<and> ctp_isValid st' \<and> ctp_values st' = ctp_values st"
proof (cases "ctp_isValid st")
  case True
  with inv show ?thesis by (simp add: st'_def ConstantTimePrefixSumComputer_ensureValid_def)
next
  case False
  let ?vals = "ctp_values st" and ?v = "ctp_validEndIndex st"
  let ?k = "nat (?v + 1)"
  let ?pre = "take ?k ?vals"
  have i: "\<forall>x \<in> set ?vals. 0 \<le> x" "- 1 \<le> ?v" "?v < int (length ?vals)"
    "take (length ?pre) (ctp_prefixSum st) = map Some (csums ?pre)"
    "take (nat (sum_list ?pre)) (ctp_indexBySum st) = map Some (index_by_sum ?pre)"
    using inv by (simp_all add: ctp_inv_def Let_def)
  have k: "int (length ?pre) = ?v + 1" "?pre @ drop ?k ?vals = ?vals" using i(2,3) by simp_all
  obtain sums ibs where l: "ensureValid_loop (drop ?k ?vals) (?v + 1) (ctp_prefixSum st) (ctp_indexBySum st) = (sums, ibs)"
    by fastforce
  have "\<forall>x \<in> set (?pre @ drop ?k ?vals). 0 \<le> x" using i(1) k(2) by simp
  from ensureValid_loop_spec [OF this i(4,5), unfolded k, OF l]
  have t: "take (length ?vals) sums = map Some (csums ?vals)"
    "take (nat (sum_list ?vals)) ibs = map Some (index_by_sum ?vals)" by simp_all
  have s: "js_set_length sums (length ?vals) = map Some (csums ?vals)"
    using js_set_length_take [OF t(1)] by simp
  have ne: "the (js_read (map Some (csums ?vals)) (int (length ?vals) - 1)) = sum_list ?vals" if "?vals \<noteq> []"
    using js_read_last [of "length ?vals" "map Some (csums ?vals)" "csums ?vals"] csums_last [OF that] that by simp
  have "js_set_length ibs (if length ?vals > 0
      then nat (the (js_read (map Some (csums ?vals)) (int (length ?vals) - 1))) else 0) =
      map Some (index_by_sum ?vals)"
    using js_set_length_take [OF t(2)] index_by_sum_length [OF i(1)] ne by auto
  then have "st' = st\<lparr>ctp_prefixSum := map Some (csums ?vals), ctp_indexBySum := map Some (index_by_sum ?vals),
      ctp_isValid := True, ctp_validEndIndex := int (length ?vals) - 1\<rparr>"
    unfolding st'_def ConstantTimePrefixSumComputer_ensureValid_def Let_def l prod.case s
    by (simp only: False if_False)
  then show ?thesis using i(1) index_by_sum_length [OF i(1)] by (simp add: ctp_inv_def)
qed

lemma index_by_sum_nth:
  assumes "\<forall>x \<in> set vals. 0 \<le> x" and "0 \<le> s" and "s < sum_list vals"
  shows "\<exists>m < length vals. index_by_sum vals ! nat s = int m \<and>
    sum_list (take m vals) \<le> s \<and> s < sum_list (take (Suc m) vals)"
  using assms
proof (induction vals rule: rev_induct)
  case (snoc x vals)
  have len: "length (index_by_sum vals) = nat (sum_list vals)" "0 \<le> sum_list vals"
    using index_by_sum_length [of vals] snoc.prems(1) by (auto intro: sum_list_nonneg)
  show ?case
  proof (cases "s < sum_list vals")
    case True
    with snoc obtain m where "m < length vals" "index_by_sum vals ! nat s = int m"
      "sum_list (take m vals) \<le> s" "s < sum_list (take (Suc m) vals)" by auto
    moreover have "index_by_sum (vals @ [x]) ! nat s = index_by_sum vals ! nat s"
      using True snoc.prems(2) len by (simp add: index_by_sum_snoc nth_append)
    ultimately show ?thesis by (intro exI [of _ m]) (simp add: not_less_eq_eq)
  next
    case False
    have "nat s - nat (sum_list vals) < nat x" using False snoc.prems len(2) by simp
    then have "index_by_sum (vals @ [x]) ! nat s = int (length vals)"
      using False len by (simp add: index_by_sum_snoc nth_append)
    with False snoc.prems(3) show ?thesis by (intro exI [of _ "length vals"]) simp
  qed
qed simp

lemma csums_read:
  assumes "0 < k" and "k \<le> length vals"
  shows "js_read (map Some (csums vals)) (int k - 1) = Some (sum_list (take k vals))"
proof -
  have "nat (int k - 1) = k - 1" "Suc (k - 1) = k" using assms(1) by simp_all
  then show ?thesis using assms by (simp add: js_read_def js_at_def csums_def)
qed

lemma ctp_getIndexOf_spec:
  assumes inv: "ctp_inv st" and s: "0 \<le> s" "s < sum_list (ctp_values st)"
  shows "\<exists>r st' m. ConstantTimePrefixSumComputer_getIndexOf st s = (r, st') \<and> ctp_inv st' \<and>
    ctp_values st' = ctp_values st \<and> index r = int m \<and> m < length (ctp_values st) \<and>
    sum_list (take m (ctp_values st)) \<le> s \<and> s < sum_list (take (Suc m) (ctp_values st)) \<and>
    remainder r = s - sum_list (take m (ctp_values st))"
proof -
  let ?st = "ConstantTimePrefixSumComputer_ensureValid st" and ?vals = "ctp_values st"
  note e = ensureValid_spec [OF inv]
  then have nn: "\<forall>x \<in> set ?vals. 0 \<le> x" and c: "ctp_prefixSum ?st = map Some (csums ?vals)"
    "ctp_indexBySum ?st = map Some (index_by_sum ?vals)" by (auto simp: ctp_inv_def Let_def)
  obtain m where m: "m < length ?vals" "index_by_sum ?vals ! nat s = int m"
    "sum_list (take m ?vals) \<le> s" "s < sum_list (take (Suc m) ?vals)"
    using index_by_sum_nth [OF nn s] by auto
  have "js_read (ctp_indexBySum ?st) s = Some (int m)"
    using s m(2) c(2) index_by_sum_length [OF nn] by (simp add: js_read_def js_at_def)
  moreover have "(if int m > 0 then the (js_read (ctp_prefixSum ?st) (int m - 1)) else 0) = sum_list (take m ?vals)"
    using csums_read [of m ?vals] m(1) c(1) by simp
  ultimately have "ConstantTimePrefixSumComputer_getIndexOf st s =
      (\<lparr>index = int m, remainder = s - sum_list (take m ?vals)\<rparr>, ?st)"
    by (simp add: ConstantTimePrefixSumComputer_getIndexOf_def Let_def)
  with m e show ?thesis by (intro exI [of _ "\<lparr>index = int m, remainder = s - sum_list (take m ?vals)\<rparr>"] exI [of _ ?st] exI [of _ m]) simp
qed

text \<open>The changing operations invalidate the caches from the changed index on.\<close>

lemma csums_take: "csums (take k vals) = take k (csums vals)"
  by (simp add: csums_def take_map min_def)

lemma index_by_sum_append: "\<exists>zs. index_by_sum (xs @ ys) = index_by_sum xs @ zs"
proof (induction ys rule: rev_induct)
  case (snoc y ys)
  then show ?case using index_by_sum_snoc [of "xs @ ys" y] by auto
qed simp

lemma index_by_sum_take:
  assumes "\<forall>x \<in> set vals. 0 \<le> x"
  shows "take (nat (sum_list (take k vals))) (index_by_sum vals) = index_by_sum (take k vals)"
proof -
  obtain zs where "index_by_sum (take k vals @ drop k vals) = index_by_sum (take k vals) @ zs"
    using index_by_sum_append by blast
  moreover have "\<forall>x \<in> set (take k vals). 0 \<le> x" using assms by (auto dest: in_set_takeD)
  ultimately show ?thesis using index_by_sum_length [of "take k vals"] by simp
qed

lemma take_prefix: "take a xs = take a zs \<Longrightarrow> b \<le> a \<Longrightarrow> take b xs = take b zs"
  by (metis min.absorb1 take_take)

lemma take_of: "take m xs = ys \<Longrightarrow> k \<le> m \<Longrightarrow> take k xs = take k ys"
  by (auto simp: min_absorb1)

lemma ctp_invalidate_inv:
  assumes inv: "ctp_inv st" and nn: "\<forall>x \<in> set vals. 0 \<le> x" and i: "0 \<le> i" "i \<le> int (length vals)"
    and same: "take (nat i) vals = take (nat i) (ctp_values st)"
  shows "ctp_inv (ctp_invalidate (st\<lparr>ctp_values := vals\<rparr>) i)"
proof -
  let ?old = "ctp_values st" and ?v = "ctp_validEndIndex st"
  let ?v' = "min ?v (i - 1)"
  let ?k = "nat (?v + 1)" and ?k' = "nat (?v' + 1)"
  have o: "\<forall>x \<in> set ?old. 0 \<le> x" "- 1 \<le> ?v" "?v < int (length ?old)"
    "take (length (take ?k ?old)) (ctp_prefixSum st) = map Some (csums (take ?k ?old))"
    "take (nat (sum_list (take ?k ?old))) (ctp_indexBySum st) = map Some (index_by_sum (take ?k ?old))"
    using inv by (simp_all add: ctp_inv_def Let_def)
  have v': "- 1 \<le> ?v'" "?v' < int (length vals)" "?k' \<le> ?k" "?k' \<le> nat i" using o i by auto
  have k: "?k \<le> length ?old" using o(2,3) by simp
  have pre: "take ?k' vals = take ?k' ?old" by (rule take_prefix [OF same v'(4)])
  have pre2: "take ?k' ?old = take ?k' (take ?k ?old)" using v'(3) by (simp add: min_absorb1)
  have len: "length (take ?k' ?old) = ?k'" "length (take ?k ?old) = ?k" using k v'(3) by simp_all
  have nn': "\<forall>x \<in> set (take ?k ?old). 0 \<le> x" using o(1) by (auto dest: in_set_takeD)
  have c1: "take ?k' (ctp_prefixSum st) = map Some (csums (take ?k' ?old))"
    using arg_cong [OF o(4), of "take ?k'"] v'(3) k unfolding pre2 csums_take [of ?k' "take ?k ?old"] len
    by (simp add: take_map min_absorb1)
  obtain zs where zs: "take ?k ?old = take ?k' ?old @ zs" "\<forall>x \<in> set zs. 0 \<le> x"
    using pre2 nn' by (metis append_take_drop_id in_set_dropD)
  then have le: "nat (sum_list (take ?k' ?old)) \<le> nat (sum_list (take ?k ?old))"
    by (simp add: nat_mono sum_list_nonneg)
  have "take (nat (sum_list (take ?k' ?old))) (ctp_indexBySum st) =
      take (nat (sum_list (take ?k' ?old))) (map Some (index_by_sum (take ?k ?old)))"
    by (rule take_of [OF o(5) le])
  also have "\<dots> = map Some (index_by_sum (take ?k' ?old))"
    using index_by_sum_take [OF nn', of ?k'] unfolding take_map pre2 [symmetric] by (rule arg_cong)
  finally have c2: "take (nat (sum_list (take ?k' ?old))) (ctp_indexBySum st) = map Some (index_by_sum (take ?k' ?old))" .
  define st' where "st' = ctp_invalidate (st\<lparr>ctp_values := vals\<rparr>) i"
  have f: "ctp_values st' = vals" "ctp_validEndIndex st' = ?v'" "ctp_prefixSum st' = ctp_prefixSum st"
    "ctp_indexBySum st' = ctp_indexBySum st" "ctp_isValid st' = False"
    by (simp_all add: st'_def ctp_invalidate_def)
  have "ctp_inv st'"
    unfolding ctp_inv_def Let_def f pre len(1) using nn v'(1,2) c1 c2 by blast
  then show ?thesis by (simp add: st'_def)
qed

text \<open>Past the end the index of an invalidation does not matter.\<close>

lemma ctp_invalidate_end:
  assumes "ctp_inv st" and "int (length (ctp_values st)) \<le> i"
  shows "ctp_invalidate (st\<lparr>ctp_values := vals\<rparr>) i = ctp_invalidate (st\<lparr>ctp_values := vals\<rparr>) (int (length (ctp_values st)))"
  using assms by (simp add: ctp_invalidate_def ctp_inv_def Let_def)

lemma ctp_change_inv:
  assumes inv: "ctp_inv st" and nn: "\<forall>x \<in> set vals. 0 \<le> x" and long: "min i (length (ctp_values st)) \<le> length vals"
    and same: "take (min i (length (ctp_values st))) vals = take (min i (length (ctp_values st))) (ctp_values st)"
  shows "ctp_inv (ctp_invalidate (st\<lparr>ctp_values := vals\<rparr>) (int i))"
proof -
  let ?i = "min i (length (ctp_values st))"
  have "ctp_inv (ctp_invalidate (st\<lparr>ctp_values := vals\<rparr>) (int ?i))"
    using ctp_invalidate_inv [OF inv nn, of "int ?i"] long same by simp
  then show ?thesis using ctp_invalidate_end [OF inv, of "int i" vals] by (cases "i \<le> length (ctp_values st)") (simp_all add: min_def)
qed

lemma ctp_setValue_spec:
  assumes inv: "ctp_inv st" and i: "i \<le> length (ctp_values st)" and x: "0 \<le> x"
  shows "\<exists>st'. ConstantTimePrefixSumComputer_setValue st (int i) x = Some st' \<and> ctp_inv st' \<and>
    ctp_values st' = take i (ctp_values st) @ [x] @ drop (Suc i) (ctp_values st)"
proof (cases "i < length (ctp_values st) \<and> ctp_values st ! i = x")
  case True
  then have "take i (ctp_values st) @ [x] @ drop (Suc i) (ctp_values st) = ctp_values st"
    using id_take_nth_drop [of i "ctp_values st"] by simp
  with True inv show ?thesis by (simp add: ConstantTimePrefixSumComputer_setValue_def js_at_def)
next
  case False
  let ?vals = "take i (ctp_values st) @ [x] @ drop (Suc i) (ctp_values st)"
  have "\<forall>y \<in> set ?vals. 0 \<le> y" using inv x by (auto simp: ctp_inv_def Let_def dest: in_set_takeD in_set_dropD)
  then have "ctp_inv (ctp_invalidate (st\<lparr>ctp_values := ?vals\<rparr>) (int i))" using i by (intro ctp_change_inv [OF inv]) simp_all
  with False i show ?thesis
    by (auto simp: ConstantTimePrefixSumComputer_setValue_def js_at_def ctp_invalidate_def)
qed

lemma ctp_insertValues_spec:
  assumes inv: "ctp_inv st" and ins: "\<forall>y \<in> set ins. 0 \<le> y"
  shows "ctp_inv (ConstantTimePrefixSumComputer_insertValues st (int i) ins) \<and>
    ctp_values (ConstantTimePrefixSumComputer_insertValues st (int i) ins) = take i (ctp_values st) @ ins @ drop i (ctp_values st)"
proof -
  let ?vals = "take i (ctp_values st) @ ins @ drop i (ctp_values st)"
  have a: "arrayInsert (ctp_values st) (int i) ins = ?vals"
    by (cases "i \<le> length (ctp_values st)")
      (simp_all add: arrayInsert_def js_slice_def js_slice_from_def js_rel_def Let_def min_def)
  have "\<forall>y \<in> set ?vals. 0 \<le> y" using inv ins by (auto simp: ctp_inv_def Let_def dest: in_set_takeD in_set_dropD)
  then have "ctp_inv (ctp_invalidate (st\<lparr>ctp_values := ?vals\<rparr>) (int i))"
    by (intro ctp_change_inv [OF inv]) auto
  then show ?thesis by (simp add: ConstantTimePrefixSumComputer_insertValues_def a ctp_invalidate_def)
qed

lemma ctp_removeValues_spec:
  assumes inv: "ctp_inv st"
  shows "ctp_inv (ConstantTimePrefixSumComputer_removeValues st (int i) (int c)) \<and>
    ctp_values (ConstantTimePrefixSumComputer_removeValues st (int i) (int c)) = take i (ctp_values st) @ drop (i + c) (ctp_values st)"
proof -
  let ?vals = "take i (ctp_values st) @ drop (i + c) (ctp_values st)"
  have a: "js_splice (ctp_values st) (int i) (int c) [] = ?vals"
    by (auto simp: js_splice_def js_rel_def Let_def min_def max_def nat_add_distrib)
  have "\<forall>y \<in> set ?vals. 0 \<le> y" using inv by (auto simp: ctp_inv_def Let_def dest: in_set_takeD in_set_dropD)
  then have "ctp_inv (ctp_invalidate (st\<lparr>ctp_values := ?vals\<rparr>) (int i))"
    by (intro ctp_change_inv [OF inv]) auto
  then show ?thesis by (simp add: ConstantTimePrefixSumComputer_removeValues_def a ctp_invalidate_def)
qed

section \<open>The constant-time computer as a list of values\<close>

datatype ctp_call =
    CtpSetValue nat int
  | CtpInsertValues nat "int list"
  | CtpRemoveValues nat nat
  | CtpGetTotalSum
  | CtpGetPrefixSum nat
  | CtpGetIndexOf int

datatype ctp_answer = CtpDone | CtpSum "int option" | CtpIndexOf int int

fun ctp_apply :: "ctp_call \<Rightarrow> ConstantTimePrefixSumComputer \<Rightarrow>
    (ctp_answer \<times> ConstantTimePrefixSumComputer) result option" where
  "ctp_apply (CtpSetValue i x) st =
     map_option (\<lambda>st. Inr (CtpDone, st)) (ConstantTimePrefixSumComputer_setValue st (int i) x)"
| "ctp_apply (CtpInsertValues i xs) st = Some (Inr (CtpDone, ConstantTimePrefixSumComputer_insertValues st (int i) xs))"
| "ctp_apply (CtpRemoveValues i c) st = Some (Inr (CtpDone, ConstantTimePrefixSumComputer_removeValues st (int i) (int c)))"
| "ctp_apply CtpGetTotalSum st =
     (let (n, st) = ConstantTimePrefixSumComputer_getTotalSum st in Some (Inr (CtpSum (Some n), st)))"
| "ctp_apply (CtpGetPrefixSum c) st =
     (let (n, st) = ConstantTimePrefixSumComputer_getPrefixSum st (int c) in Some (Inr (CtpSum n, st)))"
| "ctp_apply (CtpGetIndexOf s) st =
     (let (r, st) = ConstantTimePrefixSumComputer_getIndexOf st s in Some (Inr (CtpIndexOf (index r) (remainder r), st)))"

text \<open>
  The same calls on the list of values alone.  An index below the total sum is that of the first
  value with which the sum of the values so far exceeds it; any other goes to the last value.
\<close>

definition index_of :: "int list \<Rightarrow> int \<Rightarrow> nat" where
  "index_of vals s =
     (if 0 \<le> s \<and> s < sum_list vals
      then length (takeWhile (\<lambda>k. sum_list (take (Suc k) vals) \<le> s) [0..<length vals])
      else length vals - 1)"

fun ctp_spec :: "ctp_call \<Rightarrow> int list \<Rightarrow> ctp_answer \<times> int list" where
  "ctp_spec (CtpSetValue i x) vals = (CtpDone, take i vals @ [x] @ drop (Suc i) vals)"
| "ctp_spec (CtpInsertValues i xs) vals = (CtpDone, take i vals @ xs @ drop i vals)"
| "ctp_spec (CtpRemoveValues i c) vals = (CtpDone, take i vals @ drop (i + c) vals)"
| "ctp_spec CtpGetTotalSum vals = (CtpSum (Some (sum_list vals)), vals)"
| "ctp_spec (CtpGetPrefixSum c) vals = (CtpSum (if c \<le> length vals then Some (sum_list (take c vals)) else None), vals)"
| "ctp_spec (CtpGetIndexOf s) vals =
     (let m = index_of vals s in (CtpIndexOf (int m) (s - sum_list (take m vals)), vals))"

fun ctp_legal :: "ctp_call \<Rightarrow> int list \<Rightarrow> bool" where
  "ctp_legal (CtpSetValue i x) vals = (i \<le> length vals \<and> 0 \<le> x)"
| "ctp_legal (CtpInsertValues i xs) vals = list_all (\<lambda>x. 0 \<le> x) xs"
| "ctp_legal _ vals = True"

definition ctp_rel :: "ConstantTimePrefixSumComputer \<Rightarrow> int list \<Rightarrow> bool" where
  "ctp_rel st vals \<longleftrightarrow> ctp_inv st \<and> ctp_values st = vals"

lemma sum_take_mono:
  assumes "\<forall>x \<in> set vals. (0 :: int) \<le> x" and "j \<le> k"
  shows "sum_list (take j vals) \<le> sum_list (take k vals)"
proof -
  have "take k vals = take j vals @ take (k - j) (drop j vals)" using take_add [of j "k - j" vals] assms(2) by simp
  moreover have "0 \<le> sum_list (take (k - j) (drop j vals))"
    using assms(1) by (intro sum_list_nonneg) (auto dest: in_set_takeD in_set_dropD)
  ultimately show ?thesis by simp
qed

lemma index_of_eq:
  assumes nn: "\<forall>x \<in> set vals. 0 \<le> x" and m: "m < length vals" "sum_list (take m vals) \<le> s" "s < sum_list (take (Suc m) vals)"
  shows "index_of vals s = m"
proof -
  have "0 \<le> s" using sum_take_mono [OF nn, of 0 m] m(2) by simp
  moreover have "s < sum_list vals" using sum_take_mono [OF nn, of "Suc m" "length vals"] m(1,3) by simp
  moreover have "takeWhile (\<lambda>k. sum_list (take (Suc k) vals) \<le> s) [0..<length vals] = [0..<m]"
  proof -
    have "[0..<length vals] = [0..<m] @ m # [Suc m..<length vals]"
      using m(1) by (metis append_Cons append_Nil less_imp_le upt_add_eq_append upt_conv_Cons le_add_diff_inverse zero_le)
    moreover have "\<forall>k \<in> set [0..<m]. sum_list (take (Suc k) vals) \<le> s"
      using sum_take_mono [OF nn, of "Suc _" m] m(2) by (metis Suc_leI atLeastLessThan_iff order_trans set_upt)
    ultimately show ?thesis
      using m(3) takeWhile_append2 [of "[0..<m]" "\<lambda>k. sum_list (take (Suc k) vals) \<le> s" "m # [Suc m..<length vals]"] by simp
  qed
  ultimately show ?thesis by (simp add: index_of_def)
qed

lemma ensured:
  assumes "ctp_rel st vals"
  defines "st' \<equiv> ConstantTimePrefixSumComputer_ensureValid st"
  shows "ctp_rel st' vals" "ctp_prefixSum st' = map Some (csums vals)" "ctp_indexBySum st' = map Some (index_by_sum vals)"
    "\<forall>x \<in> set vals. 0 \<le> x" "ctp_values st' = vals"
  using assms ensureValid_spec [of st] by (auto simp: ctp_rel_def ctp_inv_def Let_def)

lemma csums_read_nat:
  "0 < c \<Longrightarrow> js_read (map Some (csums vals)) (int c - 1) = (if c \<le> length vals then Some (sum_list (take c vals)) else None)"
  using csums_read [of c vals] by (auto simp: js_read_def js_at_def)

lemma ctp_getIndexOf_rel:
  fixes s :: int
  assumes "ctp_rel st vals"
  defines "st' \<equiv> ConstantTimePrefixSumComputer_ensureValid st" and "m \<equiv> index_of vals s"
  shows "ConstantTimePrefixSumComputer_getIndexOf st s = (\<lparr>index = int m, remainder = s - sum_list (take m vals)\<rparr>, st')"
proof (cases "0 \<le> s \<and> s < sum_list vals")
  case True
  note e = ensured [OF assms(1), folded st'_def]
  obtain k where k: "k < length vals" "index_by_sum vals ! nat s = int k"
    "sum_list (take k vals) \<le> s" "s < sum_list (take (Suc k) vals)"
    using index_by_sum_nth [OF e(4)] True by auto
  have "m = k" using index_of_eq [OF e(4) k(1,3,4)] by (simp add: m_def)
  moreover have "js_read (ctp_indexBySum st') s = Some (int k)"
    using True k(2) e(3) index_by_sum_length [OF e(4)] by (simp add: js_read_def js_at_def)
  moreover have "(if int k > 0 then the (js_read (ctp_prefixSum st') (int k - 1)) else 0) = sum_list (take k vals)"
    using csums_read_nat [of k vals] k(1) e(2) by simp
  ultimately show ?thesis by (simp add: ConstantTimePrefixSumComputer_getIndexOf_def Let_def st'_def [symmetric])
next
  case False
  note e = ensured [OF assms(1), folded st'_def]
  have m: "m = length vals - 1" using False unfolding m_def index_of_def by (simp only: if_False)
  have "js_read (ctp_indexBySum st') s = None"
    using False e(3) index_by_sum_length [OF e(4)] by (auto simp: js_read_def js_at_def)
  moreover have "max 0 (int (length vals) - 1) = int m" using m by (cases vals) simp_all
  moreover have "(if int m > 0 then the (js_read (ctp_prefixSum st') (int m - 1)) else 0) = sum_list (take m vals)"
    using csums_read_nat [of m vals] m e(2) by simp
  ultimately show ?thesis
    by (simp add: ConstantTimePrefixSumComputer_getIndexOf_def Let_def st'_def [symmetric] e(5))
qed

lemma ctp_apply_rel:
  assumes r: "ctp_rel st vals" and l: "ctp_legal c vals"
  shows "answers (ctp_apply c st) (fst (ctp_spec c vals)) (\<lambda>st'. ctp_rel st' (snd (ctp_spec c vals)))"
proof (cases c)
  case (CtpSetValue i x)
  then show ?thesis using ctp_setValue_spec [of st i x] r l by (auto simp: ctp_rel_def answers_def)
next
  case (CtpInsertValues i xs)
  then show ?thesis using ctp_insertValues_spec [of st xs i] r l by (auto simp: ctp_rel_def answers_def list_all_iff)
next
  case (CtpRemoveValues i n)
  then show ?thesis using ctp_removeValues_spec [of st i n] r by (auto simp: ctp_rel_def answers_def)
next
  case CtpGetTotalSum
  have "int (nat (sum_list vals)) = sum_list vals" using ensured(4) [OF r] by (simp add: sum_list_nonneg)
  then show ?thesis
    using CtpGetTotalSum ensured [OF r] index_by_sum_length [OF ensured(4) [OF r]]
    by (simp add: answers_def ConstantTimePrefixSumComputer_getTotalSum_def Let_def)
next
  case (CtpGetPrefixSum n)
  then show ?thesis
    using ensured [OF r] csums_read_nat [of n vals]
    by (cases "n = 0") (auto simp: answers_def ConstantTimePrefixSumComputer_getPrefixSum_def Let_def)
next
  case (CtpGetIndexOf s)
  then show ?thesis using ctp_getIndexOf_rel [OF r, of s] ensured(1) [OF r] by (simp add: answers_def Let_def)
qed

interpretation ctp: guarded_simulation ctp_apply ctp_spec ctp_rel ctp_legal
  by unfold_locales (rule ctp_apply_rel)

lemma new_ctp_rel: "\<forall>x \<in> set vals. 0 \<le> x \<Longrightarrow> ctp_rel (new_ConstantTimePrefixSumComputer vals) vals"
  by (simp add: ctp_rel_def ctp_inv_def new_ConstantTimePrefixSumComputer_def csums_def index_by_sum_def)

text \<open>
  \<^bold>\<open>C39.\<close> The constant-time computer refines the list of its values: any calls on a new computer,
  of \<open>setValue\<close> at an index of the list or just past it, \<open>insertValues\<close>, \<open>removeValues\<close> and the
  getters, with values that are not negative, answer as the list does and leave the computer with
  the values of the list and valid caches up to its valid index.  The list may be empty or all
  zero; a prefix sum past its end is \<open>undefined\<close>, and an index at or above the total sum, or below
  zero, goes to the last value.
\<close>

theorem ConstantTimePrefixSumComputer_refines:
  assumes "\<forall>x \<in> set vals. 0 \<le> x" and "legal_calls ctp_legal ctp_spec cs vals"
  shows "answers (run_calls ctp_apply cs (new_ConstantTimePrefixSumComputer vals)) (fst (spec_calls ctp_spec cs vals))
    (\<lambda>st. ctp_inv st \<and> ctp_values st = snd (spec_calls ctp_spec cs vals))"
  using ctp.runs_simulate [OF new_ctp_rel [OF assms(1)] assms(2)] by (simp add: ctp_rel_def)

theorem ConstantTimePrefixSumComputer_refines_witness:
  "\<exists>st. run_calls ctp_apply [CtpGetTotalSum, CtpGetIndexOf 3, CtpInsertValues 0 [2, 0, 4], CtpGetPrefixSum 3, CtpGetIndexOf 2, CtpSetValue 3 1,
      CtpGetTotalSum] (new_ConstantTimePrefixSumComputer []) =
    Some (Inr ([CtpSum (Some 0), CtpIndexOf 0 3, CtpDone, CtpSum (Some 6), CtpIndexOf 2 0, CtpDone, CtpSum (Some 7)], st))"
proof -
  let ?cs = "[CtpGetTotalSum, CtpGetIndexOf 3, CtpInsertValues 0 [2, 0, 4], CtpGetPrefixSum 3, CtpGetIndexOf 2, CtpSetValue 3 1, CtpGetTotalSum]"
  have l: "legal_calls ctp_legal ctp_spec ?cs []" by code_simp
  have s: "fst (spec_calls ctp_spec ?cs []) =
      [CtpSum (Some 0), CtpIndexOf 0 3, CtpDone, CtpSum (Some 6), CtpIndexOf 2 0, CtpDone, CtpSum (Some 7)]" by code_simp
  from ConstantTimePrefixSumComputer_refines [OF _ l] show ?thesis unfolding s answers_def by auto
qed

end
