(* ===== verification/JsValues.thy ===== *)
theory JsValues
  imports Prelude Complex_Main "HOL-Library.List_Lexorder" "HOL-Library.Log_Nat"
begin

text \<open>
  The JavaScript values that context keys hold (the union type \<open>ContextKeyValue\<close> of
  \<open>platform/contextkey/common/contextkey.ts\<close>) and the operators of the language its
  expressions use on them: truthiness, \<open>==\<close>, \<open>===\<close>, \<open><\<close>, \<open>parseFloat\<close>, \<open>includes\<close>.

  A number is a rational, an infinity or not-a-number; \<open>- 0\<close> is not told apart from \<open>0\<close>, which
  none of these operators does.  Literals are rounded to the nearest double (53 bits, ties to
  even) the way the number parsers of the language do.  What the engine supplies beyond that
  (printing numbers, running regular expressions, the Unicode case tables) and the platform
  flag are the fields of \<open>js_host\<close>.
\<close>

section \<open>Values\<close>

datatype js_number = NaN | NegInf | PosInf | Fin rat

datatype js_prim = JUndefined | JNull | JBool bool | JNum js_number | JStr js_string

datatype js_value = Prim js_prim | JArray "js_prim list" | JObject "(js_string \<times> js_prim) list"

record regexp =
  re_source :: js_string
  re_flags :: js_string

record js_host =
  numberToString :: "js_number \<Rightarrow> js_string"
  regexTest :: "regexp \<Rightarrow> js_string \<Rightarrow> bool"
  toLowerCase :: "js_string \<Rightarrow> js_string"
  isWindows :: bool

text \<open>String literals of the sources.\<close>

definition js :: "string \<Rightarrow> js_string" where
  "js cs = map of_char cs"

section \<open>Numbers\<close>

fun num_less :: "js_number \<Rightarrow> js_number \<Rightarrow> bool" where
  "num_less NaN _ = False"
| "num_less _ NaN = False"
| "num_less NegInf y = (y \<noteq> NegInf)"
| "num_less PosInf _ = False"
| "num_less (Fin _) NegInf = False"
| "num_less (Fin _) PosInf = True"
| "num_less (Fin a) (Fin b) = (a < b)"

definition num_eq :: "js_number \<Rightarrow> js_number \<Rightarrow> bool" where
  "num_eq x y = (x = y \<and> x \<noteq> NaN)"

definition num_le :: "js_number \<Rightarrow> js_number \<Rightarrow> bool" where
  "num_le x y = (num_less x y \<or> num_eq x y)"

lemma num_le_iff_not_less: "x \<noteq> NaN \<Longrightarrow> y \<noteq> NaN \<Longrightarrow> num_le x y \<longleftrightarrow> \<not> num_less y x"
  by (cases x; cases y) (auto simp: num_le_def num_eq_def)

text \<open>Rounding a positive rational to a double.\<close>

definition floor_log2 :: "rat \<Rightarrow> int" where
  "floor_log2 a =
     (let (n, d) = quotient_of a; k = int (floorlog 2 (nat n)) - int (floorlog 2 (nat d))
      in if 2 powi k \<le> a then k else k - 1)"

definition round_half_even :: "rat \<Rightarrow> int" where
  "round_half_even a =
     (let f = \<lfloor>a\<rfloor>; r = a - of_int f
      in if r < 1 / 2 then f else if r > 1 / 2 then f + 1 else if even f then f else f + 1)"

definition round_double :: "rat \<Rightarrow> js_number" where
  "round_double a =
     (if a = 0 then Fin 0
      else let e = max (floor_log2 a - 52) (- 1074);
               r = of_int (round_half_even (a / 2 powi e)) * 2 powi e
           in if r \<ge> 2 ^ 1024 then PosInf else Fin r)"

definition num_neg :: "js_number \<Rightarrow> js_number" where
  "num_neg x = (case x of NaN \<Rightarrow> NaN | NegInf \<Rightarrow> PosInf | PosInf \<Rightarrow> NegInf | Fin a \<Rightarrow> Fin (- a))"

section \<open>Reading numbers\<close>

definition is_digit :: "16 word \<Rightarrow> bool" where
  "is_digit c = (48 \<le> c \<and> c \<le> 57)"

definition is_white :: "16 word \<Rightarrow> bool" where
  "is_white c = (c \<in> set [9, 10, 11, 12, 13, 32, 160, 0x1680, 0x2028, 0x2029, 0x202F, 0x205F, 0x3000, 0xFEFF] \<or>
                 (0x2000 \<le> c \<and> c \<le> 0x200A))"

definition digits_value :: "nat \<Rightarrow> nat list \<Rightarrow> nat" where
  "digits_value b ds = fold (\<lambda>d acc. acc * b + d) ds 0"

definition digit_value :: "16 word \<Rightarrow> nat" where
  "digit_value c = unat c - 48"

definition take_sign :: "js_string \<Rightarrow> bool \<times> js_string" where
  "take_sign s = (case s of c # r \<Rightarrow> if c = 45 then (True, r) else if c = 43 then (False, r) else (False, s)
                  | [] \<Rightarrow> (False, []))"

text \<open>The exponent part, when it is one; otherwise nothing is consumed.\<close>

definition take_exponent :: "js_string \<Rightarrow> int \<times> js_string" where
  "take_exponent s =
     (case s of
        [] \<Rightarrow> (0, s)
      | c # r \<Rightarrow>
          if c = 101 \<or> c = 69 then
            let (neg, r) = take_sign r; ds = takeWhile is_digit r; v = int (digits_value 10 (map digit_value ds))
            in if ds = [] then (0, s) else (if neg then - v else v, dropWhile is_digit r)
          else (0, s))"

text \<open>The longest prefix that is a decimal literal (\<open>StrDecimalLiteral\<close> of the standard).\<close>

definition take_decimal :: "js_string \<Rightarrow> (js_number \<times> js_string) option" where
  "take_decimal s =
     (let (neg, u) = take_sign s; sgn = (if neg then num_neg else id)
      in if take 8 u = js ''Infinity'' then Some (sgn PosInf, drop 8 u)
         else
           let ip = takeWhile is_digit u; r = dropWhile is_digit u;
               (fp, r) = (case r of
                   c # r' \<Rightarrow> if c = 46 \<and> (ip \<noteq> [] \<or> takeWhile is_digit r' \<noteq> [])
                             then (takeWhile is_digit r', dropWhile is_digit r') else ([], r)
                 | [] \<Rightarrow> ([], r))
           in if ip = [] \<and> fp = [] then None
              else let (ex, r) = take_exponent r
                   in Some (sgn (round_double (of_nat (digits_value 10 (map digit_value (ip @ fp)))
                                               * 10 powi (ex - int (length fp)))), r))"

definition parseFloat :: "js_string \<Rightarrow> js_number" where
  "parseFloat s = (case take_decimal (dropWhile is_white s) of None \<Rightarrow> NaN | Some (x, _) \<Rightarrow> x)"

text \<open>\<open>0x\<close>, \<open>0o\<close> and \<open>0b\<close> literals.\<close>

definition radix_digit :: "16 word \<Rightarrow> nat" where
  "radix_digit c = (if is_digit c then unat c - 48 else if 65 \<le> c \<and> c \<le> 70 then unat c - 55
                    else if 97 \<le> c \<and> c \<le> 102 then unat c - 87 else 16)"

definition radix_of :: "js_string \<Rightarrow> nat option" where
  "radix_of s = (if length s < 2 \<or> s ! 0 \<noteq> 48 then None
                 else if s ! 1 = 120 \<or> s ! 1 = 88 then Some 16
                 else if s ! 1 = 111 \<or> s ! 1 = 79 then Some 8
                 else if s ! 1 = 98 \<or> s ! 1 = 66 then Some 2 else None)"

definition string_to_number :: "js_string \<Rightarrow> js_number" where
  "string_to_number s =
     (let t = rev (dropWhile is_white (rev (dropWhile is_white s)))
      in if t = [] then Fin 0
         else case radix_of t of
                Some b \<Rightarrow> (let ds = map radix_digit (drop 2 t)
                           in if ds = [] \<or> \<not> list_all (\<lambda>d. d < b) ds then NaN
                              else round_double (of_nat (digits_value b ds)))
              | None \<Rightarrow> (case take_decimal t of Some (x, []) \<Rightarrow> x | _ \<Rightarrow> NaN))"

section \<open>Coercions and comparisons\<close>

fun to_number :: "js_prim \<Rightarrow> js_number" where
  "to_number JUndefined = NaN"
| "to_number JNull = Fin 0"
| "to_number (JBool b) = Fin (if b then 1 else 0)"
| "to_number (JNum x) = x"
| "to_number (JStr s) = string_to_number s"

fun prim_to_string :: "js_host \<Rightarrow> js_prim \<Rightarrow> js_string" where
  "prim_to_string H JUndefined = js ''undefined''"
| "prim_to_string H JNull = js ''null''"
| "prim_to_string H (JBool b) = js (if b then ''true'' else ''false'')"
| "prim_to_string H (JNum x) = numberToString H x"
| "prim_to_string H (JStr s) = s"

fun js_join :: "js_string \<Rightarrow> js_string list \<Rightarrow> js_string" where
  "js_join sep [] = []"
| "js_join sep [x] = x"
| "js_join sep (x # xs) = x @ sep @ js_join sep xs"

text \<open>An array prints its elements with commas between, \<open>null\<close> and \<open>undefined\<close> as nothing.\<close>

fun to_string :: "js_host \<Rightarrow> js_value \<Rightarrow> js_string" where
  "to_string H (Prim p) = prim_to_string H p"
| "to_string H (JArray ps) =
     js_join (js '','') (map (\<lambda>p. if p = JUndefined \<or> p = JNull then [] else prim_to_string H p) ps)"
| "to_string H (JObject _) = js ''[object Object]''"

definition to_primitive :: "js_host \<Rightarrow> js_value \<Rightarrow> js_prim" where
  "to_primitive H v = (case v of Prim p \<Rightarrow> p | _ \<Rightarrow> JStr (to_string H v))"

definition truthy :: "js_value \<Rightarrow> bool" where
  "truthy v = (case v of
      Prim JUndefined \<Rightarrow> False | Prim JNull \<Rightarrow> False | Prim (JBool b) \<Rightarrow> b
    | Prim (JNum x) \<Rightarrow> x \<noteq> NaN \<and> x \<noteq> Fin 0 | Prim (JStr s) \<Rightarrow> s \<noteq> [] | _ \<Rightarrow> True)"

text \<open>\<open>===\<close> on primitive values.\<close>

definition strict_eq :: "js_prim \<Rightarrow> js_prim \<Rightarrow> bool" where
  "strict_eq p q = (p = q \<and> p \<noteq> JNum NaN)"

text \<open>\<open>==\<close> on primitive values: \<open>null\<close> and \<open>undefined\<close> are equal, mixed types compare as numbers.\<close>

definition loose_eq_prim :: "js_prim \<Rightarrow> js_prim \<Rightarrow> bool" where
  "loose_eq_prim p q =
     (let nullish = (\<lambda>x. x = JUndefined \<or> x = JNull)
      in if nullish p \<or> nullish q then nullish p \<and> nullish q
         else case (p, q) of
                (JStr s, JStr t) \<Rightarrow> s = t
              | _ \<Rightarrow> num_eq (to_number p) (to_number q))"

definition loose_eq :: "js_host \<Rightarrow> js_value \<Rightarrow> js_prim \<Rightarrow> bool" where
  "loose_eq H v q = loose_eq_prim (to_primitive H v) q"

text \<open>\<open>p < q\<close>: two strings compare by code units, anything else as numbers.\<close>

definition js_less :: "js_prim \<Rightarrow> js_prim \<Rightarrow> bool" where
  "js_less p q =
     (case (p, q) of (JStr s, JStr t) \<Rightarrow> s < t | _ \<Rightarrow> num_less (to_number p) (to_number q))"

text \<open>\<open>array.includes(item)\<close>: like \<open>===\<close>, but not-a-number is found.\<close>

definition js_includes :: "js_prim list \<Rightarrow> js_value \<Rightarrow> bool" where
  "js_includes ps v = (case v of Prim p \<Rightarrow> p \<in> set ps | _ \<Rightarrow> False)"

definition js_startsWith :: "js_string \<Rightarrow> js_string \<Rightarrow> bool" where
  "js_startsWith s p = (take (length p) s = p)"

lemma num_less_irrefl: "\<not> num_less x x"
  by (cases x) auto

lemma js_less_irrefl: "\<not> js_less p p"
  by (cases p) (simp_all add: js_less_def num_less_irrefl)

end
