(* ===== verification/ContextKeys.thy ===== *)
theory ContextKeys
  imports JsValues "HOL-Library.Monad_Syntax"
begin

text \<open>
  The \<open>when\<close>-clause expressions of \<open>src/vs/platform/contextkey/common/contextkey.ts\<close>: their
  terms, comparison, evaluation in a context, normalization of conjunctions and disjunctions,
  negation, constant substitution and implication.

  A node of the class hierarchy is a constructor; the last field of most of them is the field
  \<open>negated\<close>, the negation a node was created with or has computed before.  Reading it before
  computing a negation is part of the model; writing a computed one back is not, because
  computing it again gives the same term.

  Normalization and negation call each other; \<open>andCreate\<close>, \<open>orCreate\<close> and \<open>negate\<close> take a
  bound on the depth of these calls and return \<open>None\<close> when it is too small or when a
  non-null assertion of the source (\<open>create(...)!\<close>) fails.  The \<open>undefined\<close> that the creating
  functions return for no operands is the inner \<open>None\<close>.
\<close>

section \<open>Expressions\<close>

datatype ContextKeyExpression =
    FalseExpr
  | TrueExpr
  | DefinedExpr js_string "ContextKeyExpression option"
  | NotExpr js_string "ContextKeyExpression option"
  | EqualsExpr js_string js_prim "ContextKeyExpression option"
  | NotEqualsExpr js_string js_prim "ContextKeyExpression option"
  | AndExpr "ContextKeyExpression list" "ContextKeyExpression option"
  | RegexExpr js_string "regexp option"
  | NotRegexExpr js_string "regexp option"
  | OrExpr "ContextKeyExpression list" "ContextKeyExpression option"
  | InExpr js_string js_string
  | NotInExpr js_string js_string
  | GreaterExpr js_string js_prim "ContextKeyExpression option"
  | GreaterEqualsExpr js_string js_prim "ContextKeyExpression option"
  | SmallerExpr js_string js_prim "ContextKeyExpression option"
  | SmallerEqualsExpr js_string js_prim "ContextKeyExpression option"

fun exprType :: "ContextKeyExpression \<Rightarrow> int" where
  "exprType FalseExpr = 0"
| "exprType TrueExpr = 1"
| "exprType (DefinedExpr _ _) = 2"
| "exprType (NotExpr _ _) = 3"
| "exprType (EqualsExpr _ _ _) = 4"
| "exprType (NotEqualsExpr _ _ _) = 5"
| "exprType (AndExpr _ _) = 6"
| "exprType (RegexExpr _ _) = 7"
| "exprType (NotRegexExpr _ _) = 8"
| "exprType (OrExpr _ _) = 9"
| "exprType (InExpr _ _) = 10"
| "exprType (NotInExpr _ _) = 11"
| "exprType (GreaterExpr _ _ _) = 12"
| "exprType (GreaterEqualsExpr _ _ _) = 13"
| "exprType (SmallerExpr _ _ _) = 14"
| "exprType (SmallerEqualsExpr _ _ _) = 15"

text \<open>The field \<open>negated\<close> as it was set at creation.\<close>

fun cached :: "ContextKeyExpression \<Rightarrow> ContextKeyExpression option" where
  "cached (DefinedExpr _ n) = n"
| "cached (NotExpr _ n) = n"
| "cached (EqualsExpr _ _ n) = n"
| "cached (NotEqualsExpr _ _ n) = n"
| "cached (AndExpr _ n) = n"
| "cached (OrExpr _ n) = n"
| "cached (GreaterExpr _ _ n) = n"
| "cached (GreaterEqualsExpr _ _ n) = n"
| "cached (SmallerExpr _ _ n) = n"
| "cached (SmallerEqualsExpr _ _ n) = n"
| "cached _ = None"

text \<open>
  The module's table \<open>CONSTANT_VALUES\<close> and the engine.  A context gives every key a value,
  \<open>undefined\<close> when it is not set.
\<close>

type_synonym ck_constants = "js_string \<Rightarrow> bool option"
type_synonym ck_context = "js_string \<Rightarrow> js_value"

definition setConstant :: "ck_constants \<Rightarrow> js_string \<Rightarrow> bool \<Rightarrow> ck_constants result" where
  "setConstant K key value =
     (if K key \<noteq> None then Inl (GenericError ''contextkey.setConstant(k, v) invoked with already set constant'')
      else Inr (K(key := Some value)))"

section \<open>Comparison\<close>

definition cmp1 :: "js_string \<Rightarrow> js_string \<Rightarrow> int" where
  "cmp1 key1 key2 = (if key1 < key2 then - 1 else if key1 > key2 then 1 else 0)"

definition cmp2 :: "js_string \<Rightarrow> js_prim \<Rightarrow> js_string \<Rightarrow> js_prim \<Rightarrow> int" where
  "cmp2 key1 value1 key2 value2 =
     (if key1 < key2 then - 1 else if key1 > key2 then 1
      else if js_less value1 value2 then - 1 else if js_less value2 value1 then 1 else 0)"

definition regex_source :: "regexp option \<Rightarrow> js_string" where
  "regex_source r = (case r of Some x \<Rightarrow> re_source x | None \<Rightarrow> [])"

definition cmp_regex :: "js_string \<Rightarrow> regexp option \<Rightarrow> js_string \<Rightarrow> regexp option \<Rightarrow> int" where
  "cmp_regex k r k' r' =
     (if k < k' then - 1 else if k > k' then 1
      else if regex_source r < regex_source r' then - 1 else if regex_source r > regex_source r' then 1 else 0)"

section \<open>Evaluation and printing of terms\<close>

definition evaluate_in :: "js_host \<Rightarrow> js_value \<Rightarrow> js_value \<Rightarrow> bool" where
  "evaluate_in H source item =
     (case source of
        JArray ps \<Rightarrow>
          if js_includes ps item then True
          else (case item of
                  Prim (JStr s) \<Rightarrow>
                    isWindows H \<and> js_startsWith s (js ''file:///'') \<and>
                    list_ex (\<lambda>p. case p of JStr s' \<Rightarrow> toLowerCase H s' = toLowerCase H s | _ \<Rightarrow> False) ps
                | _ \<Rightarrow> False)
      | JObject props \<Rightarrow>
          (case item of
             Prim (JStr s) \<Rightarrow>
               if s \<in> fst ` set props then True
               else isWindows H \<and> js_startsWith s (js ''file:///'') \<and>
                    list_ex (\<lambda>(k, _). toLowerCase H k = toLowerCase H s) props
           | _ \<Rightarrow> False)
      | Prim _ \<Rightarrow> False)"

definition evaluate_regex :: "js_host \<Rightarrow> ck_context \<Rightarrow> js_string \<Rightarrow> regexp option \<Rightarrow> bool" where
  "evaluate_regex H ctx k r = (case r of Some x \<Rightarrow> regexTest H x (to_string H (ctx k)) | None \<Rightarrow> False)"

text \<open>The four numeric comparisons; a value that is still a string makes them false.\<close>

definition evaluate_number ::
  "js_host \<Rightarrow> ck_context \<Rightarrow> js_string \<Rightarrow> js_prim \<Rightarrow> (js_number \<Rightarrow> js_number \<Rightarrow> bool) \<Rightarrow> bool" where
  "evaluate_number H ctx k v rel =
     (case v of JStr _ \<Rightarrow> False | _ \<Rightarrow> rel (parseFloat (to_string H (ctx k))) (to_number v))"

definition serialize_regex :: "js_string \<Rightarrow> regexp option \<Rightarrow> js_string" where
  "serialize_regex k r =
     k @ js '' =~ '' @ (case r of Some x \<Rightarrow> js ''/'' @ re_source x @ js ''/'' @ re_flags x | None \<Rightarrow> js ''/invalid/'')"

definition quote :: js_string where
  "quote = [39]"

text \<open>
  The interface of the mapping functions; the three whose result the source restricts to one
  class give its fields.
\<close>

record IContextKeyExprMapper =
  mapDefined :: "js_string \<Rightarrow> ContextKeyExpression"
  mapNot :: "js_string \<Rightarrow> ContextKeyExpression"
  mapEquals :: "js_string \<Rightarrow> js_prim \<Rightarrow> ContextKeyExpression"
  mapNotEquals :: "js_string \<Rightarrow> js_prim \<Rightarrow> ContextKeyExpression"
  mapGreater :: "js_string \<Rightarrow> js_prim \<Rightarrow> ContextKeyExpression"
  mapGreaterEquals :: "js_string \<Rightarrow> js_prim \<Rightarrow> ContextKeyExpression"
  mapSmaller :: "js_string \<Rightarrow> js_prim \<Rightarrow> ContextKeyExpression"
  mapSmallerEquals :: "js_string \<Rightarrow> js_prim \<Rightarrow> ContextKeyExpression"
  mapRegex :: "js_string \<Rightarrow> regexp option \<Rightarrow> js_string \<times> regexp option"
  mapIn :: "js_string \<Rightarrow> js_string \<Rightarrow> js_string \<times> js_string"
  mapNotIn :: "js_string \<Rightarrow> js_string \<Rightarrow> js_string \<times> js_string"

section \<open>Creating terms\<close>

definition constExpr :: "bool \<Rightarrow> ContextKeyExpression" where
  "constExpr b = (if b then TrueExpr else FalseExpr)"

definition trueValue :: "bool \<Rightarrow> js_prim" where
  "trueValue b = JStr (js (if b then ''true'' else ''false''))"

definition DefinedExpr_create :: "ck_constants \<Rightarrow> js_string \<Rightarrow> ContextKeyExpression option \<Rightarrow> ContextKeyExpression" where
  "DefinedExpr_create K key negated = (case K key of Some b \<Rightarrow> constExpr b | None \<Rightarrow> DefinedExpr key negated)"

definition NotExpr_create :: "ck_constants \<Rightarrow> js_string \<Rightarrow> ContextKeyExpression option \<Rightarrow> ContextKeyExpression" where
  "NotExpr_create K key negated = (case K key of Some b \<Rightarrow> constExpr (\<not> b) | None \<Rightarrow> NotExpr key negated)"

definition EqualsExpr_create ::
  "ck_constants \<Rightarrow> js_string \<Rightarrow> js_prim \<Rightarrow> ContextKeyExpression option \<Rightarrow> ContextKeyExpression" where
  "EqualsExpr_create K key value negated =
     (case value of
        JBool b \<Rightarrow> if b then DefinedExpr_create K key negated else NotExpr_create K key negated
      | _ \<Rightarrow> (case K key of Some b \<Rightarrow> constExpr (strict_eq value (trueValue b)) | None \<Rightarrow> EqualsExpr key value negated))"

definition NotEqualsExpr_create ::
  "ck_constants \<Rightarrow> js_string \<Rightarrow> js_prim \<Rightarrow> ContextKeyExpression option \<Rightarrow> ContextKeyExpression" where
  "NotEqualsExpr_create K key value negated =
     (case value of
        JBool b \<Rightarrow> if b then NotExpr_create K key negated else DefinedExpr_create K key negated
      | _ \<Rightarrow> (case K key of Some b \<Rightarrow> constExpr (\<not> strict_eq value (trueValue b))
              | None \<Rightarrow> NotEqualsExpr key value negated))"

definition withFloatOrStr :: "js_prim \<Rightarrow> (js_prim \<Rightarrow> ContextKeyExpression) \<Rightarrow> ContextKeyExpression" where
  "withFloatOrStr value callback =
     (case value of
        JStr s \<Rightarrow> callback (let n = parseFloat s in if n \<noteq> NaN then JNum n else value)
      | JNum _ \<Rightarrow> callback value
      | _ \<Rightarrow> FalseExpr)"

definition GreaterExpr_create :: "js_string \<Rightarrow> js_prim \<Rightarrow> ContextKeyExpression option \<Rightarrow> ContextKeyExpression" where
  "GreaterExpr_create key value negated = withFloatOrStr value (\<lambda>v. GreaterExpr key v negated)"

definition GreaterEqualsExpr_create :: "js_string \<Rightarrow> js_prim \<Rightarrow> ContextKeyExpression option \<Rightarrow> ContextKeyExpression" where
  "GreaterEqualsExpr_create key value negated = withFloatOrStr value (\<lambda>v. GreaterEqualsExpr key v negated)"

definition SmallerExpr_create :: "js_string \<Rightarrow> js_prim \<Rightarrow> ContextKeyExpression option \<Rightarrow> ContextKeyExpression" where
  "SmallerExpr_create key value negated = withFloatOrStr value (\<lambda>v. SmallerExpr key v negated)"

definition SmallerEqualsExpr_create :: "js_string \<Rightarrow> js_prim \<Rightarrow> ContextKeyExpression option \<Rightarrow> ContextKeyExpression" where
  "SmallerEqualsExpr_create key value negated = withFloatOrStr value (\<lambda>v. SmallerEqualsExpr key v negated)"

section \<open>The classes of terms\<close>

text \<open>
  Every class implements the interface \<open>IContextKeyExpression\<close>; a record holds the methods of one
  object.  The methods of the two classes with operands are recursive functions below.
  \<open>substituteConstants\<close> returns whether the result is a new object and the result; \<open>negate\<close> is the
  negation when none is cached.
\<close>

record expr_class =
  ck_cmp :: "ContextKeyExpression \<Rightarrow> int"
  ck_equals :: "ContextKeyExpression \<Rightarrow> bool"
  ck_substituteConstants :: "ck_constants \<Rightarrow> bool \<times> ContextKeyExpression option"
  ck_evaluate :: "js_host \<Rightarrow> ck_context \<Rightarrow> bool"
  ck_serialize :: "js_host \<Rightarrow> js_string"
  ck_keys :: "js_string list"
  ck_map :: "IContextKeyExprMapper \<Rightarrow> ContextKeyExpression"
  ck_negate :: "ck_constants \<Rightarrow> ContextKeyExpression"

definition FalseExpr_class :: "expr_class" where
  "FalseExpr_class =
     \<lparr>ck_cmp = \<lambda>b. 0 - exprType b,
      ck_equals = \<lambda>b. b = FalseExpr,
      ck_substituteConstants = \<lambda>_. (False, Some FalseExpr),
      ck_evaluate = \<lambda>_ _. False,
      ck_serialize = \<lambda>_. js ''false'',
      ck_keys = [],
      ck_map = \<lambda>_. FalseExpr,
      ck_negate = \<lambda>_. TrueExpr\<rparr>"

definition TrueExpr_class :: "expr_class" where
  "TrueExpr_class =
     \<lparr>ck_cmp = \<lambda>b. 1 - exprType b,
      ck_equals = \<lambda>b. b = TrueExpr,
      ck_substituteConstants = \<lambda>_. (False, Some TrueExpr),
      ck_evaluate = \<lambda>_ _. True,
      ck_serialize = \<lambda>_. js ''true'',
      ck_keys = [],
      ck_map = \<lambda>_. TrueExpr,
      ck_negate = \<lambda>_. FalseExpr\<rparr>"

definition DefinedExpr_class :: "js_string \<Rightarrow> ContextKeyExpression option \<Rightarrow> expr_class" where
  "DefinedExpr_class k n =
     \<lparr>ck_cmp = \<lambda>b. (case b of DefinedExpr k' _ \<Rightarrow> cmp1 k k' | _ \<Rightarrow> 2 - exprType b),
      ck_equals = \<lambda>b. (case b of DefinedExpr k' _ \<Rightarrow> k = k' | _ \<Rightarrow> False),
      ck_substituteConstants = \<lambda>K. (case K k of Some c \<Rightarrow> (True, Some (constExpr (c))) | None \<Rightarrow> (False, Some (DefinedExpr k n))),
      ck_evaluate = \<lambda>_ ctx. truthy (ctx k),
      ck_serialize = \<lambda>_. k,
      ck_keys = [k],
      ck_map = \<lambda>m. mapDefined m k,
      ck_negate = \<lambda>K. NotExpr_create K k (Some (DefinedExpr k n))\<rparr>"

definition NotExpr_class :: "js_string \<Rightarrow> ContextKeyExpression option \<Rightarrow> expr_class" where
  "NotExpr_class k n =
     \<lparr>ck_cmp = \<lambda>b. (case b of NotExpr k' _ \<Rightarrow> cmp1 k k' | _ \<Rightarrow> 3 - exprType b),
      ck_equals = \<lambda>b. (case b of NotExpr k' _ \<Rightarrow> k = k' | _ \<Rightarrow> False),
      ck_substituteConstants = \<lambda>K. (case K k of Some c \<Rightarrow> (True, Some (constExpr (\<not> c))) | None \<Rightarrow> (False, Some (NotExpr k n))),
      ck_evaluate = \<lambda>_ ctx. \<not> truthy (ctx k),
      ck_serialize = \<lambda>_. js ''!'' @ k,
      ck_keys = [k],
      ck_map = \<lambda>m. mapNot m k,
      ck_negate = \<lambda>K. DefinedExpr_create K k (Some (NotExpr k n))\<rparr>"

definition EqualsExpr_class :: "js_string \<Rightarrow> js_prim \<Rightarrow> ContextKeyExpression option \<Rightarrow> expr_class" where
  "EqualsExpr_class k v n =
     \<lparr>ck_cmp = \<lambda>b. (case b of EqualsExpr k' v' _ \<Rightarrow> cmp2 k v k' v' | _ \<Rightarrow> 4 - exprType b),
      ck_equals = \<lambda>b. (case b of EqualsExpr k' v' _ \<Rightarrow> k = k' \<and> strict_eq v v' | _ \<Rightarrow> False),
      ck_substituteConstants = \<lambda>K. (case K k of Some c \<Rightarrow> (True, Some (constExpr (strict_eq v (trueValue c)))) | None \<Rightarrow> (False, Some (EqualsExpr k v n))),
      ck_evaluate = \<lambda>H ctx. loose_eq H (ctx k) v,
      ck_serialize = \<lambda>H. k @ js '' == '' @ quote @ prim_to_string H v @ quote,
      ck_keys = [k],
      ck_map = \<lambda>m. mapEquals m k v,
      ck_negate = \<lambda>K. NotEqualsExpr_create K k v (Some (EqualsExpr k v n))\<rparr>"

definition NotEqualsExpr_class :: "js_string \<Rightarrow> js_prim \<Rightarrow> ContextKeyExpression option \<Rightarrow> expr_class" where
  "NotEqualsExpr_class k v n =
     \<lparr>ck_cmp = \<lambda>b. (case b of NotEqualsExpr k' v' _ \<Rightarrow> cmp2 k v k' v' | _ \<Rightarrow> 5 - exprType b),
      ck_equals = \<lambda>b. (case b of NotEqualsExpr k' v' _ \<Rightarrow> k = k' \<and> strict_eq v v' | _ \<Rightarrow> False),
      ck_substituteConstants = \<lambda>K. (case K k of Some c \<Rightarrow> (True, Some (constExpr (\<not> strict_eq v (trueValue c)))) | None \<Rightarrow> (False, Some (NotEqualsExpr k v n))),
      ck_evaluate = \<lambda>H ctx. \<not> loose_eq H (ctx k) v,
      ck_serialize = \<lambda>H. k @ js '' != '' @ quote @ prim_to_string H v @ quote,
      ck_keys = [k],
      ck_map = \<lambda>m. mapNotEquals m k v,
      ck_negate = \<lambda>K. EqualsExpr_create K k v (Some (NotEqualsExpr k v n))\<rparr>"

definition RegexExpr_class :: "js_string \<Rightarrow> regexp option \<Rightarrow> expr_class" where
  "RegexExpr_class k r =
     \<lparr>ck_cmp = \<lambda>b. (case b of RegexExpr k' r' \<Rightarrow> cmp_regex k r k' r' | _ \<Rightarrow> 7 - exprType b),
      ck_equals = \<lambda>b. (case b of RegexExpr k' r' \<Rightarrow> k = k' \<and> regex_source r = regex_source r' | _ \<Rightarrow> False),
      ck_substituteConstants = \<lambda>_. (False, Some (RegexExpr k r)),
      ck_evaluate = \<lambda>H ctx. evaluate_regex H ctx k r,
      ck_serialize = \<lambda>_. serialize_regex k r,
      ck_keys = [k],
      ck_map = \<lambda>m. (let (k', r') = mapRegex m k r in RegexExpr k' r'),
      ck_negate = \<lambda>_. NotRegexExpr k r\<rparr>"

definition NotRegexExpr_class :: "js_string \<Rightarrow> regexp option \<Rightarrow> expr_class" where
  "NotRegexExpr_class k r =
     \<lparr>ck_cmp = \<lambda>b. (case b of NotRegexExpr k' r' \<Rightarrow> cmp_regex k r k' r' | _ \<Rightarrow> 8 - exprType b),
      ck_equals = \<lambda>b. (case b of NotRegexExpr k' r' \<Rightarrow> k = k' \<and> regex_source r = regex_source r' | _ \<Rightarrow> False),
      ck_substituteConstants = \<lambda>_. (False, Some (NotRegexExpr k r)),
      ck_evaluate = \<lambda>H ctx. \<not> evaluate_regex H ctx k r,
      ck_serialize = \<lambda>_. js ''!('' @ serialize_regex k r @ js '')'',
      ck_keys = [k],
      ck_map = \<lambda>m. (let (k', r') = mapRegex m k r in NotRegexExpr k' r'),
      ck_negate = \<lambda>_. RegexExpr k r\<rparr>"

definition InExpr_class :: "js_string \<Rightarrow> js_string \<Rightarrow> expr_class" where
  "InExpr_class k v =
     \<lparr>ck_cmp = \<lambda>b. (case b of InExpr k' v' \<Rightarrow> cmp2 k (JStr v) k' (JStr v') | _ \<Rightarrow> 10 - exprType b),
      ck_equals = \<lambda>b. (case b of InExpr k' v' \<Rightarrow> k = k' \<and> v = v' | _ \<Rightarrow> False),
      ck_substituteConstants = \<lambda>_. (False, Some (InExpr k v)),
      ck_evaluate = \<lambda>H ctx. evaluate_in H (ctx v) (ctx k),
      ck_serialize = \<lambda>_. k @ js '' in '' @ quote @ v @ quote,
      ck_keys = [k, v],
      ck_map = \<lambda>m. (let (k', v') = mapIn m k v in InExpr k' v'),
      ck_negate = \<lambda>_. NotInExpr k v\<rparr>"

definition NotInExpr_class :: "js_string \<Rightarrow> js_string \<Rightarrow> expr_class" where
  "NotInExpr_class k v =
     \<lparr>ck_cmp = \<lambda>b. (case b of NotInExpr k' v' \<Rightarrow> cmp2 k (JStr v) k' (JStr v') | _ \<Rightarrow> 11 - exprType b),
      ck_equals = \<lambda>b. (case b of NotInExpr k' v' \<Rightarrow> k = k' \<and> v = v' | _ \<Rightarrow> False),
      ck_substituteConstants = \<lambda>_. (False, Some (NotInExpr k v)),
      ck_evaluate = \<lambda>H ctx. \<not> evaluate_in H (ctx v) (ctx k),
      ck_serialize = \<lambda>_. k @ js '' not in '' @ quote @ v @ quote,
      ck_keys = [k, v],
      ck_map = \<lambda>m. (let (k', v') = mapNotIn m k v in NotInExpr k' v'),
      ck_negate = \<lambda>_. InExpr k v\<rparr>"

definition GreaterExpr_class :: "js_string \<Rightarrow> js_prim \<Rightarrow> ContextKeyExpression option \<Rightarrow> expr_class" where
  "GreaterExpr_class k v n =
     \<lparr>ck_cmp = \<lambda>b. (case b of GreaterExpr k' v' _ \<Rightarrow> cmp2 k v k' v' | _ \<Rightarrow> 12 - exprType b),
      ck_equals = \<lambda>b. (case b of GreaterExpr k' v' _ \<Rightarrow> k = k' \<and> strict_eq v v' | _ \<Rightarrow> False),
      ck_substituteConstants = \<lambda>_. (False, Some (GreaterExpr k v n)),
      ck_evaluate = \<lambda>H ctx. evaluate_number H ctx k v (\<lambda>x y. num_less y x),
      ck_serialize = \<lambda>H. k @ js '' > '' @ prim_to_string H v,
      ck_keys = [k],
      ck_map = \<lambda>m. mapGreater m k v,
      ck_negate = \<lambda>_. SmallerEqualsExpr_create k v (Some (GreaterExpr k v n))\<rparr>"

definition GreaterEqualsExpr_class :: "js_string \<Rightarrow> js_prim \<Rightarrow> ContextKeyExpression option \<Rightarrow> expr_class" where
  "GreaterEqualsExpr_class k v n =
     \<lparr>ck_cmp = \<lambda>b. (case b of GreaterEqualsExpr k' v' _ \<Rightarrow> cmp2 k v k' v' | _ \<Rightarrow> 13 - exprType b),
      ck_equals = \<lambda>b. (case b of GreaterEqualsExpr k' v' _ \<Rightarrow> k = k' \<and> strict_eq v v' | _ \<Rightarrow> False),
      ck_substituteConstants = \<lambda>_. (False, Some (GreaterEqualsExpr k v n)),
      ck_evaluate = \<lambda>H ctx. evaluate_number H ctx k v (\<lambda>x y. num_le y x),
      ck_serialize = \<lambda>H. k @ js '' >= '' @ prim_to_string H v,
      ck_keys = [k],
      ck_map = \<lambda>m. mapGreaterEquals m k v,
      ck_negate = \<lambda>_. SmallerExpr_create k v (Some (GreaterEqualsExpr k v n))\<rparr>"

definition SmallerExpr_class :: "js_string \<Rightarrow> js_prim \<Rightarrow> ContextKeyExpression option \<Rightarrow> expr_class" where
  "SmallerExpr_class k v n =
     \<lparr>ck_cmp = \<lambda>b. (case b of SmallerExpr k' v' _ \<Rightarrow> cmp2 k v k' v' | _ \<Rightarrow> 14 - exprType b),
      ck_equals = \<lambda>b. (case b of SmallerExpr k' v' _ \<Rightarrow> k = k' \<and> strict_eq v v' | _ \<Rightarrow> False),
      ck_substituteConstants = \<lambda>_. (False, Some (SmallerExpr k v n)),
      ck_evaluate = \<lambda>H ctx. evaluate_number H ctx k v num_less,
      ck_serialize = \<lambda>H. k @ js '' < '' @ prim_to_string H v,
      ck_keys = [k],
      ck_map = \<lambda>m. mapSmaller m k v,
      ck_negate = \<lambda>_. GreaterEqualsExpr_create k v (Some (SmallerExpr k v n))\<rparr>"

definition SmallerEqualsExpr_class :: "js_string \<Rightarrow> js_prim \<Rightarrow> ContextKeyExpression option \<Rightarrow> expr_class" where
  "SmallerEqualsExpr_class k v n =
     \<lparr>ck_cmp = \<lambda>b. (case b of SmallerEqualsExpr k' v' _ \<Rightarrow> cmp2 k v k' v' | _ \<Rightarrow> 15 - exprType b),
      ck_equals = \<lambda>b. (case b of SmallerEqualsExpr k' v' _ \<Rightarrow> k = k' \<and> strict_eq v v' | _ \<Rightarrow> False),
      ck_substituteConstants = \<lambda>_. (False, Some (SmallerEqualsExpr k v n)),
      ck_evaluate = \<lambda>H ctx. evaluate_number H ctx k v num_le,
      ck_serialize = \<lambda>H. k @ js '' <= '' @ prim_to_string H v,
      ck_keys = [k],
      ck_map = \<lambda>m. mapSmallerEquals m k v,
      ck_negate = \<lambda>_. GreaterExpr_create k v (Some (SmallerEqualsExpr k v n))\<rparr>"

fun term_class :: "ContextKeyExpression \<Rightarrow> expr_class option" where
  "term_class (AndExpr es n) = None"
| "term_class (OrExpr es n) = None"
| "term_class FalseExpr = Some FalseExpr_class"
| "term_class TrueExpr = Some TrueExpr_class"
| "term_class (DefinedExpr k n) = Some (DefinedExpr_class k n)"
| "term_class (NotExpr k n) = Some (NotExpr_class k n)"
| "term_class (EqualsExpr k v n) = Some (EqualsExpr_class k v n)"
| "term_class (NotEqualsExpr k v n) = Some (NotEqualsExpr_class k v n)"
| "term_class (RegexExpr k r) = Some (RegexExpr_class k r)"
| "term_class (NotRegexExpr k r) = Some (NotRegexExpr_class k r)"
| "term_class (InExpr k v) = Some (InExpr_class k v)"
| "term_class (NotInExpr k v) = Some (NotInExpr_class k v)"
| "term_class (GreaterExpr k v n) = Some (GreaterExpr_class k v n)"
| "term_class (GreaterEqualsExpr k v n) = Some (GreaterEqualsExpr_class k v n)"
| "term_class (SmallerExpr k v n) = Some (SmallerExpr_class k v n)"
| "term_class (SmallerEqualsExpr k v n) = Some (SmallerEqualsExpr_class k v n)"

lemmas class_defs [simp] =
  FalseExpr_class_def TrueExpr_class_def DefinedExpr_class_def NotExpr_class_def EqualsExpr_class_def NotEqualsExpr_class_def
  RegexExpr_class_def NotRegexExpr_class_def InExpr_class_def NotInExpr_class_def
  GreaterExpr_class_def GreaterEqualsExpr_class_def SmallerExpr_class_def SmallerEqualsExpr_class_def

abbreviation term_methods :: "ContextKeyExpression \<Rightarrow> expr_class" where
  "term_methods e \<equiv> the (term_class e)"

definition negate_term :: "ck_constants \<Rightarrow> ContextKeyExpression \<Rightarrow> ContextKeyExpression option" where
  "negate_term K e = map_option (\<lambda>c. ck_negate c K) (term_class e)"

section \<open>The methods on all expressions\<close>

fun expr_cmp :: "ContextKeyExpression \<Rightarrow> ContextKeyExpression \<Rightarrow> int"
  and cmp_loop :: "ContextKeyExpression list \<Rightarrow> ContextKeyExpression list \<Rightarrow> int" where
  "expr_cmp (AndExpr es n) b =
     (case b of AndExpr es' _ \<Rightarrow> (if length es < length es' then - 1 else if length es > length es' then 1
                                 else cmp_loop es es')
      | _ \<Rightarrow> 6 - exprType b)"
| "expr_cmp (OrExpr es n) b =
     (case b of OrExpr es' _ \<Rightarrow> (if length es < length es' then - 1 else if length es > length es' then 1
                                else cmp_loop es es')
      | _ \<Rightarrow> 9 - exprType b)"
| "expr_cmp e b = ck_cmp (term_methods e) b"
| "cmp_loop [] ys = 0"
| "cmp_loop (x # xs) ys =
     (case ys of [] \<Rightarrow> 0 | y # ys' \<Rightarrow> (let r = expr_cmp x y in if r \<noteq> 0 then r else cmp_loop xs ys'))"

fun expr_equals :: "ContextKeyExpression \<Rightarrow> ContextKeyExpression \<Rightarrow> bool"
  and equals_loop :: "ContextKeyExpression list \<Rightarrow> ContextKeyExpression list \<Rightarrow> bool" where
  "expr_equals (AndExpr es n) b =
     (case b of AndExpr es' _ \<Rightarrow> length es = length es' \<and> equals_loop es es' | _ \<Rightarrow> False)"
| "expr_equals (OrExpr es n) b =
     (case b of OrExpr es' _ \<Rightarrow> length es = length es' \<and> equals_loop es es' | _ \<Rightarrow> False)"
| "expr_equals e b = ck_equals (term_methods e) b"
| "equals_loop [] ys = True"
| "equals_loop (x # xs) ys = (case ys of [] \<Rightarrow> False | y # ys' \<Rightarrow> expr_equals x y \<and> equals_loop xs ys')"

fun evaluate :: "js_host \<Rightarrow> ck_context \<Rightarrow> ContextKeyExpression \<Rightarrow> bool" where
  "evaluate H ctx (AndExpr es _) = list_all (evaluate H ctx) es"
| "evaluate H ctx (OrExpr es _) = list_ex (evaluate H ctx) es"
| "evaluate H ctx e = ck_evaluate (term_methods e) H ctx"

fun expr_keys :: "ContextKeyExpression \<Rightarrow> js_string list" where
  "expr_keys (AndExpr es _) = concat (map expr_keys es)"
| "expr_keys (OrExpr es _) = concat (map expr_keys es)"
| "expr_keys e = ck_keys (term_methods e)"

fun serialize :: "js_host \<Rightarrow> ContextKeyExpression \<Rightarrow> js_string" where
  "serialize H (AndExpr es _) = js_join (js '' && '') (map (serialize H) es)"
| "serialize H (OrExpr es _) = js_join (js '' || '') (map (serialize H) es)"
| "serialize H e = ck_serialize (term_methods e) H"

fun expr_map :: "IContextKeyExprMapper \<Rightarrow> ContextKeyExpression \<Rightarrow> ContextKeyExpression" where
  "expr_map m (AndExpr es _) = AndExpr (map (expr_map m) es) None"
| "expr_map m (OrExpr es _) = OrExpr (map (expr_map m) es) None"
| "expr_map m e = ck_map (term_methods e) m"

section \<open>Normalization\<close>

fun mapO :: "('a \<Rightarrow> 'b option) \<Rightarrow> 'a list \<Rightarrow> 'b list option" where
  "mapO f [] = Some []"
| "mapO f (x # xs) = (case f x of None \<Rightarrow> None | Some y \<Rightarrow> (case mapO f xs of None \<Rightarrow> None | Some ys \<Rightarrow> Some (y # ys)))"

text \<open>\<open>Array.prototype.sort\<close> is stable; on a consistent comparison every stable sort returns the same.\<close>

fun sort_insert :: "('a \<Rightarrow> 'a \<Rightarrow> int) \<Rightarrow> 'a \<Rightarrow> 'a list \<Rightarrow> 'a list" where
  "sort_insert c x [] = [x]"
| "sort_insert c x (y # ys) = (if c x y \<le> 0 then x # y # ys else y # sort_insert c x ys)"

definition js_sort :: "('a \<Rightarrow> 'a \<Rightarrow> int) \<Rightarrow> 'a list \<Rightarrow> 'a list" where
  "js_sort c xs = foldr (sort_insert c) xs []"

text \<open>Dropping each term that equals the one before it.\<close>

fun eliminate_duplicates :: "ContextKeyExpression list \<Rightarrow> ContextKeyExpression list" where
  "eliminate_duplicates (x # y # r) =
     (if expr_equals x y then eliminate_duplicates (x # r) else x # eliminate_duplicates (y # r))"
| "eliminate_duplicates r = r"

text \<open>
  The first loops of the two \<open>_normalizeArr\<close>: the terms with nested conjunctions
  (disjunctions) flattened and whether \<open>true\<close> (\<open>false\<close>) was seen; \<open>None\<close> is the early
  return.
\<close>

fun and_collect ::
  "ContextKeyExpression option list \<Rightarrow> ContextKeyExpression list \<Rightarrow> bool \<Rightarrow> (ContextKeyExpression list \<times> bool) option" where
  "and_collect [] expr hasTrue = Some (expr, hasTrue)"
| "and_collect (None # arr) expr hasTrue = and_collect arr expr hasTrue"
| "and_collect (Some e # arr) expr hasTrue =
     (case e of
        TrueExpr \<Rightarrow> and_collect arr expr True
      | FalseExpr \<Rightarrow> None
      | AndExpr es _ \<Rightarrow> and_collect arr (expr @ es) hasTrue
      | _ \<Rightarrow> and_collect arr (expr @ [e]) hasTrue)"

fun or_collect ::
  "ContextKeyExpression option list \<Rightarrow> ContextKeyExpression list \<Rightarrow> bool \<Rightarrow> (ContextKeyExpression list \<times> bool) option" where
  "or_collect [] expr hasFalse = Some (expr, hasFalse)"
| "or_collect (None # arr) expr hasFalse = or_collect arr expr hasFalse"
| "or_collect (Some e # arr) expr hasFalse =
     (case e of
        FalseExpr \<Rightarrow> or_collect arr expr True
      | TrueExpr \<Rightarrow> None
      | OrExpr es _ \<Rightarrow> or_collect arr (expr @ es) hasFalse
      | _ \<Rightarrow> or_collect arr (expr @ [e]) hasFalse)"

text \<open>Whether the negation of a term equals a later term.\<close>

fun redundant ::
  "(ContextKeyExpression \<Rightarrow> ContextKeyExpression option) \<Rightarrow> ContextKeyExpression list \<Rightarrow> bool option" where
  "redundant neg [] = Some False"
| "redundant neg (x # xs) =
     (if xs = [] then Some False
      else case neg x of
             None \<Rightarrow> None
           | Some nx \<Rightarrow> if list_ex (expr_equals nx) xs then Some True else redundant neg xs)"

definition or_terms :: "ContextKeyExpression \<Rightarrow> ContextKeyExpression list option" where
  "or_terms e = (case e of OrExpr es _ \<Rightarrow> Some es | _ \<Rightarrow> None)"

definition getTerminals :: "ContextKeyExpression \<Rightarrow> ContextKeyExpression list" where
  "getTerminals node = (case or_terms node of Some es \<Rightarrow> es | None \<Rightarrow> [node])"

text \<open>
  The loop that distributes a trailing disjunction over the term before it; \<open>andC el second\<close>
  and \<open>orC parts isFinished\<close> are the two calls it makes.
\<close>

function (sequential) distribute ::
  "(ContextKeyExpression \<Rightarrow> ContextKeyExpression \<Rightarrow> ContextKeyExpression option option) \<Rightarrow>
   (ContextKeyExpression option list \<Rightarrow> bool \<Rightarrow> ContextKeyExpression option option) \<Rightarrow>
   ContextKeyExpression list \<Rightarrow> ContextKeyExpression list option" where
  "distribute andC orC expr =
     (if length expr > 1
      then (case or_terms (last expr) of
              None \<Rightarrow> Some expr
            | Some terms \<Rightarrow>
                let secondToLast = last (butlast expr); rest = butlast (butlast expr)
                in (case mapO (\<lambda>el. andC el secondToLast) terms of
                      None \<Rightarrow> None
                    | Some parts \<Rightarrow>
                        (case orC parts (rest = []) of
                           None \<Rightarrow> None
                         | Some None \<Rightarrow> distribute andC orC rest
                         | Some (Some r) \<Rightarrow> distribute andC orC (js_sort expr_cmp (rest @ [r])))))
      else Some expr)"
  by pat_completeness auto

lemma sort_insert_length [simp]: "length (sort_insert c x ys) = Suc (length ys)"
  by (induction ys) simp_all

lemma js_sort_length [simp]: "length (js_sort c xs) = length xs"
  by (induction xs) (simp_all add: js_sort_def)

termination distribute by (relation "measure (\<lambda>(andC, orC, expr). length expr)") auto

declare distribute.simps [simp del]

text \<open>The loop of \<open>ContextKeyOrExpr.negate\<close>: the first two negations are distributed into one.\<close>

fun negate_distribute ::
  "(ContextKeyExpression \<Rightarrow> ContextKeyExpression \<Rightarrow> ContextKeyExpression option option) \<Rightarrow>
   (ContextKeyExpression option list \<Rightarrow> ContextKeyExpression option option) \<Rightarrow>
   ContextKeyExpression list \<Rightarrow> ContextKeyExpression list option" where
  "negate_distribute andC orC (left # right # result) =
     (case mapO (\<lambda>(l, r). andC l r) (List.product (getTerminals left) (getTerminals right)) of
        None \<Rightarrow> None
      | Some parts \<Rightarrow>
          (case orC parts of
             Some (Some x) \<Rightarrow> negate_distribute andC orC (x # result)
           | _ \<Rightarrow> None))"
| "negate_distribute andC orC result = Some result"

fun andCreate ::
  "ck_constants \<Rightarrow> nat \<Rightarrow> ContextKeyExpression option list \<Rightarrow> ContextKeyExpression option \<Rightarrow> bool \<Rightarrow>
   ContextKeyExpression option option"
  and orCreate ::
  "ck_constants \<Rightarrow> nat \<Rightarrow> ContextKeyExpression option list \<Rightarrow> ContextKeyExpression option \<Rightarrow> bool \<Rightarrow>
   ContextKeyExpression option option"
  and negate :: "ck_constants \<Rightarrow> nat \<Rightarrow> ContextKeyExpression \<Rightarrow> ContextKeyExpression option" where
  "andCreate K 0 arr negated extraRedundantCheck = None"
| "andCreate K (Suc n) arr negated extraRedundantCheck =
     (case and_collect arr [] False of
        None \<Rightarrow> Some (Some FalseExpr)
      | Some (expr, hasTrue) \<Rightarrow>
          if expr = [] then Some (if hasTrue then Some TrueExpr else None)
          else if length expr = 1 then Some (Some (hd expr))
          else
            let expr = eliminate_duplicates (js_sort expr_cmp expr)
            in if length expr = 1 then Some (Some (hd expr))
               else
                 (case distribute (\<lambda>el second. andCreate K n [Some el, Some second] None extraRedundantCheck)
                         (\<lambda>parts isFinished. orCreate K n parts None isFinished) expr of
                    None \<Rightarrow> None
                  | Some expr \<Rightarrow>
                      if length expr = 1 then Some (Some (hd expr))
                      else if extraRedundantCheck
                      then (case redundant (negate K n) expr of
                              None \<Rightarrow> None
                            | Some True \<Rightarrow> Some (Some FalseExpr)
                            | Some False \<Rightarrow> Some (Some (AndExpr expr negated)))
                      else Some (Some (AndExpr expr negated))))"
| "orCreate K 0 arr negated extraRedundantCheck = None"
| "orCreate K (Suc n) arr negated extraRedundantCheck =
     (case or_collect arr [] False of
        None \<Rightarrow> Some (Some TrueExpr)
      | Some (expr, hasFalse) \<Rightarrow>
          if expr = [] then Some (if hasFalse then Some FalseExpr else None)
          else
            let expr = js_sort expr_cmp expr
            in if length expr = 1 then Some (Some (hd expr))
               else
                 let expr = eliminate_duplicates expr
                 in if length expr = 1 then Some (Some (hd expr))
                    else if extraRedundantCheck
                    then (case redundant (negate K n) expr of
                            None \<Rightarrow> None
                          | Some True \<Rightarrow> Some (Some TrueExpr)
                          | Some False \<Rightarrow> Some (Some (OrExpr expr negated)))
                    else Some (Some (OrExpr expr negated)))"
| "negate K 0 e = (case cached e of Some ne \<Rightarrow> Some ne | None \<Rightarrow> negate_term K e)"
| "negate K (Suc n) e =
     (case cached e of
        Some ne \<Rightarrow> Some ne
      | None \<Rightarrow>
          (case e of
             AndExpr es _ \<Rightarrow>
               (case mapO (negate K n) es of
                  None \<Rightarrow> None
                | Some result \<Rightarrow>
                    (case orCreate K n (map Some result) (Some e) True of Some (Some r) \<Rightarrow> Some r | _ \<Rightarrow> None))
           | OrExpr es _ \<Rightarrow>
               (case mapO (negate K n) es of
                  None \<Rightarrow> None
                | Some result \<Rightarrow>
                    (case negate_distribute (\<lambda>l r. andCreate K n [Some l, Some r] None False)
                            (\<lambda>parts. orCreate K n parts None False) result of
                       None \<Rightarrow> None
                     | Some result \<Rightarrow>
                         (case orCreate K n (map Some result) (Some e) True of Some (Some r) \<Rightarrow> Some r | _ \<Rightarrow> None)))
           | _ \<Rightarrow> negate_term K e))"

section \<open>Constant substitution\<close>

text \<open>The argument \<open>n\<close> bounds the depth of normalization.\<close>

fun substituteConstants ::
  "ck_constants \<Rightarrow> nat \<Rightarrow> ContextKeyExpression \<Rightarrow> (bool \<times> ContextKeyExpression option) option"
  and eliminateConstantsInArray ::
  "ck_constants \<Rightarrow> nat \<Rightarrow> ContextKeyExpression list \<Rightarrow> (bool \<times> ContextKeyExpression option list) option" where
  "substituteConstants K n (AndExpr es negated) =
     (case eliminateConstantsInArray K n es of
        None \<Rightarrow> None
      | Some (changed, exprArr) \<Rightarrow>
          if \<not> changed then Some (False, Some (AndExpr es negated))
          else map_option (Pair True) (andCreate K n exprArr negated False))"
| "substituteConstants K n (OrExpr es negated) =
     (case eliminateConstantsInArray K n es of
        None \<Rightarrow> None
      | Some (changed, exprArr) \<Rightarrow>
          if \<not> changed then Some (False, Some (OrExpr es negated))
          else map_option (Pair True) (orCreate K n exprArr negated False))"
| "substituteConstants K n e = Some (ck_substituteConstants (term_methods e) K)"
| "eliminateConstantsInArray K n [] = Some (False, [])"
| "eliminateConstantsInArray K n (e # arr) =
     (case substituteConstants K n e of
        None \<Rightarrow> None
      | Some (c, newExpr) \<Rightarrow>
          map_option (\<lambda>(cs, newArr). (c \<or> cs, newExpr # newArr)) (eliminateConstantsInArray K n arr))"

definition expressionsAreEqualWithConstantSubstitution ::
  "ck_constants \<Rightarrow> nat \<Rightarrow> ContextKeyExpression option \<Rightarrow> ContextKeyExpression option \<Rightarrow> bool option" where
  "expressionsAreEqualWithConstantSubstitution K n a b =
     (let subst = (\<lambda>e. case e of None \<Rightarrow> Some None | Some e \<Rightarrow> map_option snd (substituteConstants K n e))
      in case (subst a, subst b) of
           (Some None, Some None) \<Rightarrow> Some True
         | (Some (Some a'), Some (Some b')) \<Rightarrow> Some (expr_equals a' b')
         | (Some _, Some _) \<Rightarrow> Some False
         | _ \<Rightarrow> None)"

section \<open>Implication\<close>

fun allElementsIncluded :: "ContextKeyExpression list \<Rightarrow> ContextKeyExpression list \<Rightarrow> bool" where
  "allElementsIncluded [] q = True"
| "allElementsIncluded (x # p) [] = False"
| "allElementsIncluded (x # p) (y # q) =
     (let c = expr_cmp x y
      in if c < 0 then False else if c = 0 then allElementsIncluded p q else allElementsIncluded (x # p) q)"

definition and_terms :: "ContextKeyExpression \<Rightarrow> ContextKeyExpression list option" where
  "and_terms e = (case e of AndExpr es _ \<Rightarrow> Some es | _ \<Rightarrow> None)"

lemma terms_size [termination_simp]:
  "or_terms e = Some es \<Longrightarrow> x \<in> set es \<Longrightarrow> size x < size e"
  "and_terms e = Some es \<Longrightarrow> x \<in> set es \<Longrightarrow> size x < size e"
  by (cases e; auto simp: or_terms_def and_terms_def dest!: size_list_estimation' [of x es _ size, OF _ order.refl])+

function implies :: "ContextKeyExpression \<Rightarrow> ContextKeyExpression \<Rightarrow> bool" where
  "implies p q =
     (if p = FalseExpr \<or> q = TrueExpr then True
      else case or_terms p of
        Some ps \<Rightarrow> (case or_terms q of Some qs \<Rightarrow> allElementsIncluded ps qs | None \<Rightarrow> False)
      | None \<Rightarrow>
          (case or_terms q of
             Some qs \<Rightarrow> list_ex (\<lambda>element. implies p element) qs
           | None \<Rightarrow>
               (case and_terms p of
                  Some ps \<Rightarrow>
                    (case and_terms q of
                       Some qs \<Rightarrow> allElementsIncluded qs ps
                     | None \<Rightarrow> list_ex (\<lambda>element. implies element q) ps)
                | None \<Rightarrow> expr_equals p q)))"
  by pat_completeness auto
termination
  by (relation "measure (\<lambda>(p, q). size p + size q)") (auto simp: terms_size)

declare implies.simps [simp del]

end
