(* ===== verification/ContextKeyLogic.thy ===== *)
theory ContextKeyLogic
  imports ContextKeys
begin

text \<open>
  What the operations on \<open>when\<close>-clause expressions (theory \<open>ContextKeys\<close>) do to their truth
  value: normalization computes the conjunction and the disjunction, \<open>negate\<close> the negation,
  constant substitution keeps the value, implication is sound.

  The interface \<open>expr_semantics\<close> says what normalization relies on: a truth value \<open>ev\<close> and a
  set \<open>good\<close> of expressions whose terms negate properly, whose cached negations are negations
  and on which \<open>equals\<close> implies having the same value.  It is interpreted on evaluation in a
  context, under the conditions on terms that \<open>expr_good\<close> states.
\<close>

section \<open>Flattening\<close>

definition flat_and :: "ContextKeyExpression \<Rightarrow> ContextKeyExpression list" where
  "flat_and e = (case e of TrueExpr \<Rightarrow> [] | AndExpr es _ \<Rightarrow> es | _ \<Rightarrow> [e])"

definition flat_or :: "ContextKeyExpression \<Rightarrow> ContextKeyExpression list" where
  "flat_or e = (case e of FalseExpr \<Rightarrow> [] | OrExpr es _ \<Rightarrow> es | _ \<Rightarrow> [e])"

definition flatten :: "('a \<Rightarrow> 'b list) \<Rightarrow> 'a option list \<Rightarrow> 'b list" where
  "flatten f arr = concat (map (case_option [] f) arr)"

lemma flatten_set: "x \<in> set (flatten f arr) \<longleftrightarrow> (\<exists>e. Some e \<in> set arr \<and> x \<in> set (f e))"
  by (induction arr) (auto simp: flatten_def split: option.splits)

lemma and_collect_eq:
  "and_collect arr acc t = (if Some FalseExpr \<in> set arr then None
     else Some (acc @ flatten flat_and arr, t \<or> Some TrueExpr \<in> set arr))"
proof (induction arr acc t rule: and_collect.induct)
  case (3 e arr acc t)
  then show ?case by (cases e) (simp_all add: flatten_def flat_and_def)
qed (simp_all add: flatten_def)

lemma or_collect_eq:
  "or_collect arr acc t = (if Some TrueExpr \<in> set arr then None
     else Some (acc @ flatten flat_or arr, t \<or> Some FalseExpr \<in> set arr))"
proof (induction arr acc t rule: or_collect.induct)
  case (3 e arr acc t)
  then show ?case by (cases e) (simp_all add: flatten_def flat_or_def)
qed (simp_all add: flatten_def)

lemma sort_insert_set [simp]: "set (sort_insert c x xs) = insert x (set xs)"
  by (induction xs) auto

lemma js_sort_set [simp]: "set (js_sort c xs) = set xs"
  by (induction xs) (simp_all add: js_sort_def)

lemma eliminate_duplicates_subset: "set (eliminate_duplicates xs) \<subseteq> set xs"
  by (induction xs rule: eliminate_duplicates.induct) auto

lemma eliminate_duplicates_Nil [simp]: "eliminate_duplicates xs = [] \<longleftrightarrow> xs = []"
  by (induction xs rule: eliminate_duplicates.induct) auto

lemma mapO_eq_Some: "mapO f xs = Some ys \<longleftrightarrow> (\<forall>x \<in> set xs. f x \<noteq> None) \<and> ys = map (the \<circ> f) xs"
proof (induction xs arbitrary: ys)
  case (Cons x xs)
  then show ?case by (cases "mapO f xs") (auto split: option.splits)
qed auto

lemma mapO_set:
  assumes "mapO f xs = Some ys"
  shows "y \<in> set ys \<longleftrightarrow> (\<exists>x \<in> set xs. f x = Some y)"
  using assms by (force simp: mapO_eq_Some image_iff)

lemma mapO_defined:
  assumes "mapO f xs = Some ys" and "x \<in> set xs"
  obtains y where "f x = Some y" and "y \<in> set ys"
proof -
  from assms obtain y where y: "f x = Some y" "ys = map (the \<circ> f) xs" by (auto simp: mapO_eq_Some)
  with assms(2) have "y \<in> set ys" by (force simp: image_iff)
  with y(1) show thesis by (rule that)
qed

lemma or_terms_Some [simp]: "or_terms e = Some es \<longleftrightarrow> (\<exists>n. e = OrExpr es n)"
  by (cases e) (auto simp: or_terms_def)

lemma distribute_stop:
  "\<not> length expr > 1 \<or> or_terms (last expr) = None \<Longrightarrow> distribute andC orC expr = Some expr"
  by (subst distribute.simps) auto

lemma distribute_step:
  "distribute andC orC (rest @ [second, OrExpr terms n]) =
    (case mapO (\<lambda>el. andC el second) terms of
       None \<Rightarrow> None
     | Some parts \<Rightarrow>
         (case orC parts (rest = []) of
            None \<Rightarrow> None
          | Some None \<Rightarrow> distribute andC orC rest
          | Some (Some r) \<Rightarrow> distribute andC orC (js_sort expr_cmp (rest @ [r]))))"
  by (subst distribute.simps) (simp add: or_terms_def Let_def butlast_append)

lemma distribute_cases:
  obtains (stop) "\<not> length expr > 1 \<or> or_terms (last expr) = None"
  | (step) rest second terms n where "expr = rest @ [second, OrExpr terms n]"
proof (cases "length expr > 1 \<and> or_terms (last expr) \<noteq> None")
  case True
  then obtain terms n where "last expr = OrExpr terms n" by auto
  moreover have "expr \<noteq> []" "butlast expr \<noteq> []" using True by (cases expr; auto)+
  ultimately have "expr = butlast expr @ [OrExpr terms n]"
    and "butlast expr = butlast (butlast expr) @ [last (butlast expr)]"
    using append_butlast_last_id by metis+
  then have "expr = butlast (butlast expr) @ [last (butlast expr), OrExpr terms n]"
    by (metis append.assoc append_Cons append_Nil)
  then show thesis by (rule step)
qed (use stop in blast)

text \<open>\<open>negate\<close> on the kinds of nodes.\<close>

definition is_term :: "ContextKeyExpression \<Rightarrow> bool" where
  "is_term e \<longleftrightarrow> (case e of AndExpr _ _ \<Rightarrow> False | OrExpr _ _ \<Rightarrow> False | _ \<Rightarrow> True)"

lemma negate_cached: "cached e = Some x \<Longrightarrow> negate K n e = Some x"
  by (cases n) simp_all

lemma negate_is_term: "cached e = None \<Longrightarrow> is_term e \<Longrightarrow> negate K n e = negate_term K e"
  by (cases n; cases e) (simp_all add: is_term_def)

lemma is_term_cases:
  obtains "is_term e" | es n where "e = AndExpr es n" | es n where "e = OrExpr es n"
  by (cases e) (simp_all add: is_term_def)

section \<open>The interface of normalization\<close>

locale expr_semantics =
  fixes K :: ck_constants
    and good :: "ContextKeyExpression \<Rightarrow> bool"
    and ev :: "ContextKeyExpression \<Rightarrow> bool"
  assumes ev_simps: "ev FalseExpr = False" "ev TrueExpr = True"
      "ev (AndExpr es n) = list_all ev es" "ev (OrExpr es n) = list_ex ev es"
    and good_const: "good FalseExpr" "good TrueExpr"
    and good_and: "good (AndExpr es n) \<longleftrightarrow> es \<noteq> [] \<and> list_all good es \<and>
      (case n of None \<Rightarrow> True | Some x \<Rightarrow> good x \<and> ev x = (\<not> list_all ev es))"
    and good_or: "good (OrExpr es n) \<longleftrightarrow> es \<noteq> [] \<and> list_all good es \<and>
      (case n of None \<Rightarrow> True | Some x \<Rightarrow> good x \<and> ev x = (\<not> list_ex ev es))"
    and good_cached: "good e \<Longrightarrow> cached e = Some x \<Longrightarrow> good x \<and> ev x = (\<not> ev e)"
    and equals_ev: "good a \<Longrightarrow> good b \<Longrightarrow> expr_equals a b \<Longrightarrow> ev a = ev b"
    and negate_term_ev: "good e \<Longrightarrow> negate_term K e = Some x \<Longrightarrow> good x \<and> ev x = (\<not> ev e)"
begin

definition neg_of :: "ContextKeyExpression option \<Rightarrow> bool \<Rightarrow> bool" where
  "neg_of n v \<longleftrightarrow> (case n of None \<Rightarrow> True | Some x \<Rightarrow> good x \<and> ev x = (\<not> v))"

lemma good_nodes:
  "es \<noteq> [] \<Longrightarrow> \<forall>e \<in> set es. good e \<Longrightarrow> neg_of n (\<forall>e \<in> set es. ev e) \<Longrightarrow> good (AndExpr es n)"
  "es \<noteq> [] \<Longrightarrow> \<forall>e \<in> set es. good e \<Longrightarrow> neg_of n (\<exists>e \<in> set es. ev e) \<Longrightarrow> good (OrExpr es n)"
  by (auto simp: good_and good_or neg_of_def list_all_iff list_ex_iff split: option.splits)

lemma good_children:
  "good (AndExpr es n) \<Longrightarrow> es \<noteq> [] \<and> (\<forall>e \<in> set es. good e)"
  "good (OrExpr es n) \<Longrightarrow> es \<noteq> [] \<and> (\<forall>e \<in> set es. good e)"
  by (auto simp: good_and good_or list_all_iff)

lemma ev_children:
  "ev (AndExpr es n) \<longleftrightarrow> (\<forall>e \<in> set es. ev e)" "ev (OrExpr es n) \<longleftrightarrow> (\<exists>e \<in> set es. ev e)"
  by (simp_all add: ev_simps list_all_iff list_ex_iff)

lemma flat_and_ev:
  assumes "good e"
  shows "(\<forall>x \<in> set (flat_and e). good x) \<and> (ev e \<longleftrightarrow> (\<forall>x \<in> set (flat_and e). ev x)) \<and>
    (flat_and e = [] \<longleftrightarrow> e = TrueExpr)"
  using assms by (cases e) (auto simp: flat_and_def ev_simps(1,2) ev_children dest: good_children)

lemma flat_or_ev:
  assumes "good e"
  shows "(\<forall>x \<in> set (flat_or e). good x) \<and> (ev e \<longleftrightarrow> (\<exists>x \<in> set (flat_or e). ev x)) \<and>
    (flat_or e = [] \<longleftrightarrow> e = FalseExpr)"
  using assms by (cases e) (auto simp: flat_or_def ev_simps(1,2) ev_children dest: good_children)

lemma eliminate_duplicates_ev:
  assumes "\<forall>e \<in> set xs. good e"
  shows "(\<forall>e \<in> set (eliminate_duplicates xs). ev e) \<longleftrightarrow> (\<forall>e \<in> set xs. ev e)"
    and "(\<exists>e \<in> set (eliminate_duplicates xs). ev e) \<longleftrightarrow> (\<exists>e \<in> set xs. ev e)"
  using assms by (induction xs rule: eliminate_duplicates.induct) (auto dest: equals_ev)

lemma redundant_spec:
  assumes "redundant neg xs = Some True" and "\<forall>e \<in> set xs. good e"
    and "\<And>x y. good x \<Longrightarrow> neg x = Some y \<Longrightarrow> good y \<and> ev y = (\<not> ev x)"
  shows "\<exists>x \<in> set xs. \<exists>y \<in> set xs. ev x = (\<not> ev y)"
  using assms(1,2)
proof (induction xs)
  case (Cons x xs)
  then obtain nx where nx: "neg x = Some nx" "xs \<noteq> []" by (auto split: if_splits option.splits)
  with assms(3) Cons.prems(2) have n: "good nx" "ev nx = (\<not> ev x)" by auto
  show ?case
  proof (cases "list_ex (expr_equals nx) xs")
    case True
    then obtain y where y: "y \<in> set xs" "expr_equals nx y" by (auto simp: list_ex_iff)
    with n Cons.prems(2) have "ev y = (\<not> ev x)" using equals_ev [of nx y] by simp
    with y(1) show ?thesis by auto
  next
    case False
    with Cons nx show ?thesis by auto
  qed
qed simp

text \<open>What the two creating functions promise on the operands \<open>arr\<close>.\<close>

definition and_result :: "ContextKeyExpression option list \<Rightarrow> ContextKeyExpression option \<Rightarrow> bool" where
  "and_result arr r \<longleftrightarrow>
     (case r of None \<Rightarrow> (\<forall>e. Some e \<notin> set arr)
      | Some e \<Rightarrow> good e \<and> (ev e \<longleftrightarrow> (\<forall>x. Some x \<in> set arr \<longrightarrow> ev x)))"

definition or_result :: "ContextKeyExpression option list \<Rightarrow> ContextKeyExpression option \<Rightarrow> bool" where
  "or_result arr r \<longleftrightarrow>
     (case r of None \<Rightarrow> (\<forall>e. Some e \<notin> set arr)
      | Some e \<Rightarrow> good e \<and> (ev e \<longleftrightarrow> (\<exists>x. Some x \<in> set arr \<and> ev x)))"

definition goods :: "ContextKeyExpression option list \<Rightarrow> bool" where
  "goods arr \<longleftrightarrow> (\<forall>e. Some e \<in> set arr \<longrightarrow> good e)"

lemma and_result_pair:
  "and_result [Some a, Some b] p \<Longrightarrow> \<exists>x. p = Some x \<and> good x \<and> ev x = (ev a \<and> ev b)"
  by (cases p) (auto simp: and_result_def)

lemma distribute_spec:
  assumes "distribute andC orC expr = Some expr'" and "expr \<noteq> []" and "\<forall>e \<in> set expr. good e"
    and andC: "\<And>a b r. good a \<Longrightarrow> good b \<Longrightarrow> andC a b = Some r \<Longrightarrow> and_result [Some a, Some b] r"
    and orC: "\<And>arr f r. goods arr \<Longrightarrow> orC arr f = Some r \<Longrightarrow> or_result arr r"
  shows "expr' \<noteq> [] \<and> (\<forall>e \<in> set expr'. good e) \<and> ((\<forall>e \<in> set expr'. ev e) \<longleftrightarrow> (\<forall>e \<in> set expr. ev e))"
  using assms(1-3)
proof (induction "length expr" arbitrary: expr rule: less_induct)
  case 1: less
  show ?case
  proof (cases expr rule: distribute_cases)
    case stop
    with 1(2-4) show ?thesis by (simp add: distribute_stop)
  next
    case (step rest second terms n)
    note expr = step
    from step 1(4) have g: "good second" "good (OrExpr terms n)" "\<forall>e \<in> set rest. good e" by simp_all
    then have gt: "terms \<noteq> []" "\<forall>e \<in> set terms. good e" using good_children(2) by blast+
    have d: "distribute andC orC (rest @ [second, OrExpr terms n]) = Some expr'" using 1(2) unfolding expr .
    obtain parts where parts: "mapO (\<lambda>el. andC el second) terms = Some parts"
      using d by (cases "mapO (\<lambda>el. andC el second) terms") (simp_all add: distribute_step)
    obtain r where r: "orC parts (rest = []) = Some r"
      using d by (cases "orC parts (rest = [])") (simp_all add: distribute_step parts)
    have part: "\<exists>el \<in> set terms. \<exists>x. p = Some x \<and> good x \<and> ev x = (ev el \<and> ev second)" if "p \<in> set parts" for p
    proof -
      from that obtain el where el: "el \<in> set terms" "andC el second = Some p" using mapO_set [OF parts] by auto
      with andC [of el second p] gt g(1) have "and_result [Some el, Some second] p" by simp
      with el(1) show ?thesis by (force simp: and_result_def split: option.splits)
    qed
    have every: "\<exists>x. Some x \<in> set parts \<and> ev x = (ev el \<and> ev second)" if "el \<in> set terms" for el
    proof -
      obtain p where p: "andC el second = Some p" "p \<in> set parts" by (rule mapO_defined [OF parts \<open>el \<in> set terms\<close>])
      with andC [of el second p] gt that g(1) have "and_result [Some el, Some second] p" by simp
      with p(2) show ?thesis by (force simp: and_result_def split: option.splits)
    qed
    have "goods parts" using part by (fastforce simp: goods_def)
    with orC r have res: "or_result parts r" by blast
    obtain el where "el \<in> set terms" using gt(1) by (cases terms) auto
    then obtain y where "Some y \<in> set parts" using every by blast
    with res obtain x where x: "r = Some x" "good x" "ev x = (\<exists>y. Some y \<in> set parts \<and> ev y)"
      by (cases r) (auto simp: or_result_def)
    have evx: "ev x \<longleftrightarrow> (\<exists>el \<in> set terms. ev el) \<and> ev second"
      unfolding x(3) using part every by (metis option.inject)
    let ?next = "js_sort expr_cmp (rest @ [x])"
    have "distribute andC orC ?next = Some expr'" using d x(1) by (simp add: distribute_step parts r)
    moreover have "length ?next < length expr" "\<forall>e \<in> set ?next. good e" using g(3) x(2) by (auto simp: expr)
    moreover have "length ?next \<noteq> 0" by simp
    then have "?next \<noteq> []" by blast
    ultimately have "expr' \<noteq> [] \<and> (\<forall>e \<in> set expr'. good e) \<and>
        ((\<forall>e \<in> set expr'. ev e) \<longleftrightarrow> (\<forall>e \<in> set ?next. ev e))"
      using 1(1) by blast
    then show ?thesis by (auto simp: expr evx ev_children)
  qed
qed

lemma negate_distribute_spec:
  assumes "negate_distribute andC orC xs = Some ys" and "\<forall>e \<in> set xs. good e"
    and andC: "\<And>a b r. good a \<Longrightarrow> good b \<Longrightarrow> andC a b = Some r \<Longrightarrow> and_result [Some a, Some b] r"
    and orC: "\<And>arr r. goods arr \<Longrightarrow> orC arr = Some r \<Longrightarrow> or_result arr r"
  shows "(\<forall>e \<in> set ys. good e) \<and> (xs \<noteq> [] \<longrightarrow> length ys = 1) \<and> ((\<forall>e \<in> set ys. ev e) \<longleftrightarrow> (\<forall>e \<in> set xs. ev e))"
  using assms(1,2)
proof (induction "length xs" arbitrary: xs rule: less_induct)
  case less
  consider "length xs \<le> 1" | l r rest where "xs = l # r # rest"
    by (cases xs; cases "tl xs") auto
  then show ?case
  proof cases
    case 1
    then have "ys = xs" using less(2) by (cases xs) auto
    with 1 less(3) show ?thesis by (cases xs) auto
  next
    case 2
    let ?pairs = "List.product (getTerminals l) (getTerminals r)"
    have terminal: "(\<forall>x \<in> set (getTerminals e). good x) \<and> (ev e \<longleftrightarrow> (\<exists>x \<in> set (getTerminals e). ev x))" if "good e" for e
      using that by (cases e) (auto simp: getTerminals_def or_terms_def ev_children dest: good_children)
    have g: "good l" "good r" "\<forall>e \<in> set rest. good e" using less(3) 2 by simp_all
    obtain parts where parts: "mapO (\<lambda>(l, r). andC l r) ?pairs = Some parts"
      using less(2) by (cases "mapO (\<lambda>(l, r). andC l r) ?pairs") (simp_all add: 2)
    obtain x where x: "orC parts = Some (Some x)" "negate_distribute andC orC (x # rest) = Some ys"
      using less(2) parts by (auto simp: 2 split: option.splits)
    have part: "\<exists>a \<in> set (getTerminals l). \<exists>b \<in> set (getTerminals r). \<exists>x. p = Some x \<and> good x \<and> ev x = (ev a \<and> ev b)"
      if "p \<in> set parts" for p
    proof -
      from that obtain a b where ab: "a \<in> set (getTerminals l)" "b \<in> set (getTerminals r)" "andC a b = Some p"
        using mapO_set [OF parts] by auto
      have "good a" "good b" using ab(1,2) terminal g by blast+
      from and_result_pair [OF andC [OF this ab(3)]] ab(1,2) show ?thesis by blast
    qed
    have every: "\<exists>x. Some x \<in> set parts \<and> ev x = (ev a \<and> ev b)"
      if "a \<in> set (getTerminals l)" "b \<in> set (getTerminals r)" for a b
    proof -
      have ab: "(a, b) \<in> set ?pairs" using that by simp
      obtain p where p: "(case (a, b) of (l, r) \<Rightarrow> andC l r) = Some p" "p \<in> set parts"
        by (rule mapO_defined [OF parts ab])
      have "good a" "good b" using that terminal g by blast+
      moreover from p(1) have "andC a b = Some p" by simp
      ultimately have "and_result [Some a, Some b] p" by (rule andC)
      from and_result_pair [OF this] p(2) show ?thesis by blast
    qed
    have "goods parts" using part by (fastforce simp: goods_def)
    with orC x(1) have "or_result parts (Some x)" by blast
    then have "good x" and "ev x \<longleftrightarrow> (\<exists>y. Some y \<in> set parts \<and> ev y)" by (simp_all add: or_result_def)
    moreover have "(\<exists>y. Some y \<in> set parts \<and> ev y) \<longleftrightarrow> ev l \<and> ev r"
    proof -
      have "(\<exists>y. Some y \<in> set parts \<and> ev y) \<longleftrightarrow>
          (\<exists>a \<in> set (getTerminals l). \<exists>b \<in> set (getTerminals r). ev a \<and> ev b)"
        using part every by fastforce
      with terminal [OF g(1)] terminal [OF g(2)] show ?thesis by blast
    qed
    moreover from \<open>good x\<close> g(3) have "\<forall>e \<in> set (x # rest). good e" by simp
    with less(1) [OF _ x(2)] have "(\<forall>e \<in> set ys. good e) \<and> length ys = 1 \<and>
        ((\<forall>e \<in> set ys. ev e) \<longleftrightarrow> (\<forall>e \<in> set (x # rest). ev e))" by (simp add: 2)
    ultimately show ?thesis by (auto simp: 2)
  qed
qed

text \<open>The contracts of the three functions at one bound.\<close>

definition and_spec :: "nat \<Rightarrow> bool" where
  "and_spec n \<longleftrightarrow> (\<forall>arr negated x r. goods arr \<longrightarrow> neg_of negated (\<forall>e. Some e \<in> set arr \<longrightarrow> ev e) \<longrightarrow>
     andCreate K n arr negated x = Some r \<longrightarrow> and_result arr r)"

definition or_spec :: "nat \<Rightarrow> bool" where
  "or_spec n \<longleftrightarrow> (\<forall>arr negated x r. goods arr \<longrightarrow> neg_of negated (\<exists>e. Some e \<in> set arr \<and> ev e) \<longrightarrow>
     orCreate K n arr negated x = Some r \<longrightarrow> or_result arr r)"

definition negate_spec :: "nat \<Rightarrow> bool" where
  "negate_spec n \<longleftrightarrow> (\<forall>e r. good e \<longrightarrow> negate K n e = Some r \<longrightarrow> good r \<and> ev r = (\<not> ev e))"

lemma flatten_ev:
  assumes "goods arr"
  shows "\<forall>e \<in> set (flatten flat_and arr). good e" "\<forall>e \<in> set (flatten flat_or arr). good e"
    and "(\<forall>e \<in> set (flatten flat_and arr). ev e) \<longleftrightarrow> (\<forall>e. Some e \<in> set arr \<longrightarrow> ev e)"
    and "(\<exists>e \<in> set (flatten flat_or arr). ev e) \<longleftrightarrow> (\<exists>e. Some e \<in> set arr \<and> ev e)"
    and "flatten flat_and arr = [] \<longleftrightarrow> (\<forall>e. Some e \<in> set arr \<longrightarrow> e = TrueExpr)"
    and "flatten flat_or arr = [] \<longleftrightarrow> (\<forall>e. Some e \<in> set arr \<longrightarrow> e = FalseExpr)"
proof -
  have a: "\<forall>x \<in> set (flat_and e). good x" "ev e \<longleftrightarrow> (\<forall>x \<in> set (flat_and e). ev x)"
      "flat_and e = [] \<longleftrightarrow> e = TrueExpr"
    and o: "\<forall>x \<in> set (flat_or e). good x" "ev e \<longleftrightarrow> (\<exists>x \<in> set (flat_or e). ev x)"
      "flat_or e = [] \<longleftrightarrow> e = FalseExpr" if "Some e \<in> set arr" for e
    using flat_and_ev [of e] flat_or_ev [of e] assms that unfolding goods_def by blast+
  show "\<forall>e \<in> set (flatten flat_and arr). good e" using a(1) by (auto simp: flatten_set)
  show "\<forall>e \<in> set (flatten flat_or arr). good e" using o(1) by (auto simp: flatten_set)
  show "(\<forall>e \<in> set (flatten flat_and arr). ev e) \<longleftrightarrow> (\<forall>e. Some e \<in> set arr \<longrightarrow> ev e)"
    using a(2) by (auto simp: flatten_set)
  show "(\<exists>e \<in> set (flatten flat_or arr). ev e) \<longleftrightarrow> (\<exists>e. Some e \<in> set arr \<and> ev e)"
    using o(2) unfolding flatten_set Bex_def by blast
  show "flatten flat_and arr = [] \<longleftrightarrow> (\<forall>e. Some e \<in> set arr \<longrightarrow> e = TrueExpr)"
    using a(3) by (auto simp: flatten_def split: option.splits)
  show "flatten flat_or arr = [] \<longleftrightarrow> (\<forall>e. Some e \<in> set arr \<longrightarrow> e = FalseExpr)"
    using o(3) by (auto simp: flatten_def split: option.splits)
qed

lemma single_hd: "length xs = 1 \<Longrightarrow> set xs = {hd xs}"
  by (cases xs) auto

lemma redundant_ev:
  assumes "negate_spec n" and "redundant (negate K n) xs = Some True" and "\<forall>e \<in> set xs. good e"
  shows "\<not> (\<forall>e \<in> set xs. ev e)" "\<exists>e \<in> set xs. ev e"
  using redundant_spec [OF assms(2,3)] assms(1) unfolding negate_spec_def by blast+

lemma and_step:
  assumes IH: "and_spec n" "or_spec n" "negate_spec n"
  shows "and_spec (Suc n)"
  unfolding and_spec_def
proof (intro allI impI)
  fix arr negated x r
  assume g: "goods arr" and neg: "neg_of negated (\<forall>e. Some e \<in> set arr \<longrightarrow> ev e)"
    and r: "andCreate K (Suc n) arr negated x = Some r"
  let ?flat = "flatten flat_and arr"
  let ?expr = "eliminate_duplicates (js_sort expr_cmp ?flat)"
  note f = flatten_ev [OF g]
  have gs: "\<forall>e \<in> set (js_sort expr_cmp ?flat). good e" using f(1) by simp
  have ge: "\<forall>e \<in> set ?expr. good e" using gs eliminate_duplicates_subset by blast
  have ee: "(\<forall>e \<in> set ?expr. ev e) \<longleftrightarrow> (\<forall>e. Some e \<in> set arr \<longrightarrow> ev e)"
    using eliminate_duplicates_ev(1) [OF gs] f(3) by simp
  have one: "and_result arr (Some (hd xs))"
    if "length xs = 1" "\<forall>e \<in> set xs. good e" "(\<forall>e \<in> set xs. ev e) \<longleftrightarrow> (\<forall>e. Some e \<in> set arr \<longrightarrow> ev e)" for xs
    using that single_hd [OF that(1)] by (simp add: and_result_def)
  consider "Some FalseExpr \<in> set arr" | "Some FalseExpr \<notin> set arr" "?flat = []"
    | "Some FalseExpr \<notin> set arr" "length ?flat = 1"
    | "Some FalseExpr \<notin> set arr" "?flat \<noteq> []" "length ?flat \<noteq> 1" "length ?expr = 1"
    | "Some FalseExpr \<notin> set arr" "?flat \<noteq> []" "length ?flat \<noteq> 1" "length ?expr \<noteq> 1" by blast
  then show "and_result arr r"
  proof cases
    case 1
    then have "r = Some FalseExpr" using r by (simp add: and_collect_eq)
    with 1 show ?thesis using good_const ev_simps(1) by (auto simp: and_result_def)
  next
    case 2
    then have "r = (if Some TrueExpr \<in> set arr then Some TrueExpr else None)" using r by (simp add: and_collect_eq)
    with 2 f(5) show ?thesis using good_const ev_simps(2) by (auto simp: and_result_def)
  next
    case 3
    then have "?flat \<noteq> []" by (cases ?flat) simp_all
    with 3 have "r = Some (hd ?flat)" using r by (simp add: and_collect_eq)
    with one [OF 3(2) f(1,3)] show ?thesis by simp
  next
    case 4
    then have "r = Some (hd ?expr)" using r by (simp add: and_collect_eq Let_def)
    with one [OF 4(4) ge ee] show ?thesis by simp
  next
    case 5
    let ?andC = "\<lambda>el second. andCreate K n [Some el, Some second] None x"
    let ?orC = "\<lambda>parts isFinished. orCreate K n parts None isFinished"
    obtain expr where d: "distribute ?andC ?orC ?expr = Some expr"
      using r 5 by (cases "distribute ?andC ?orC ?expr") (simp_all add: and_collect_eq Let_def)
    have ne: "?expr \<noteq> []" using 5(2) by (metis eliminate_duplicates_Nil js_sort_length length_0_conv)
    have andC: "and_result [Some a, Some b] r" if "good a" "good b" "?andC a b = Some r" for a b r
    proof -
      have "goods [Some a, Some b]" "neg_of None (\<forall>e. Some e \<in> set [Some a, Some b] \<longrightarrow> ev e)"
        using that by (auto simp: goods_def neg_of_def)
      with IH(1) that(3) show ?thesis unfolding and_spec_def by blast
    qed
    have orC: "or_result parts r" if "goods parts" "?orC parts b = Some r" for parts b r
      using IH(2) that unfolding or_spec_def by (force simp: neg_of_def)
    have "expr \<noteq> [] \<and> (\<forall>e \<in> set expr. good e) \<and> ((\<forall>e \<in> set expr. ev e) \<longleftrightarrow> (\<forall>e \<in> set ?expr. ev e))"
      by (rule distribute_spec [OF d ne ge]) (rule andC, assumption+, rule orC, assumption+)
    then have e: "expr \<noteq> []" "\<forall>e \<in> set expr. good e" "(\<forall>e \<in> set expr. ev e) \<longleftrightarrow> (\<forall>e. Some e \<in> set arr \<longrightarrow> ev e)"
      using ee by blast+
    have node: "and_result arr (Some (AndExpr expr negated))"
      using good_nodes(1) [OF e(1,2)] neg e(3) by (simp add: and_result_def ev_children)
    have r': "Some r = (if length expr = 1 then Some (Some (hd expr))
        else if x then (case redundant (negate K n) expr of None \<Rightarrow> None
          | Some True \<Rightarrow> Some (Some FalseExpr) | Some False \<Rightarrow> Some (Some (AndExpr expr negated)))
        else Some (Some (AndExpr expr negated)))"
      using r 5 d by (simp add: and_collect_eq Let_def)
    show ?thesis
    proof (cases "length expr = 1 \<or> \<not> x \<or> redundant (negate K n) expr = Some False")
      case True
      with r' node one [OF _ e(2,3)] show ?thesis by (auto split: if_splits)
    next
      case False
      with r' have "redundant (negate K n) expr = Some True" "r = Some FalseExpr"
        by (auto split: option.splits bool.splits)
      with redundant_ev(1) [OF IH(3) _ e(2)] e(3) show ?thesis
        using good_const ev_simps(1) by (simp add: and_result_def)
    qed
  qed
qed

lemma or_step:
  assumes IH: "negate_spec n"
  shows "or_spec (Suc n)"
  unfolding or_spec_def
proof (intro allI impI)
  fix arr negated x r
  assume g: "goods arr" and neg: "neg_of negated (\<exists>e. Some e \<in> set arr \<and> ev e)"
    and r: "orCreate K (Suc n) arr negated x = Some r"
  let ?sorted = "js_sort expr_cmp (flatten flat_or arr)"
  let ?expr = "eliminate_duplicates ?sorted"
  note f = flatten_ev [OF g]
  have gs: "\<forall>e \<in> set ?sorted. good e" "(\<exists>e \<in> set ?sorted. ev e) \<longleftrightarrow> (\<exists>e. Some e \<in> set arr \<and> ev e)"
    using f(2,4) by simp_all
  have ge: "\<forall>e \<in> set ?expr. good e" using gs eliminate_duplicates_subset by blast
  have ee: "(\<exists>e \<in> set ?expr. ev e) \<longleftrightarrow> (\<exists>e. Some e \<in> set arr \<and> ev e)"
    using eliminate_duplicates_ev(2) [OF gs(1)] gs(2) by simp
  have one: "or_result arr (Some (hd xs))"
    if "length xs = 1" "\<forall>e \<in> set xs. good e" "(\<exists>e \<in> set xs. ev e) \<longleftrightarrow> (\<exists>e. Some e \<in> set arr \<and> ev e)" for xs
    using that single_hd [OF that(1)] by (simp add: or_result_def)
  consider "Some TrueExpr \<in> set arr" | "Some TrueExpr \<notin> set arr" "flatten flat_or arr = []"
    | "Some TrueExpr \<notin> set arr" "flatten flat_or arr \<noteq> []" "length ?sorted = 1"
    | "Some TrueExpr \<notin> set arr" "flatten flat_or arr \<noteq> []" "length ?sorted \<noteq> 1" "length ?expr = 1"
    | "Some TrueExpr \<notin> set arr" "flatten flat_or arr \<noteq> []" "length ?sorted \<noteq> 1" "length ?expr \<noteq> 1" by blast
  then show "or_result arr r"
  proof cases
    case 1
    then have "r = Some TrueExpr" using r by (simp add: or_collect_eq)
    with 1 show ?thesis using good_const ev_simps(2) by (auto simp: or_result_def)
  next
    case 2
    then have "r = (if Some FalseExpr \<in> set arr then Some FalseExpr else None)" using r by (simp add: or_collect_eq)
    with 2 f(6) show ?thesis using good_const ev_simps(1) by (auto simp: or_result_def)
  next
    case 3
    then have "r = Some (hd ?sorted)" using r by (simp add: or_collect_eq Let_def)
    with one [OF 3(3) gs] show ?thesis by simp
  next
    case 4
    then have "r = Some (hd ?expr)" using r by (simp add: or_collect_eq Let_def)
    with one [OF 4(4) ge ee] show ?thesis by simp
  next
    case 5
    have "?expr \<noteq> []" using 5(2) by (metis eliminate_duplicates_Nil js_sort_length length_0_conv)
    then have node: "or_result arr (Some (OrExpr ?expr negated))"
      using good_nodes(2) [OF _ ge] neg ee by (simp add: or_result_def ev_children)
    have r': "Some r = (if x then (case redundant (negate K n) ?expr of None \<Rightarrow> None
          | Some True \<Rightarrow> Some (Some TrueExpr) | Some False \<Rightarrow> Some (Some (OrExpr ?expr negated)))
        else Some (Some (OrExpr ?expr negated)))"
      using r 5 by (simp add: or_collect_eq Let_def)
    show ?thesis
    proof (cases "\<not> x \<or> redundant (negate K n) ?expr = Some False")
      case True
      with r' node show ?thesis by (auto split: if_splits)
    next
      case False
      with r' have "redundant (negate K n) ?expr = Some True" "r = Some TrueExpr"
        by (auto split: option.splits bool.splits)
      with redundant_ev(2) [OF IH _ ge] ee show ?thesis
        using good_const ev_simps(2) by (simp add: or_result_def)
    qed
  qed
qed

lemma mapO_negate:
  assumes "negate_spec n" and "mapO (negate K n) es = Some result" and "\<forall>e \<in> set es. good e"
  shows "\<forall>e \<in> set result. good e"
    and "(\<forall>e \<in> set result. ev e) \<longleftrightarrow> \<not> (\<exists>e \<in> set es. ev e)"
    and "(\<exists>e \<in> set result. ev e) \<longleftrightarrow> \<not> (\<forall>e \<in> set es. ev e)"
proof -
  have n: "good y \<and> ev y = (\<not> ev e)" if "e \<in> set es" "negate K n e = Some y" for e y
    using assms(1,3) that unfolding negate_spec_def by blast
  have s: "y \<in> set result \<longleftrightarrow> (\<exists>e \<in> set es. negate K n e = Some y)" for y by (rule mapO_set [OF assms(2)])
  have t: "\<exists>y. negate K n e = Some y" if "e \<in> set es" for e using assms(2) that by (rule mapO_defined) blast
  show "\<forall>e \<in> set result. good e" using s n by blast
  show "(\<forall>e \<in> set result. ev e) \<longleftrightarrow> \<not> (\<exists>e \<in> set es. ev e)" using s n t by metis
  show "(\<exists>e \<in> set result. ev e) \<longleftrightarrow> \<not> (\<forall>e \<in> set es. ev e)" using s n t by metis
qed

lemma negate_atom:
  assumes "good e" and "cached e = None \<Longrightarrow> negate_term K e = Some r" and "\<And>y. cached e = Some y \<Longrightarrow> r = y"
  shows "good r \<and> ev r = (\<not> ev e)"
proof (cases "cached e")
  case None
  show ?thesis by (rule negate_term_ev [OF assms(1) assms(2) [OF None]])
next
  case (Some y)
  show ?thesis unfolding assms(3) [OF Some] by (rule good_cached [OF assms(1) Some])
qed

lemma negate_step:
  assumes IH: "and_spec n" "or_spec n" "negate_spec n"
  shows "negate_spec (Suc n)"
  unfolding negate_spec_def
proof (intro allI impI)
  fix e r assume g: "good e" and r: "negate K (Suc n) e = Some r"
  have orE: "good y \<and> ev y = (\<exists>z \<in> set ys. ev z)"
    if "orCreate K n (map Some ys) (Some e) True = Some (Some y)" "\<forall>z \<in> set ys. good z" "ev e = (\<not> (\<exists>z \<in> set ys. ev z))"
    for ys y
  proof -
    have "goods (map Some ys)" "neg_of (Some e) (\<exists>z. Some z \<in> set (map Some ys) \<and> ev z)"
      using that(2,3) g by (auto simp: goods_def neg_of_def)
    with IH(2) that(1) have "or_result (map Some ys) (Some y)" unfolding or_spec_def by blast
    then show ?thesis by (auto simp: or_result_def)
  qed
  consider "cached e \<noteq> None \<or> negate_term K e = Some r" | es n' where "e = AndExpr es n'" "cached e = None"
    | es n' where "e = OrExpr es n'" "cached e = None"
    using r negate_is_term [of e K "Suc n"] by (cases e rule: is_term_cases; cases "cached e") auto
  then show "good r \<and> ev r = (\<not> ev e)"
  proof cases
    case 1
    then show ?thesis using r negate_cached [of e _ K "Suc n"] by (intro negate_atom [OF g]) auto
  next
    case (2 es n')
    then obtain result where m: "mapO (negate K n) es = Some result"
        "orCreate K n (map Some result) (Some e) True = Some (Some r)"
      using r by (auto split: option.splits)
    note result = mapO_negate [OF IH(3) m(1) conjunct2 [OF good_children(1) [OF g [unfolded 2(1)]]]]
    have "ev e = (\<not> (\<exists>z \<in> set result. ev z))" using result(3) by (simp add: 2(1) ev_children)
    with orE [OF m(2) result(1)] show ?thesis by blast
  next
    case (3 es n')
    let ?andC = "\<lambda>l r. andCreate K n [Some l, Some r] None False"
    let ?orC = "\<lambda>parts. orCreate K n parts None False"
    obtain result ys where m: "mapO (negate K n) es = Some result" "negate_distribute ?andC ?orC result = Some ys"
        "orCreate K n (map Some ys) (Some e) True = Some (Some r)"
      using r 3 by (auto split: option.splits)
    note result = mapO_negate [OF IH(3) m(1) conjunct2 [OF good_children(2) [OF g [unfolded 3(1)]]]]
    have "(\<forall>e \<in> set ys. good e) \<and> (result \<noteq> [] \<longrightarrow> length ys = 1) \<and> ((\<forall>e \<in> set ys. ev e) \<longleftrightarrow> (\<forall>e \<in> set result. ev e))"
    proof (rule negate_distribute_spec [OF m(2) result(1)])
      fix a b r assume "good a" "good b" "?andC a b = Some r"
      moreover from this have "goods [Some a, Some b]" "neg_of None (\<forall>e. Some e \<in> set [Some a, Some b] \<longrightarrow> ev e)"
        by (auto simp: goods_def neg_of_def)
      ultimately show "and_result [Some a, Some b] r" using IH(1) unfolding and_spec_def by blast
    next
      fix parts r assume "goods parts" "?orC parts = Some r"
      then show "or_result parts r" using IH(2) unfolding or_spec_def by (force simp: neg_of_def)
    qed
    moreover have "result \<noteq> []" using m(1) good_children(2) [of es n'] g 3(1) by (auto simp: mapO_eq_Some)
    ultimately have ys: "\<forall>e \<in> set ys. good e" "length ys = 1" "(\<forall>e \<in> set ys. ev e) \<longleftrightarrow> (\<forall>e \<in> set result. ev e)" by blast+
    have "ev e = (\<not> (\<exists>z \<in> set ys. ev z))"
      using result(2) ys(3) single_hd [OF ys(2)] by (simp add: 3(1) ev_children)
    with orE [OF m(3) ys(1)] show ?thesis by blast
  qed
qed

theorem normalization_sound: "and_spec n \<and> or_spec n \<and> negate_spec n"
proof (induction n)
  case 0
  have "negate_spec 0"
    unfolding negate_spec_def
  proof (intro allI impI)
    fix e r assume "good e" "negate K 0 e = Some r"
    then show "good r \<and> ev r = (\<not> ev e)" using negate_cached [of e _ K 0] by (intro negate_atom) auto
  qed
  then show ?case by (simp add: and_spec_def or_spec_def)
qed (use and_step or_step negate_step in blast)

end

section \<open>Evaluation satisfies the interface\<close>

text \<open>
  The conditions on the terms of an expression, in a context:
    \<^item> a key that has become a constant has that value in the context;
    \<^item> comparisons are with a number, and the context holds something that reads as a number
      (otherwise a comparison and its negation are both false);
    \<^item> the value of an equality is not a boolean (\<open>create\<close> replaces those);
    \<^item> regular expressions with the same source have the same flags (\<open>equals\<close> compares only
      sources);
    \<^item> a cached negation is one.
\<close>

definition number_good :: "js_host \<Rightarrow> ck_context \<Rightarrow> js_string \<Rightarrow> js_prim \<Rightarrow> bool" where
  "number_good H ctx k v \<longleftrightarrow>
     (case v of JNum x \<Rightarrow> x \<noteq> NaN \<and> parseFloat (to_string H (ctx k)) \<noteq> NaN | _ \<Rightarrow> False)"

definition regex_good :: "(js_string \<Rightarrow> js_string) \<Rightarrow> regexp option \<Rightarrow> bool" where
  "regex_good F r \<longleftrightarrow> (case r of Some x \<Rightarrow> re_source x \<noteq> [] \<and> re_flags x = F (re_source x) | None \<Rightarrow> True)"

definition equals_good :: "ck_constants \<Rightarrow> js_host \<Rightarrow> ck_context \<Rightarrow> js_string \<Rightarrow> js_prim \<Rightarrow> bool" where
  "equals_good K H ctx k v \<longleftrightarrow>
     (case v of JBool _ \<Rightarrow> False | _ \<Rightarrow> True) \<and>
     (case K k of Some b \<Rightarrow> loose_eq H (ctx k) v = strict_eq v (trueValue b) | None \<Rightarrow> True)"

definition defined_good :: "ck_constants \<Rightarrow> ck_context \<Rightarrow> js_string \<Rightarrow> bool" where
  "defined_good K ctx k \<longleftrightarrow> (case K k of Some b \<Rightarrow> truthy (ctx k) = b | None \<Rightarrow> True)"

fun expr_good ::
  "ck_constants \<Rightarrow> js_host \<Rightarrow> ck_context \<Rightarrow> (js_string \<Rightarrow> js_string) \<Rightarrow> ContextKeyExpression \<Rightarrow> bool" where
  "expr_good K H ctx F FalseExpr = True"
| "expr_good K H ctx F TrueExpr = True"
| "expr_good K H ctx F (DefinedExpr k n) = (defined_good K ctx k \<and>
     (case n of None \<Rightarrow> True | Some x \<Rightarrow> expr_good K H ctx F x \<and> evaluate H ctx x = (\<not> truthy (ctx k))))"
| "expr_good K H ctx F (NotExpr k n) = (defined_good K ctx k \<and>
     (case n of None \<Rightarrow> True | Some x \<Rightarrow> expr_good K H ctx F x \<and> evaluate H ctx x = truthy (ctx k)))"
| "expr_good K H ctx F (EqualsExpr k v n) = (equals_good K H ctx k v \<and>
     (case n of None \<Rightarrow> True | Some x \<Rightarrow> expr_good K H ctx F x \<and> evaluate H ctx x = (\<not> loose_eq H (ctx k) v)))"
| "expr_good K H ctx F (NotEqualsExpr k v n) = (equals_good K H ctx k v \<and>
     (case n of None \<Rightarrow> True | Some x \<Rightarrow> expr_good K H ctx F x \<and> evaluate H ctx x = loose_eq H (ctx k) v))"
| "expr_good K H ctx F (AndExpr es n) = (es \<noteq> [] \<and> list_all (expr_good K H ctx F) es \<and>
     (case n of None \<Rightarrow> True | Some x \<Rightarrow> expr_good K H ctx F x \<and>
        evaluate H ctx x = (\<not> list_all (evaluate H ctx) es)))"
| "expr_good K H ctx F (RegexExpr k r) = regex_good F r"
| "expr_good K H ctx F (NotRegexExpr k r) = regex_good F r"
| "expr_good K H ctx F (OrExpr es n) = (es \<noteq> [] \<and> list_all (expr_good K H ctx F) es \<and>
     (case n of None \<Rightarrow> True | Some x \<Rightarrow> expr_good K H ctx F x \<and>
        evaluate H ctx x = (\<not> list_ex (evaluate H ctx) es)))"
| "expr_good K H ctx F (InExpr k v) = True"
| "expr_good K H ctx F (NotInExpr k v) = True"
| "expr_good K H ctx F (GreaterExpr k v n) = (number_good H ctx k v \<and>
     (case n of None \<Rightarrow> True | Some x \<Rightarrow> expr_good K H ctx F x \<and>
        evaluate H ctx x = (\<not> evaluate_number H ctx k v (\<lambda>x y. num_less y x))))"
| "expr_good K H ctx F (GreaterEqualsExpr k v n) = (number_good H ctx k v \<and>
     (case n of None \<Rightarrow> True | Some x \<Rightarrow> expr_good K H ctx F x \<and>
        evaluate H ctx x = (\<not> evaluate_number H ctx k v (\<lambda>x y. num_le y x))))"
| "expr_good K H ctx F (SmallerExpr k v n) = (number_good H ctx k v \<and>
     (case n of None \<Rightarrow> True | Some x \<Rightarrow> expr_good K H ctx F x \<and>
        evaluate H ctx x = (\<not> evaluate_number H ctx k v num_less)))"
| "expr_good K H ctx F (SmallerEqualsExpr k v n) = (number_good H ctx k v \<and>
     (case n of None \<Rightarrow> True | Some x \<Rightarrow> expr_good K H ctx F x \<and>
        evaluate H ctx x = (\<not> evaluate_number H ctx k v num_le)))"

lemma regex_source_eq: "regex_good F r \<Longrightarrow> regex_good F r' \<Longrightarrow> regex_source r = regex_source r' \<Longrightarrow> r = r'"
  by (cases r; cases r') (auto simp: regex_good_def regex_source_def)

lemma map_bools:
  assumes "map f xs = map f ys"
  shows "list_all f xs = list_all f ys" "list_ex f xs = list_ex f ys"
proof -
  have "list_all f zs = list_all id (map f zs)" "list_ex f zs = list_ex id (map f zs)" for zs
    by (simp_all add: list_all_iff list_ex_iff)
  with assms show "list_all f xs = list_all f ys" "list_ex f xs = list_ex f ys" by simp_all
qed

lemma expr_equals_evaluate:
  "expr_good K H ctx F a \<Longrightarrow> expr_good K H ctx F b \<Longrightarrow> expr_equals a b \<Longrightarrow> evaluate H ctx a = evaluate H ctx b"
  "list_all (expr_good K H ctx F) as \<Longrightarrow> list_all (expr_good K H ctx F) bs \<Longrightarrow> length as = length bs \<Longrightarrow>
     equals_loop as bs \<Longrightarrow> map (evaluate H ctx) as = map (evaluate H ctx) bs"
proof (induction a b and as bs rule: expr_equals_equals_loop.induct)
  case (1 es n b)
  then obtain es' n' where b: "b = AndExpr es' n'" "length es = length es'" "equals_loop es es'"
    by (auto split: ContextKeyExpression.splits)
  with 1 have "map (evaluate H ctx) es = map (evaluate H ctx) es'" by simp
  from map_bools(1) [OF this] show ?case by (simp add: b(1))
next
  case (2 es n b)
  then obtain es' n' where b: "b = OrExpr es' n'" "length es = length es'" "equals_loop es es'"
    by (auto split: ContextKeyExpression.splits)
  with 2 have "map (evaluate H ctx) es = map (evaluate H ctx) es'" by simp
  from map_bools(2) [OF this] show ?case by (simp add: b(1))
qed (auto simp: strict_eq_def split: ContextKeyExpression.splits list.splits dest: regex_source_eq)

lemma const_good [simp]: "expr_good K H ctx F (constExpr b)" "evaluate H ctx (constExpr b) = b"
  by (simp_all add: constExpr_def)

lemma withFloatOrStr_number: "number_good H ctx k v \<Longrightarrow> withFloatOrStr v f = f v"
  by (auto simp: withFloatOrStr_def number_good_def split: js_prim.splits)

lemma number_goodE:
  assumes "number_good H ctx k v"
  obtains x where "v = JNum x" and "x \<noteq> NaN" and "parseFloat (to_string H (ctx k)) \<noteq> NaN"
  using assms by (auto simp: number_good_def split: js_prim.splits)

lemma evaluate_number_negate:
  assumes "number_good H ctx k v"
  shows "evaluate_number H ctx k v num_le = (\<not> evaluate_number H ctx k v (\<lambda>x y. num_less y x))"
    and "evaluate_number H ctx k v num_less = (\<not> evaluate_number H ctx k v (\<lambda>x y. num_le y x))"
  using assms by (auto elim!: number_goodE simp: evaluate_number_def num_le_iff_not_less)

lemma negate_term_evaluate:
  assumes "expr_good K H ctx F e" and "negate_term K e = Some x"
  shows "expr_good K H ctx F x \<and> evaluate H ctx x = (\<not> evaluate H ctx e)"
proof (cases e)
  case (GreaterExpr k v n)
  with assms show ?thesis
    by (auto simp: negate_term_def SmallerEqualsExpr_create_def evaluate_number_negate withFloatOrStr_number)
next
  case (GreaterEqualsExpr k v n)
  with assms show ?thesis
    by (auto simp: negate_term_def SmallerExpr_create_def evaluate_number_negate withFloatOrStr_number)
next
  case (SmallerExpr k v n)
  with assms show ?thesis
    by (auto simp: negate_term_def GreaterEqualsExpr_create_def evaluate_number_negate withFloatOrStr_number)
next
  case (SmallerEqualsExpr k v n)
  with assms show ?thesis
    by (auto simp: negate_term_def GreaterExpr_create_def evaluate_number_negate withFloatOrStr_number)
next
  case (EqualsExpr k v n)
  with assms show ?thesis
    by (cases v) (auto simp: negate_term_def NotEqualsExpr_create_def equals_good_def split: option.splits)
next
  case (NotEqualsExpr k v n)
  with assms show ?thesis
    by (cases v) (auto simp: negate_term_def EqualsExpr_create_def equals_good_def split: option.splits)
qed (use assms in \<open>auto simp: negate_term_def NotExpr_create_def DefinedExpr_create_def defined_good_def
      split: option.splits\<close>)

interpretation ck: expr_semantics K "expr_good K H ctx F" "evaluate H ctx" for K H ctx F
proof
  fix e x assume "expr_good K H ctx F e" "cached e = Some x"
  then show "expr_good K H ctx F x \<and> evaluate H ctx x = (\<not> evaluate H ctx e)" by (cases e) auto
qed (simp_all add: expr_equals_evaluate(1) negate_term_evaluate)

text \<open>The promises of the locale, written out over evaluation.\<close>

lemma andCreate_evaluate:
  assumes "\<forall>e. Some e \<in> set arr \<longrightarrow> expr_good K H ctx F e"
    and "case negated of None \<Rightarrow> True | Some x \<Rightarrow> expr_good K H ctx F x \<and>
           evaluate H ctx x = (\<not> (\<forall>e. Some e \<in> set arr \<longrightarrow> evaluate H ctx e))"
    and "andCreate K n arr negated c = Some r"
  shows "case r of None \<Rightarrow> (\<forall>e. Some e \<notin> set arr)
    | Some e \<Rightarrow> expr_good K H ctx F e \<and> (evaluate H ctx e \<longleftrightarrow> (\<forall>x. Some x \<in> set arr \<longrightarrow> evaluate H ctx x))"
  using ck.normalization_sound [of K H ctx F n] assms
  unfolding ck.and_spec_def ck.goods_def ck.neg_of_def ck.and_result_def by blast

lemma orCreate_evaluate:
  assumes "\<forall>e. Some e \<in> set arr \<longrightarrow> expr_good K H ctx F e"
    and "case negated of None \<Rightarrow> True | Some x \<Rightarrow> expr_good K H ctx F x \<and>
           evaluate H ctx x = (\<not> (\<exists>e. Some e \<in> set arr \<and> evaluate H ctx e))"
    and "orCreate K n arr negated c = Some r"
  shows "case r of None \<Rightarrow> (\<forall>e. Some e \<notin> set arr)
    | Some e \<Rightarrow> expr_good K H ctx F e \<and> (evaluate H ctx e \<longleftrightarrow> (\<exists>x. Some x \<in> set arr \<and> evaluate H ctx x))"
  using ck.normalization_sound [of K H ctx F n] assms
  unfolding ck.or_spec_def ck.goods_def ck.neg_of_def ck.or_result_def by blast

lemma negate_evaluate:
  assumes "expr_good K H ctx F e" and "negate K n e = Some r"
  shows "expr_good K H ctx F r \<and> evaluate H ctx r = (\<not> evaluate H ctx e)"
  using ck.normalization_sound [of K H ctx F n] assms unfolding ck.negate_spec_def by blast

text \<open>A concrete engine and context for the witnesses: only the key \<open>a\<close> is set, to \<open>true\<close>.\<close>

definition example_host :: js_host where
  "example_host = \<lparr>numberToString = \<lambda>_. [], regexTest = \<lambda>_ _. False, toLowerCase = id, isWindows = False\<rparr>"

definition example_context :: ck_context where
  "example_context k = (if k = js ''a'' then Prim (JBool True) else Prim JUndefined)"

definition example_keys :: "ContextKeyExpression list" where
  "example_keys = [DefinedExpr (js ''a'') None, DefinedExpr (js ''b'') None]"

lemma example_ab: "js ''a'' \<noteq> js ''b''" "js ''b'' \<noteq> js ''a''"
  by code_simp+

lemma example_evaluate:
  "evaluate example_host example_context (DefinedExpr (js ''a'') n)"
  "\<not> evaluate example_host example_context (DefinedExpr (js ''b'') n)"
  by (simp_all add: example_context_def truthy_def example_ab)

section \<open>Constant substitution\<close>

lemma substitute_term_evaluate:
  assumes "expr_good K H ctx F e" and "is_term e"
  shows "\<exists>e'. snd (ck_substituteConstants (term_methods e) K) = Some e' \<and> expr_good K H ctx F e' \<and> evaluate H ctx e' = evaluate H ctx e"
proof (cases e)
  case (EqualsExpr k v n)
  with assms show ?thesis by (cases "K k") (auto simp: equals_good_def)
next
  case (NotEqualsExpr k v n)
  with assms show ?thesis by (cases "K k") (auto simp: equals_good_def)
next
  case (DefinedExpr k n)
  with assms show ?thesis by (cases "K k") (auto simp: defined_good_def)
next
  case (NotExpr k n)
  with assms show ?thesis by (cases "K k") (auto simp: defined_good_def)
qed (use assms in \<open>simp_all add: is_term_def\<close>)

lemma substitute_result:
  assumes "Some (ck_substituteConstants (term_methods e) K) = Some (c, r)" and "expr_good K H ctx F e" and "is_term e"
  shows "\<exists>e'. r = Some e' \<and> expr_good K H ctx F e' \<and> evaluate H ctx e' = evaluate H ctx e"
  using substitute_term_evaluate [OF assms(2,3)] assms(1) by simp

lemma substituted_array:
  assumes "list_all2 (\<lambda>e r. \<exists>e'. r = Some e' \<and> g e' \<and> f e' = f e) es arr"
  shows "\<forall>e. Some e \<in> set arr \<longrightarrow> g e" "(\<forall>e. Some e \<in> set arr \<longrightarrow> f e) \<longleftrightarrow> list_all f es"
    "(\<exists>e. Some e \<in> set arr \<and> f e) \<longleftrightarrow> list_ex f es" "(\<forall>e. Some e \<notin> set arr) \<longleftrightarrow> es = []"
  using assms by (induction rule: list_all2_induct) auto

lemma substituteConstants_evaluate:
  "substituteConstants K n e = Some (c, r) \<Longrightarrow> expr_good K H ctx F e \<Longrightarrow>
     \<exists>e'. r = Some e' \<and> expr_good K H ctx F e' \<and> evaluate H ctx e' = evaluate H ctx e"
  "eliminateConstantsInArray K n es = Some (cs, arr) \<Longrightarrow> list_all (expr_good K H ctx F) es \<Longrightarrow>
     list_all2 (\<lambda>e r. \<exists>e'. r = Some e' \<and> expr_good K H ctx F e' \<and> evaluate H ctx e' = evaluate H ctx e) es arr"
proof (induction K n e and K n es arbitrary: c r and cs arr
    rule: substituteConstants_eliminateConstantsInArray.induct)
  case (1 K n es negated)
  then obtain ch exprArr where el: "eliminateConstantsInArray K n es = Some (ch, exprArr)"
    by (auto split: option.splits)
  show ?case
  proof (cases ch)
    case True
    with 1(2) el have r: "andCreate K n exprArr negated False = Some r" by auto
    from 1(3) have "list_all (expr_good K H ctx F) es" by simp
    note s = substituted_array [OF 1(1) [OF el this]]
    have "case negated of None \<Rightarrow> True | Some x \<Rightarrow> expr_good K H ctx F x \<and>
        evaluate H ctx x = (\<not> (\<forall>e. Some e \<in> set exprArr \<longrightarrow> evaluate H ctx e))"
      using 1(3) unfolding s(2) by simp
    from andCreate_evaluate [OF s(1) this r] 1(3) s(2,4) show ?thesis by (cases r) auto
  qed (use 1(2,3) el in auto)
next
  case (2 K n es negated)
  then obtain ch exprArr where el: "eliminateConstantsInArray K n es = Some (ch, exprArr)"
    by (auto split: option.splits)
  show ?case
  proof (cases ch)
    case True
    with 2(2) el have r: "orCreate K n exprArr negated False = Some r" by auto
    from 2(3) have "list_all (expr_good K H ctx F) es" by simp
    note s = substituted_array [OF 2(1) [OF el this]]
    have "case negated of None \<Rightarrow> True | Some x \<Rightarrow> expr_good K H ctx F x \<and>
        evaluate H ctx x = (\<not> (\<exists>e. Some e \<in> set exprArr \<and> evaluate H ctx e))"
      using 2(3) unfolding s(3) by simp
    from orCreate_evaluate [OF s(1) this r] 2(3) s(3,4) show ?thesis by (cases r) auto
  qed (use 2(2,3) el in auto)
next
  case (5 K n e es)
  then obtain c1 e1 cs1 arr1 where s: "substituteConstants K n e = Some (c1, e1)"
      "eliminateConstantsInArray K n es = Some (cs1, arr1)" "arr = e1 # arr1"
    by (auto split: option.splits)
  with 5(1) [OF s(1)] 5(2) [OF s(1) refl s(2)] 5(4) show ?case by simp
qed ((simp only: substituteConstants.simps, erule (1) substitute_result, simp add: is_term_def)+, simp)

lemma equal_after_substitution:
  assumes "expr_good K H ctx F e" and "expr_good K H ctx F e2"
    and eq: "expressionsAreEqualWithConstantSubstitution K n (Some e) (Some e2) = Some True"
  shows "evaluate H ctx e = evaluate H ctx e2"
proof -
  from eq obtain c r c2 r2 where s: "substituteConstants K n e = Some (c, r)" "substituteConstants K n e2 = Some (c2, r2)"
    by (cases "substituteConstants K n e"; cases "substituteConstants K n e2")
      (auto simp: expressionsAreEqualWithConstantSubstitution_def Let_def split: option.splits)
  obtain e' where r: "r = Some e'" "expr_good K H ctx F e'" "evaluate H ctx e' = evaluate H ctx e"
    using substituteConstants_evaluate(1) [OF s(1) assms(1)] by blast
  obtain e2' where r2: "r2 = Some e2'" "expr_good K H ctx F e2'" "evaluate H ctx e2' = evaluate H ctx e2"
    using substituteConstants_evaluate(1) [OF s(2) assms(2)] by blast
  have "expr_equals e' e2'"
    using eq s r(1) r2(1) by (simp add: expressionsAreEqualWithConstantSubstitution_def)
  from expr_equals_evaluate(1) [OF r(2) r2(2) this] r(3) r2(3) show ?thesis by simp
qed

section \<open>Implication\<close>

text \<open>
  Merging two sorted arrays by \<open>cmp\<close> finds equal terms only when incomparable values are equal:
  a number and a string that does not read as a number compare as equal.  Equality values are
  strings here, the way the parser makes them.
\<close>

fun string_values :: "ContextKeyExpression \<Rightarrow> bool" where
  "string_values (EqualsExpr k v n) = (case v of JStr _ \<Rightarrow> True | _ \<Rightarrow> False)"
| "string_values (NotEqualsExpr k v n) = (case v of JStr _ \<Rightarrow> True | _ \<Rightarrow> False)"
| "string_values (AndExpr es n) = list_all string_values es"
| "string_values (OrExpr es n) = list_all string_values es"
| "string_values e = True"

lemma exprType_const [simp]: "exprType b = 0 \<longleftrightarrow> b = FalseExpr" "exprType b = 1 \<longleftrightarrow> b = TrueExpr"
  by (cases b; simp)+

lemma cmp_zero [simp]:
  "cmp1 k k' = 0 \<longleftrightarrow> k = k'"
  "cmp2 k (JStr s) k' (JStr s') = 0 \<longleftrightarrow> k = k' \<and> s = s'"
  "cmp_regex k r k' r' = 0 \<longleftrightarrow> k = k' \<and> regex_source r = regex_source r'"
  by (auto simp: cmp1_def cmp2_def cmp_regex_def js_less_def)

lemma cmp2_number:
  assumes "number_good H ctx k v" and "number_good H ctx k' v'" and "cmp2 k v k' v' = 0"
  shows "k = k' \<and> v = v'"
proof -
  obtain x y where v: "v = JNum x" "x \<noteq> NaN" "v' = JNum y" "y \<noteq> NaN"
    using assms(1,2) by (auto elim!: number_goodE)
  have "x = y" if "\<not> num_less x y" "\<not> num_less y x" using that v by (cases x; cases y) auto
  with assms(3) v show ?thesis by (auto simp: cmp2_def js_less_def split: if_splits)
qed

lemma term_cmp_zero:
  assumes "expr_good K H ctx F a" and "expr_good K H ctx F b" and "string_values a" and "string_values b"
    and "expr_cmp a b = 0" and "is_term a"
  shows "evaluate H ctx a = evaluate H ctx b"
proof (cases a)
  case (EqualsExpr k v n)
  with assms show ?thesis by (cases b) (auto split: js_prim.splits)
next
  case (NotEqualsExpr k v n)
  with assms show ?thesis by (cases b) (auto split: js_prim.splits)
next
  case (GreaterExpr k v n)
  with assms show ?thesis by (cases b) (auto dest: cmp2_number)
next
  case (GreaterEqualsExpr k v n)
  with assms show ?thesis by (cases b) (auto dest: cmp2_number)
next
  case (SmallerExpr k v n)
  with assms show ?thesis by (cases b) (auto dest: cmp2_number)
next
  case (SmallerEqualsExpr k v n)
  with assms show ?thesis by (cases b) (auto dest: cmp2_number)
qed (use assms in \<open>auto simp: is_term_def split: ContextKeyExpression.splits dest: regex_source_eq\<close>)

lemma expr_cmp_zero:
  "expr_good K H ctx F a \<Longrightarrow> expr_good K H ctx F b \<Longrightarrow> string_values a \<Longrightarrow> string_values b \<Longrightarrow>
     expr_cmp a b = 0 \<Longrightarrow> evaluate H ctx a = evaluate H ctx b"
  "list_all (expr_good K H ctx F) as \<Longrightarrow> list_all (expr_good K H ctx F) bs \<Longrightarrow> list_all string_values as \<Longrightarrow>
     list_all string_values bs \<Longrightarrow> length as = length bs \<Longrightarrow> cmp_loop as bs = 0 \<Longrightarrow>
     map (evaluate H ctx) as = map (evaluate H ctx) bs"
proof (induction a b and as bs rule: expr_cmp_cmp_loop.induct)
  case (1 es n b)
  then obtain es' n' where b: "b = AndExpr es' n'" "length es = length es'" "cmp_loop es es' = 0"
    by (cases b) (auto split: if_splits)
  with 1 have "map (evaluate H ctx) es = map (evaluate H ctx) es'" by simp
  from map_bools(1) [OF this] show ?case by (simp add: b(1))
next
  case (2 es n b)
  then obtain es' n' where b: "b = OrExpr es' n'" "length es = length es'" "cmp_loop es es' = 0"
    by (cases b) (auto split: if_splits)
  with 2 have "map (evaluate H ctx) es = map (evaluate H ctx) es'" by simp
  from map_bools(2) [OF this] show ?case by (simp add: b(1))
next
  case (5 x xs ys)
  then show ?case by (cases ys) (auto simp: Let_def split: if_splits)
qed ((erule (4) term_cmp_zero, simp add: is_term_def)+, simp)

abbreviation (input) sound :: "ck_constants \<Rightarrow> js_host \<Rightarrow> ck_context \<Rightarrow> (js_string \<Rightarrow> js_string) \<Rightarrow>
    ContextKeyExpression \<Rightarrow> bool" where
  "sound K H ctx F e \<equiv> expr_good K H ctx F e \<and> string_values e"

lemma allElementsIncluded_zero: "allElementsIncluded p q \<Longrightarrow> x \<in> set p \<Longrightarrow> \<exists>y \<in> set q. expr_cmp x y = 0"
  by (induction p q rule: allElementsIncluded.induct) (auto simp: Let_def split: if_splits)

lemma allElementsIncluded_evaluate:
  assumes "allElementsIncluded p q" and "\<forall>x \<in> set p. sound K H ctx F x" and "\<forall>y \<in> set q. sound K H ctx F y"
    and "x \<in> set p"
  shows "\<exists>y \<in> set q. evaluate H ctx x = evaluate H ctx y"
proof -
  obtain y where y: "y \<in> set q" "expr_cmp x y = 0" using allElementsIncluded_zero [OF assms(1,4)] by blast
  with assms(2-4) expr_cmp_zero(1) [of K H ctx F x y] show ?thesis by blast
qed

lemma sound_terms:
  assumes "sound K H ctx F e"
  shows "or_terms e = Some es \<Longrightarrow> (\<forall>x \<in> set es. sound K H ctx F x) \<and> evaluate H ctx e = (\<exists>x \<in> set es. evaluate H ctx x)"
    and "and_terms e = Some es \<Longrightarrow> (\<forall>x \<in> set es. sound K H ctx F x) \<and> evaluate H ctx e = (\<forall>x \<in> set es. evaluate H ctx x)"
  using assms by (cases e; auto simp: and_terms_def list_all_iff list_ex_iff)+

lemma implies_evaluate:
  "implies p q \<Longrightarrow> sound K H ctx F p \<Longrightarrow> sound K H ctx F q \<Longrightarrow> evaluate H ctx p \<Longrightarrow> evaluate H ctx q"
proof (induction p q rule: implies.induct)
  case (1 p q)
  note sp = sound_terms [OF 1(4)] and sq = sound_terms [OF 1(5)]
  consider "p = FalseExpr \<or> q = TrueExpr"
    | ps qs where "or_terms p = Some ps" "or_terms q = Some qs" "allElementsIncluded ps qs"
    | qs where "\<not> (p = FalseExpr \<or> q = TrueExpr)" "or_terms p = None" "or_terms q = Some qs"
        "list_ex (\<lambda>element. implies p element) qs"
    | ps qs where "and_terms p = Some ps" "and_terms q = Some qs" "allElementsIncluded qs ps"
    | ps where "\<not> (p = FalseExpr \<or> q = TrueExpr)" "or_terms p = None" "or_terms q = None" "and_terms p = Some ps"
        "and_terms q = None" "list_ex (\<lambda>element. implies element q) ps"
    | "expr_equals p q"
    using 1(3) by (subst (asm) implies.simps) (auto split: option.splits if_splits)
  then show ?case
  proof cases
    case 1
    with \<open>evaluate H ctx p\<close> show ?thesis by auto
  next
    case (2 ps qs)
    with sp(1) sq(1) allElementsIncluded_evaluate [OF 2(3), of K H ctx F] \<open>evaluate H ctx p\<close> show ?thesis by metis
  next
    case (3 qs)
    then obtain y where y: "y \<in> set qs" "implies p y" by (auto simp: list_ex_iff)
    with 1(2) [OF 3(1-3) y] 1(4,6) sq(1) [OF 3(3)] show ?thesis by blast
  next
    case (4 ps qs)
    with sp(2) sq(2) allElementsIncluded_evaluate [OF 4(3), of K H ctx F] \<open>evaluate H ctx p\<close> show ?thesis by metis
  next
    case (5 ps)
    then obtain x where x: "x \<in> set ps" "implies x q" by (auto simp: list_ex_iff)
    with 1(1) [OF 5(1-5) x] 1(5,6) sp(2) [OF 5(4)] show ?thesis by blast
  next
    case 6
    with expr_equals_evaluate(1) 1(4-6) show ?thesis by blast
  qed
qed

text \<open>
  \<^bold>\<open>C22.\<close> When \<open>implies p q\<close> says so, \<open>q\<close> holds in every context in which \<open>p\<close> holds and which
  meets the conditions \<open>expr_good\<close> on the terms of both (comparisons are with numbers and their
  keys read as numbers there, constant keys have their values, regular expressions with the same
  source have the same flags), for expressions whose equality values are strings.  The lemma
  \<open>implies_unsound_on_strings\<close> below shows that the conditions are needed.
\<close>

theorem implies_sound:
  assumes "implies p q" and "expr_good K H ctx F p" "string_values p" and "expr_good K H ctx F q" "string_values q"
  shows "evaluate H ctx p \<longrightarrow> evaluate H ctx q"
  using implies_evaluate [OF assms(1)] assms(2-5) by blast

theorem implies_sound_witness:
  "implies (AndExpr example_keys None) (DefinedExpr (js ''b'') None) \<and>
   evaluate example_host (\<lambda>_. Prim (JBool True)) (DefinedExpr (js ''b'') None)"
proof -
  let ?K = "\<lambda>_ :: js_string. None :: bool option" and ?F = "\<lambda>_ :: js_string. [] :: js_string"
  let ?ctx = "\<lambda>_ :: js_string. Prim (JBool True)"
  let ?p = "AndExpr example_keys None" and ?q = "DefinedExpr (js ''b'') None"
  have i: "implies ?p ?q" by code_simp
  have g: "expr_good ?K example_host ?ctx ?F ?p" "string_values ?p"
    "expr_good ?K example_host ?ctx ?F ?q" "string_values ?q"
    by (simp_all add: example_keys_def defined_good_def)
  have "evaluate example_host ?ctx ?p" by (simp add: example_keys_def truthy_def)
  with implies_sound [OF i g] i show ?thesis by blast
qed

text \<open>
  Without the condition on the values \<open>implies\<close> can be wrong: \<open>a && b > 5\<close> is taken to imply
  \<open>a && b > x\<close>, which is never true.
\<close>

lemma implies_unsound_on_strings:
  "implies (AndExpr [DefinedExpr (js ''a'') None, GreaterExpr (js ''b'') (JNum (Fin 5)) None] None)
     (AndExpr [DefinedExpr (js ''a'') None, GreaterExpr (js ''b'') (JStr (js ''x'')) None] None)"
  "\<not> evaluate H ctx (AndExpr [DefinedExpr (js ''a'') None, GreaterExpr (js ''b'') (JStr (js ''x'')) None] None)"
proof -
  have "js_less (JNum (Fin 5)) (JStr (js ''x'')) = False" "js_less (JStr (js ''x'')) (JNum (Fin 5)) = False"
    by code_simp+
  then show "implies (AndExpr [DefinedExpr (js ''a'') None, GreaterExpr (js ''b'') (JNum (Fin 5)) None] None)
     (AndExpr [DefinedExpr (js ''a'') None, GreaterExpr (js ''b'') (JStr (js ''x'')) None] None)"
    by (subst implies.simps) (simp add: or_terms_def and_terms_def cmp1_def cmp2_def)
qed (simp add: evaluate_number_def)

end
