(* ===== verification/ContextKeyForms.thy ===== *)
theory ContextKeyForms
  imports ContextKeyLogic
begin

text \<open>
  The shape of normalized \<open>when\<close>-clause expressions and the termination of normalization
  (theory \<open>ContextKeys\<close>).  The printed syntax has no parentheses around disjunctions, so
  \<open>andCreate\<close> distributes them: no disjunction stands under a conjunction.  This rests on the
  sorting of disjunctions behind everything they are combined with, which the numbering of the
  classes gives only for the classes numbered below \<open>Or\<close>; for the others (\<open>in\<close>, \<open>not in\<close> and
  the numeric comparisons) the last lemma shows a conjunction that is left undistributed.

  Normalization and negation call each other without an obvious measure; on these forms they
  are shown to return, with a result that does not depend on the bound once it is large enough.
\<close>

section \<open>Convergence\<close>

definition converges :: "(nat \<Rightarrow> 'a option) \<Rightarrow> 'a \<Rightarrow> bool" where
  "converges f r \<longleftrightarrow> (\<exists>N. \<forall>n \<ge> N. f n = Some r)"

lemma converges_const [simp]: "converges (\<lambda>_. Some r) r"
  by (simp add: converges_def)

lemma converges_Suc: "converges (\<lambda>n. f (Suc n)) r \<Longrightarrow> converges f r"
  unfolding converges_def by (metis Suc_le_D Suc_le_mono)

lemma converges_bind:
  assumes "converges f x" and "converges (\<lambda>n. g n x) y" and "\<And>n x. f n = Some x \<Longrightarrow> h n = g n x"
  shows "converges h y"
proof -
  obtain N M where "\<forall>n \<ge> N. f n = Some x" "\<forall>n \<ge> M. g n x = Some y"
    using assms(1,2) by (auto simp: converges_def)
  with assms(3) have "\<forall>n \<ge> max N M. h n = Some y" by simp
  then show ?thesis unfolding converges_def by blast
qed

lemma converges_mapO:
  assumes "\<forall>x \<in> set xs. \<exists>y. converges (\<lambda>n. f n x) y \<and> P x y"
  shows "\<exists>ys. converges (\<lambda>n. mapO (f n) xs) ys \<and> list_all2 P xs ys"
  using assms
proof (induction xs)
  case (Cons x xs)
  then obtain y ys where y: "converges (\<lambda>n. f n x) y" "P x y"
    and ys: "converges (\<lambda>n. mapO (f n) xs) ys" "list_all2 P xs ys" by auto
  have "converges (\<lambda>n. map_option ((#) y) (mapO (f n) xs)) (y # ys)"
    using ys(1) by (rule converges_bind) simp_all
  with y(1) have "converges (\<lambda>n. mapO (f n) (x # xs)) (y # ys)"
    by (rule converges_bind [where g = "\<lambda>n y. map_option ((#) y) (mapO (f n) xs)"]) (auto split: option.splits)
  with y(2) ys(2) show ?case by auto
qed auto

lemma converges_redundant:
  assumes "\<forall>x \<in> set xs. \<exists>y. converges (\<lambda>n. f n x) y"
  shows "\<exists>b. converges (\<lambda>n. redundant (f n) xs) b"
  using assms
proof (induction xs)
  case (Cons x xs)
  then obtain y b where y: "converges (\<lambda>n. f n x) y" and b: "converges (\<lambda>n. redundant (f n) xs) b" by auto
  show ?case
  proof (cases "xs = []")
    case False
    define r where "r = (if list_ex (expr_equals y) xs then True else b)"
    have "converges (\<lambda>n. if list_ex (expr_equals y) xs then Some True else redundant (f n) xs) r"
      using b by (simp add: r_def converges_def)
    with y have "converges (\<lambda>n. redundant (f n) (x # xs)) r"
      by (rule converges_bind [where g = "\<lambda>n y. if list_ex (expr_equals y) xs then Some True else redundant (f n) xs"])
        (simp add: False)
    then show ?thesis by blast
  next
    case True
    then show ?thesis by (intro exI [of _ False]) simp
  qed
qed (intro exI [of _ False], simp)

section \<open>Forms\<close>

definition is_lit :: "ContextKeyExpression \<Rightarrow> bool" where
  "is_lit e \<longleftrightarrow> exprType e \<in> {2, 3, 4, 5, 7, 8}"

definition is_const :: "ContextKeyExpression \<Rightarrow> bool" where
  "is_const e \<longleftrightarrow> e = TrueExpr \<or> e = FalseExpr"

text \<open>Terms of the classes below \<open>Or\<close>, conjunctions of them and disjunctions of those.\<close>

inductive literal :: "ContextKeyExpression \<Rightarrow> bool" where
  "is_lit e \<Longrightarrow> (\<And>x. cached e = Some x \<Longrightarrow> is_const x \<or> literal x) \<Longrightarrow> literal e"

inductive conj_form :: "ContextKeyExpression \<Rightarrow> bool"
  and dnf_form :: "ContextKeyExpression \<Rightarrow> bool" where
  conj_const: "is_const e \<Longrightarrow> conj_form e"
| conj_literal: "literal e \<Longrightarrow> conj_form e"
| conj_and: "es \<noteq> [] \<Longrightarrow> (\<And>x. x \<in> set es \<Longrightarrow> conj_form x) \<Longrightarrow> (\<And>x. n = Some x \<Longrightarrow> dnf_form x) \<Longrightarrow>
    conj_form (AndExpr es n)"
| dnf_conj: "conj_form e \<Longrightarrow> dnf_form e"
| dnf_or: "es \<noteq> [] \<Longrightarrow> (\<And>x. x \<in> set es \<Longrightarrow> conj_form x) \<Longrightarrow> (\<And>x. n = Some x \<Longrightarrow> dnf_form x) \<Longrightarrow>
    dnf_form (OrExpr es n)"

inductive_simps literal_And: "literal (AndExpr es n)"
inductive_simps literal_Or: "literal (OrExpr es n)"
inductive_cases conj_AndE: "conj_form (AndExpr es n)"
inductive_cases conj_OrE: "conj_form (OrExpr es n)"
inductive_cases dnf_OrE: "dnf_form (OrExpr es n)"

lemma literal_not_node [simp]: "\<not> literal (AndExpr es n)" "\<not> literal (OrExpr es n)"
  by (simp_all add: literal_And literal_Or is_lit_def)

lemma conj_not_or [simp]: "\<not> conj_form (OrExpr es n)"
  by (auto elim: conj_OrE simp: is_const_def)

lemma dnf_or_iff: "dnf_form (OrExpr es n) \<longleftrightarrow> es \<noteq> [] \<and> (\<forall>x \<in> set es. conj_form x) \<and> (\<forall>x. n = Some x \<longrightarrow> dnf_form x)"
  by (auto elim: dnf_OrE intro: dnf_or)

lemma conj_and_iff: "conj_form (AndExpr es n) \<longleftrightarrow> es \<noteq> [] \<and> (\<forall>x \<in> set es. conj_form x) \<and> (\<forall>x. n = Some x \<longrightarrow> dnf_form x)"
  by (auto elim: conj_AndE intro: conj_and simp: is_const_def)

lemma const_forms [simp]: "conj_form TrueExpr" "conj_form FalseExpr" "dnf_form TrueExpr" "dnf_form FalseExpr"
  by (simp_all add: is_const_def conj_const dnf_conj)

lemma dnf_cases:
  assumes "dnf_form e"
  obtains "conj_form e" "or_terms e = None" | es n where "e = OrExpr es n"
proof (cases "or_terms e")
  case None
  with assms have "conj_form e" by (cases rule: dnf_form.cases) (auto simp: or_terms_def)
  with None show thesis using that(1) by blast
qed (use that in auto)

lemma dnf_terminals: "dnf_form e \<Longrightarrow> x \<in> set (getTerminals e) \<Longrightarrow> conj_form x"
  by (cases e rule: dnf_cases) (auto simp: getTerminals_def dnf_or_iff or_terms_def)

section \<open>Negating terms\<close>

lemma is_const_cases: "is_const e \<Longrightarrow> (e = TrueExpr \<Longrightarrow> P) \<Longrightarrow> (e = FalseExpr \<Longrightarrow> P) \<Longrightarrow> P"
  by (auto simp: is_const_def)

lemma constExpr_const [simp]: "is_const (constExpr b)"
  by (simp add: constExpr_def is_const_def)

lemma negate_term_literal:
  assumes "literal e"
  shows "\<exists>r. negate_term K e = Some r \<and> (is_const r \<or> literal r)"
proof -
  have lit: "literal r" if "is_lit r" "cached r = Some e \<or> cached r = None" for r
    using that assms by (auto intro: literal.intros)
  have "is_lit e" using assms by (cases rule: literal.cases)
  then show ?thesis
  proof (cases e)
    case (DefinedExpr k n)
    then show ?thesis using lit [of "NotExpr k (Some e)"]
      by (cases "K k") (simp_all add: negate_term_def NotExpr_create_def is_lit_def)
  next
    case (NotExpr k n)
    then show ?thesis using lit [of "DefinedExpr k (Some e)"]
      by (cases "K k") (simp_all add: negate_term_def DefinedExpr_create_def is_lit_def)
  next
    case (EqualsExpr k v n)
    then show ?thesis
      using lit [of "NotEqualsExpr k v (Some e)"] lit [of "NotExpr k (Some e)"] lit [of "DefinedExpr k (Some e)"]
      by (cases v; cases "K k")
        (auto simp: negate_term_def NotEqualsExpr_create_def NotExpr_create_def DefinedExpr_create_def is_lit_def)
  next
    case (NotEqualsExpr k v n)
    then show ?thesis
      using lit [of "EqualsExpr k v (Some e)"] lit [of "NotExpr k (Some e)"] lit [of "DefinedExpr k (Some e)"]
      by (cases v; cases "K k")
        (auto simp: negate_term_def EqualsExpr_create_def NotExpr_create_def DefinedExpr_create_def is_lit_def)
  next
    case (RegexExpr k r)
    then show ?thesis using lit [of "NotRegexExpr k r"] by (simp add: negate_term_def is_lit_def)
  next
    case (NotRegexExpr k r)
    then show ?thesis using lit [of "RegexExpr k r"] by (simp add: negate_term_def is_lit_def)
  qed (simp_all add: is_lit_def)
qed

lemma literal_is_term: "literal e \<or> is_const e \<Longrightarrow> is_term e"
  by (cases e) (auto simp: is_term_def is_const_def)

lemma negate_literal:
  assumes "literal e \<or> is_const e"
  shows "\<exists>r. (\<forall>n. negate K n e = Some r) \<and> (is_const r \<or> literal r)"
proof (cases "cached e")
  case None
  then have n: "negate K n e = negate_term K e" for n using negate_is_term literal_is_term assms by blast
  from assms show ?thesis
  proof
    assume "literal e"
    then show ?thesis using negate_term_literal [of e K] n by simp
  next
    assume "is_const e"
    then show ?thesis unfolding n by (auto elim!: is_const_cases simp: negate_term_def is_const_def)
  qed
next
  case (Some x)
  with assms have "literal e" by (auto elim!: is_const_cases)
  then have "is_const x \<or> literal x" using Some by (cases rule: literal.cases) auto
  with negate_cached [OF Some] show ?thesis by blast
qed

section \<open>Creating disjunctions\<close>

text \<open>A disjunction of operands whose flattened terms can be negated is created.\<close>

definition negatable :: "ck_constants \<Rightarrow> ContextKeyExpression \<Rightarrow> bool" where
  "negatable K e \<longleftrightarrow> (\<exists>r. converges (\<lambda>n. negate K n e) r)"

lemma negatable_literal: "literal e \<or> is_const e \<Longrightarrow> negatable K e"
  unfolding negatable_def using negate_literal [of e K] by (auto simp: converges_def)

lemma terminals_single: "or_terms e = None \<Longrightarrow> getTerminals e = [e]" "getTerminals (OrExpr es n) = es"
  by (simp_all add: getTerminals_def or_terms_def)

lemma flat_or_terminals: "set (flat_or e) \<subseteq> set (getTerminals e)"
  by (cases e) (auto simp: flat_or_def getTerminals_def or_terms_def)

lemma flat_or_dnf: "dnf_form e \<Longrightarrow> x \<in> set (flat_or e) \<Longrightarrow> conj_form x"
  using flat_or_terminals dnf_terminals by blast

lemma conj_terminals: "conj_form e \<Longrightarrow> getTerminals e = [e]"
  by (cases e) (auto simp: getTerminals_def or_terms_def)

lemma orCreate_converges:
  assumes dnf: "\<forall>e. Some e \<in> set arr \<longrightarrow> dnf_form e" and neg: "\<forall>x. negated = Some x \<longrightarrow> dnf_form x"
    and neg_ok: "c \<longrightarrow> (\<forall>e. Some e \<in> set arr \<longrightarrow> (\<forall>x \<in> set (getTerminals e). negatable K x))"
  shows "\<exists>r. converges (\<lambda>n. orCreate K n arr negated c) r \<and> (r = None \<longleftrightarrow> (\<forall>e. Some e \<notin> set arr)) \<and>
    (\<forall>e. r = Some e \<longrightarrow> dnf_form e \<and>
       (is_const e \<or> (\<forall>x \<in> set (getTerminals e). \<exists>e'. Some e' \<in> set arr \<and> x \<in> set (getTerminals e'))))"
proof -
  let ?flat = "flatten flat_or arr"
  let ?sorted = "js_sort expr_cmp ?flat"
  let ?expr = "eliminate_duplicates ?sorted"
  have sub: "set ?expr \<subseteq> set ?flat" using eliminate_duplicates_subset [of ?sorted] by simp
  have conj: "\<forall>x \<in> set ?flat. conj_form x" using dnf flat_or_dnf unfolding Ball_def flatten_set by blast
  have from_arr: "\<exists>e'. Some e' \<in> set arr \<and> x \<in> set (getTerminals e')" if "x \<in> set ?flat" for x
    using that flat_or_terminals by (fastforce simp: flatten_set)
  have one: "dnf_form (hd xs) \<and> (\<forall>x \<in> set (getTerminals (hd xs)). \<exists>e'. Some e' \<in> set arr \<and> x \<in> set (getTerminals e'))"
    if "length xs = 1" "set xs \<subseteq> set ?flat" for xs
  proof -
    have "hd xs \<in> set ?flat" using that by (cases xs) auto
    with conj from_arr show ?thesis by (auto simp: conj_terminals intro: dnf_conj)
  qed
  have flat_Nil: "?flat = [] \<longleftrightarrow> (\<forall>e. Some e \<in> set arr \<longrightarrow> e = FalseExpr)"
  proof -
    have "flat_or e = [] \<longleftrightarrow> e = FalseExpr" if "Some e \<in> set arr" for e
      using dnf that by (cases e) (auto simp: flat_or_def dnf_or_iff)
    then show ?thesis by (auto simp: flatten_def split: option.splits)
  qed
  have "\<exists>r. converges (\<lambda>n. orCreate K (Suc n) arr negated c) r \<and> (r = None \<longleftrightarrow> (\<forall>e. Some e \<notin> set arr)) \<and>
    (\<forall>e. r = Some e \<longrightarrow> dnf_form e \<and>
       (is_const e \<or> (\<forall>x \<in> set (getTerminals e). \<exists>e'. Some e' \<in> set arr \<and> x \<in> set (getTerminals e'))))"
    (is "\<exists>r. ?conv r \<and> ?none r \<and> ?form r")
  proof -
    have const: "dnf_form e \<and> is_const e" if "e = TrueExpr \<or> e = FalseExpr" for e
      using that by (auto simp: is_const_def)
    consider "Some TrueExpr \<in> set arr" | "Some TrueExpr \<notin> set arr" "?flat = []"
      | "Some TrueExpr \<notin> set arr" "?flat \<noteq> []" "length ?sorted = 1"
      | "Some TrueExpr \<notin> set arr" "?flat \<noteq> []" "length ?sorted \<noteq> 1" "length ?expr = 1"
      | "Some TrueExpr \<notin> set arr" "?flat \<noteq> []" "length ?sorted \<noteq> 1" "length ?expr \<noteq> 1" by blast
    then show ?thesis
    proof cases
      case 1
      then have "?conv (Some TrueExpr)" "?none (Some TrueExpr)" by (auto simp: or_collect_eq)
      moreover have "?form (Some TrueExpr)" using const [of TrueExpr] by simp
      ultimately show ?thesis by blast
    next
      case 2
      let ?r = "if Some FalseExpr \<in> set arr then Some FalseExpr else None"
      have "\<forall>e. Some e \<in> set arr \<longrightarrow> e = FalseExpr" using 2(2) flat_Nil by blast
      then have "(\<forall>e. Some e \<notin> set arr) \<longleftrightarrow> Some FalseExpr \<notin> set arr" by blast
      then have "?none ?r" by simp
      moreover have "?conv ?r" using 2 by (simp add: or_collect_eq)
      moreover have "?form ?r" using const [of FalseExpr] by simp
      ultimately show ?thesis by (intro exI [of _ ?r] conjI)
    next
      case 3
      then have "?conv (Some (hd ?sorted))" by (simp add: or_collect_eq)
      moreover have "?none (Some (hd ?sorted))" using 3(2) flat_Nil by blast
      moreover have "?form (Some (hd ?sorted))" using one [OF 3(3)] by simp
      ultimately show ?thesis by blast
    next
      case 4
      then have "?conv (Some (hd ?expr))" by (simp add: or_collect_eq)
      moreover have "?none (Some (hd ?expr))" using 4(2) flat_Nil by blast
      moreover have "?form (Some (hd ?expr))" using one [OF 4(4) sub] by simp
      ultimately show ?thesis by blast
    next
      case 5
      have ne: "?expr \<noteq> []" using 5(2) by (metis eliminate_duplicates_Nil js_sort_length length_0_conv)
      have node: "dnf_form (OrExpr ?expr negated)" using ne sub conj neg by (auto simp: dnf_or_iff)
      have terms: "?form (Some (OrExpr ?expr negated))"
      proof -
        have "\<forall>x \<in> set (getTerminals (OrExpr ?expr negated)). \<exists>e'. Some e' \<in> set arr \<and> x \<in> set (getTerminals e')"
          unfolding terminals_single(2) using sub from_arr by blast
        with node show ?thesis by simp
      qed
      have none: "?none (Some e)" for e using 5(2) flat_Nil by blast
      show ?thesis
      proof (cases c)
        case False
        then have "?conv (Some (OrExpr ?expr negated))" using 5 by (simp add: or_collect_eq Let_def)
        with terms none show ?thesis by (intro exI [of _ "Some (OrExpr ?expr negated)"] conjI)
      next
        case True
        have "\<forall>x \<in> set ?expr. \<exists>y. converges (\<lambda>n. negate K n x) y"
          using sub from_arr neg_ok True unfolding negatable_def by blast
        then obtain b where b: "converges (\<lambda>n. redundant (negate K n) ?expr) b"
          using converges_redundant [of ?expr "\<lambda>n. negate K n"] by blast
        have "?conv (Some (if b then TrueExpr else OrExpr ?expr negated))"
        proof (rule converges_bind [OF b, where g = "\<lambda>n b. Some (Some (if b then TrueExpr else OrExpr ?expr negated))"])
          fix n x assume "redundant (negate K n) ?expr = Some x"
          then show "orCreate K (Suc n) arr negated c = Some (Some (if x then TrueExpr else OrExpr ?expr negated))"
            using 5 True by (cases x) (simp_all add: or_collect_eq Let_def)
        qed simp
        moreover have "?form (Some (if b then TrueExpr else OrExpr ?expr negated))"
          using terms const [of TrueExpr] by (cases b) simp_all
        moreover have "?none (Some (if b then TrueExpr else OrExpr ?expr negated))" by (rule none)
        ultimately show ?thesis
          by (intro exI [of _ "Some (if b then TrueExpr else OrExpr ?expr negated)"] conjI)
      qed
    qed
  qed
  then show ?thesis using converges_Suc [of "\<lambda>n. orCreate K n arr negated c"] by blast
qed

section \<open>Negation returns\<close>

definition negates_to_dnf :: "ck_constants \<Rightarrow> ContextKeyExpression \<Rightarrow> bool" where
  "negates_to_dnf K e \<longleftrightarrow> (\<exists>r. converges (\<lambda>n. negate K n e) r \<and> dnf_form r \<and> (\<forall>x \<in> set (getTerminals r). negatable K x))"

lemma negates_to_dnf_negatable: "negates_to_dnf K e \<Longrightarrow> negatable K e"
  by (auto simp: negates_to_dnf_def negatable_def)

lemma list_all2_right: "list_all2 (\<lambda>x y. P y) xs ys \<Longrightarrow> y \<in> set ys \<Longrightarrow> P y"
  by (induction rule: list_all2_induct) auto

lemma negates_to_dnf_literal:
  assumes "literal e \<or> is_const e"
  shows "negates_to_dnf K e"
proof -
  obtain r where r: "\<forall>n. negate K n e = Some r" "is_const r \<or> literal r" using negate_literal [OF assms] by blast
  then have "conj_form r" by (auto intro: conj_const conj_literal)
  with r negatable_literal [of r K] show ?thesis
    unfolding negates_to_dnf_def by (auto simp: converges_def conj_terminals intro!: exI [of _ r] dnf_conj)
qed

lemma negates_to_dnf_cached:
  assumes "cached e = Some x" and "dnf_form x" and "\<forall>y \<in> set (getTerminals x). negatable K y"
  shows "negates_to_dnf K e"
  using assms negate_cached [OF assms(1)] unfolding negates_to_dnf_def converges_def by blast

lemma negates_to_dnf_and:
  assumes "\<forall>x \<in> set es. negates_to_dnf K x" and "conj_form (AndExpr es None)"
  shows "negates_to_dnf K (AndExpr es None)"
proof -
  let ?e = "AndExpr es None"
  have "\<forall>x \<in> set es. \<exists>y. converges (\<lambda>n. negate K n x) y \<and> dnf_form y \<and> (\<forall>z \<in> set (getTerminals y). negatable K z)"
    using assms(1) by (simp add: negates_to_dnf_def)
  then obtain ys where ys: "converges (\<lambda>n. mapO (negate K n) es) ys"
    "list_all2 (\<lambda>x y. dnf_form y \<and> (\<forall>z \<in> set (getTerminals y). negatable K z)) es ys"
    using converges_mapO [of es "\<lambda>n. negate K n" "\<lambda>x y. dnf_form y \<and> (\<forall>z \<in> set (getTerminals y). negatable K z)"]
    by blast
  from list_all2_right [OF ys(2)] have y: "dnf_form y \<and> (\<forall>z \<in> set (getTerminals y). negatable K z)" if "y \<in> set ys" for y
    using that .
  have "ys \<noteq> []" using ys(2) assms(2) by (auto simp: conj_and_iff)
  obtain r where r: "converges (\<lambda>n. orCreate K n (map Some ys) (Some ?e) True) r"
    "(r = None) = (\<forall>e. Some e \<notin> set (map Some ys))"
    "\<forall>e. r = Some e \<longrightarrow> dnf_form e \<and>
       (is_const e \<or> (\<forall>x \<in> set (getTerminals e). \<exists>e'. Some e' \<in> set (map Some ys) \<and> x \<in> set (getTerminals e')))"
  proof -
    have "\<forall>e. Some e \<in> set (map Some ys) \<longrightarrow> dnf_form e" "\<forall>x. Some ?e = Some x \<longrightarrow> dnf_form x"
      "True \<longrightarrow> (\<forall>e. Some e \<in> set (map Some ys) \<longrightarrow> (\<forall>x \<in> set (getTerminals e). negatable K x))"
      using y dnf_conj [OF assms(2)] by auto
    from orCreate_converges [OF this] show thesis using that by blast
  qed
  with \<open>ys \<noteq> []\<close> obtain x where x: "r = Some x" by (cases r; cases ys) auto
  have "negatable K z" if "z \<in> set (getTerminals x)" for z
  proof (cases "is_const x")
    case True
    with that have "z = x" by (auto elim!: is_const_cases simp: getTerminals_def or_terms_def)
    with True show ?thesis by (simp add: negatable_literal)
  next
    case False
    with r(3) x that y show ?thesis by (auto simp: image_iff)
  qed
  moreover have "converges (\<lambda>n. negate K (Suc n) ?e) x"
  proof (rule converges_bind [OF ys(1)])
    show "converges (\<lambda>n. case orCreate K n (map Some ys) (Some ?e) True of Some (Some r) \<Rightarrow> Some r | _ \<Rightarrow> None) x"
      using r(1) by (rule converges_bind [where g = "\<lambda>n r. r"]) (simp_all add: x split: option.splits)
  qed simp
  then have "converges (\<lambda>n. negate K n ?e) x" by (rule converges_Suc)
  ultimately show ?thesis using r(3) x unfolding negates_to_dnf_def by blast
qed

lemma conj_negates:
  shows "conj_form e \<Longrightarrow> negates_to_dnf K e"
    and "dnf_form e \<Longrightarrow> \<forall>x \<in> set (getTerminals e). negatable K x"
proof (induction rule: conj_form_dnf_form.inducts)
  case (conj_and es n)
  have form: "conj_form (AndExpr es n)" using conj_and.hyps by (simp add: conj_and_iff)
  show ?case
  proof (cases n)
    case None
    with form conj_and.IH show ?thesis using negates_to_dnf_and by blast
  next
    case (Some x)
    with conj_and show ?thesis by (intro negates_to_dnf_cached) auto
  qed
qed (auto intro: negates_to_dnf_literal negates_to_dnf_negatable simp: conj_terminals terminals_single)

section \<open>Disjunctions are sorted to the end\<close>

definition is_or :: "ContextKeyExpression \<Rightarrow> bool" where
  "is_or e \<longleftrightarrow> or_terms e \<noteq> None"

definition ors_last :: "ContextKeyExpression list \<Rightarrow> bool" where
  "ors_last xs \<longleftrightarrow> sorted_wrt (\<lambda>x y. is_or x \<longrightarrow> is_or y) xs"

lemma is_or_OrExpr [simp]: "is_or (OrExpr es n)"
  by (simp add: is_or_def)

lemma conj_is_not_or: "conj_form e \<Longrightarrow> \<not> is_or e"
  by (cases e) (simp_all add: is_or_def or_terms_def)

lemma dnf_not_or: "dnf_form e \<Longrightarrow> \<not> is_or e \<Longrightarrow> conj_form e"
  by (cases e rule: dnf_cases) (auto simp: is_or_def)

lemma literal_is_lit: "literal e \<Longrightarrow> is_lit e"
  by (induction rule: literal.induct)

lemma conj_type:
  assumes "conj_form e"
  shows "exprType e \<le> 8"
  using assms literal_is_lit [of e] by (cases rule: conj_form.cases) (auto simp: is_const_def is_lit_def)

lemma cmp_conj_or:
  assumes "conj_form x"
  shows "expr_cmp x (OrExpr es n) < 0" and "expr_cmp (OrExpr es n) x > 0"
  using conj_type [OF assms] assms by (cases x; simp)+

lemma sort_insert_ors_last:
  assumes "ors_last ys" and "dnf_form x" and "\<forall>y \<in> set ys. dnf_form y"
  shows "ors_last (sort_insert expr_cmp x ys)"
  using assms
proof (induction ys)
  case (Cons y ys)
  show ?case
  proof (cases "is_or x")
    case True
    then obtain es n where x: "x = OrExpr es n" by (auto simp: is_or_def)
    have "is_or y" if "expr_cmp x y \<le> 0"
      using  cmp_conj_or(2) [of y es n] that Cons.prems(3) dnf_not_or [of y] by (auto simp: x)
    with Cons True show ?thesis by (auto simp: ors_last_def)
  next
    case False
    have "\<not> is_or y" if "\<not> expr_cmp x y \<le> 0"
    proof
      assume "is_or y"
      then obtain es n where "y = OrExpr es n" by (auto simp: is_or_def)
      with cmp_conj_or(1) [OF dnf_not_or [OF Cons.prems(2) False], of es n] that show False by simp
    qed
    with Cons False show ?thesis by (auto simp: ors_last_def)
  qed
qed (simp add: ors_last_def)

lemma js_sort_ors_last: "\<forall>x \<in> set xs. dnf_form x \<Longrightarrow> ors_last (js_sort expr_cmp xs)"
proof (induction xs)
  case (Cons x xs)
  have "\<forall>y \<in> set (js_sort expr_cmp xs). dnf_form y" using Cons.prems by simp
  with Cons sort_insert_ors_last [of "js_sort expr_cmp xs" x] show ?case by (simp add: js_sort_def)
qed (simp add: js_sort_def ors_last_def)

lemma ors_last_Cons: "ors_last (x # xs) \<longleftrightarrow> (\<forall>y \<in> set xs. is_or x \<longrightarrow> is_or y) \<and> ors_last xs"
  by (simp only: ors_last_def sorted_wrt.simps)

lemma eliminate_duplicates_ors_last: "ors_last xs \<Longrightarrow> ors_last (eliminate_duplicates xs)"
proof (induction xs rule: eliminate_duplicates.induct)
  case (1 x y r)
  have s: "ors_last (x # r)" "ors_last (y # r)"
    using 1(3) unfolding ors_last_Cons list.set by blast+
  show ?case
  proof (cases "expr_equals x y")
    case True
    from 1(1) [OF True s(1)] True show ?thesis by simp
  next
    case False
    have "\<forall>z \<in> set (eliminate_duplicates (y # r)). is_or x \<longrightarrow> is_or z"
      using 1(3) eliminate_duplicates_subset [of "y # r"] unfolding ors_last_Cons by blast
    with False 1(2) [OF False s(2)] show ?thesis by (simp only: eliminate_duplicates.simps if_False ors_last_Cons)
  qed
qed (simp_all add: ors_last_def)

lemma filter_sort_length: "length (filter P (js_sort c xs)) = length (filter P xs)"
proof -
  have "length (filter P (sort_insert c x ys)) = length (filter P (x # ys))" for x ys by (induction ys) auto
  then show ?thesis by (induction xs) (auto simp: js_sort_def)
qed

lemma filter_eliminate_length: "length (filter P (eliminate_duplicates xs)) \<le> length (filter P xs)"
  by (induction xs rule: eliminate_duplicates.induct) auto

section \<open>Creating conjunctions\<close>

text \<open>
  \<open>fits Q xs\<close>: distributing over \<open>xs\<close> only combines a term with an expression that satisfies
  \<open>Q\<close>.  Taking \<open>Q\<close> nowhere, on conjunctions and everywhere gives the three rounds of the proof.
\<close>

definition fits :: "(ContextKeyExpression \<Rightarrow> bool) \<Rightarrow> ContextKeyExpression list \<Rightarrow> bool" where
  "fits Q xs \<longleftrightarrow> (\<forall>x \<in> set xs. conj_form x) \<or>
     (\<forall>x. conj_form x \<longrightarrow> Q x) \<and> length (filter is_or xs) \<le> 1 \<or> (\<forall>x. dnf_form x \<longrightarrow> Q x)"

lemma fits_second: "fits Q (rest @ [second, OrExpr es n]) \<Longrightarrow> dnf_form second \<Longrightarrow> Q second"
  using conj_is_not_or by (cases "is_or second") (auto simp: fits_def dnf_not_or)

lemma fits_next:
  assumes "fits Q (rest @ [second, OrExpr es n])"
  shows "fits Q (js_sort expr_cmp (rest @ [r]))"
  using assms conj_is_not_or by (cases "is_or second"; cases "is_or r") (auto simp: fits_def filter_sort_length)

lemma distribute_converges:
  assumes andC: "\<And>el second. conj_form el \<Longrightarrow> dnf_form second \<Longrightarrow> Q second \<Longrightarrow>
      \<exists>r. converges (\<lambda>n. A n el second) (Some r) \<and> dnf_form r"
    and orC: "\<And>parts f. parts \<noteq> [] \<Longrightarrow> \<forall>p \<in> set parts. \<exists>e. p = Some e \<and> dnf_form e \<Longrightarrow>
      \<exists>r. converges (\<lambda>n. B n parts f) (Some r) \<and> dnf_form r"
    and "expr \<noteq> []" and "\<forall>x \<in> set expr. dnf_form x" and "ors_last expr" and "fits Q expr"
  shows "\<exists>res. converges (\<lambda>n. distribute (A n) (B n) expr) res \<and> res \<noteq> [] \<and> (\<forall>x \<in> set res. dnf_form x) \<and>
    (length res = 1 \<or> (\<forall>x \<in> set res. conj_form x))"
  using assms(3-6)
proof (induction "length expr" arbitrary: expr rule: less_induct)
  case less
  show ?case
  proof (cases expr rule: distribute_cases)
    case stop
    have "length expr = 1 \<or> (\<forall>x \<in> set expr. conj_form x)"
    proof (cases "length expr = 1")
      case False
      with less(2) stop have l: "\<not> is_or (last expr)" by (cases expr) (auto simp: is_or_def)
      have "\<not> is_or x" if "x \<in> set expr" for x
      proof -
        have "expr = butlast expr @ [last expr]" using less(2) by simp
        with less(4) have "\<forall>y \<in> set (butlast expr). is_or y \<longrightarrow> is_or (last expr)"
          unfolding ors_last_def by (metis sorted_wrt_append list.set_intros(1))
        moreover from that less(2) have "x \<in> set (butlast expr) \<or> x = last expr"
          by (metis append_butlast_last_id in_set_conv_decomp_last set_ConsD append_Nil rotate1.simps(2) set_rotate1)
        ultimately show ?thesis using l by blast
      qed
      with less(3) dnf_not_or show ?thesis by blast
    qed blast
    with stop less(2,3) show ?thesis by (intro exI [of _ expr]) (simp add: distribute_stop)
  next
    case (step rest second terms n)
    have forms: "dnf_form second" "\<forall>x \<in> set rest. dnf_form x" "terms \<noteq> []" "\<forall>x \<in> set terms. conj_form x"
      using less(3) by (simp_all add: step dnf_or_iff)
    have "Q second"
      using less(5) forms(1) fits_second by (simp add: step)
    with andC forms have "\<forall>el \<in> set terms. \<exists>p. converges (\<lambda>n. A n el second) p \<and> (\<exists>e. p = Some e \<and> dnf_form e)"
      by blast
    then obtain parts where parts: "converges (\<lambda>n. mapO (\<lambda>el. A n el second) terms) parts"
        "list_all2 (\<lambda>_ p. \<exists>e. p = Some e \<and> dnf_form e) terms parts"
      using converges_mapO [of terms "\<lambda>n el. A n el second" "\<lambda>_ p. \<exists>e. p = Some e \<and> dnf_form e"] by blast
    have "parts \<noteq> []" "\<forall>p \<in> set parts. \<exists>e. p = Some e \<and> dnf_form e"
      using parts(2) forms(3) list_all2_right [OF parts(2)] by (auto simp: list_all2_Nil2)
    from orC [OF this] obtain r where r: "converges (\<lambda>n. B n parts (rest = [])) (Some r)" "dnf_form r" by blast
    let ?next = "js_sort expr_cmp (rest @ [r])"
    have "length ?next < length expr" by (simp add: step)
    moreover have ne: "length ?next \<noteq> 0" by simp
    then have "?next \<noteq> []" by blast
    moreover have dn: "\<forall>x \<in> set ?next. dnf_form x" using forms(2) r(2) by auto
    moreover have "ors_last ?next" using forms(2) r(2) by (intro js_sort_ors_last) auto
    moreover have "fits Q ?next"
      using less(5) fits_next [of Q rest second terms n r] r(2) by (simp add: step)
    ultimately obtain res where res: "converges (\<lambda>n. distribute (A n) (B n) ?next) res" "res \<noteq> []"
        "\<forall>x \<in> set res. dnf_form x" "length res = 1 \<or> (\<forall>x \<in> set res. conj_form x)"
      using less(1) [of ?next] by blast
    have "converges (\<lambda>n. distribute (A n) (B n) expr) res"
    proof (rule converges_bind [OF parts(1)])
      show "converges (\<lambda>n. case B n parts (rest = []) of None \<Rightarrow> None | Some None \<Rightarrow> distribute (A n) (B n) rest
          | Some (Some r) \<Rightarrow> distribute (A n) (B n) (js_sort expr_cmp (rest @ [r]))) res"
        by (rule converges_bind [OF r(1), where g = "\<lambda>n r. case r of None \<Rightarrow> distribute (A n) (B n) rest
          | Some r \<Rightarrow> distribute (A n) (B n) (js_sort expr_cmp (rest @ [r]))"]) (use res(1) in simp_all)
    qed (simp add: step distribute_step)
    with res(2-4) show ?thesis by blast
  qed
qed

lemma conj_negatable: "conj_form e \<Longrightarrow> negatable K e"
  using conj_negates(1) negates_to_dnf_negatable by blast

lemma orCreate_parts:
  assumes "parts \<noteq> []" and "\<forall>p \<in> set parts. \<exists>e. p = Some e \<and> dnf_form e"
    and nn: "\<forall>x. negated = Some x \<longrightarrow> dnf_form x"
  shows "\<exists>r. converges (\<lambda>n. orCreate K n parts negated c) (Some r) \<and> dnf_form r"
proof -
  have d: "\<forall>e. Some e \<in> set parts \<longrightarrow> dnf_form e" using assms(2) by fastforce
  then have nk: "c \<longrightarrow> (\<forall>e. Some e \<in> set parts \<longrightarrow> (\<forall>x \<in> set (getTerminals e). negatable K x))"
    using conj_negates(2) by blast
  obtain r where conv: "converges (\<lambda>n. orCreate K n parts negated c) r"
    and none: "(r = None) = (\<forall>e. Some e \<notin> set parts)"
    and form: "\<forall>e. r = Some e \<longrightarrow> dnf_form e \<and>
       (is_const e \<or> (\<forall>x \<in> set (getTerminals e). \<exists>e'. Some e' \<in> set parts \<and> x \<in> set (getTerminals e')))"
    using orCreate_converges [where K = K and arr = parts and negated = negated and c = c, OF d nn nk] by blast
  obtain p where "p \<in> set parts" using assms(1) by (cases parts) auto
  moreover from this assms(2) obtain e where "p = Some e" by blast
  ultimately have "Some e \<in> set parts" by simp
  then have "r \<noteq> None" unfolding none by blast
  then obtain x where x: "r = Some x" by (rule not_None_eq [THEN iffD1, THEN exE])
  have "dnf_form x" using form x by blast
  with conv show ?thesis unfolding x by blast
qed

definition and_returns :: "ck_constants \<Rightarrow> ContextKeyExpression option list \<Rightarrow> ContextKeyExpression option \<Rightarrow> bool \<Rightarrow> bool" where
  "and_returns K arr negated c \<longleftrightarrow>
     (\<exists>r. converges (\<lambda>n. andCreate K n arr negated c) r \<and> (r = None \<longleftrightarrow> (\<forall>e. Some e \<notin> set arr)) \<and>
        (\<forall>e. r = Some e \<longrightarrow> dnf_form e))"

lemma and_returnsI:
  assumes "converges (\<lambda>n. andCreate K (Suc n) arr negated c) r" and "r = None \<longleftrightarrow> (\<forall>e. Some e \<notin> set arr)"
    and "\<And>e. r = Some e \<Longrightarrow> dnf_form e"
  shows "and_returns K arr negated c"
  using assms converges_Suc [of "\<lambda>n. andCreate K n arr negated c"] unfolding and_returns_def by blast

lemma dnf_and_iff: "dnf_form (AndExpr es n) \<longleftrightarrow> conj_form (AndExpr es n)"
  by (auto elim: dnf_form.cases intro: dnf_conj)

lemma flat_and_dnf:
  assumes "dnf_form e"
  shows "\<forall>x \<in> set (flat_and e). dnf_form x" "flat_and e = [] \<longleftrightarrow> e = TrueExpr"
    "length (filter is_or (flat_and e)) \<le> 1" "conj_form e \<Longrightarrow> filter is_or (flat_and e) = []"
proof -
  have a: "\<forall>x \<in> set es. conj_form x" if "e = AndExpr es n" for es n
    using assms that by (simp add: dnf_and_iff conj_and_iff)
  show "\<forall>x \<in> set (flat_and e). dnf_form x" using assms a by (cases e rule: ContextKeyExpression.exhaust) (simp_all add: flat_and_def dnf_conj)
  show "flat_and e = [] \<longleftrightarrow> e = TrueExpr"
    using assms by (cases e rule: ContextKeyExpression.exhaust) (auto simp: flat_and_def conj_and_iff dnf_and_iff)
  show "length (filter is_or (flat_and e)) \<le> 1"
    using a conj_is_not_or by (cases e rule: ContextKeyExpression.exhaust) (auto simp: flat_and_def filter_empty_conv)
  show "filter is_or (flat_and e) = []" if "conj_form e"
    using a conj_is_not_or that by (cases e rule: ContextKeyExpression.exhaust) (auto simp: flat_and_def filter_empty_conv)
qed

lemma andCreate_converges:
  assumes dnf: "\<forall>e. Some e \<in> set arr \<longrightarrow> dnf_form e" and neg: "\<forall>x. negated = Some x \<longrightarrow> dnf_form x"
    and inner: "\<And>el second. conj_form el \<Longrightarrow> dnf_form second \<Longrightarrow> Q second \<Longrightarrow> and_returns K [Some el, Some second] None c"
    and fits: "fits Q (eliminate_duplicates (js_sort expr_cmp (flatten flat_and arr)))"
  shows "and_returns K arr negated c"
proof -
  let ?flat = "flatten flat_and arr"
  let ?expr = "eliminate_duplicates (js_sort expr_cmp ?flat)"
  have flat: "\<forall>x \<in> set ?flat. dnf_form x" using dnf flat_and_dnf(1) unfolding Ball_def flatten_set by blast
  have expr: "\<forall>x \<in> set ?expr. dnf_form x" using flat eliminate_duplicates_subset [of "js_sort expr_cmp ?flat"] by auto
  have flat_Nil: "?flat = [] \<longleftrightarrow> (\<forall>e. Some e \<in> set arr \<longrightarrow> e = TrueExpr)"
    using dnf flat_and_dnf(2) by (auto simp: flatten_def split: option.splits)
  have one: "dnf_form (hd xs)" if "length xs = 1" "\<forall>x \<in> set xs. dnf_form x" for xs
    using that by (cases xs) auto
  have none: "?flat \<noteq> [] \<Longrightarrow> (Some e = None) = (\<forall>e. Some e \<notin> set arr)" for e :: ContextKeyExpression
    using flat_Nil by blast
  consider "Some FalseExpr \<in> set arr" | "Some FalseExpr \<notin> set arr" "?flat = []"
    | "Some FalseExpr \<notin> set arr" "?flat \<noteq> []" "length ?flat = 1"
    | "Some FalseExpr \<notin> set arr" "?flat \<noteq> []" "length ?flat \<noteq> 1" "length ?expr = 1"
    | "Some FalseExpr \<notin> set arr" "?flat \<noteq> []" "length ?flat \<noteq> 1" "length ?expr \<noteq> 1" by blast
  then show ?thesis
  proof cases
    case 1
    then show ?thesis by (intro and_returnsI [where r = "Some FalseExpr"]) (auto simp: and_collect_eq)
  next
    case 2
    have "\<forall>e. Some e \<in> set arr \<longrightarrow> e = TrueExpr" using 2(2) flat_Nil by blast
    then have "(\<forall>e. Some e \<notin> set arr) \<longleftrightarrow> Some TrueExpr \<notin> set arr" by blast
    with 2 show ?thesis
      by (intro and_returnsI [where r = "if Some TrueExpr \<in> set arr then Some TrueExpr else None"])
        (simp_all add: and_collect_eq split: if_splits)
  next
    case 3
    then show ?thesis
      using one [OF 3(3) flat] none by (intro and_returnsI [where r = "Some (hd ?flat)"]) (simp_all add: and_collect_eq)
  next
    case 4
    then show ?thesis
      using one [OF 4(4) expr] none
      by (intro and_returnsI [where r = "Some (hd ?expr)"]) (simp_all add: and_collect_eq Let_def)
  next
    case 5
    let ?andC = "\<lambda>n el second. andCreate K n [Some el, Some second] None c"
    let ?orC = "\<lambda>n parts isFinished. orCreate K n parts None isFinished"
    have ne: "?expr \<noteq> []" using 5(2) by (metis eliminate_duplicates_Nil js_sort_length length_0_conv)
    have ol: "ors_last ?expr" by (intro eliminate_duplicates_ors_last js_sort_ors_last flat)
    have andC: "\<exists>r. converges (\<lambda>n. ?andC n el second) (Some r) \<and> dnf_form r"
      if el: "conj_form el" "dnf_form second" "Q second" for el second
    proof -
      obtain r where r: "converges (\<lambda>n. ?andC n el second) r" "(r = None) = (\<forall>e. Some e \<notin> set [Some el, Some second])"
        "\<forall>e. r = Some e \<longrightarrow> dnf_form e" using inner [OF el] unfolding and_returns_def by blast
      then show ?thesis by (cases r) auto
    qed
    obtain res where res: "converges (\<lambda>n. distribute (?andC n) (?orC n) ?expr) res" "res \<noteq> []"
        "\<forall>x \<in> set res. dnf_form x" "length res = 1 \<or> (\<forall>x \<in> set res. conj_form x)"
    proof -
      have "\<exists>res. converges (\<lambda>n. distribute (?andC n) (?orC n) ?expr) res \<and> res \<noteq> [] \<and>
          (\<forall>x \<in> set res. dnf_form x) \<and> (length res = 1 \<or> (\<forall>x \<in> set res. conj_form x))"
        by (rule distribute_converges [OF _ _ ne expr ol fits]) (rule andC, assumption+, rule orCreate_parts, assumption+, simp)
      then show thesis using that by blast
    qed
    define fin where "fin = (\<lambda>n res. if length res = 1 then Some (Some (hd res)) else if c
        then (case redundant (negate K n) res of None \<Rightarrow> None | Some True \<Rightarrow> Some (Some FalseExpr)
              | Some False \<Rightarrow> Some (Some (AndExpr res negated)))
        else Some (Some (AndExpr res negated)))"
    have step: "andCreate K (Suc n) arr negated c = fin n res'"
      if "distribute (?andC n) (?orC n) ?expr = Some res'" for n res'
      using 5 that by (simp add: and_collect_eq Let_def fin_def)
    have "\<exists>r. converges (\<lambda>n. fin n res) (Some r) \<and> dnf_form r"
    proof (cases "length res = 1")
      case True
      with one [OF True res(3)] show ?thesis by (intro exI [of _ "hd res"]) (simp add: fin_def)
    next
      case False
      with res(4) have c4: "\<forall>x \<in> set res. conj_form x" by blast
      then have node: "dnf_form (AndExpr res negated)" using res(2) neg by (intro dnf_conj) (simp add: conj_and_iff)
      from c4 obtain b where b: "converges (\<lambda>n. redundant (negate K n) res) b"
        using converges_redundant [of res "\<lambda>n. negate K n"] conj_negatable [of _ K] unfolding negatable_def by blast
      let ?r = "if c \<and> b then FalseExpr else AndExpr res negated"
      have "converges (\<lambda>n. fin n res) (Some ?r)"
        by (rule converges_bind [OF b, where g = "\<lambda>n b. Some (Some (if c \<and> b then FalseExpr else AndExpr res negated))"])
          (use False in \<open>simp_all add: fin_def split: bool.splits\<close>)
      with node show ?thesis by (intro exI [of _ ?r]) simp
    qed
    then obtain r where r: "converges (\<lambda>n. fin n res) (Some r)" "dnf_form r" by blast
    have "converges (\<lambda>n. andCreate K (Suc n) arr negated c) (Some r)"
      by (rule converges_bind [OF res(1), where g = fin]) (rule r(1), rule step)
    then show ?thesis by (rule and_returnsI) (use none 5(2) r(2) in auto)
  qed
qed

text \<open>The three rounds: no disjunction, one, any number.\<close>

lemma fits_conj:
  assumes "\<forall>e. Some e \<in> set arr \<longrightarrow> conj_form e"
  shows "fits Q (eliminate_duplicates (js_sort expr_cmp (flatten flat_and arr)))"
proof -
  have "x \<in> set (flatten flat_and arr) \<Longrightarrow> conj_form x" for x
    using assms flat_and_dnf(1,4) dnf_not_or unfolding flatten_set filter_empty_conv by (metis dnf_conj)
  then show ?thesis
    using eliminate_duplicates_subset [of "js_sort expr_cmp (flatten flat_and arr)"] unfolding fits_def by auto
qed

lemma and_returns_conj:
  assumes "\<forall>e. Some e \<in> set arr \<longrightarrow> conj_form e" and "\<forall>x. negated = Some x \<longrightarrow> dnf_form x"
  shows "and_returns K arr negated c"
  by (rule andCreate_converges [where Q = "\<lambda>_. False"]) (use assms in \<open>auto intro: dnf_conj fits_conj\<close>)

lemma and_returns_pair:
  assumes "conj_form a" and "dnf_form b"
  shows "and_returns K [Some a, Some b] None c"
proof (rule andCreate_converges [where Q = conj_form])
  show "\<forall>e. Some e \<in> set [Some a, Some b] \<longrightarrow> dnf_form e" using assms by (auto intro: dnf_conj)
  have "length (filter is_or (flatten flat_and [Some a, Some b])) \<le> 1"
    using flat_and_dnf(3,4) [OF dnf_conj [OF assms(1)]] flat_and_dnf(3) [OF assms(2)] assms(1) by (simp add: flatten_def)
  then have "length (filter is_or (eliminate_duplicates (js_sort expr_cmp (flatten flat_and [Some a, Some b])))) \<le> 1"
    using filter_eliminate_length [of is_or "js_sort expr_cmp (flatten flat_and [Some a, Some b])"]
    by (simp add: filter_sort_length)
  then show "fits conj_form (eliminate_duplicates (js_sort expr_cmp (flatten flat_and [Some a, Some b])))"
    by (simp add: fits_def)
  show "and_returns K [Some el, Some second] None c" if "conj_form el" "conj_form second" for el second
    using that by (intro and_returns_conj) auto
qed simp

lemma and_returns_dnf:
  assumes "\<forall>e. Some e \<in> set arr \<longrightarrow> dnf_form e" and "\<forall>x. negated = Some x \<longrightarrow> dnf_form x"
  shows "and_returns K arr negated c"
  by (rule andCreate_converges [OF assms, where Q = dnf_form]) (auto intro: and_returns_pair simp: fits_def)

section \<open>Negating disjunctions\<close>

lemma conj_or_const_terminals: "dnf_form e \<Longrightarrow> \<forall>x \<in> set (getTerminals e). conj_form x"
  using dnf_terminals by blast

lemma negate_distribute_converges:
  assumes "\<forall>x \<in> set xs. dnf_form x" and "xs \<noteq> []"
  shows "\<exists>y. converges (\<lambda>n. negate_distribute (\<lambda>l r. andCreate K n [Some l, Some r] None False)
            (\<lambda>parts. orCreate K n parts None False) xs) [y] \<and> dnf_form y"
  using assms
proof (induction "length xs" arbitrary: xs rule: less_induct)
  case less
  let ?A = "\<lambda>n l r. andCreate K n [Some l, Some r] None False" and ?B = "\<lambda>n parts. orCreate K n parts None False"
  consider x where "xs = [x]" | l r rest where "xs = l # r # rest"
    using less(3) by (cases xs; cases "tl xs") auto
  then show ?case
  proof cases
    case (1 x)
    with less(2) show ?thesis by (intro exI [of _ x]) simp
  next
    case (2 l r rest)
    let ?pairs = "List.product (getTerminals l) (getTerminals r)"
    have d: "dnf_form l" "dnf_form r" "\<forall>x \<in> set rest. dnf_form x" using less(2) by (simp_all add: 2)
    have "getTerminals e \<noteq> []" if "dnf_form e" for e
      by (rule dnf_cases [OF that]) (use that in \<open>auto simp: terminals_single dnf_or_iff\<close>)
    from this [OF d(1)] this [OF d(2)] have "length ?pairs \<noteq> 0" by simp
    then have ne: "?pairs \<noteq> []" by blast
    have "\<exists>p. converges (\<lambda>n. case ab of (l, r) \<Rightarrow> ?A n l r) p \<and> (\<exists>e. p = Some e \<and> dnf_form e)"
      if mem: "ab \<in> set ?pairs" for ab
    proof -
      obtain a b where ab: "ab = (a, b)" by (cases ab)
      with mem have "a \<in> set (getTerminals l)" "b \<in> set (getTerminals r)" by simp_all
      with d(1,2) dnf_terminals have "conj_form a" "conj_form b" by blast+
      then have "and_returns K [Some a, Some b] None False" by (intro and_returns_pair) (auto intro: dnf_conj)
      then obtain p where p: "converges (\<lambda>n. ?A n a b) p" "(p = None) = (\<forall>e. Some e \<notin> set [Some a, Some b])"
        "\<forall>e. p = Some e \<longrightarrow> dnf_form e" unfolding and_returns_def by blast
      then obtain e where "p = Some e" by (cases p) auto
      with p ab show ?thesis by auto
    qed
    then obtain parts where parts: "converges (\<lambda>n. mapO (\<lambda>(l, r). ?A n l r) ?pairs) parts"
        "list_all2 (\<lambda>_ p. \<exists>e. p = Some e \<and> dnf_form e) ?pairs parts"
      using converges_mapO [of ?pairs "\<lambda>n (l, r). ?A n l r" "\<lambda>_ p. \<exists>e. p = Some e \<and> dnf_form e"] by blast
    have "parts \<noteq> []" "\<forall>p \<in> set parts. \<exists>e. p = Some e \<and> dnf_form e"
      using parts(2) ne list_all2_right [OF parts(2)] by (auto simp: list_all2_Nil2)
    from orCreate_parts [OF this, of None] obtain x where x: "converges (\<lambda>n. ?B n parts) (Some x)" "dnf_form x" by blast
    obtain y where y: "converges (\<lambda>n. negate_distribute (?A n) (?B n) (x # rest)) [y]" "dnf_form y"
      using less(1) [of "x # rest"] d(3) x(2) by (auto simp: 2)
    have "converges (\<lambda>n. negate_distribute (?A n) (?B n) xs) [y]"
    proof (rule converges_bind [OF parts(1)])
      show "converges (\<lambda>n. case ?B n parts of Some (Some x) \<Rightarrow> negate_distribute (?A n) (?B n) (x # rest) | _ \<Rightarrow> None) [y]"
        by (rule converges_bind [OF x(1), where g = "\<lambda>n r. case r of Some x \<Rightarrow> negate_distribute (?A n) (?B n) (x # rest) | None \<Rightarrow> None"])
          (use y(1) in simp_all)
    qed (simp add: 2)
    with y(2) show ?thesis by blast
  qed
qed

lemma dnf_negates:
  assumes "dnf_form e"
  shows "\<exists>r. converges (\<lambda>n. negate K n e) r \<and> dnf_form r"
proof (cases "conj_form e \<or> cached e \<noteq> None")
  case True
  then show ?thesis
  proof
    assume "conj_form e"
    from conj_negates(1) [OF this, of K] show ?thesis unfolding negates_to_dnf_def by blast
  next
    assume c: "cached e \<noteq> None"
    then obtain x where x: "cached e = Some x" by blast
    show ?thesis
    proof (cases "conj_form e")
      case True
      from conj_negates(1) [OF True, of K] show ?thesis unfolding negates_to_dnf_def by blast
    next
      case False
      then obtain es n where "e = OrExpr es n" using dnf_cases [OF assms] by metis
      with assms x have "dnf_form x" by (simp add: dnf_or_iff)
      with negate_cached [OF x, of K] show ?thesis by (auto simp: converges_def)
    qed
  qed
next
  case False
  then obtain es where e: "e = OrExpr es None" using dnf_cases [OF assms] by (metis cached.simps(6))
  then have es: "es \<noteq> []" "\<forall>x \<in> set es. conj_form x" using assms by (simp_all add: dnf_or_iff)
  then have "\<forall>x \<in> set es. \<exists>y. converges (\<lambda>n. negate K n x) y \<and> dnf_form y"
    using conj_negates(1) [of _ K] unfolding negates_to_dnf_def by blast
  then obtain ys where ys: "converges (\<lambda>n. mapO (negate K n) es) ys" "list_all2 (\<lambda>_ y. dnf_form y) es ys"
    using converges_mapO [of es "\<lambda>n. negate K n" "\<lambda>_ y. dnf_form y"] by blast
  have "\<forall>y \<in> set ys. dnf_form y" "ys \<noteq> []" using list_all2_right [OF ys(2)] ys(2) es(1) by auto
  from negate_distribute_converges [OF this, of K] obtain y where
    y: "converges (\<lambda>n. negate_distribute (\<lambda>l r. andCreate K n [Some l, Some r] None False)
            (\<lambda>parts. orCreate K n parts None False) ys) [y]" "dnf_form y" by blast
  obtain r where r: "converges (\<lambda>n. orCreate K n [Some y] (Some e) True) (Some r)" "dnf_form r"
    using orCreate_parts [of "[Some y]" "Some e" K True] y(2) assms by auto
  define fin where "fin = (\<lambda>n zs. case orCreate K n (map Some zs) (Some e) True of Some (Some r) \<Rightarrow> Some r | _ \<Rightarrow> None)"
  have "converges (\<lambda>n. fin n [y]) r"
    by (rule converges_bind [OF r(1), where g = "\<lambda>n r. r"]) (simp_all add: fin_def split: option.splits)
  then have "converges (\<lambda>n. case negate_distribute (\<lambda>l r. andCreate K n [Some l, Some r] None False)
      (\<lambda>parts. orCreate K n parts None False) ys of None \<Rightarrow> None | Some zs \<Rightarrow> fin n zs) r"
    by (rule converges_bind [OF y(1), where g = fin]) simp
  then have "converges (\<lambda>n. negate K (Suc n) e) r"
    by (rule converges_bind [OF ys(1), where g = "\<lambda>n ys. case negate_distribute (\<lambda>l r. andCreate K n [Some l, Some r] None False)
      (\<lambda>parts. orCreate K n parts None False) ys of None \<Rightarrow> None | Some zs \<Rightarrow> fin n zs"])
      (simp add: e fin_def split: option.split)
  then show ?thesis using converges_Suc [of "\<lambda>n. negate K n e"] r(2) by blast
qed

section \<open>Substituting constants returns\<close>

lemma substitute_literal:
  assumes "literal e \<or> is_const e"
  shows "\<exists>c r. converges (\<lambda>n. substituteConstants K n e) (c, r) \<and> (\<forall>x. r = Some x \<longrightarrow> dnf_form x)"
proof -
  have conj: "literal x \<or> is_const x \<Longrightarrow> dnf_form x" for x by (blast intro: dnf_conj conj_const conj_literal)
  have is_term: "is_term e" by (rule literal_is_term [OF assms])
  then have eq: "substituteConstants K n e = Some (ck_substituteConstants (term_methods e) K)" for n
    by (cases e) (simp_all add: is_term_def)
  have "\<forall>x. snd (ck_substituteConstants (term_methods e) K) = Some x \<longrightarrow> x = e \<or> is_const x"
    using is_term by (cases e) (auto simp: is_term_def split: option.splits)
  then show ?thesis using assms conj
    by (intro exI [of _ "fst (ck_substituteConstants (term_methods e) K)"] exI [of _ "snd (ck_substituteConstants (term_methods e) K)"])
      (auto simp: eq)
qed

lemma eliminateConstantsInArray_mapO:
  "eliminateConstantsInArray K n arr = map_option (\<lambda>ps. (list_ex fst ps, map snd ps)) (mapO (substituteConstants K n) arr)"
proof (induction arr)
  case (Cons e arr)
  then show ?case by (cases "mapO (substituteConstants K n) arr") (auto split: option.splits)
qed simp

lemma eliminateConstants_converges:
  assumes "\<forall>x \<in> set es. \<exists>c r. converges (\<lambda>n. substituteConstants K n x) (c, r) \<and> (\<forall>y. r = Some y \<longrightarrow> dnf_form y)"
  shows "\<exists>c arr. converges (\<lambda>n. eliminateConstantsInArray K n es) (c, arr) \<and> (\<forall>y. Some y \<in> set arr \<longrightarrow> dnf_form y)"
proof -
  from assms have "\<forall>x \<in> set es. \<exists>p. converges (\<lambda>n. substituteConstants K n x) p \<and> (\<forall>y. snd p = Some y \<longrightarrow> dnf_form y)"
    by (metis snd_conv)
  from converges_mapO [OF this] obtain ps where
    ps: "converges (\<lambda>n. mapO (substituteConstants K n) es) ps" "list_all2 (\<lambda>x p. \<forall>y. snd p = Some y \<longrightarrow> dnf_form y) es ps" by blast
  have "converges (\<lambda>n. eliminateConstantsInArray K n es) (list_ex fst ps, map snd ps)"
    by (rule converges_bind [OF ps(1), where g = "\<lambda>_ ps. Some (list_ex fst ps, map snd ps)"])
      (simp_all add: eliminateConstantsInArray_mapO)
  moreover have "\<forall>y. Some y \<in> set (map snd ps) \<longrightarrow> dnf_form y"
    using list_all2_right [OF ps(2)] by auto
  ultimately show ?thesis by blast
qed

lemma substitute_node:
  assumes conv: "converges (\<lambda>n. eliminateConstantsInArray K n es) (c, arr)"
    and create: "\<exists>r. converges (\<lambda>n. create K n arr negated False) r \<and> (\<forall>x. r = Some x \<longrightarrow> dnf_form x)"
    and node: "dnf_form node"
    and eq: "\<And>n c' arr'. eliminateConstantsInArray K n es = Some (c', arr') \<Longrightarrow> substituteConstants K n node =
      (if \<not> c' then Some (False, Some node) else map_option (Pair True) (create K n arr' negated False))"
  shows "\<exists>c r. converges (\<lambda>n. substituteConstants K n node) (c, r) \<and> (\<forall>x. r = Some x \<longrightarrow> dnf_form x)"
proof -
  let ?g = "\<lambda>n p. if \<not> fst p then Some (False, Some node) else map_option (Pair True) (create K n (snd p) negated False)"
  obtain r where r: "converges (\<lambda>n. create K n arr negated False) r" "\<forall>x. r = Some x \<longrightarrow> dnf_form x"
    using create by blast
  have "converges (\<lambda>n. map_option (Pair True) (create K n arr negated False)) (True, r)"
    by (rule converges_bind [OF r(1), where g = "\<lambda>_ r. Some (True, r)"]) simp_all
  then have "converges (\<lambda>n. ?g n (c, arr)) (c, if c then r else Some node)" by (cases c) simp_all
  moreover have "substituteConstants K n node = ?g n p" if "eliminateConstantsInArray K n es = Some p" for n p
    using eq [of n "fst p" "snd p"] that by simp
  ultimately have "converges (\<lambda>n. substituteConstants K n node) (c, if c then r else Some node)"
    by (rule converges_bind [OF conv, where g = ?g])
  moreover have "\<forall>x. (if c then r else Some node) = Some x \<longrightarrow> dnf_form x" using r(2) node by simp
  ultimately show ?thesis by blast
qed

lemma substituteConstants_converges:
  "conj_form e \<Longrightarrow> \<exists>c r. converges (\<lambda>n. substituteConstants K n e) (c, r) \<and> (\<forall>x. r = Some x \<longrightarrow> dnf_form x)"
  "dnf_form e \<Longrightarrow> \<exists>c r. converges (\<lambda>n. substituteConstants K n e) (c, r) \<and> (\<forall>x. r = Some x \<longrightarrow> dnf_form x)"
proof (induction rule: conj_form_dnf_form.inducts)
  case (conj_and es n)
  have "\<forall>x. n = Some x \<longrightarrow> dnf_form x" "dnf_form (AndExpr es n)"
    using conj_and.hyps by (auto simp: dnf_and_iff conj_and_iff)
  moreover obtain c arr where arr: "converges (\<lambda>n. eliminateConstantsInArray K n es) (c, arr)" "\<forall>y. Some y \<in> set arr \<longrightarrow> dnf_form y"
    using eliminateConstants_converges [of es K] conj_and.IH by blast
  ultimately show ?case using and_returns_dnf [OF arr(2), of n K False] unfolding and_returns_def
    by (intro substitute_node [OF arr(1), where create = andCreate and negated = n]) auto
next
  case (dnf_or es n)
  have "\<forall>x. n = Some x \<longrightarrow> dnf_form x" "dnf_form (OrExpr es n)"
    using dnf_or.hyps by (auto simp: dnf_or_iff)
  moreover obtain c arr where arr: "converges (\<lambda>n. eliminateConstantsInArray K n es) (c, arr)" "\<forall>y. Some y \<in> set arr \<longrightarrow> dnf_form y"
    using eliminateConstants_converges [of es K] dnf_or.IH by blast
  ultimately show ?case using orCreate_converges [OF arr(2), of n False K]
    by (intro substitute_node [OF arr(1), where create = orCreate and negated = n]) auto
qed (auto intro: substitute_literal)

section \<open>Termination and truth\<close>

lemma normalization_returns:
  assumes "\<forall>e. Some e \<in> set arr \<longrightarrow> dnf_form e" and "dnf_form e"
  shows "\<exists>N r s t. (\<forall>n \<ge> N. andCreate K n arr None c = Some r \<and> orCreate K n arr None c = Some s \<and> negate K n e = Some t) \<and>
    (\<forall>x. r = Some x \<longrightarrow> dnf_form x) \<and> (\<forall>x. s = Some x \<longrightarrow> dnf_form x) \<and> dnf_form t"
proof -
  have nn: "\<forall>x. None = Some x \<longrightarrow> dnf_form x" by simp
  have nk: "c \<longrightarrow> (\<forall>e. Some e \<in> set arr \<longrightarrow> (\<forall>x \<in> set (getTerminals e). negatable K x))"
    using assms(1) conj_negates(2) by blast
  obtain r where r: "converges (\<lambda>n. andCreate K n arr None c) r" "\<forall>x. r = Some x \<longrightarrow> dnf_form x"
    using and_returns_dnf [OF assms(1) nn, of K c] unfolding and_returns_def by blast
  obtain s where s: "converges (\<lambda>n. orCreate K n arr None c) s" "\<forall>x. s = Some x \<longrightarrow> dnf_form x"
    using orCreate_converges [where K = K and arr = arr and negated = None and c = c, OF assms(1) nn nk] by blast
  obtain t where t: "converges (\<lambda>n. negate K n e) t" "dnf_form t" using dnf_negates [OF assms(2)] by blast
  from r(1) s(1) t(1) obtain N1 N2 N3 where
    "\<forall>n \<ge> N1. andCreate K n arr None c = Some r" "\<forall>n \<ge> N2. orCreate K n arr None c = Some s"
    "\<forall>n \<ge> N3. negate K n e = Some t" unfolding converges_def by blast
  then have "\<forall>n \<ge> max N1 (max N2 N3). andCreate K n arr None c = Some r \<and> orCreate K n arr None c = Some s \<and> negate K n e = Some t"
    by simp
  with r(2) s(2) t(2) show ?thesis by blast
qed

lemma example_forms: "\<forall>e. Some e \<in> set (map Some example_keys) \<longrightarrow> dnf_form e" "dnf_form (OrExpr example_keys None)"
proof -
  have "literal (DefinedExpr k None)" for k by (rule literal.intros) (simp_all add: is_lit_def)
  then have c: "conj_form (DefinedExpr k None)" for k by (rule conj_literal)
  then show "\<forall>e. Some e \<in> set (map Some example_keys) \<longrightarrow> dnf_form e" "dnf_form (OrExpr example_keys None)"
    by (auto simp: example_keys_def dnf_or_iff intro: dnf_conj)
qed

text \<open>
  \<^bold>\<open>C7.\<close> On disjunctive normal forms over \<open>true\<close>, \<open>false\<close>, key tests, equalities, regular
  expressions and the negations of these (\<open>dnf_form\<close>; no \<open>in\<close>, \<open>not in\<close> or comparison),
  normalization and negation return: from some depth on, \<open>andCreate\<close>, \<open>orCreate\<close> and \<open>negate\<close>
  give one and the same result, which is again such a form.
\<close>

theorem normalization_terminates:
  assumes "\<forall>e. Some e \<in> set arr \<longrightarrow> dnf_form e" and "dnf_form e"
  shows "\<exists>N r s t. (\<forall>n \<ge> N. andCreate K n arr None c = Some r \<and> orCreate K n arr None c = Some s \<and> negate K n e = Some t) \<and>
    (\<forall>x. r = Some x \<longrightarrow> dnf_form x) \<and> (\<forall>x. s = Some x \<longrightarrow> dnf_form x) \<and> dnf_form t"
  by (rule normalization_returns [OF assms])

theorem normalization_terminates_witness:
  "\<exists>N t. \<forall>n \<ge> N. negate (\<lambda>_. None) n (OrExpr example_keys None) = Some t"
  using normalization_terminates [OF example_forms, of "\<lambda>_. None" True] by blast

text \<open>
  \<^bold>\<open>C1.\<close> In a context that meets the conditions \<open>expr_good\<close> on the terms of the operands, what
  \<open>ContextKeyExpr.and\<close> and \<open>ContextKeyExpr.or\<close> make of them by flattening, sorting, dropping
  duplicates, distributing and detecting contradictions evaluates to the conjunction and the
  disjunction of the operands and meets the conditions again; it is \<open>undefined\<close> only when there
  are no operands.  This is so for every result, whatever the depth; and on the normal forms
  \<open>dnf_form\<close> both functions return at every sufficient depth.
\<close>

theorem ContextKeyExpr_and_or_correct:
  assumes "\<forall>e. Some e \<in> set arr \<longrightarrow> expr_good K H ctx F e"
  shows "(\<forall>n c r. andCreate K n arr None c = Some r \<longrightarrow>
           (case r of None \<Rightarrow> (\<forall>e. Some e \<notin> set arr)
            | Some e \<Rightarrow> expr_good K H ctx F e \<and> evaluate H ctx e = (\<forall>x. Some x \<in> set arr \<longrightarrow> evaluate H ctx x))) \<and>
         (\<forall>n c r. orCreate K n arr None c = Some r \<longrightarrow>
           (case r of None \<Rightarrow> (\<forall>e. Some e \<notin> set arr)
            | Some e \<Rightarrow> expr_good K H ctx F e \<and> evaluate H ctx e = (\<exists>x. Some x \<in> set arr \<and> evaluate H ctx x))) \<and>
         ((\<forall>e. Some e \<in> set arr \<longrightarrow> dnf_form e) \<longrightarrow>
           (\<forall>c. \<exists>N. \<forall>n \<ge> N. andCreate K n arr None c \<noteq> None \<and> orCreate K n arr None c \<noteq> None))"
proof (intro conjI)
  show "(\<forall>e. Some e \<in> set arr \<longrightarrow> dnf_form e) \<longrightarrow>
      (\<forall>c. \<exists>N. \<forall>n \<ge> N. andCreate K n arr None c \<noteq> None \<and> orCreate K n arr None c \<noteq> None)"
    using normalization_returns [of arr TrueExpr K] by (metis const_forms(3) option.distinct(1))
  show "\<forall>n c r. andCreate K n arr None c = Some r \<longrightarrow>
      (case r of None \<Rightarrow> (\<forall>e. Some e \<notin> set arr)
       | Some e \<Rightarrow> expr_good K H ctx F e \<and> evaluate H ctx e = (\<forall>x. Some x \<in> set arr \<longrightarrow> evaluate H ctx x))"
    using andCreate_evaluate [OF assms, of None] by simp
  show "\<forall>n c r. orCreate K n arr None c = Some r \<longrightarrow>
      (case r of None \<Rightarrow> (\<forall>e. Some e \<notin> set arr)
       | Some e \<Rightarrow> expr_good K H ctx F e \<and> evaluate H ctx e = (\<exists>x. Some x \<in> set arr \<and> evaluate H ctx x))"
    using orCreate_evaluate [OF assms, of None] by simp
qed

theorem ContextKeyExpr_and_or_correct_witness:
  "\<exists>r s. andCreate (\<lambda>_. None) 1 (map Some example_keys) None False = Some (Some r) \<and>
    orCreate (\<lambda>_. None) 1 (map Some example_keys) None False = Some (Some s) \<and>
    \<not> evaluate example_host example_context r \<and> evaluate example_host example_context s"
proof -
  let ?K = "\<lambda>_ :: js_string. None :: bool option" and ?F = "\<lambda>_ :: js_string. [] :: js_string"
  have g: "\<forall>e. Some e \<in> set (map Some example_keys) \<longrightarrow> expr_good ?K example_host example_context ?F e"
    by (auto simp: example_keys_def defined_good_def)
  have r: "andCreate ?K 1 (map Some example_keys) None False = Some (Some (AndExpr example_keys None))" by code_simp
  have s: "orCreate ?K 1 (map Some example_keys) None False = Some (Some (OrExpr example_keys None))" by code_simp
  note c = ContextKeyExpr_and_or_correct [OF g, THEN conjunct1, rule_format, OF r]
    ContextKeyExpr_and_or_correct [OF g, THEN conjunct2, THEN conjunct1, rule_format, OF s]
  have "evaluate example_host example_context (AndExpr example_keys None) =
      (\<forall>x. Some x \<in> set (map Some example_keys) \<longrightarrow> evaluate example_host example_context x)"
    "evaluate example_host example_context (OrExpr example_keys None) =
      (\<exists>x. Some x \<in> set (map Some example_keys) \<and> evaluate example_host example_context x)"
    using c by (simp_all only: option.case)
  then show ?thesis using r s example_evaluate by (auto simp: example_keys_def)
qed

text \<open>
  \<^bold>\<open>C3.\<close> In a context that meets the conditions \<open>expr_good\<close> on the terms of the expression (the
  keys it compares read as numbers there, its regular expressions with the same source have the
  same flags), \<open>negate\<close> returns an expression with the opposite truth value, and negating that
  again gives back the truth value of the start.  This is so for every result, whatever the
  depth; and on the normal forms \<open>dnf_form\<close> both negations return at every sufficient depth.
\<close>

theorem ContextKeyExpr_negate_correct:
  assumes "expr_good K H ctx F e"
  shows "(\<forall>n r. negate K n e = Some r \<longrightarrow> expr_good K H ctx F r \<and> evaluate H ctx r = (\<not> evaluate H ctx e) \<and>
           (\<forall>m s. negate K m r = Some s \<longrightarrow> expr_good K H ctx F s \<and> evaluate H ctx s = evaluate H ctx e)) \<and>
         (dnf_form e \<longrightarrow> (\<exists>N. \<forall>n \<ge> N. \<exists>r. negate K n e = Some r \<and> negate K n r \<noteq> None))"
proof (intro conjI impI)
  show "\<forall>n r. negate K n e = Some r \<longrightarrow> expr_good K H ctx F r \<and> evaluate H ctx r = (\<not> evaluate H ctx e) \<and>
      (\<forall>m s. negate K m r = Some s \<longrightarrow> expr_good K H ctx F s \<and> evaluate H ctx s = evaluate H ctx e)"
    using negate_evaluate [OF assms] negate_evaluate by blast
  assume "dnf_form e"
  then obtain r where r: "converges (\<lambda>n. negate K n e) r" "dnf_form r" using dnf_negates by blast
  obtain s where "converges (\<lambda>n. negate K n r) s" using dnf_negates [OF r(2)] by blast
  with r(1) obtain N M where N: "\<forall>n \<ge> N. negate K n e = Some r" "\<forall>n \<ge> M. negate K n r = Some s"
    unfolding converges_def by blast
  then have "\<forall>n \<ge> max N M. \<exists>r. negate K n e = Some r \<and> negate K n r \<noteq> None" by simp
  then show "\<exists>N. \<forall>n \<ge> N. \<exists>r. negate K n e = Some r \<and> negate K n r \<noteq> None" ..
qed

theorem ContextKeyExpr_negate_correct_witness:
  "\<exists>r s. negate (\<lambda>_. None) 2 (AndExpr example_keys None) = Some r \<and> negate (\<lambda>_. None) 2 r = Some s \<and>
    evaluate example_host example_context r \<and> \<not> evaluate example_host example_context s"
proof -
  let ?K = "\<lambda>_ :: js_string. None :: bool option" and ?F = "\<lambda>_ :: js_string. [] :: js_string"
  let ?e = "AndExpr example_keys None"
  let ?r = "OrExpr [NotExpr (js ''a'') (Some (DefinedExpr (js ''a'') None)),
      NotExpr (js ''b'') (Some (DefinedExpr (js ''b'') None))] (Some ?e)"
  have g: "expr_good ?K example_host example_context ?F ?e"
    by (simp add: example_keys_def defined_good_def)
  have r: "negate ?K 2 ?e = Some ?r" by code_simp
  have s: "negate ?K 2 ?r = Some ?e" by (rule negate_cached) simp
  have e: "\<not> evaluate example_host example_context ?e" using example_evaluate by (simp add: example_keys_def)
  from ContextKeyExpr_negate_correct [OF g] r s e show ?thesis by blast
qed



text \<open>
  Outside these classes the sorting does not put disjunctions last: \<open>(a || b) && c in d\<close> stays
  a conjunction with a disjunction under it, and prints as \<open>a || b && c in 'd'\<close>, which reads
  as \<open>a || (b && c in 'd')\<close>.
\<close>

lemma andCreate_leaves_disjunction:
  "andCreate (\<lambda>_. None) 5 [Some (OrExpr example_keys None), Some (InExpr (js ''c'') (js ''d''))] None True =
     Some (Some (AndExpr [OrExpr example_keys None, InExpr (js ''c'') (js ''d'')] None))"
  "serialize example_host (AndExpr [OrExpr example_keys None, InExpr (js ''c'') (js ''d'')] None) =
     js ''a || b && c in '' @ [39, 100, 39]"
  by code_simp+

end
