(* ===== verification/ContextKeyScanner.thy ===== *)
theory ContextKeyScanner
  imports JsValues "HOL-Library.Sublist"
begin

text \<open>
  The scanner of \<open>when\<close> clauses, \<open>src/vs/platform/contextkey/common/scanner.ts\<close>: its state, one
  definition per method; the lexical grammar of the clauses, stated without the scanner (longest
  operators and words, the keyword table, quoted strings, regular expressions with escapes and
  character classes); and that the scanner reads every input as the grammar does.

  The engine supplies which code points are letters (\<open>\p{L}\<close> of the string pattern) and the
  constructor of regular expressions; \<open>localize\<close> looks a message up in the current language.
  They are the fields of \<open>parser_host\<close>.
\<close>

section \<open>Tokens\<close>

record parser_host =
  isLetter :: "nat \<Rightarrow> bool"
  localize :: "js_string \<Rightarrow> js_string list \<Rightarrow> js_string"
  newRegExp :: "js_string \<Rightarrow> js_string option \<Rightarrow> regexp option"

datatype Token =
    LParen (token_offset: nat)
  | RParen (token_offset: nat)
  | Neg (token_offset: nat)
  | EqTok (token_offset: nat) bool
  | NotEqTok (token_offset: nat) bool
  | Lt (token_offset: nat)
  | LtEq (token_offset: nat)
  | Gt (token_offset: nat)
  | GtEq (token_offset: nat)
  | RegexOp (token_offset: nat)
  | RegexStr (token_offset: nat) js_string
  | TrueTok (token_offset: nat)
  | FalseTok (token_offset: nat)
  | InTok (token_offset: nat)
  | NotTok (token_offset: nat)
  | AndTok (token_offset: nat)
  | OrTok (token_offset: nat)
  | StrTok (token_offset: nat) js_string
  | QuotedStr (token_offset: nat) js_string
  | ErrorTok (token_offset: nat) js_string
  | EOFTok (token_offset: nat)

record LexingError =
  le_offset :: nat
  le_lexeme :: js_string
  le_additionalInfo :: "js_string option"

fun getLexeme :: "Token \<Rightarrow> js_string" where
  "getLexeme (LParen _) = js ''(''"
| "getLexeme (RParen _) = js '')''"
| "getLexeme (Neg _) = js ''!''"
| "getLexeme (EqTok _ isTripleEq) = (if isTripleEq then js ''==='' else js ''=='')"
| "getLexeme (NotEqTok _ isTripleEq) = (if isTripleEq then js ''!=='' else js ''!='')"
| "getLexeme (Lt _) = js ''<''"
| "getLexeme (LtEq _) = js ''<=''"
| "getLexeme (Gt _) = js ''>''"
| "getLexeme (GtEq _) = js ''>=''"
| "getLexeme (RegexOp _) = js ''=~''"
| "getLexeme (RegexStr _ s) = s"
| "getLexeme (TrueTok _) = js ''true''"
| "getLexeme (FalseTok _) = js ''false''"
| "getLexeme (InTok _) = js ''in''"
| "getLexeme (NotTok _) = js ''not''"
| "getLexeme (AndTok _) = js ''&&''"
| "getLexeme (OrTok _) = js ''||''"
| "getLexeme (StrTok _ s) = s"
| "getLexeme (QuotedStr _ s) = s"
| "getLexeme (ErrorTok _ s) = s"
| "getLexeme (EOFTok _) = js ''EOF''"

definition hintDidYouMean :: "parser_host \<Rightarrow> js_string list \<Rightarrow> js_string option" where
  "hintDidYouMean P meant =
     (if length meant = 1 then Some (localize P (js ''Did you mean {0}?'') meant)
      else if length meant = 2 then Some (localize P (js ''Did you mean {0} or {1}?'') meant)
      else if length meant = 3 then Some (localize P (js ''Did you mean {0}, {1} or {2}?'') meant)
      else None)"

definition hintDidYouForgetToOpenOrCloseQuote :: "parser_host \<Rightarrow> js_string" where
  "hintDidYouForgetToOpenOrCloseQuote P = localize P (js ''Did you forget to open or close the quote?'') []"

definition hintDidYouForgetToEscapeSlash :: "parser_host \<Rightarrow> js_string" where
  "hintDidYouForgetToEscapeSlash P =
     localize P (js ''Did you forget to escape the '' @ [39, 47, 39] @ js '' (slash) character? Put two backslashes before it to escape, e.g., ''
                 @ [39, 92, 92, 47, 39] @ js ''.'') []"

section \<open>The scanner and its helpers\<close>

record Scanner =
  sc_input :: js_string
  sc_start :: nat
  sc_current :: nat
  sc_tokens :: "Token list"
  sc_errors :: "LexingError list"

definition Scanner_reset :: "js_string \<Rightarrow> Scanner" where
  "Scanner_reset value = \<lparr>sc_input = value, sc_start = 0, sc_current = 0, sc_tokens = [], sc_errors = []\<rparr>"

text \<open>\<open>charCodeAt\<close> is not-a-number (\<open>None\<close>) past the end.\<close>

definition charCodeAt :: "js_string \<Rightarrow> nat \<Rightarrow> 16 word option" where
  "charCodeAt s i = (if i < length s then Some (s ! i) else None)"

definition Scanner_isAtEnd :: "Scanner \<Rightarrow> bool" where
  "Scanner_isAtEnd sc = (sc_current sc \<ge> length (sc_input sc))"

definition Scanner_match :: "Scanner \<Rightarrow> 16 word \<Rightarrow> bool \<times> Scanner" where
  "Scanner_match sc expected =
     (if Scanner_isAtEnd sc then (False, sc)
      else if charCodeAt (sc_input sc) (sc_current sc) \<noteq> Some expected then (False, sc)
      else (True, sc\<lparr>sc_current := sc_current sc + 1\<rparr>))"

definition Scanner_advance :: "Scanner \<Rightarrow> 16 word option \<times> Scanner" where
  "Scanner_advance sc = (charCodeAt (sc_input sc) (sc_current sc), sc\<lparr>sc_current := sc_current sc + 1\<rparr>)"

definition Scanner_peek :: "Scanner \<Rightarrow> 16 word option" where
  "Scanner_peek sc = (if Scanner_isAtEnd sc then Some 0 else charCodeAt (sc_input sc) (sc_current sc))"

definition Scanner_addToken :: "Scanner \<Rightarrow> (nat \<Rightarrow> Token) \<Rightarrow> Scanner" where
  "Scanner_addToken sc type = sc\<lparr>sc_tokens := sc_tokens sc @ [type (sc_start sc)]\<rparr>"

definition Scanner_lexeme :: "Scanner \<Rightarrow> js_string" where
  "Scanner_lexeme sc = js_substring (sc_input sc) (int (sc_start sc)) (int (sc_current sc))"

definition Scanner_error :: "Scanner \<Rightarrow> js_string option \<Rightarrow> Scanner" where
  "Scanner_error sc additional =
     (let lexeme = Scanner_lexeme sc
      in sc\<lparr>sc_errors := sc_errors sc @ [\<lparr>le_offset = sc_start sc, le_lexeme = lexeme, le_additionalInfo = additional\<rparr>],
            sc_tokens := sc_tokens sc @ [ErrorTok (sc_start sc) lexeme]\<rparr>)"

section \<open>Strings\<close>

definition string_char :: "(nat \<Rightarrow> bool) \<Rightarrow> 16 word \<Rightarrow> bool" where
  "string_char L c \<longleftrightarrow>
     (97 \<le> c \<and> c \<le> 122) \<or> (65 \<le> c \<and> c \<le> 90) \<or> (48 \<le> c \<and> c \<le> 57) \<or> c = 95 \<or>
     c \<in> set (js ''<>-./'') \<or> c = 92 \<or> c \<in> set (js '':*?+[]^,#@;'') \<or> c = 34 \<or> c \<in> set (js ''%$'') \<or> L (unat c)"

definition is_lead :: "16 word \<Rightarrow> bool" where
  "is_lead c \<longleftrightarrow> 0xD800 \<le> c \<and> c \<le> 0xDBFF"

definition is_trail :: "16 word \<Rightarrow> bool" where
  "is_trail c \<longleftrightarrow> 0xDC00 \<le> c \<and> c \<le> 0xDFFF"

text \<open>
  How many code units the pattern \<open>stringRe\<close> matches at the start of a string; it reads a
  surrogate pair as one code point (flag \<open>u\<close>).
\<close>

fun string_run :: "(nat \<Rightarrow> bool) \<Rightarrow> js_string \<Rightarrow> nat" where
  "string_run L [] = 0"
| "string_run L [c] = (if string_char L c then 1 else 0)"
| "string_run L (c # d # r) =
     (if is_lead c \<and> is_trail d
      then (if L (0x10000 + (unat c - 0xD800) * 0x400 + (unat d - 0xDC00)) then 2 + string_run L r else 0)
      else if string_char L c then 1 + string_run L (d # r) else 0)"

definition keyword_token :: "js_string \<Rightarrow> (nat \<Rightarrow> Token) option" where
  "keyword_token lexeme =
     (if lexeme = js ''not'' then Some NotTok else if lexeme = js ''in'' then Some InTok
      else if lexeme = js ''false'' then Some FalseTok else if lexeme = js ''true'' then Some TrueTok else None)"

definition Scanner_string :: "parser_host \<Rightarrow> Scanner \<Rightarrow> Scanner" where
  "Scanner_string P sc =
     (let n = string_run (isLetter P) (drop (sc_start sc) (sc_input sc))
      in if n = 0 then sc
         else let sc = sc\<lparr>sc_current := sc_start sc + n\<rparr>; lexeme = Scanner_lexeme sc
              in case keyword_token lexeme of
                   Some keyword \<Rightarrow> Scanner_addToken sc keyword
                 | None \<Rightarrow> sc\<lparr>sc_tokens := sc_tokens sc @ [StrTok (sc_start sc) lexeme]\<rparr>)"

function quotedString_loop :: "Scanner \<Rightarrow> Scanner" where
  "quotedString_loop sc =
     (if Scanner_peek sc \<noteq> Some 39 \<and> \<not> Scanner_isAtEnd sc then quotedString_loop (snd (Scanner_advance sc)) else sc)"
  by pat_completeness auto
termination
  by (relation "measure (\<lambda>sc. length (sc_input sc) - sc_current sc)")
    (auto simp: Scanner_isAtEnd_def Scanner_advance_def)

definition Scanner_quotedString :: "parser_host \<Rightarrow> Scanner \<Rightarrow> Scanner" where
  "Scanner_quotedString P sc =
     (let sc = quotedString_loop sc
      in if Scanner_isAtEnd sc then Scanner_error sc (Some (hintDidYouForgetToOpenOrCloseQuote P))
         else let sc = snd (Scanner_advance sc)
              in sc\<lparr>sc_tokens := sc_tokens sc @
                    [QuotedStr (sc_start sc + 1)
                       (js_substring (sc_input sc) (int (sc_start sc) + 1) (int (sc_current sc) - 1))]\<rparr>)"

section \<open>Regular expressions\<close>

text \<open>The position after the closing slash, \<open>None\<close> when there is none.\<close>

function regex_loop :: "js_string \<Rightarrow> nat \<Rightarrow> bool \<Rightarrow> bool \<Rightarrow> nat option" where
  "regex_loop s p inEscape inCharacterClass =
     (case charCodeAt s p of
        None \<Rightarrow> None
      | Some ch \<Rightarrow>
          if inEscape then regex_loop s (p + 1) False inCharacterClass
          else if ch = 47 \<and> \<not> inCharacterClass then Some (p + 1)
          else if ch = 91 then regex_loop s (p + 1) inEscape True
          else if ch = 92 then regex_loop s (p + 1) True inCharacterClass
          else if ch = 93 then regex_loop s (p + 1) inEscape False
          else regex_loop s (p + 1) inEscape inCharacterClass)"
  by pat_completeness auto
termination
  by (relation "measure (\<lambda>(s, p, _, _). length s - p)") (auto simp: charCodeAt_def split: if_splits)

definition regexFlags :: "16 word set" where
  "regexFlags = set (js ''igsmyu'')"

function flags_loop :: "js_string \<Rightarrow> nat \<Rightarrow> nat" where
  "flags_loop s p =
     (case charCodeAt s p of Some ch \<Rightarrow> (if ch \<in> regexFlags then flags_loop s (p + 1) else p) | None \<Rightarrow> p)"
  by pat_completeness auto
termination
  by (relation "measure (\<lambda>(s, p). length s - p)") (auto simp: charCodeAt_def split: if_splits)

definition Scanner_regex :: "parser_host \<Rightarrow> Scanner \<Rightarrow> Scanner" where
  "Scanner_regex P sc =
     (case regex_loop (sc_input sc) (sc_current sc) False False of
        None \<Rightarrow> Scanner_error (sc\<lparr>sc_current := max (sc_current sc) (length (sc_input sc))\<rparr>)
                  (Some (hintDidYouForgetToEscapeSlash P))
      | Some p \<Rightarrow>
          let sc = sc\<lparr>sc_current := flags_loop (sc_input sc) p\<rparr>
          in sc\<lparr>sc_tokens := sc_tokens sc @ [RegexStr (sc_start sc) (Scanner_lexeme sc)]\<rparr>)"

declare quotedString_loop.simps [simp del] regex_loop.simps [simp del] flags_loop.simps [simp del]

section \<open>Scanning\<close>

text \<open>One round of the loop of \<open>scan\<close>.\<close>

definition scan_step :: "parser_host \<Rightarrow> Scanner \<Rightarrow> Scanner" where
  "scan_step P sc =
     (let sc = sc\<lparr>sc_start := sc_current sc\<rparr>; (ch, sc) = Scanner_advance sc
      in if ch = Some 40 then Scanner_addToken sc LParen
         else if ch = Some 41 then Scanner_addToken sc RParen
         else if ch = Some 33 then
           (let (eq, sc) = Scanner_match sc 61
            in if eq then
                 let (isTripleEq, sc) = Scanner_match sc 61
                 in sc\<lparr>sc_tokens := sc_tokens sc @ [NotEqTok (sc_start sc) isTripleEq]\<rparr>
               else Scanner_addToken sc Neg)
         else if ch = Some 39 then Scanner_quotedString P sc
         else if ch = Some 47 then Scanner_regex P sc
         else if ch = Some 61 then
           (let (eq, sc) = Scanner_match sc 61
            in if eq then
                 let (isTripleEq, sc) = Scanner_match sc 61
                 in sc\<lparr>sc_tokens := sc_tokens sc @ [EqTok (sc_start sc) isTripleEq]\<rparr>
               else
                 let (tilde, sc) = Scanner_match sc 126
                 in if tilde then Scanner_addToken sc RegexOp
                    else Scanner_error sc (hintDidYouMean P [js ''=='', js ''=~'']))
         else if ch = Some 60 then
           (let (eq, sc) = Scanner_match sc 61 in Scanner_addToken sc (if eq then LtEq else Lt))
         else if ch = Some 62 then
           (let (eq, sc) = Scanner_match sc 61 in Scanner_addToken sc (if eq then GtEq else Gt))
         else if ch = Some 38 then
           (let (m, sc) = Scanner_match sc 38
            in if m then Scanner_addToken sc AndTok else Scanner_error sc (hintDidYouMean P [js ''&&'']))
         else if ch = Some 124 then
           (let (m, sc) = Scanner_match sc 124
            in if m then Scanner_addToken sc OrTok else Scanner_error sc (hintDidYouMean P [js ''||'']))
         else if ch \<in> {Some 32, Some 13, Some 9, Some 10, Some 160} then sc
         else Scanner_string P sc)"

section \<open>Each round consumes input\<close>

lemma js_tokens [simp]:
  "js ''('' = [40]" "js '')'' = [41]" "js ''!'' = [33]" "js ''==='' = [61, 61, 61]" "js ''=='' = [61, 61]"
  "js ''!=='' = [33, 61, 61]" "js ''!='' = [33, 61]" "js ''<'' = [60]" "js ''<='' = [60, 61]" "js ''>'' = [62]"
  "js ''>='' = [62, 61]" "js ''=~'' = [61, 126]" "js ''&&'' = [38, 38]" "js ''||'' = [124, 124]"
  by code_simp+

lemma substring_nat: "a \<le> b \<Longrightarrow> b \<le> length s \<Longrightarrow> js_substring s (int a) (int b) = take (b - a) (drop a s)"
  by (simp add: js_substring_def clamp_def nat_diff_distrib')

lemma quotedString_loop_spec:
  assumes "sc_current sc \<le> length (sc_input sc)"
  shows "\<exists>c. quotedString_loop sc = sc\<lparr>sc_current := c\<rparr> \<and> sc_current sc \<le> c \<and> c \<le> length (sc_input sc) \<and>
    (c < length (sc_input sc) \<longrightarrow> sc_input sc ! c = 39) \<and> (\<forall>i. sc_current sc \<le> i \<and> i < c \<longrightarrow> sc_input sc ! i \<noteq> 39)"
  using assms
proof (induction sc rule: quotedString_loop.induct)
  case (1 sc)
  show ?case
  proof (cases "Scanner_peek sc \<noteq> Some 39 \<and> \<not> Scanner_isAtEnd sc")
    case True
    then have lt: "sc_current sc < length (sc_input sc)" "sc_input sc ! sc_current sc \<noteq> 39"
      by (auto simp: Scanner_isAtEnd_def Scanner_peek_def charCodeAt_def)
    let ?sc = "snd (Scanner_advance sc)"
    have "\<exists>c. quotedString_loop ?sc = ?sc\<lparr>sc_current := c\<rparr> \<and> sc_current ?sc \<le> c \<and> c \<le> length (sc_input ?sc) \<and>
      (c < length (sc_input ?sc) \<longrightarrow> sc_input ?sc ! c = 39) \<and> (\<forall>i. sc_current ?sc \<le> i \<and> i < c \<longrightarrow> sc_input ?sc ! i \<noteq> 39)"
      by (rule 1(1) [OF True]) (use lt in \<open>simp add: Scanner_advance_def\<close>)
    then obtain c where c: "quotedString_loop ?sc = ?sc\<lparr>sc_current := c\<rparr>" "sc_current sc < c" "c \<le> length (sc_input sc)"
        "c < length (sc_input sc) \<longrightarrow> sc_input sc ! c = 39" "\<forall>i. Suc (sc_current sc) \<le> i \<and> i < c \<longrightarrow> sc_input sc ! i \<noteq> 39"
      by (auto simp: Scanner_advance_def)
    have "quotedString_loop sc = sc\<lparr>sc_current := c\<rparr>"
      using True c(1) by (simp add: quotedString_loop.simps [of sc] Scanner_advance_def)
    moreover have "\<forall>i. sc_current sc \<le> i \<and> i < c \<longrightarrow> sc_input sc ! i \<noteq> 39"
      using c(5) lt(2) by (metis Suc_leI le_neq_implies_less)
    ultimately show ?thesis using c by (intro exI [of _ c]) simp
  next
    case False
    then show ?thesis using 1(2)
      by (intro exI [of _ "sc_current sc"])
        (auto simp: quotedString_loop.simps [of sc] Scanner_isAtEnd_def Scanner_peek_def charCodeAt_def split: if_splits)
  qed
qed

section \<open>The lexical grammar\<close>

text \<open>
  What the tokens of a \<open>when\<close> clause are, stated without the scanner.  An operator is the longest
  one that the input continues with; a word is the longest run of code points of the string
  pattern, and is a keyword when the table has it; a quoted string ends at the next quote, a
  regular expression at the first slash that is neither escaped nor in a character class, with
  the flags behind it.
\<close>

definition operators :: "(js_string \<times> (nat \<Rightarrow> Token)) list" where
  "operators =
    [(js ''('', LParen), (js '')'', RParen), (js ''!'', Neg), (js ''!='', \<lambda>i. NotEqTok i False),
     (js ''!=='', \<lambda>i. NotEqTok i True), (js ''=='', \<lambda>i. EqTok i False), (js ''==='', \<lambda>i. EqTok i True),
     (js ''=~'', RegexOp), (js ''<'', Lt), (js ''<='', LtEq), (js ''>'', Gt), (js ''>='', GtEq),
     (js ''&&'', AndTok), (js ''||'', OrTok)]"

definition keyword_table :: "(js_string \<times> (nat \<Rightarrow> Token)) list" where
  "keyword_table = [(js ''not'', NotTok), (js ''in'', InTok), (js ''true'', TrueTok), (js ''false'', FalseTok)]"

definition word_token :: "nat \<Rightarrow> js_string \<Rightarrow> Token" where
  "word_token i w = (case map_of keyword_table w of Some keyword \<Rightarrow> keyword i | None \<Rightarrow> StrTok i w)"

text \<open>The code points of a string, a surrogate pair being one, and those of the string pattern.\<close>

fun code_points :: "js_string \<Rightarrow> js_string list" where
  "code_points [] = []"
| "code_points [c] = [[c]]"
| "code_points (c # d # r) =
     (if is_lead c \<and> is_trail d then [c, d] # code_points r else [c] # code_points (d # r))"

fun string_point :: "parser_host \<Rightarrow> js_string \<Rightarrow> bool" where
  "string_point P [c] = string_char (isLetter P) c"
| "string_point P [c, d] = isLetter P (0x10000 + (unat c - 0xD800) * 0x400 + (unat d - 0xDC00))"
| "string_point P _ = False"

definition longest_word :: "parser_host \<Rightarrow> js_string \<Rightarrow> js_string" where
  "longest_word P s = concat (takeWhile (string_point P) (code_points s))"

text \<open>The inside of a character class, and that of a regular expression.\<close>

inductive regex_class :: "js_string \<Rightarrow> bool" where
  class_end: "regex_class []"
| class_escape: "regex_class k \<Longrightarrow> regex_class (92 # c # k)"
| class_plain: "c \<noteq> 92 \<Longrightarrow> c \<noteq> 93 \<Longrightarrow> regex_class k \<Longrightarrow> regex_class (c # k)"

inductive regex_body :: "js_string \<Rightarrow> bool" where
  body_end: "regex_body []"
| body_escape: "regex_body b \<Longrightarrow> regex_body (92 # c # b)"
| body_class: "regex_class k \<Longrightarrow> regex_body b \<Longrightarrow> regex_body (91 # k @ 93 # b)"
| body_plain: "c \<noteq> 47 \<Longrightarrow> c \<noteq> 91 \<Longrightarrow> c \<noteq> 92 \<Longrightarrow> regex_body b \<Longrightarrow> regex_body (c # b)"

text \<open>The first characters of operators, quoted strings and regular expressions, and white space.\<close>

definition token_starts :: "16 word set" where
  "token_starts = {33, 38, 39, 40, 41, 47, 60, 61, 62, 124}"

definition white :: "16 word set" where
  "white = {32, 13, 9, 10, 160}"

definition skips :: "parser_host \<Rightarrow> 16 word \<Rightarrow> js_string \<Rightarrow> bool" where
  "skips P c r \<longleftrightarrow> c \<in> white \<or> c \<notin> token_starts \<and> longest_word P (c # r) = []"

text \<open>\<open>lexical P i w r t\<close>: at offset \<open>i\<close>, where the input goes on with \<open>w @ r\<close>, stands token \<open>t\<close>, made of \<open>w\<close>.\<close>

inductive lexical :: "parser_host \<Rightarrow> nat \<Rightarrow> js_string \<Rightarrow> js_string \<Rightarrow> Token \<Rightarrow> bool" for P i where
  lex_operator: "(w, t) \<in> set operators \<Longrightarrow> (\<forall>p\<in>set (map fst operators). prefix p (w @ r) \<longrightarrow> length p \<le> length w) \<Longrightarrow>
    lexical P i w r (t i)"
| lex_stray: "c \<in> {38, 61, 124} \<Longrightarrow> (\<forall>p\<in>set (map fst operators). \<not> prefix p (c # r)) \<Longrightarrow>
    lexical P i [c] r (ErrorTok i [c])"
| lex_quoted: "39 \<notin> set x \<Longrightarrow> lexical P i (39 # x @ [39]) r (QuotedStr (Suc i) x)"
| lex_unclosed_quote: "39 \<notin> set x \<Longrightarrow> lexical P i (39 # x) [] (ErrorTok i (39 # x))"
| lex_regex: "regex_body b \<Longrightarrow> set f \<subseteq> set (js ''igsmyu'') \<Longrightarrow> r = [] \<or> hd r \<notin> set (js ''igsmyu'') \<Longrightarrow>
    lexical P i (47 # b @ 47 # f) r (RegexStr i (47 # b @ 47 # f))"
| lex_unclosed_regex: "(\<forall>b q. x = b @ 47 # q \<longrightarrow> \<not> regex_body b) \<Longrightarrow> lexical P i (47 # x) [] (ErrorTok i (47 # x))"
| lex_word: "w \<noteq> [] \<Longrightarrow> hd w \<notin> token_starts \<union> white \<Longrightarrow> longest_word P (w @ r) = w \<Longrightarrow> lexical P i w r (word_token i w)"

text \<open>The tokens of an input from offset \<open>i\<close> on.\<close>

inductive lexed :: "parser_host \<Rightarrow> nat \<Rightarrow> js_string \<Rightarrow> Token list \<Rightarrow> bool" for P where
  lexed_EOF: "lexed P i [] [EOFTok i]"
| lexed_skip: "skips P c r \<Longrightarrow> lexed P (Suc i) r ts \<Longrightarrow> lexed P i (c # r) ts"
| lexed_token: "lexical P i w r t \<Longrightarrow> lexed P (i + length w) r ts \<Longrightarrow> lexed P i (w @ r) (t # ts)"

text \<open>The lexing error of an \<open>Error\<close> token, its hint by the first character.\<close>

definition error_hint :: "parser_host \<Rightarrow> 16 word \<Rightarrow> js_string option" where
  "error_hint P c =
     (if c = 39 then Some (hintDidYouForgetToOpenOrCloseQuote P)
      else if c = 47 then Some (hintDidYouForgetToEscapeSlash P)
      else hintDidYouMean P (if c = 61 then [js ''=='', js ''=~''] else [[c, c]]))"

fun lexing_errors :: "parser_host \<Rightarrow> Token \<Rightarrow> LexingError list" where
  "lexing_errors P (ErrorTok i w) = [\<lparr>le_offset = i, le_lexeme = w, le_additionalInfo = error_hint P (hd w)\<rparr>]"
| "lexing_errors P _ = []"

section \<open>Words and regular expressions\<close>

lemma concat_code_points: "concat (code_points s) = s"
  by (induction s rule: code_points.induct) auto

lemma string_run_word_length: "string_run (isLetter P) s = length (longest_word P s)"
  unfolding longest_word_def
  by (induction "isLetter P" s rule: string_run.induct) auto

lemma longest_word_prefix: "longest_word P s = take (length (longest_word P s)) s"
proof -
  have "longest_word P s @ concat (dropWhile (string_point P) (code_points s)) = s"
    unfolding longest_word_def by (metis concat_append concat_code_points takeWhile_dropWhile_id)
  then show ?thesis by (metis append_eq_conv_conj)
qed

lemma drop_ConsD: "drop p s = c # r \<Longrightarrow> p < length s \<and> s ! p = c \<and> drop (Suc p) s = r"
  by (metis Cons_nth_drop_Suc drop_eq_Nil list.inject list.simps(3) not_le)

lemma charCodeAt_drop: "charCodeAt s p = (case drop p s of [] \<Rightarrow> None | c # _ \<Rightarrow> Some c)"
  by (cases "drop p s") (auto simp: charCodeAt_def dest: drop_ConsD)

lemma regex_loop_class:
  "regex_class k \<Longrightarrow> drop p s = k @ 93 # r \<Longrightarrow> regex_loop s p False True = regex_loop s (p + length k + 1) False False"
proof (induction arbitrary: p rule: regex_class.induct)
  case class_end
  then show ?case by (simp add: regex_loop.simps [of s p] charCodeAt_drop)
next
  case (class_escape k c)
  from class_escape.prems have d: "drop (Suc p) s = c # k @ 93 # r" "drop (Suc (Suc p)) s = k @ 93 # r"
    by (auto dest!: drop_ConsD)
  show ?case using class_escape.prems class_escape.IH [OF d(2)] d(1)
    by (simp add: regex_loop.simps [of s p] regex_loop.simps [of s "Suc p"] charCodeAt_drop)
next
  case (class_plain c k)
  from class_plain.prems have d: "drop (Suc p) s = k @ 93 # r" by (auto dest!: drop_ConsD)
  show ?case using class_plain.prems class_plain.hyps class_plain.IH [OF d]
    by (simp add: regex_loop.simps [of s p] charCodeAt_drop)
qed

lemma regex_loop_body:
  "regex_body b \<Longrightarrow> drop p s = b @ q \<Longrightarrow> regex_loop s p False False = regex_loop s (p + length b) False False"
proof (induction arbitrary: p rule: regex_body.induct)
  case (body_escape b c)
  from body_escape.prems have d: "drop (Suc p) s = c # b @ q" "drop (Suc (Suc p)) s = b @ q"
    by (auto dest!: drop_ConsD)
  show ?case using body_escape.prems body_escape.IH [OF d(2)] d(1)
    by (simp add: regex_loop.simps [of s p] regex_loop.simps [of s "Suc p"] charCodeAt_drop)
next
  case (body_class k b)
  from body_class.prems have d: "drop (Suc p) s = k @ 93 # b @ q" by (auto dest!: drop_ConsD)
  then have "drop (Suc p + length k + 1) s = drop (length k + 1) (k @ 93 # b @ q)"
    by (metis add.commute add.left_commute drop_drop plus_1_eq_Suc)
  then have d2: "drop (Suc p + length k + 1) s = b @ q" by simp
  show ?case using body_class.prems body_class.IH [OF d2] regex_loop_class [OF body_class.hyps(1) d]
    by (simp add: regex_loop.simps [of s p] charCodeAt_drop add.assoc)
next
  case (body_plain c b)
  from body_plain.prems have d: "drop (Suc p) s = b @ q" by (auto dest!: drop_ConsD)
  show ?case using body_plain.prems body_plain.hyps body_plain.IH [OF d]
    by (cases "c = 93") (simp_all add: regex_loop.simps [of s p] charCodeAt_drop)
qed simp

text \<open>What the loop has read when it stops, by the state it started in.\<close>

fun regex_rest :: "bool \<Rightarrow> bool \<Rightarrow> js_string \<Rightarrow> bool" where
  "regex_rest True k [] = False"
| "regex_rest True k (c # x) = regex_rest False k x"
| "regex_rest False True x = (\<exists>k b. x = k @ 93 # b \<and> regex_class k \<and> regex_body b)"
| "regex_rest False False x = regex_body x"

lemma regex_rest_Cons:
  "regex_rest False True x \<Longrightarrow> regex_rest False k (91 # x)"
  "regex_rest True k x \<Longrightarrow> regex_rest False k (92 # x)"
  "regex_rest False False x \<Longrightarrow> regex_rest False k (93 # x)"
  "regex_rest False k x \<Longrightarrow> c \<noteq> 91 \<Longrightarrow> c \<noteq> 92 \<Longrightarrow> c \<noteq> 93 \<Longrightarrow> c \<noteq> 47 \<or> k \<Longrightarrow> regex_rest False k (c # x)"
proof -
  show "regex_rest False k (91 # x)" if "regex_rest False True x"
  proof -
    from that obtain m b where "x = m @ 93 # b" "regex_class m" "regex_body b" by auto
    then show ?thesis using body_class class_plain [of 91 m] by (cases k) (auto simp: Cons_eq_append_conv)
  qed
  show "regex_rest False k (92 # x)" if "regex_rest True k x"
  proof (cases x)
    case (Cons c y)
    have "regex_rest False True (92 # x)" if "k"
    proof -
      from \<open>regex_rest True k x\<close> that Cons obtain m b where "y = m @ 93 # b" "regex_class m" "regex_body b" by auto
      then show ?thesis using Cons class_escape [of m c] by (simp only: regex_rest.simps) (metis append_Cons)
    qed
    with that Cons show ?thesis by (cases k) (auto intro: body_escape)
  qed (use that in simp)
  show "regex_rest False k (93 # x)" if "regex_rest False False x"
    using that by (cases k) (auto intro: body_plain class_end)
  show "regex_rest False k (c # x)" if "regex_rest False k x" "c \<noteq> 91" "c \<noteq> 92" "c \<noteq> 93" "c \<noteq> 47 \<or> k"
  proof (cases k)
    case True
    with that(1) obtain m b where "x = m @ 93 # b" "regex_class m" "regex_body b" by auto
    with True that show ?thesis using class_plain [of c m] by (auto simp: Cons_eq_append_conv)
  qed (use that in \<open>auto intro: body_plain\<close>)
qed

lemma regex_loop_rest:
  "regex_loop s p e k = Some q \<Longrightarrow> \<exists>x. drop p s = x @ 47 # drop q s \<and> q = Suc (p + length x) \<and> regex_rest e k x"
proof (induction s p e k rule: regex_loop.induct)
  case (1 s p e k)
  obtain c where c: "charCodeAt s p = Some c" using 1(6) by (cases "charCodeAt s p") (auto simp: regex_loop.simps [of s p])
  then have d: "drop p s = c # drop (Suc p) s" by (auto simp: charCodeAt_def Cons_nth_drop_Suc split: if_splits)
  have step: ?case
    if "\<exists>x. drop (p + 1) s = x @ 47 # drop q s \<and> q = Suc (p + 1 + length x) \<and> regex_rest e' k' x"
      and r: "\<And>x. regex_rest e' k' x \<Longrightarrow> regex_rest e k (c # x)" for e' k'
  proof -
    from that(1) obtain x where "drop (p + 1) s = x @ 47 # drop q s" "q = Suc (p + 1 + length x)" "regex_rest e' k' x" by blast
    with d r show ?thesis by (intro exI [of _ "c # x"]) simp
  qed
  have unf: "(if e then regex_loop s (p + 1) False k
      else if c = 47 \<and> \<not> k then Some (p + 1)
      else if c = 91 then regex_loop s (p + 1) e True
      else if c = 92 then regex_loop s (p + 1) True k
      else if c = 93 then regex_loop s (p + 1) e False else regex_loop s (p + 1) e k) = Some q"
    using 1(6) c by (simp add: regex_loop.simps [of s p e k])
  consider (esc) e | (stop) "\<not> e" "c = 47" "\<not> k" | (opn) "\<not> e" "c = 91" | (bsl) "\<not> e" "c = 92" | (cls) "\<not> e" "c = 93"
    | (plain) "\<not> e" "c \<noteq> 91" "c \<noteq> 92" "c \<noteq> 93" "c \<noteq> 47 \<or> k" by blast
  then show ?case
  proof cases
    case esc
    with unf have "regex_loop s (p + 1) False k = Some q" by simp
    from 1(1) [OF c esc this] show ?thesis by (rule step) (use esc in simp)
  next
    case stop
    with unf have "q = p + 1" by simp
    then show ?thesis using d stop by (intro exI [of _ "[]"]) (simp add: body_end)
  next
    case opn
    with unf have "regex_loop s (p + 1) e True = Some q" by simp
    with 1(2) [OF c opn(1)] opn have "\<exists>x. drop (p + 1) s = x @ 47 # drop q s \<and> q = Suc (p + 1 + length x) \<and> regex_rest e True x"
      by simp
    then show ?thesis by (rule step) (use opn in \<open>simp add: regex_rest_Cons\<close>)
  next
    case bsl
    with unf have "regex_loop s (p + 1) True k = Some q" by simp
    with 1(3) [OF c bsl(1)] bsl have "\<exists>x. drop (p + 1) s = x @ 47 # drop q s \<and> q = Suc (p + 1 + length x) \<and> regex_rest True k x"
      by simp
    then show ?thesis by (rule step) (use bsl in \<open>simp add: regex_rest_Cons\<close>)
  next
    case cls
    with unf have "regex_loop s (p + 1) e False = Some q" by simp
    with 1(4) [OF c cls(1)] cls have "\<exists>x. drop (p + 1) s = x @ 47 # drop q s \<and> q = Suc (p + 1 + length x) \<and> regex_rest e False x"
      by simp
    then show ?thesis by (rule step) (use cls in \<open>simp add: regex_rest_Cons\<close>)
  next
    case plain
    with unf have "regex_loop s (p + 1) e k = Some q" by auto
    with 1(5) [OF c plain(1)] plain have "\<exists>x. drop (p + 1) s = x @ 47 # drop q s \<and> q = Suc (p + 1 + length x) \<and> regex_rest e k x"
      by simp
    then show ?thesis by (rule step) (use plain in \<open>simp add: regex_rest_Cons\<close>)
  qed
qed

lemma flags_loop_flags:
  "drop p s = f @ r \<Longrightarrow> set f \<subseteq> regexFlags \<Longrightarrow> r = [] \<or> hd r \<notin> regexFlags \<Longrightarrow> flags_loop s p = p + length f"
proof (induction f arbitrary: p)
  case Nil
  then show ?case by (cases r) (simp_all add: flags_loop.simps [of s p] charCodeAt_drop)
next
  case (Cons c f)
  from Cons.prems(1) have "drop (Suc p) s = f @ r" by (auto dest!: drop_ConsD)
  then show ?case using Cons by (simp add: flags_loop.simps [of s p] charCodeAt_drop)
qed


section \<open>The grammar covers every input\<close>

lemma operators_words: "set (map fst operators) =
  {[40], [41], [33], [33, 61], [33, 61, 61], [61, 61], [61, 61, 61], [61, 126], [60], [60, 61], [62], [62, 61], [38, 38], [124, 124]}"
  by (simp add: operators_def)

lemma ex_longest:
  assumes "x \<in> set xs" and "Q x"
  shows "\<exists>y\<in>set xs. Q y \<and> (\<forall>z\<in>set xs. Q z \<longrightarrow> length z \<le> length y)"
proof -
  have "\<forall>y. y \<in> set xs \<and> Q y \<longrightarrow> length y \<le> Max (length ` set xs)" by simp
  then obtain y where "y \<in> set xs \<and> Q y" "\<forall>z. z \<in> set xs \<and> Q z \<longrightarrow> length z \<le> length y"
    using ex_has_greatest_nat [of "\<lambda>y. y \<in> set xs \<and> Q y" x length "Suc (Max (length ` set xs))"] assms
    by (metis (no_types, lifting) less_Suc_eq_le)
  then show ?thesis by blast
qed

lemma lex_total_operator:
  assumes "c \<in> {33, 38, 40, 41, 60, 61, 62, 124}"
  shows "\<exists>w q t. c # r = w @ q \<and> lexical P i w q t"
proof (cases "\<exists>p\<in>set (map fst operators). prefix p (c # r)")
  case True
  then obtain w where w: "w \<in> set (map fst operators)" "prefix w (c # r)"
      "\<forall>p\<in>set (map fst operators). prefix p (c # r) \<longrightarrow> length p \<le> length w"
    using ex_longest [of _ "map fst operators" "\<lambda>p. prefix p (c # r)"] by blast
  then obtain t q where "(w, t) \<in> set operators" "c # r = w @ q" by (auto simp: prefix_def)
  with lex_operator [of w t q P i] w(3) show ?thesis by metis
next
  case False
  then have "c \<in> {38, 61, 124}" using assms unfolding operators_words by auto
  from lex_stray [OF this, of r P i] False show ?thesis by (metis append_Cons append_Nil)
qed

lemma lex_total_regex: "\<exists>w q t. 47 # r = w @ q \<and> lexical P i w q t"
proof (cases "\<exists>b q. r = b @ 47 # q \<and> regex_body b")
  case True
  then obtain b q where b: "r = b @ 47 # q" "regex_body b" by blast
  let ?F = "set (js ''igsmyu'')"
  let ?f = "takeWhile (\<lambda>c. c \<in> ?F) q" and ?r = "dropWhile (\<lambda>c. c \<in> ?F) q"
  have "set ?f \<subseteq> ?F" by (auto dest: set_takeWhileD)
  moreover have "?r = [] \<or> hd ?r \<notin> ?F" using hd_dropWhile by blast
  ultimately have "lexical P i (47 # b @ 47 # ?f) ?r (RegexStr i (47 # b @ 47 # ?f))" by (rule lex_regex [OF b(2)])
  moreover have "47 # r = (47 # b @ 47 # ?f) @ ?r" using b(1) by simp
  ultimately show ?thesis by blast
next
  case False
  then have "lexical P i (47 # r) [] (ErrorTok i (47 # r))" by (intro lex_unclosed_regex) blast
  then show ?thesis by (metis append_Nil2)
qed

lemma lex_total: "skips P c r \<or> (\<exists>w q t. c # r = w @ q \<and> lexical P i w q t)"
proof -
  consider "c = 39" | "c = 47" | "c \<in> {33, 38, 40, 41, 60, 61, 62, 124}" | "c \<in> white" | "c \<notin> token_starts \<union> white"
    by (auto simp: token_starts_def)
  then show ?thesis
  proof cases
    case 1
    show ?thesis
    proof (cases "39 \<in> set r")
      case True
      then obtain x q where "r = x @ 39 # q" "39 \<notin> set x" by (meson split_list_first)
      with 1 lex_quoted [of x P i q] show ?thesis by (metis append_Cons append_assoc append_Nil)
    next
      case False
      with 1 lex_unclosed_quote [of r P i] show ?thesis by (metis append_Nil2)
    qed
  next
    case 2
    then show ?thesis using lex_total_regex by blast
  next
    case 3
    then show ?thesis using lex_total_operator by blast
  next
    case 4
    then show ?thesis by (simp add: skips_def)
  next
    case 5
    let ?w = "longest_word P (c # r)"
    show ?thesis
    proof (cases "?w = []")
      case True
      with 5 show ?thesis by (simp add: skips_def)
    next
      case False
      obtain q where q: "?w @ q = c # r" using longest_word_prefix by (metis append_take_drop_id)
      with False have "hd ?w = c" by (metis hd_append2 list.sel(1))
      with False 5 q have "lexical P i ?w q (word_token i ?w)" by (intro lex_word) simp_all
      with q show ?thesis by metis
    qed
  qed
qed

section \<open>Each round reads one token of the grammar\<close>

lemma Scanner_match_drop:
  "Scanner_match sc x =
     (case drop (sc_current sc) (sc_input sc) of
        [] \<Rightarrow> (False, sc)
      | c # _ \<Rightarrow> if c = x then (True, sc\<lparr>sc_current := Suc (sc_current sc)\<rparr>) else (False, sc))"
  by (cases "drop (sc_current sc) (sc_input sc)")
    (auto simp: Scanner_match_def Scanner_isAtEnd_def charCodeAt_drop dest: drop_ConsD)

lemma drop_Suc_tl: "drop (Suc n) s = tl (drop n s)"
  by (simp add: drop_Suc drop_tl)

lemma lexeme_operator_step:
  assumes "(w, t) \<in> set operators" and "\<forall>p\<in>set (map fst operators). prefix p (w @ r) \<longrightarrow> length p \<le> length w"
    and d: "drop (sc_current sc) (sc_input sc) = w @ r"
  shows "scan_step P sc = sc\<lparr>sc_start := sc_current sc, sc_current := sc_current sc + length w,
    sc_tokens := sc_tokens sc @ [t (sc_current sc)]\<rparr>"
proof -
  have no: "r = [] \<or> w @ [hd r] \<notin> set (map fst operators)"
  proof (cases r)
    case (Cons x q)
    with assms(2) show ?thesis by fastforce
  qed simp
  have d': "charCodeAt (sc_input sc) (sc_current sc) = Some (hd w)" "drop (Suc (sc_current sc)) (sc_input sc) = tl w @ r"
    using d assms(1) by (auto simp: charCodeAt_drop drop_Suc_tl operators_def)
  have d'': "drop (Suc (Suc (sc_current sc))) (sc_input sc) = tl (tl w @ r)"
    by (subst drop_Suc_tl) (simp only: d'(2))
  show ?thesis
  proof (cases r)
    case Nil
    show ?thesis using assms(1) d' d'' unfolding operators_def Nil
      by (simp only: set_simps insert_iff empty_iff prod.inject js_tokens simp_thms, elim disjE conjE)
        (simp_all add: scan_step_def Scanner_advance_def Scanner_match_drop Scanner_addToken_def Let_def)
  next
    case (Cons x q)
    from no Cons have no: "w @ [x] \<notin> set (map fst operators)" by simp
    show ?thesis using assms(1) d' d'' no unfolding operators_words Cons unfolding operators_def
      by (simp only: set_simps insert_iff empty_iff prod.inject js_tokens simp_thms, elim disjE conjE)
        (simp_all add: scan_step_def Scanner_advance_def Scanner_match_drop Scanner_addToken_def Let_def)
  qed
qed

lemma lexeme_stray_step:
  assumes "c \<in> {38, 61, 124}" and "\<forall>p\<in>set (map fst operators). \<not> prefix p (c # r)"
    and d: "drop (sc_current sc) (sc_input sc) = c # r"
  shows "scan_step P sc = sc\<lparr>sc_start := sc_current sc, sc_current := Suc (sc_current sc),
    sc_tokens := sc_tokens sc @ [ErrorTok (sc_current sc) [c]],
    sc_errors := sc_errors sc @ lexing_errors P (ErrorTok (sc_current sc) [c])\<rparr>"
proof -
  have lex: "js_substring (sc_input sc) (int (sc_current sc)) (int (Suc (sc_current sc))) = [c]"
    using d drop_ConsD [OF d] substring_nat [of "sc_current sc" "Suc (sc_current sc)" "sc_input sc"] by simp
  have no: "r = [] \<or> hd r \<notin> {x. [c, x] \<in> set (map fst operators)}"
    using assms(2) by (cases r) (auto simp del: set_map)
  have no': "r = [] \<or> [c, hd r] \<notin> {[61, 61], [61, 126], [38, 38], [124, 124]}"
    using no unfolding operators_words by auto
  have d': "charCodeAt (sc_input sc) (sc_current sc) = Some c" "drop (Suc (sc_current sc)) (sc_input sc) = r"
    using d by (simp_all add: charCodeAt_drop drop_Suc_tl)
  from assms(1) no' d' lex show ?thesis
    by (cases r; elim insertE emptyE)
      (simp_all add: scan_step_def Scanner_advance_def Scanner_match_drop Scanner_error_def Scanner_lexeme_def error_hint_def Let_def)
qed

lemma quotedString_loop_drop:
  "drop (sc_current sc) (sc_input sc) = x @ r \<Longrightarrow> 39 \<notin> set x \<Longrightarrow> r = [] \<or> hd r = 39 \<Longrightarrow>
    quotedString_loop sc = sc\<lparr>sc_current := sc_current sc + length x\<rparr>"
proof (induction x arbitrary: sc)
  case Nil
  then show ?case
    by (cases r) (auto simp: quotedString_loop.simps [of sc] Scanner_isAtEnd_def Scanner_peek_def charCodeAt_drop)
next
  case (Cons c x)
  from Cons.prems(1) have d: "sc_current sc < length (sc_input sc)" "drop (Suc (sc_current sc)) (sc_input sc) = x @ r"
      "charCodeAt (sc_input sc) (sc_current sc) = Some c"
    using drop_ConsD [of "sc_current sc" "sc_input sc" c "x @ r"] by (simp_all add: charCodeAt_drop)
  have "quotedString_loop (sc\<lparr>sc_current := Suc (sc_current sc)\<rparr>) =
      sc\<lparr>sc_current := Suc (sc_current sc) + length x\<rparr>"
    using Cons.IH [of "sc\<lparr>sc_current := Suc (sc_current sc)\<rparr>"] d Cons.prems by simp
  then show ?case using d Cons.prems(2)
    by (simp add: quotedString_loop.simps [of sc] Scanner_isAtEnd_def Scanner_peek_def Scanner_advance_def)
qed

lemma substring_drop:
  "drop p s = w @ r \<Longrightarrow> p \<le> length s \<Longrightarrow> js_substring s (int p) (int (p + length w)) = w"
proof -
  assume d: "drop p s = w @ r" "p \<le> length s"
  then have "length (drop p s) = length w + length r" by simp
  with d(2) have "p + length w \<le> length s" by simp
  then show ?thesis using substring_nat [of p "p + length w" s] d by simp
qed

lemma scan_step_quote:
  "charCodeAt (sc_input sc) (sc_current sc) = Some 39 \<Longrightarrow>
    scan_step P sc = Scanner_quotedString P (sc\<lparr>sc_start := sc_current sc, sc_current := Suc (sc_current sc)\<rparr>)"
  by (simp add: scan_step_def Scanner_advance_def)

lemma scan_step_slash:
  "charCodeAt (sc_input sc) (sc_current sc) = Some 47 \<Longrightarrow>
    scan_step P sc = Scanner_regex P (sc\<lparr>sc_start := sc_current sc, sc_current := Suc (sc_current sc)\<rparr>)"
  by (simp add: scan_step_def Scanner_advance_def)

lemma lexeme_quoted_step:
  assumes "39 \<notin> set x" and d: "drop (sc_current sc) (sc_input sc) = 39 # x @ 39 # r"
  shows "scan_step P sc = sc\<lparr>sc_start := sc_current sc, sc_current := sc_current sc + length x + 2,
    sc_tokens := sc_tokens sc @ [QuotedStr (Suc (sc_current sc)) x]\<rparr>"
proof -
  let ?sc = "sc\<lparr>sc_start := sc_current sc, sc_current := Suc (sc_current sc)\<rparr>"
  from drop_ConsD [OF d] have d1: "drop (Suc (sc_current sc)) (sc_input sc) = x @ 39 # r" "sc_current sc < length (sc_input sc)"
    by simp_all
  have lp: "quotedString_loop ?sc = ?sc\<lparr>sc_current := Suc (sc_current sc) + length x\<rparr>"
    using quotedString_loop_drop [of ?sc x "39 # r"] d1 assms(1) by simp
  from d1 have "length (drop (Suc (sc_current sc)) (sc_input sc)) = Suc (length x + length r)" by simp
  then have "Suc (sc_current sc) + length x < length (sc_input sc)" by simp
  then show ?thesis
    using lp substring_drop [OF d1(1)] d1(2) d
    by (simp add: scan_step_quote Scanner_advance_def charCodeAt_drop Scanner_quotedString_def Scanner_isAtEnd_def Let_def ac_simps)
qed

lemma lexeme_unclosed_step:
  assumes "39 \<notin> set x" and d: "drop (sc_current sc) (sc_input sc) = 39 # x"
  shows "scan_step P sc = sc\<lparr>sc_start := sc_current sc, sc_current := sc_current sc + length x + 1,
    sc_tokens := sc_tokens sc @ [ErrorTok (sc_current sc) (39 # x)],
    sc_errors := sc_errors sc @ lexing_errors P (ErrorTok (sc_current sc) (39 # x))\<rparr>"
proof -
  let ?sc = "sc\<lparr>sc_start := sc_current sc, sc_current := Suc (sc_current sc)\<rparr>"
  from drop_ConsD [OF d] have d1: "drop (Suc (sc_current sc)) (sc_input sc) = x" "sc_current sc < length (sc_input sc)"
    by simp_all
  have lp: "quotedString_loop ?sc = ?sc\<lparr>sc_current := Suc (sc_current sc) + length x\<rparr>"
    using quotedString_loop_drop [of ?sc x "[]"] d1 assms(1) by simp
  from d1 have "Suc (sc_current sc) + length x = length (sc_input sc)" by auto
  then show ?thesis
    using lp substring_drop [of "sc_current sc" "sc_input sc" "39 # x" "[]"] d1(2) d
    by (simp add: scan_step_quote charCodeAt_drop Scanner_quotedString_def Scanner_isAtEnd_def
        Scanner_error_def Scanner_lexeme_def error_hint_def Let_def)
qed

lemma lexeme_regex_step:
  assumes b: "regex_body b" and f: "set f \<subseteq> set (js ''igsmyu'')" "r = [] \<or> hd r \<notin> set (js ''igsmyu'')"
    and d: "drop (sc_current sc) (sc_input sc) = 47 # b @ 47 # f @ r"
  shows "scan_step P sc = sc\<lparr>sc_start := sc_current sc, sc_current := sc_current sc + length b + length f + 2,
    sc_tokens := sc_tokens sc @ [RegexStr (sc_current sc) (47 # b @ 47 # f)]\<rparr>"
proof -
  let ?p = "Suc (sc_current sc) + length b"
  from drop_ConsD [OF d] have d1: "drop (Suc (sc_current sc)) (sc_input sc) = b @ 47 # f @ r" "sc_current sc < length (sc_input sc)"
    by simp_all
  then have d2: "drop ?p (sc_input sc) = 47 # f @ r"
    by (metis add.commute append_eq_conv_conj drop_drop)
  from drop_ConsD [OF d2] have d3: "drop (Suc ?p) (sc_input sc) = f @ r" by simp
  have lp: "regex_loop (sc_input sc) (Suc (sc_current sc)) False False = Some (Suc ?p)"
    using regex_loop_body [OF b d1(1)] d2 by (simp add: regex_loop.simps [of "sc_input sc" "Suc (sc_current sc + length b)"] charCodeAt_drop)
  have fl: "flags_loop (sc_input sc) (Suc ?p) = Suc ?p + length f"
    using flags_loop_flags [OF d3] f by (simp add: regexFlags_def)
  show ?thesis
    using lp fl substring_drop [of "sc_current sc" "sc_input sc" "47 # b @ 47 # f" r] d1(2) d
    by (simp add: scan_step_slash charCodeAt_drop Scanner_regex_def Let_def Scanner_lexeme_def ac_simps)
qed

lemma lexeme_unclosed_regex_step:
  assumes "\<forall>b q. x = b @ 47 # q \<longrightarrow> \<not> regex_body b" and d: "drop (sc_current sc) (sc_input sc) = 47 # x"
  shows "scan_step P sc = sc\<lparr>sc_start := sc_current sc, sc_current := sc_current sc + length x + 1,
    sc_tokens := sc_tokens sc @ [ErrorTok (sc_current sc) (47 # x)],
    sc_errors := sc_errors sc @ lexing_errors P (ErrorTok (sc_current sc) (47 # x))\<rparr>"
proof -
  from drop_ConsD [OF d] have d1: "drop (Suc (sc_current sc)) (sc_input sc) = x" "sc_current sc < length (sc_input sc)"
    by simp_all
  then have len: "Suc (sc_current sc) + length x = length (sc_input sc)" by auto
  have "regex_loop (sc_input sc) (Suc (sc_current sc)) False False = None"
  proof (rule ccontr)
    assume "regex_loop (sc_input sc) (Suc (sc_current sc)) False False \<noteq> None"
    then obtain q where "regex_loop (sc_input sc) (Suc (sc_current sc)) False False = Some q" by blast
    from regex_loop_rest [OF this] d1 assms(1) show False by auto
  qed
  then show ?thesis
    using len substring_drop [of "sc_current sc" "sc_input sc" "47 # x" "[]"] d1(2) d
    by (simp add: scan_step_slash charCodeAt_drop Scanner_regex_def Scanner_error_def Scanner_lexeme_def
        error_hint_def Let_def)
qed

lemma scan_step_other:
  assumes "c \<notin> token_starts" and d: "drop (sc_current sc) (sc_input sc) = c # r"
  shows "scan_step P sc = (let sc = sc\<lparr>sc_start := sc_current sc, sc_current := Suc (sc_current sc)\<rparr>
    in if c \<in> white then sc else Scanner_string P sc)"
  using assms
  by (auto simp: scan_step_def Scanner_advance_def charCodeAt_drop token_starts_def white_def Let_def)

lemma keyword_token_word:
  "word_token i w = (case keyword_token w of Some keyword \<Rightarrow> keyword i | None \<Rightarrow> StrTok i w)"
proof -
  have "js ''in'' \<noteq> js ''not''" "js ''true'' \<noteq> js ''false''" by code_simp+
  then show ?thesis by (auto simp: word_token_def keyword_table_def keyword_token_def)
qed

lemma lexeme_word_step:
  assumes "w \<noteq> []" and "hd w \<notin> token_starts \<union> white" and w: "longest_word P (w @ r) = w"
    and d: "drop (sc_current sc) (sc_input sc) = w @ r"
  shows "scan_step P sc = sc\<lparr>sc_start := sc_current sc, sc_current := sc_current sc + length w,
    sc_tokens := sc_tokens sc @ [word_token (sc_current sc) w]\<rparr>"
proof -
  obtain c v where c: "w = c # v" using assms(1) by (cases w) auto
  have len: "string_run (isLetter P) (drop (sc_current sc) (sc_input sc)) = length w" by (simp add: string_run_word_length d w)
  have "sc_current sc < length (sc_input sc)" using d c drop_ConsD [of "sc_current sc" "sc_input sc" c "v @ r"] by simp
  with substring_drop [OF d] have sub: "js_substring (sc_input sc) (int (sc_current sc)) (int (sc_current sc + length w)) = w"
    by simp
  show ?thesis
    using scan_step_other [of c sc "v @ r" P] assms c len sub d
    by (auto simp: Scanner_string_def Let_def Scanner_lexeme_def Scanner_addToken_def keyword_token_word split: option.split)
qed

lemma lexeme_step:
  assumes "lexical P (sc_current sc) w r t" and d: "drop (sc_current sc) (sc_input sc) = w @ r"
  shows "scan_step P sc = sc\<lparr>sc_start := sc_current sc, sc_current := sc_current sc + length w,
    sc_tokens := sc_tokens sc @ [t], sc_errors := sc_errors sc @ lexing_errors P t\<rparr> \<and> w \<noteq> []"
  using assms(1)
proof cases
  case (lex_operator k)
  have "lexing_errors P t = []" "w \<noteq> []" using lex_operator(1,2) by (auto simp: operators_def)
  with lexeme_operator_step [OF lex_operator(2,3) d] lex_operator(1) show ?thesis by simp
next
  case (lex_stray c)
  with lexeme_stray_step [of c r sc] d show ?thesis by simp
next
  case (lex_quoted x)
  with lexeme_quoted_step [of x sc r] d show ?thesis by simp
next
  case (lex_unclosed_quote x)
  with lexeme_unclosed_step [of x sc] d show ?thesis by simp
next
  case (lex_regex b f)
  with lexeme_regex_step [of b f r sc] d show ?thesis by simp
next
  case (lex_unclosed_regex x)
  with lexeme_unclosed_regex_step [of x sc] d show ?thesis by simp
next
  case lex_word
  have "lexing_errors P (word_token i w) = []" for i
    by (auto simp: word_token_def keyword_table_def split: option.split if_splits)
  with lexeme_word_step [OF lex_word(2,3,4) d] lex_word show ?thesis by simp
qed

lemma skips_step:
  assumes "skips P c r" and d: "drop (sc_current sc) (sc_input sc) = c # r"
  shows "scan_step P sc = sc\<lparr>sc_start := sc_current sc, sc_current := Suc (sc_current sc)\<rparr>"
proof -
  have "c \<notin> token_starts" using assms(1) by (auto simp: skips_def token_starts_def white_def)
  moreover have "string_run (isLetter P) (c # r) = 0" if "c \<notin> white"
    using assms(1) that by (simp add: skips_def string_run_word_length)
  ultimately show ?thesis
    using scan_step_other [of c sc r P] d by (auto simp: Scanner_string_def Let_def)
qed

section \<open>All tokens\<close>

lemma scan_step_progress:
  assumes "sc_current sc < length (sc_input sc)"
  shows "sc_input (scan_step P sc) = sc_input sc \<and> sc_current sc < sc_current (scan_step P sc)"
proof -
  obtain c r where d: "drop (sc_current sc) (sc_input sc) = c # r" using Cons_nth_drop_Suc [OF assms] by metis
  consider "skips P c r" | w q t where "c # r = w @ q" "lexical P (sc_current sc) w q t" using lex_total by blast
  then show ?thesis
  proof cases
    case 1
    then show ?thesis by (simp add: skips_step [OF _ d])
  next
    case 2
    with lexeme_step [OF 2(2)] d show ?thesis by simp
  qed
qed

function scan_loop :: "parser_host \<Rightarrow> Scanner \<Rightarrow> Scanner" where
  "scan_loop P sc = (if \<not> Scanner_isAtEnd sc then scan_loop P (scan_step P sc) else sc)"
  by pat_completeness auto
termination
proof (relation "measure (\<lambda>(P, sc). length (sc_input sc) - sc_current sc)")
  fix P sc assume "\<not> Scanner_isAtEnd sc"
  then have "sc_current sc < length (sc_input sc)" by (simp add: Scanner_isAtEnd_def)
  with scan_step_progress [OF this, of P]
  show "((P, scan_step P sc), P, sc) \<in> measure (\<lambda>(P, sc). length (sc_input sc) - sc_current sc)"
    by (simp add: diff_less_mono2)
qed simp

declare scan_loop.simps [simp del]

definition Scanner_scan :: "parser_host \<Rightarrow> Scanner \<Rightarrow> Token list \<times> Scanner" where
  "Scanner_scan P sc =
     (let sc = scan_loop P sc; sc = sc\<lparr>sc_start := sc_current sc\<rparr>; sc = Scanner_addToken sc EOFTok
      in (sc_tokens sc, sc))"

text \<open>The grammar has a reading of every input, and the loop finds it.\<close>

lemma lexeme_nonempty: "lexical P i w r t \<Longrightarrow> w \<noteq> []"
proof (erule lexical.cases)
  fix v k q
  assume "w = v" "(v, k) \<in> set operators"
  then show "w \<noteq> []" by (auto simp: operators_def)
qed auto

lemma lexed_exists: "\<exists>ts. lexed P i s ts"
proof (induction s arbitrary: i rule: length_induct)
  case (1 s)
  show ?case
  proof (cases s)
    case Nil
    then show ?thesis by (auto intro: lexed_EOF)
  next
    case (Cons c r)
    consider "skips P c r" | w q t where "c # r = w @ q" "lexical P i w q t" using lex_total by blast
    then show ?thesis
    proof cases
      case 1
      obtain ts where "lexed P (Suc i) r ts" using \<open>\<forall>ys. _\<close> Cons by fastforce
      with 1 show ?thesis using Cons by (blast intro: lexed_skip)
    next
      case 2
      have "w \<noteq> []" using 2 lexeme_nonempty by blast
      then have "length q < length s" using 2(1) Cons by (metis add_diff_cancel_right' length_append length_greater_0_conv less_add_same_cancel2)
      then obtain ts where "lexed P (i + length w) q ts" using \<open>\<forall>ys. _\<close> by blast
      with 2 show ?thesis using Cons by (metis lexed_token)
    qed
  qed
qed

lemma scan_loop_lexed:
  "lexed P i s ts \<Longrightarrow> sc_current sc = i \<Longrightarrow> drop i (sc_input sc) = s \<Longrightarrow> i \<le> length (sc_input sc) \<Longrightarrow>
    \<exists>us. ts = us @ [EOFTok (length (sc_input sc))] \<and>
      sc_tokens (scan_loop P sc) = sc_tokens sc @ us \<and>
      sc_errors (scan_loop P sc) = sc_errors sc @ concat (map (lexing_errors P) us) \<and>
      sc_current (scan_loop P sc) = length (sc_input sc)"
proof (induction arbitrary: sc rule: lexed.induct)
  case (lexed_EOF i)
  then show ?case by (simp add: scan_loop.simps [of P sc] Scanner_isAtEnd_def)
next
  case (lexed_skip c r i ts)
  from lexed_skip.prems have d: "drop (sc_current sc) (sc_input sc) = c # r" by simp
  from drop_ConsD [OF d] lexed_skip.prems
  have "i < length (sc_input sc)" "drop (Suc i) (sc_input sc) = r" by simp_all
  then show ?case
    using lexed_skip.IH [of "scan_step P sc"] lexed_skip.prems skips_step [OF lexed_skip.hyps(1) d]
    by (simp add: scan_loop.simps [of P sc] Scanner_isAtEnd_def)
next
  case (lexed_token i w r t ts)
  from lexed_token.prems have d: "drop (sc_current sc) (sc_input sc) = w @ r" by simp
  have st: "scan_step P sc = sc\<lparr>sc_start := sc_current sc, sc_current := sc_current sc + length w,
      sc_tokens := sc_tokens sc @ [t], sc_errors := sc_errors sc @ lexing_errors P t\<rparr>" "w \<noteq> []"
    using lexeme_step [OF _ d] lexed_token.hyps(1) lexed_token.prems(1) by auto
  have "length (sc_input sc) - i = length w + length r" using arg_cong [OF lexed_token.prems(2), of length] by simp
  moreover have "0 < length w" using st(2) by simp
  ultimately have "i < length (sc_input sc)" "i + length w \<le> length (sc_input sc)" by linarith+
  moreover have "drop (i + length w) (sc_input sc) = r"
    using lexed_token.prems(2) by (metis add.commute append_eq_conv_conj drop_drop)
  moreover have "scan_loop P sc = scan_loop P (scan_step P sc)" if "i < length (sc_input sc)"
    using that lexed_token.prems(1) by (simp add: scan_loop.simps [of P sc] Scanner_isAtEnd_def)
  ultimately obtain us where us: "ts = us @ [EOFTok (length (sc_input sc))]"
      "sc_tokens (scan_loop P sc) = sc_tokens sc @ t # us" "sc_current (scan_loop P sc) = length (sc_input sc)"
      "sc_errors (scan_loop P sc) = sc_errors sc @ lexing_errors P t @ concat (map (lexing_errors P) us)"
    using lexed_token.IH [of "scan_step P sc"] lexed_token.prems(1) st(1) by fastforce
  then show ?case by (intro exI [of _ "t # us"]) simp
qed

lemma scan_of_lexed:
  assumes "lexed P 0 s ts"
  shows "fst (Scanner_scan P (Scanner_reset s)) = ts \<and>
    sc_errors (snd (Scanner_scan P (Scanner_reset s))) = concat (map (lexing_errors P) ts) \<and> (\<exists>us. ts = us @ [EOFTok (length s)])"
  using scan_loop_lexed [OF assms, of "Scanner_reset s"]
  by (auto simp: Scanner_reset_def Scanner_scan_def Let_def Scanner_addToken_def)

lemma scan_lexed:
  "\<exists>ts. fst (Scanner_scan P (Scanner_reset s)) = ts @ [EOFTok (length s)] \<and> lexed P 0 s (ts @ [EOFTok (length s)])"
  using lexed_exists [of P 0 s] scan_of_lexed by metis

lemma word_token_not_EOF: "\<not> is_EOFTok (word_token i w)"
  by (simp add: word_token_def keyword_table_def)

lemma lexeme_not_EOF:
  assumes "lexical P i w r t"
  shows "\<not> is_EOFTok t"
  using assms
proof cases
  case (lex_operator k)
  have "\<forall>p\<in>set operators. \<not> is_EOFTok (snd p i)" by (simp add: operators_def)
  with lex_operator(1,2) show ?thesis by fastforce
next
  case (lex_unclosed_regex x)
  from lex_unclosed_regex(3) show ?thesis by simp
next
  case lex_word
  from lex_word(1) show ?thesis by (simp add: word_token_not_EOF)
qed simp_all

lemma lexed_EOF_last: "lexed P i r us \<Longrightarrow> us \<noteq> [] \<and> (\<forall>k < length us. is_EOFTok (us ! k) \<longleftrightarrow> k = length us - 1)"
proof (induction rule: lexed.induct)
  case (lexed_token i w r t ts)
  then show ?case using lexeme_not_EOF [OF lexed_token.hyps(1)] by (auto simp: nth_Cons split: nat.split)
qed (auto simp: is_EOFTok_def)

text \<open>
  \<^bold>\<open>C6.\<close> For every input the grammar has exactly one reading, and it is the token list the
  scanner returns: every token has the kind, the text and the offset the grammar gives it, the
  \<open>EOF\<close> token is the last one, and the lexing errors are those of the \<open>Error\<close> tokens, in
  order and with their hints.
\<close>

theorem Scanner_scan_correct:
  "{ts. lexed P 0 s ts} = {fst (Scanner_scan P (Scanner_reset s))} \<and>
   (\<exists>us. fst (Scanner_scan P (Scanner_reset s)) = us @ [EOFTok (length s)]) \<and>
   sc_errors (snd (Scanner_scan P (Scanner_reset s))) =
     concat (map (lexing_errors P) (fst (Scanner_scan P (Scanner_reset s))))"
  using lexed_exists [of P 0 s] scan_of_lexed by fastforce

end
