(* ===== verification/ContextKeyParser.thy ===== *)
theory ContextKeyParser
  imports ContextKeyScanner ContextKeyForms
begin

text \<open>
  The parser of \<open>when\<close> clauses (\<open>Parser\<close>, \<open>deserialize\<close> and \<open>validateWhenClauses\<close> of
  \<open>src/vs/platform/contextkey/common/contextkey.ts\<close>): a recursive descent over the tokens of the
  scanner that builds normalized expressions.

  A method of the parser returns a value and the changed parser, throws the parser's own
  exception (its state, with the recorded errors, survives), runs into a \<open>TypeError\<close>, or waits
  for a normalization that does not return within the given depth.
\<close>

section \<open>State and outcomes\<close>

record ParsingError =
  pe_message :: js_string
  pe_offset :: nat
  pe_lexeme :: js_string
  pe_additionalInfo :: "js_string option"

record Parser =
  p_scanner :: Scanner
  p_tokens :: "Token list"
  p_current :: nat
  p_parsingErrors :: "ParsingError list"

text \<open>
  What the parser runs under: the table of constants, the depth for normalization, the engine
  and its option.
\<close>

record parser_env =
  env_constants :: ck_constants
  env_depth :: nat
  env_host :: parser_host
  regexParsingWithErrorRecovery :: bool

datatype 'a outcome = Returns 'a Parser | ParseError Parser | TypeErrorThrown | NoResult

definition bindP :: "'a outcome \<Rightarrow> ('a \<Rightarrow> Parser \<Rightarrow> 'b outcome) \<Rightarrow> 'b outcome" where
  "bindP m f = (case m of Returns a p \<Rightarrow> f a p | ParseError p \<Rightarrow> ParseError p | TypeErrorThrown \<Rightarrow> TypeErrorThrown
                | NoResult \<Rightarrow> NoResult)"

lemma bindP_simps [simp]:
  "bindP (Returns a p) f = f a p" "bindP (ParseError p) f = ParseError p" "bindP TypeErrorThrown f = TypeErrorThrown"
  "bindP NoResult f = NoResult"
  by (simp_all add: bindP_def)

lemma bindP_cong [fundef_cong]:
  "m = m' \<Longrightarrow> (\<And>a p. m' = Returns a p \<Longrightarrow> f a p = f' a p) \<Longrightarrow> bindP m f = bindP m' f'"
  by (cases m') simp_all

lemma bindP_Returns: "bindP m f = Returns b q \<longleftrightarrow> (\<exists>a p. m = Returns a p \<and> f a p = Returns b q)"
  by (cases m) simp_all

text \<open>Messages.\<close>

definition errorEmptyString :: "parser_host \<Rightarrow> js_string" where
  "errorEmptyString P = localize P (js ''Empty context key expression'') []"

definition hintEmptyString :: "parser_host \<Rightarrow> js_string" where
  "hintEmptyString P = localize P (js ''Did you forget to write an expression? You can also put '' @ quote @ js ''false'' @ quote
     @ js '' or '' @ quote @ js ''true'' @ quote @ js '' to always evaluate to false or true, respectively.'') []"

definition errorNoInAfterNot :: "parser_host \<Rightarrow> js_string" where
  "errorNoInAfterNot P = localize P (quote @ js ''in'' @ quote @ js '' after '' @ quote @ js ''not'' @ quote @ js ''.'') []"

definition errorClosingParenthesis :: "parser_host \<Rightarrow> js_string" where
  "errorClosingParenthesis P = localize P (js ''closing parenthesis '' @ quote @ js '')'' @ quote) []"

definition errorUnexpectedToken :: "parser_host \<Rightarrow> js_string" where
  "errorUnexpectedToken P = localize P (js ''Unexpected token'') []"

definition hintUnexpectedToken :: "parser_host \<Rightarrow> js_string" where
  "hintUnexpectedToken P = localize P (js ''Did you forget to put && or || before the token?'') []"

definition errorUnexpectedEOF :: "parser_host \<Rightarrow> js_string" where
  "errorUnexpectedEOF P = localize P (js ''Unexpected end of expression'') []"

definition hintUnexpectedEOF :: "parser_host \<Rightarrow> js_string" where
  "hintUnexpectedEOF P = localize P (js ''Did you forget to put a context key?'') []"

definition pushError :: "Parser \<Rightarrow> js_string \<Rightarrow> nat \<Rightarrow> js_string \<Rightarrow> js_string option \<Rightarrow> Parser" where
  "pushError p message offset lexeme additionalInfo =
     p\<lparr>p_parsingErrors := p_parsingErrors p @
        [\<lparr>pe_message = message, pe_offset = offset, pe_lexeme = lexeme, pe_additionalInfo = additionalInfo\<rparr>]\<rparr>"

section \<open>Reading tokens\<close>

text \<open>
  \<open>_peek\<close> gives \<open>undefined\<close> past the tokens; every use of it reads a field of the token next,
  which would throw.
\<close>

definition Parser_peek :: "Parser \<Rightarrow> Token outcome" where
  "Parser_peek p = (if p_current p < length (p_tokens p) then Returns (p_tokens p ! p_current p) p else TypeErrorThrown)"

definition Parser_previous :: "Parser \<Rightarrow> Token outcome" where
  "Parser_previous p = (if 0 < p_current p \<and> p_current p - 1 < length (p_tokens p)
     then Returns (p_tokens p ! (p_current p - 1)) p else TypeErrorThrown)"

definition Parser_isAtEnd :: "Parser \<Rightarrow> bool outcome" where
  "Parser_isAtEnd p = bindP (Parser_peek p) (\<lambda>t p. Returns (is_EOFTok t) p)"

definition Parser_advance :: "Parser \<Rightarrow> unit outcome" where
  "Parser_advance p =
     bindP (Parser_isAtEnd p) (\<lambda>e p. Returns () (if e then p else p\<lparr>p_current := p_current p + 1\<rparr>))"

definition Parser_check :: "(Token \<Rightarrow> bool) \<Rightarrow> Parser \<Rightarrow> bool outcome" where
  "Parser_check type p = bindP (Parser_peek p) (\<lambda>t p. Returns (type t) p)"

definition Parser_matchOne :: "(Token \<Rightarrow> bool) \<Rightarrow> Parser \<Rightarrow> bool outcome" where
  "Parser_matchOne type p =
     bindP (Parser_check type p) (\<lambda>c p. if c then bindP (Parser_advance p) (\<lambda>_ p. Returns True p) else Returns False p)"

definition errExpectedButGot :: "parser_env \<Rightarrow> js_string \<Rightarrow> Token \<Rightarrow> Parser \<Rightarrow> 'a outcome" where
  "errExpectedButGot E expected got p =
     ParseError (pushError p
       (localize (env_host E) (js ''Expected: {0}'' @ [10] @ js ''Received: '' @ quote @ js ''{1}'' @ quote @ js ''.'')
          [expected, getLexeme got])
       (token_offset got) (getLexeme got) None)"

definition Parser_consume :: "parser_env \<Rightarrow> (Token \<Rightarrow> bool) \<Rightarrow> js_string \<Rightarrow> Parser \<Rightarrow> unit outcome" where
  "Parser_consume E type message p =
     bindP (Parser_check type p) (\<lambda>c p.
       if c then Parser_advance p else bindP (Parser_peek p) (\<lambda>t p. errExpectedButGot E message t p))"

definition Parser_value :: "Parser \<Rightarrow> js_string outcome" where
  "Parser_value p =
     bindP (Parser_peek p) (\<lambda>token p.
       let take = (\<lambda>lexeme. bindP (Parser_advance p) (\<lambda>_ p. Returns lexeme p))
       in case token of
            StrTok _ lexeme \<Rightarrow> take lexeme
          | QuotedStr _ lexeme \<Rightarrow> take lexeme
          | TrueTok _ \<Rightarrow> take (js ''true'')
          | FalseTok _ \<Rightarrow> take (js ''false'')
          | InTok _ \<Rightarrow> take (js ''in'')
          | _ \<Rightarrow> Returns [] p)"

section \<open>Regular expressions\<close>

definition removeFlagsGY :: "js_string \<Rightarrow> js_string" where
  "removeFlagsGY flags = filter (\<lambda>c. c \<notin> set (js ''gy'')) flags"

definition js_indexOf :: "js_string \<Rightarrow> 16 word \<Rightarrow> int" where
  "js_indexOf s c = (if c \<in> set s then int (length (takeWhile (\<lambda>d. d \<noteq> c) s)) else - 1)"

definition js_lastIndexOf :: "js_string \<Rightarrow> 16 word \<Rightarrow> int" where
  "js_lastIndexOf s c = (if c \<in> set s then int (length s) - 1 - int (length (takeWhile (\<lambda>d. d \<noteq> c) (rev s))) else - 1)"

text \<open>The expression of a regular expression literal \<open>/source/flags\<close>.\<close>

definition regexOfLexeme ::
  "parser_env \<Rightarrow> js_string \<Rightarrow> Token \<Rightarrow> js_string \<Rightarrow> Parser \<Rightarrow> ContextKeyExpression option outcome" where
  "regexOfLexeme E key expr regexLexeme p =
     (let closingSlashIndex = js_lastIndexOf regexLexeme 47;
          flags = (if closingSlashIndex = int (length regexLexeme) - 1 then None
                   else Some (removeFlagsGY (js_substring_from regexLexeme (closingSlashIndex + 1))))
      in case newRegExp (env_host E) (js_substring regexLexeme 1 closingSlashIndex) flags of
           None \<Rightarrow> errExpectedButGot E (js ''REGEX'') expr p
         | Some regexp \<Rightarrow> Returns (Some (RegexExpr key (Some regexp))) p)"

definition paren_balance :: "js_string \<Rightarrow> int \<Rightarrow> int" where
  "paren_balance s b = fold (\<lambda>c b. if c = 40 then b + 1 else if c = 41 then b - 1 else b) s b"

text \<open>
  The count over a following token looks for closing parentheses in the first lexeme (argument
  \<open>expr\<close>), the way the source does.
\<close>

definition following_balance :: "js_string \<Rightarrow> Token \<Rightarrow> int \<Rightarrow> int" where
  "following_balance expr t b =
     (let count = (\<lambda>s. fold (\<lambda>i b. if s ! i = 40 then b + 1 else if charCodeAt expr i = Some 41 then b - 1 else b) [0..<length s] b)
      in case t of
           LParen _ \<Rightarrow> b + 1
         | RParen _ \<Rightarrow> b - 1
         | RegexStr _ s \<Rightarrow> count s
         | QuotedStr _ s \<Rightarrow> count s
         | _ \<Rightarrow> b)"

lemma Parser_peek_same: "Parser_peek p = Returns t q \<longleftrightarrow> p_current p < length (p_tokens p) \<and> t = p_tokens p ! p_current p \<and> q = p"
  by (auto simp: Parser_peek_def)

function reconstruct_loop :: "js_string \<Rightarrow> Token \<Rightarrow> int \<Rightarrow> js_string list \<Rightarrow> Parser \<Rightarrow> js_string list outcome" where
  "reconstruct_loop expr followingToken parenBalance lexemes p =
     bindP (Parser_isAtEnd p) (\<lambda>e p.
       if \<not> e \<and> \<not> is_AndTok followingToken \<and> \<not> is_OrTok followingToken then
         let parenBalance = following_balance expr followingToken parenBalance
         in if parenBalance < 0 then Returns lexemes p
            else bindP (Parser_advance p) (\<lambda>_ p.
                   bindP (Parser_peek p) (\<lambda>next p.
                     reconstruct_loop expr next parenBalance (lexemes @ [getLexeme followingToken]) p))
       else Returns lexemes p)"
  by pat_completeness auto
termination
  by (relation "measure (\<lambda>(_, _, _, _, p). length (p_tokens p) - p_current p)")
    (auto simp: Parser_isAtEnd_def Parser_advance_def bindP_Returns Parser_peek_same)

declare reconstruct_loop.simps [simp del]

definition isFalsyOrWhitespace :: "js_string \<Rightarrow> bool" where
  "isFalsyOrWhitespace s = list_all is_white s"

definition regexOfQuoted ::
  "parser_env \<Rightarrow> js_string \<Rightarrow> Token \<Rightarrow> js_string \<Rightarrow> Parser \<Rightarrow> ContextKeyExpression option outcome" where
  "regexOfQuoted E key expr serializedValue p =
     (let start = js_indexOf serializedValue 47; ende = js_lastIndexOf serializedValue 47;
          value = js_slice serializedValue (start + 1) ende;
          caseIgnoreFlag = (if js_at serializedValue (ende + 1) = Some 105 then js ''i'' else [])
      in if \<not> isFalsyOrWhitespace serializedValue \<and> start \<noteq> ende \<and> start \<ge> 0 then
           (case newRegExp (env_host E) value (Some caseIgnoreFlag) of
              None \<Rightarrow> errExpectedButGot E (js ''REGEX'') expr p
            | Some regex \<Rightarrow> Returns (Some (RegexExpr key (Some regex))) p)
         else errExpectedButGot E (js ''REGEX'') expr p)"

text \<open>The rest of \<open>KEY =~\<close>.\<close>

definition Parser_regex :: "parser_env \<Rightarrow> js_string \<Rightarrow> Parser \<Rightarrow> ContextKeyExpression option outcome" where
  "Parser_regex E key p =
     bindP (Parser_peek p) (\<lambda>expr p.
       if \<not> regexParsingWithErrorRecovery E then
         bindP (Parser_advance p) (\<lambda>_ p.
           case expr of
             RegexStr _ lexeme \<Rightarrow> regexOfLexeme E key expr lexeme p
           | _ \<Rightarrow> errExpectedButGot E (js ''REGEX'') expr p)
       else
         let recover = (\<lambda>lexeme. bindP (Parser_advance p) (\<lambda>_ p. bindP (Parser_peek p) (\<lambda>followingToken p.
               bindP (reconstruct_loop lexeme followingToken (paren_balance lexeme 0) [lexeme] p) (\<lambda>lexemes p.
                 regexOfLexeme E key expr (concat lexemes) p))))
         in case expr of
              RegexStr _ lexeme \<Rightarrow> recover lexeme
            | ErrorTok _ lexeme \<Rightarrow> recover lexeme
            | QuotedStr _ serializedValue \<Rightarrow>
                bindP (Parser_advance p) (\<lambda>_ p. regexOfQuoted E key expr serializedValue p)
            | _ \<Rightarrow> errExpectedButGot E (js ''REGEX'') expr p)"

section \<open>The grammar\<close>

definition ContextKeyExpr_and :: "parser_env \<Rightarrow> ContextKeyExpression option list \<Rightarrow> Parser \<Rightarrow> ContextKeyExpression option outcome" where
  "ContextKeyExpr_and E expr p =
     (case andCreate (env_constants E) (env_depth E) expr None True of None \<Rightarrow> NoResult | Some r \<Rightarrow> Returns r p)"

definition ContextKeyExpr_or :: "parser_env \<Rightarrow> ContextKeyExpression option list \<Rightarrow> Parser \<Rightarrow> ContextKeyExpression option outcome" where
  "ContextKeyExpr_or E expr p =
     (case orCreate (env_constants E) (env_depth E) expr None True of None \<Rightarrow> NoResult | Some r \<Rightarrow> Returns r p)"

definition negate_optional :: "parser_env \<Rightarrow> ContextKeyExpression option \<Rightarrow> Parser \<Rightarrow> ContextKeyExpression option outcome" where
  "negate_optional E expr p =
     (case expr of None \<Rightarrow> Returns None p
      | Some e \<Rightarrow> (case negate (env_constants E) (env_depth E) e of None \<Rightarrow> NoResult | Some r \<Rightarrow> Returns (Some r) p))"

text \<open>
  \<open>KEY == value\<close> and \<open>KEY != value\<close>: \<open>whenTrue\<close>, \<open>whenFalse\<close> and \<open>otherwise\<close> are the
  expressions for an unquoted \<open>true\<close>, an unquoted \<open>false\<close> and any other value.
\<close>

definition Parser_equality ::
  "ContextKeyExpression \<Rightarrow> ContextKeyExpression \<Rightarrow> (js_string \<Rightarrow> ContextKeyExpression) \<Rightarrow> Parser \<Rightarrow>
   ContextKeyExpression option outcome" where
  "Parser_equality whenTrue whenFalse otherwise p =
     bindP (Parser_advance p) (\<lambda>_ p.
       bindP (Parser_value p) (\<lambda>right p.
         bindP (Parser_previous p) (\<lambda>previous p.
           if is_QuotedStr previous then Returns (Some (otherwise right)) p
           else if right = js ''true'' then Returns (Some whenTrue) p
           else if right = js ''false'' then Returns (Some whenFalse) p
           else Returns (Some (otherwise right)) p)))"

definition Parser_comparison :: "(js_string \<Rightarrow> ContextKeyExpression) \<Rightarrow> Parser \<Rightarrow> ContextKeyExpression option outcome" where
  "Parser_comparison create p =
     bindP (Parser_advance p) (\<lambda>_ p. bindP (Parser_value p) (\<lambda>right p. Returns (Some (create right)) p))"

text \<open>What follows a \<open>KEY\<close> in \<open>_primary\<close>.\<close>

definition Parser_key :: "parser_env \<Rightarrow> js_string \<Rightarrow> Parser \<Rightarrow> ContextKeyExpression option outcome" where
  "Parser_key E key p =
     (let K = env_constants E in
      bindP (Parser_advance p) (\<lambda>_ p.
      bindP (Parser_matchOne is_RegexOp p) (\<lambda>regexOp p.
        if regexOp then Parser_regex E key p
        else
          bindP (Parser_matchOne is_NotTok p) (\<lambda>notOp p.
            if notOp then
              bindP (Parser_consume E is_InTok (errorNoInAfterNot (env_host E)) p) (\<lambda>_ p.
                bindP (Parser_value p) (\<lambda>right p. Returns (Some (NotInExpr key right)) p))
            else
              bindP (Parser_peek p) (\<lambda>maybeOp p.
                case maybeOp of
                  EqTok _ _ \<Rightarrow> Parser_equality (DefinedExpr_create K key None) (NotExpr_create K key None)
                                 (\<lambda>right. EqualsExpr_create K key (JStr right) None) p
                | NotEqTok _ _ \<Rightarrow> Parser_equality (NotExpr_create K key None) (DefinedExpr_create K key None)
                                    (\<lambda>right. NotEqualsExpr_create K key (JStr right) None) p
                | Lt _ \<Rightarrow> Parser_comparison (\<lambda>right. SmallerExpr_create key (JStr right) None) p
                | LtEq _ \<Rightarrow> Parser_comparison (\<lambda>right. SmallerEqualsExpr_create key (JStr right) None) p
                | Gt _ \<Rightarrow> Parser_comparison (\<lambda>right. GreaterExpr_create key (JStr right) None) p
                | GtEq _ \<Rightarrow> Parser_comparison (\<lambda>right. GreaterEqualsExpr_create key (JStr right) None) p
                | InTok _ \<Rightarrow> Parser_comparison (\<lambda>right. InExpr key right) p
                | _ \<Rightarrow> Returns (Some (DefinedExpr_create K key None)) p)))))"

definition expectedTerm :: js_string where
  "expectedTerm = js ''KEY | true | false | '' @ quote @ js ''('' @ quote @ js '' expression '' @ quote @ js '')'' @ quote"

definition expectedPrimary :: js_string where
  "expectedPrimary =
     js ''true | false | KEY '' @ [10, 9] @ js ''| KEY '' @ quote @ js ''=~'' @ quote @ js '' REGEX '' @ [10, 9] @
     js ''| KEY ('' @ js_join (js '' | '') (map (\<lambda>op. quote @ js op @ quote) [''=='', ''!='', ''<'', ''<='', ''>'', ''>='', ''in''])
     @ js '' | '' @ quote @ js ''not'' @ quote @ js '' '' @ quote @ js ''in'' @ quote @ js '') value''"

function (sequential) Parser_or :: "parser_env \<Rightarrow> Parser \<Rightarrow> ContextKeyExpression option outcome"
  and or_loop :: "parser_env \<Rightarrow> ContextKeyExpression option list \<Rightarrow> Parser \<Rightarrow> ContextKeyExpression option outcome"
  and Parser_and :: "parser_env \<Rightarrow> Parser \<Rightarrow> ContextKeyExpression option outcome"
  and and_loop :: "parser_env \<Rightarrow> ContextKeyExpression option list \<Rightarrow> Parser \<Rightarrow> ContextKeyExpression option outcome"
  and Parser_term :: "parser_env \<Rightarrow> Parser \<Rightarrow> ContextKeyExpression option outcome"
  and Parser_primary :: "parser_env \<Rightarrow> Parser \<Rightarrow> ContextKeyExpression option outcome" where
  "Parser_or E p = bindP (Parser_and E p) (\<lambda>e p. or_loop E [e] p)"
| "or_loop E expr p =
     bindP (Parser_matchOne is_OrTok p) (\<lambda>more p.
       if more then bindP (Parser_and E p) (\<lambda>right p. or_loop E (expr @ [right]) p)
       else if length expr = 1 then Returns (hd expr) p else ContextKeyExpr_or E expr p)"
| "Parser_and E p = bindP (Parser_term E p) (\<lambda>e p. and_loop E [e] p)"
| "and_loop E expr p =
     bindP (Parser_matchOne is_AndTok p) (\<lambda>more p.
       if more then bindP (Parser_term E p) (\<lambda>right p. and_loop E (expr @ [right]) p)
       else if length expr = 1 then Returns (hd expr) p else ContextKeyExpr_and E expr p)"
| "Parser_term E p =
     bindP (Parser_matchOne is_Neg p) (\<lambda>neg p.
       if neg then
         bindP (Parser_peek p) (\<lambda>peek p.
           case peek of
             TrueTok _ \<Rightarrow> bindP (Parser_advance p) (\<lambda>_ p. Returns (Some FalseExpr) p)
           | FalseTok _ \<Rightarrow> bindP (Parser_advance p) (\<lambda>_ p. Returns (Some TrueExpr) p)
           | LParen _ \<Rightarrow>
               bindP (Parser_advance p) (\<lambda>_ p. bindP (Parser_or E p) (\<lambda>expr p.
                 bindP (Parser_consume E is_RParen (errorClosingParenthesis (env_host E)) p) (\<lambda>_ p.
                   negate_optional E expr p)))
           | StrTok _ lexeme \<Rightarrow>
               bindP (Parser_advance p) (\<lambda>_ p. Returns (Some (NotExpr_create (env_constants E) lexeme None)) p)
           | _ \<Rightarrow> errExpectedButGot E expectedTerm peek p)
       else Parser_primary E p)"
| "Parser_primary E p =
     bindP (Parser_peek p) (\<lambda>peek p.
       case peek of
         TrueTok _ \<Rightarrow> bindP (Parser_advance p) (\<lambda>_ p. Returns (Some TrueExpr) p)
       | FalseTok _ \<Rightarrow> bindP (Parser_advance p) (\<lambda>_ p. Returns (Some FalseExpr) p)
       | LParen _ \<Rightarrow>
           bindP (Parser_advance p) (\<lambda>_ p. bindP (Parser_or E p) (\<lambda>expr p.
             bindP (Parser_consume E is_RParen (errorClosingParenthesis (env_host E)) p) (\<lambda>_ p. Returns expr p)))
       | StrTok _ lexeme \<Rightarrow> Parser_key E lexeme p
       | EOFTok offset \<Rightarrow>
           ParseError (pushError p (errorUnexpectedEOF (env_host E)) offset [] (Some (hintUnexpectedEOF (env_host E))))
       | _ \<Rightarrow> errExpectedButGot E expectedPrimary peek p)"
  by pat_completeness auto

text \<open>How many tokens are left, and that no method moves back.\<close>

definition remaining :: "Parser \<Rightarrow> nat" where
  "remaining p = length (p_tokens p) - p_current p"

definition forward :: "'a outcome \<Rightarrow> Parser \<Rightarrow> bool" where
  "forward m p \<longleftrightarrow> (\<forall>a q. m = Returns a q \<longrightarrow> remaining q \<le> remaining p)"

named_theorems forwards \<open>methods that do not move back\<close>

lemma forward_bind [forwards]:
  "forward m p \<Longrightarrow> (\<And>a q. m = Returns a q \<Longrightarrow> remaining q \<le> remaining p \<Longrightarrow> forward (f a q) q) \<Longrightarrow> forward (bindP m f) p"
  by (cases m) (auto simp: forward_def intro: order_trans)

lemma forward_stop [forwards]:
  "forward (Returns a p) p" "forward (ParseError q) p" "forward TypeErrorThrown p" "forward NoResult p"
  "forward (errExpectedButGot E x t q) p"
  by (simp_all add: forward_def errExpectedButGot_def)

lemma forward_peek [forwards]: "forward (Parser_peek p) p" "forward (Parser_previous p) p"
  by (simp_all add: forward_def Parser_peek_def Parser_previous_def)

lemma forward_advance [forwards]:
  "forward (Parser_isAtEnd p) p" "forward (Parser_advance p) p" "forward (Parser_check type p) p" "forward (Parser_matchOne type p) p"
  by (auto simp: forward_def remaining_def Parser_isAtEnd_def Parser_advance_def Parser_check_def Parser_matchOne_def
      bindP_Returns Parser_peek_same split: if_splits)

lemma forward_create [forwards]:
  "forward (ContextKeyExpr_or E expr p) p" "forward (ContextKeyExpr_and E expr p) p" "forward (negate_optional E e p) p"
  by (auto simp: forward_def ContextKeyExpr_or_def ContextKeyExpr_and_def negate_optional_def split: option.splits)

lemma forward_cases [forwards]:
  "(b \<Longrightarrow> forward m p) \<Longrightarrow> (\<not> b \<Longrightarrow> forward n p) \<Longrightarrow> forward (if b then m else n) p"
  "(x = None \<Longrightarrow> forward m p) \<Longrightarrow> (\<And>y. x = Some y \<Longrightarrow> forward (g y) p) \<Longrightarrow>
     forward (case x of None \<Rightarrow> m | Some y \<Rightarrow> g y) p"
  "forward (f v) p \<Longrightarrow> forward (Let v f) p"
  by ((cases b; simp), (cases x; simp), simp)

lemma forward_reconstruct [forwards]: "forward (reconstruct_loop expr t b xs p) p"
proof (induction expr t b xs p rule: reconstruct_loop.induct)
  case (1 expr t b xs p)
  show ?case
    unfolding reconstruct_loop.simps [of expr t b xs p]
    by (intro forwards; (rule 1; (assumption | rule refl)))
qed

lemma forward_token [forwards]:
  "(\<And>i. t = LParen i \<Longrightarrow> forward (f1 i) p) \<Longrightarrow> (\<And>i. t = RParen i \<Longrightarrow> forward (f2 i) p) \<Longrightarrow>
   (\<And>i. t = Neg i \<Longrightarrow> forward (f3 i) p) \<Longrightarrow> (\<And>i x. t = EqTok i x \<Longrightarrow> forward (f4 i x) p) \<Longrightarrow>
   (\<And>i x. t = NotEqTok i x \<Longrightarrow> forward (f5 i x) p) \<Longrightarrow> (\<And>i. t = Lt i \<Longrightarrow> forward (f6 i) p) \<Longrightarrow>
   (\<And>i. t = LtEq i \<Longrightarrow> forward (f7 i) p) \<Longrightarrow> (\<And>i. t = Gt i \<Longrightarrow> forward (f8 i) p) \<Longrightarrow>
   (\<And>i. t = GtEq i \<Longrightarrow> forward (f9 i) p) \<Longrightarrow> (\<And>i. t = RegexOp i \<Longrightarrow> forward (f10 i) p) \<Longrightarrow>
   (\<And>i x. t = RegexStr i x \<Longrightarrow> forward (f11 i x) p) \<Longrightarrow> (\<And>i. t = TrueTok i \<Longrightarrow> forward (f12 i) p) \<Longrightarrow>
   (\<And>i. t = FalseTok i \<Longrightarrow> forward (f13 i) p) \<Longrightarrow> (\<And>i. t = InTok i \<Longrightarrow> forward (f14 i) p) \<Longrightarrow>
   (\<And>i. t = NotTok i \<Longrightarrow> forward (f15 i) p) \<Longrightarrow> (\<And>i. t = AndTok i \<Longrightarrow> forward (f16 i) p) \<Longrightarrow>
   (\<And>i. t = OrTok i \<Longrightarrow> forward (f17 i) p) \<Longrightarrow> (\<And>i x. t = StrTok i x \<Longrightarrow> forward (f18 i x) p) \<Longrightarrow>
   (\<And>i x. t = QuotedStr i x \<Longrightarrow> forward (f19 i x) p) \<Longrightarrow> (\<And>i x. t = ErrorTok i x \<Longrightarrow> forward (f20 i x) p) \<Longrightarrow>
   (\<And>i. t = EOFTok i \<Longrightarrow> forward (f21 i) p) \<Longrightarrow>
   forward (case_Token f1 f2 f3 f4 f5 f6 f7 f8 f9 f10 f11 f12 f13 f14 f15 f16 f17 f18 f19 f20 f21 t) p"
  by (cases t) simp_all

lemma forward_key [forwards]:
  "forward (Parser_consume E type m p) p" "forward (Parser_value p) p" "forward (Parser_equality a b c p) p"
  "forward (Parser_comparison create p) p" "forward (regexOfLexeme E key t s p) p" "forward (regexOfQuoted E key t s p) p"
  unfolding Parser_consume_def Parser_value_def Parser_equality_def Parser_comparison_def regexOfLexeme_def regexOfQuoted_def
  by (intro forwards)+

lemma forward_Parser_key [forwards]: "forward (Parser_regex E key p) p" "forward (Parser_key E key p) p"
proof -
  show regex: "forward (Parser_regex E key p) p" for p unfolding Parser_regex_def by (intro forwards)
  show "forward (Parser_key E key p) p" unfolding Parser_key_def by (intro forwards regex)
qed

lemma advance_decreases:
  "Parser_matchOne type p = Returns True q \<Longrightarrow> (\<And>i. \<not> type (EOFTok i)) \<Longrightarrow> remaining q < remaining p"
  "Parser_peek p = Returns t p' \<Longrightarrow> Parser_advance p' = Returns u q \<Longrightarrow> \<not> is_EOFTok t \<Longrightarrow> remaining q < remaining p"
  by (auto simp: Parser_matchOne_def Parser_check_def Parser_advance_def Parser_isAtEnd_def bindP_Returns Parser_peek_same
      remaining_def is_EOFTok_def split: if_splits)

lemma forward_methods_dom:
  "Parser_or_or_loop_Parser_and_and_loop_Parser_term_Parser_primary_dom (Inl (Inl (E1, p1))) \<Longrightarrow> forward (Parser_or E1 p1) p1"
  "Parser_or_or_loop_Parser_and_and_loop_Parser_term_Parser_primary_dom (Inl (Inr (Inl (E2, es2, p2)))) \<Longrightarrow> forward (or_loop E2 es2 p2) p2"
  "Parser_or_or_loop_Parser_and_and_loop_Parser_term_Parser_primary_dom (Inl (Inr (Inr (E3, p3)))) \<Longrightarrow> forward (Parser_and E3 p3) p3"
  "Parser_or_or_loop_Parser_and_and_loop_Parser_term_Parser_primary_dom (Inr (Inl (E4, es4, p4))) \<Longrightarrow> forward (and_loop E4 es4 p4) p4"
  "Parser_or_or_loop_Parser_and_and_loop_Parser_term_Parser_primary_dom (Inr (Inr (Inl (E5, p5)))) \<Longrightarrow> forward (Parser_term E5 p5) p5"
  "Parser_or_or_loop_Parser_and_and_loop_Parser_term_Parser_primary_dom (Inr (Inr (Inr (E6, p6)))) \<Longrightarrow> forward (Parser_primary E6 p6) p6"
proof (induction E1 p1 and E2 es2 p2 and E3 p3 and E4 es4 p4 and E5 p5 and E6 p6 rule: Parser_or_or_loop_Parser_and_and_loop_Parser_term_Parser_primary.pinduct)
  case (1 E p)
  show ?case unfolding Parser_or.psimps [OF 1(1)] by (intro forwards 1)
next
  case (2 E es p)
  show ?case unfolding or_loop.psimps [OF 2(1)] by (intro forwards; (rule 2; assumption))
next
  case (3 E p)
  show ?case unfolding Parser_and.psimps [OF 3(1)] by (intro forwards 3)
next
  case (4 E es p)
  show ?case unfolding and_loop.psimps [OF 4(1)] by (intro forwards; (rule 4; assumption))
next
  case (5 E p)
  show ?case unfolding Parser_term.psimps [OF 5(1)] by (intro forwards; (rule 5; assumption))
next
  case (6 E p)
  show ?case unfolding Parser_primary.psimps [OF 6(1)] by (intro forwards; (rule 6; assumption))
qed

definition method_rank ::
  "(parser_env \<times> Parser + parser_env \<times> ContextKeyExpression option list \<times> Parser + parser_env \<times> Parser) +
   (parser_env \<times> ContextKeyExpression option list \<times> Parser + parser_env \<times> Parser + parser_env \<times> Parser) \<Rightarrow> nat \<times> nat" where
  "method_rank x = (case x of
      Inl (Inl (E, p)) \<Rightarrow> (remaining p, 4)
    | Inl (Inr (Inl (E, es, p))) \<Rightarrow> (remaining p, 0)
    | Inl (Inr (Inr (E, p))) \<Rightarrow> (remaining p, 3)
    | Inr (Inl (E, es, p)) \<Rightarrow> (remaining p, 0)
    | Inr (Inr (Inl (E, p))) \<Rightarrow> (remaining p, 2)
    | Inr (Inr (Inr (E, p))) \<Rightarrow> (remaining p, 1))"

lemma forwardD: "forward m p \<Longrightarrow> m = Returns a q \<Longrightarrow> remaining q \<le> remaining p"
  by (simp add: forward_def)

lemmas matched_decreases =
  advance_decreases(1) [of is_OrTok, simplified] advance_decreases(1) [of is_AndTok, simplified]
  advance_decreases(1) [of is_Neg, simplified]

lemmas dom_forwardD = forward_methods_dom [THEN forwardD]

lemma lparen_decreases:
  "Parser_peek p = Returns (LParen i) p' \<Longrightarrow> Parser_advance p' = Returns u q \<Longrightarrow> remaining q < remaining p"
  using advance_decreases(2) [of p "LParen i" p' u q] by simp

termination Parser_or
proof (relation "inv_image (less_than <*lex*> less_than) method_rank", goal_cases)
  case (3 E p a q)
  then show ?case using dom_forwardD(3) by (fastforce simp: method_rank_def)
next
  case (4 E es p a q)
  then show ?case using matched_decreases(1) by (auto simp: method_rank_def)
next
  case (5 E es p a q b r)
  then have "remaining q < remaining p" "remaining r \<le> remaining q" using matched_decreases(1) dom_forwardD(3) by auto
  then show ?case by (simp add: method_rank_def)
next
  case (7 E p a q)
  then have "remaining q \<le> remaining p" using dom_forwardD(5) by blast
  then show ?case by (auto simp add: method_rank_def)
next
  case (8 E es p a q)
  then show ?case using matched_decreases(2) by (auto simp: method_rank_def)
next
  case (9 E es p a q b r)
  then have "remaining q < remaining p" "remaining r \<le> remaining q" using matched_decreases(2) dom_forwardD(5) by auto
  then show ?case by (simp add: method_rank_def)
next
  case (10 E p a q b r i c s)
  then have "remaining q < remaining p" "remaining r \<le> remaining q" "remaining s < remaining q"
    using matched_decreases(3) forwardD [OF forward_peek(1)] lparen_decreases by auto
  then show ?case by (simp add: method_rank_def)
next
  case (11 E p a q)
  then have "remaining q \<le> remaining p" using forwardD [OF forward_advance(4)] by blast
  then show ?case by (auto simp add: method_rank_def)
next
  case (12 E p a q i b r)
  then have "remaining r < remaining p" using lparen_decreases by auto
  then show ?case by (simp add: method_rank_def)
qed (auto simp: method_rank_def)

declare Parser_or.simps [simp del] or_loop.simps [simp del] Parser_and.simps [simp del] and_loop.simps [simp del]
  Parser_term.simps [simp del] Parser_primary.simps [simp del]

section \<open>Parsing\<close>

definition new_Parser :: Parser where
  "new_Parser = \<lparr>p_scanner = Scanner_reset [], p_tokens = [], p_current = 0, p_parsingErrors = []\<rparr>"

text \<open>
  An empty input is reported before the state of an earlier call is reset.  Past that, the
  parser's own exception is caught and \<open>undefined\<close> returned.
\<close>

definition Parser_parse :: "parser_env \<Rightarrow> js_string \<Rightarrow> Parser \<Rightarrow> ContextKeyExpression option outcome" where
  "Parser_parse E input p =
     (if input = [] then
        Returns None (pushError p (errorEmptyString (env_host E)) 0 [] (Some (hintEmptyString (env_host E))))
      else
        let (tokens, scanner) = Scanner_scan (env_host E) (Scanner_reset input);
            p = \<lparr>p_scanner = scanner, p_tokens = tokens, p_current = 0, p_parsingErrors = []\<rparr>
        in case bindP (Parser_or E p) (\<lambda>expr p.
                  bindP (Parser_isAtEnd p) (\<lambda>atEnd p.
                    if \<not> atEnd then
                      bindP (Parser_peek p) (\<lambda>peek p.
                        ParseError (pushError p (errorUnexpectedToken (env_host E)) (token_offset peek) (getLexeme peek)
                          (if is_StrTok peek then Some (hintUnexpectedToken (env_host E)) else None)))
                    else Returns expr p)) of
             ParseError p \<Rightarrow> Returns None p
           | r \<Rightarrow> r)"

text \<open>The static parser of \<open>ContextKeyExpr\<close> does not recover from errors in regular expressions.\<close>

definition ContextKeyExpr_deserialize ::
  "parser_env \<Rightarrow> js_string option \<Rightarrow> Parser \<Rightarrow> ContextKeyExpression option outcome" where
  "ContextKeyExpr_deserialize E serialized p =
     (case serialized of
        None \<Rightarrow> Returns None p
      | Some s \<Rightarrow> Parser_parse (E\<lparr>regexParsingWithErrorRecovery := False\<rparr>) s p)"

record when_error =
  we_errorMessage :: js_string
  we_offset :: nat
  we_length :: nat

definition when_lexingError :: "parser_host \<Rightarrow> LexingError \<Rightarrow> when_error" where
  "when_lexingError P se =
     \<lparr>we_errorMessage = (case le_additionalInfo se of
          Some (c # cs) \<Rightarrow> localize P (js ''Unexpected token. Hint: {0}'') [c # cs]
        | _ \<Rightarrow> localize P (js ''Unexpected token.'') []),
      we_offset = le_offset se, we_length = length (le_lexeme se)\<rparr>"

definition when_parsingError :: "ParsingError \<Rightarrow> when_error" where
  "when_parsingError pe =
     \<lparr>we_errorMessage = (case pe_additionalInfo pe of
          Some (c # cs) \<Rightarrow> pe_message pe @ js ''. '' @ (c # cs)
        | _ \<Rightarrow> pe_message pe),
      we_offset = pe_offset pe, we_length = length (pe_lexeme pe)\<rparr>"

text \<open>The errors of a clause once it has been parsed.\<close>

definition clause_errors :: "parser_host \<Rightarrow> Parser \<Rightarrow> when_error list" where
  "clause_errors P p =
     (if sc_errors (p_scanner p) \<noteq> [] then map (when_lexingError P) (sc_errors (p_scanner p))
      else if p_parsingErrors p \<noteq> [] then map when_parsingError (p_parsingErrors p)
      else [])"

fun validate_loop :: "parser_env \<Rightarrow> js_string list \<Rightarrow> Parser \<Rightarrow> when_error list list outcome" where
  "validate_loop E [] p = Returns [] p"
| "validate_loop E (whenClause # whenClauses) p =
     bindP (Parser_parse E whenClause p) (\<lambda>_ p.
       bindP (validate_loop E whenClauses p) (\<lambda>rest q. Returns (clause_errors (env_host E) p # rest) q))"

definition validateWhenClauses :: "parser_env \<Rightarrow> js_string list \<Rightarrow> when_error list list outcome" where
  "validateWhenClauses E whenClauses =
     validate_loop (E\<lparr>regexParsingWithErrorRecovery := False\<rparr>) whenClauses new_Parser"

end
