(* ===== verification/ContextKeyParsing.thy ===== *)
theory ContextKeyParsing
  imports ContextKeyParser
begin

text \<open>
  What the parser of \<open>when\<close> clauses (theory \<open>ContextKeyParser\<close>) promises: it never reads past
  its tokens, it returns \<open>undefined\<close> exactly when it has recorded an error, and what it returns
  is well typed.

  The types of expressions: nodes have operands, comparisons have a number or a string, and a
  cached negation is typed and denies the expression.  The last part needs a truth value that
  does not depend on a context; with it typing is a second instance of the interface
  \<open>expr_semantics\<close>, and normalization is shown to keep types by the same lemmas that show it to
  keep truth values.
\<close>

section \<open>Typed expressions\<close>

text \<open>The truth value when every test that is not a negation succeeds.\<close>

definition key_holds :: "ck_constants \<Rightarrow> js_string \<Rightarrow> bool" where
  "key_holds K k = (case K k of Some b \<Rightarrow> b | None \<Rightarrow> True)"

definition equality_holds :: "ck_constants \<Rightarrow> js_string \<Rightarrow> js_prim \<Rightarrow> bool" where
  "equality_holds K k v = (case v of JBool b \<Rightarrow> b = key_holds K k
     | _ \<Rightarrow> (case K k of Some b \<Rightarrow> strict_eq v (trueValue b) | None \<Rightarrow> True))"

fun canonical :: "ck_constants \<Rightarrow> ContextKeyExpression \<Rightarrow> bool" where
  "canonical K FalseExpr = False"
| "canonical K TrueExpr = True"
| "canonical K (DefinedExpr k _) = key_holds K k"
| "canonical K (NotExpr k _) = (\<not> key_holds K k)"
| "canonical K (EqualsExpr k v _) = equality_holds K k v"
| "canonical K (NotEqualsExpr k v _) = (\<not> equality_holds K k v)"
| "canonical K (AndExpr es _) = list_all (canonical K) es"
| "canonical K (RegexExpr _ _) = True"
| "canonical K (NotRegexExpr _ _) = False"
| "canonical K (OrExpr es _) = list_ex (canonical K) es"
| "canonical K (InExpr _ _) = True"
| "canonical K (NotInExpr _ _) = False"
| "canonical K (GreaterExpr _ _ _) = True"
| "canonical K (GreaterEqualsExpr _ _ _) = True"
| "canonical K (SmallerExpr _ _ _) = False"
| "canonical K (SmallerEqualsExpr _ _ _) = False"

definition comparable :: "js_prim \<Rightarrow> bool" where
  "comparable v = (case v of JNum _ \<Rightarrow> True | JStr _ \<Rightarrow> True | _ \<Rightarrow> False)"

fun typed :: "ck_constants \<Rightarrow> ContextKeyExpression \<Rightarrow> bool" where
  "typed K (DefinedExpr k n) = (case n of None \<Rightarrow> True | Some x \<Rightarrow> typed K x \<and> canonical K x = (\<not> key_holds K k))"
| "typed K (NotExpr k n) = (case n of None \<Rightarrow> True | Some x \<Rightarrow> typed K x \<and> canonical K x = key_holds K k)"
| "typed K (EqualsExpr k v n) =
     (case n of None \<Rightarrow> True | Some x \<Rightarrow> typed K x \<and> canonical K x = (\<not> equality_holds K k v))"
| "typed K (NotEqualsExpr k v n) = (case n of None \<Rightarrow> True | Some x \<Rightarrow> typed K x \<and> canonical K x = equality_holds K k v)"
| "typed K (AndExpr es n) = (es \<noteq> [] \<and> list_all (typed K) es \<and>
     (case n of None \<Rightarrow> True | Some x \<Rightarrow> typed K x \<and> canonical K x = (\<not> list_all (canonical K) es)))"
| "typed K (OrExpr es n) = (es \<noteq> [] \<and> list_all (typed K) es \<and>
     (case n of None \<Rightarrow> True | Some x \<Rightarrow> typed K x \<and> canonical K x = (\<not> list_ex (canonical K) es)))"
| "typed K (GreaterExpr k v n) = (comparable v \<and> (case n of None \<Rightarrow> True | Some x \<Rightarrow> typed K x \<and> \<not> canonical K x))"
| "typed K (GreaterEqualsExpr k v n) = (comparable v \<and> (case n of None \<Rightarrow> True | Some x \<Rightarrow> typed K x \<and> \<not> canonical K x))"
| "typed K (SmallerExpr k v n) = (comparable v \<and> (case n of None \<Rightarrow> True | Some x \<Rightarrow> typed K x \<and> canonical K x))"
| "typed K (SmallerEqualsExpr k v n) = (comparable v \<and> (case n of None \<Rightarrow> True | Some x \<Rightarrow> typed K x \<and> canonical K x))"
| "typed K e = True"

lemma expr_equals_canonical:
  "expr_equals a b \<Longrightarrow> canonical K a = canonical K b"
  "length as = length bs \<Longrightarrow> equals_loop as bs \<Longrightarrow> map (canonical K) as = map (canonical K) bs"
proof (induction a b and as bs rule: expr_equals_equals_loop.induct)
  case (1 es n b)
  then obtain es' n' where b: "b = AndExpr es' n'" "length es = length es'" "equals_loop es es'"
    by (auto split: ContextKeyExpression.splits)
  with 1 have "map (canonical K) es = map (canonical K) es'" by simp
  from map_bools(1) [OF this] show ?case by (simp add: b(1))
next
  case (2 es n b)
  then obtain es' n' where b: "b = OrExpr es' n'" "length es = length es'" "equals_loop es es'"
    by (auto split: ContextKeyExpression.splits)
  with 2 have "map (canonical K) es = map (canonical K) es'" by simp
  from map_bools(2) [OF this] show ?case by (simp add: b(1))
qed (auto simp: strict_eq_def split: ContextKeyExpression.splits list.splits)

lemma canonical_const [simp]: "canonical K (constExpr b) = b" "typed K (constExpr b)"
  by (simp_all add: constExpr_def)

lemma create_canonical [simp]:
  "canonical K (DefinedExpr_create K k n) = key_holds K k" "canonical K (NotExpr_create K k n) = (\<not> key_holds K k)"
  by (auto simp: DefinedExpr_create_def NotExpr_create_def key_holds_def split: option.splits)

lemma create_typed:
  "(case n of None \<Rightarrow> True | Some x \<Rightarrow> typed K x \<and> canonical K x = (\<not> key_holds K k)) \<Longrightarrow> typed K (DefinedExpr_create K k n)"
  "(case n of None \<Rightarrow> True | Some x \<Rightarrow> typed K x \<and> canonical K x = key_holds K k) \<Longrightarrow> typed K (NotExpr_create K k n)"
  by (auto simp: DefinedExpr_create_def NotExpr_create_def split: option.splits)

lemma create_equality_canonical [simp]:
  "canonical K (EqualsExpr_create K k v n) = equality_holds K k v"
  "canonical K (NotEqualsExpr_create K k v n) = (\<not> equality_holds K k v)"
  by (cases v; auto simp: EqualsExpr_create_def NotEqualsExpr_create_def equality_holds_def split: option.splits)+

lemma create_equality_typed:
  "(case n of None \<Rightarrow> True | Some x \<Rightarrow> typed K x \<and> canonical K x = (\<not> equality_holds K k v)) \<Longrightarrow>
     typed K (EqualsExpr_create K k v n)"
  "(case n of None \<Rightarrow> True | Some x \<Rightarrow> typed K x \<and> canonical K x = equality_holds K k v) \<Longrightarrow>
     typed K (NotEqualsExpr_create K k v n)"
  by (cases v; auto simp: EqualsExpr_create_def NotEqualsExpr_create_def equality_holds_def create_typed split: option.splits)+

lemma withFloatOrStr_comparable: "comparable v \<Longrightarrow> \<exists>w. comparable w \<and> withFloatOrStr v f = f w"
  by (cases v) (force simp: withFloatOrStr_def comparable_def Let_def)+

lemma create_number_typed:
  assumes "comparable v"
  shows "case n of None \<Rightarrow> True | Some x \<Rightarrow> typed K x \<and> \<not> canonical K x \<Longrightarrow>
      typed K (GreaterExpr_create k v n) \<and> canonical K (GreaterExpr_create k v n)"
    and "case n of None \<Rightarrow> True | Some x \<Rightarrow> typed K x \<and> \<not> canonical K x \<Longrightarrow>
      typed K (GreaterEqualsExpr_create k v n) \<and> canonical K (GreaterEqualsExpr_create k v n)"
    and "case n of None \<Rightarrow> True | Some x \<Rightarrow> typed K x \<and> canonical K x \<Longrightarrow>
      typed K (SmallerExpr_create k v n) \<and> \<not> canonical K (SmallerExpr_create k v n)"
    and "case n of None \<Rightarrow> True | Some x \<Rightarrow> typed K x \<and> canonical K x \<Longrightarrow>
      typed K (SmallerEqualsExpr_create k v n) \<and> \<not> canonical K (SmallerEqualsExpr_create k v n)"
  using withFloatOrStr_comparable [OF assms]
  by (metis GreaterExpr_create_def typed.simps(7) canonical.simps(13),
      metis GreaterEqualsExpr_create_def typed.simps(8) canonical.simps(14),
      metis SmallerExpr_create_def typed.simps(9) canonical.simps(15),
      metis SmallerEqualsExpr_create_def typed.simps(10) canonical.simps(16))

lemma negate_term_typed:
  assumes "typed K e" and "negate_term K e = Some x"
  shows "typed K x \<and> canonical K x = (\<not> canonical K e)"
proof -
  have "is_term e" using assms(2) by (cases e) (simp_all add: negate_term_def is_term_def)
  with assms show ?thesis
    by (cases e) (auto simp: negate_term_def is_term_def create_typed create_equality_typed create_number_typed)
qed

interpretation ckt: expr_semantics K "typed K" "canonical K" for K
proof
  fix e x assume "typed K e" "cached e = Some x"
  then show "typed K x \<and> canonical K x = (\<not> canonical K e)" by (cases e) auto
next
  fix es n show "typed K (AndExpr es n) = (es \<noteq> [] \<and> list_all (typed K) es \<and>
      (case n of None \<Rightarrow> True | Some x \<Rightarrow> typed K x \<and> canonical K x = (\<not> list_all (canonical K) es)))" by simp
next
  fix es n show "typed K (OrExpr es n) = (es \<noteq> [] \<and> list_all (typed K) es \<and>
      (case n of None \<Rightarrow> True | Some x \<Rightarrow> typed K x \<and> canonical K x = (\<not> list_ex (canonical K) es)))" by simp
qed (simp_all add: expr_equals_canonical negate_term_typed)

lemma create_nodes_typed:
  assumes "\<forall>e. Some e \<in> set arr \<longrightarrow> typed K e"
  shows "andCreate K n arr None c = Some r \<Longrightarrow> (r = None \<longrightarrow> (\<forall>e. Some e \<notin> set arr)) \<and> (\<forall>e. r = Some e \<longrightarrow> typed K e)"
    and "orCreate K n arr None c = Some r \<Longrightarrow> (r = None \<longrightarrow> (\<forall>e. Some e \<notin> set arr)) \<and> (\<forall>e. r = Some e \<longrightarrow> typed K e)"
proof -
  have g: "ckt.goods K arr" "\<And>v. ckt.neg_of K None v" using assms by (simp_all add: ckt.goods_def ckt.neg_of_def)
  show "(r = None \<longrightarrow> (\<forall>e. Some e \<notin> set arr)) \<and> (\<forall>e. r = Some e \<longrightarrow> typed K e)" if "andCreate K n arr None c = Some r"
  proof -
    have "ckt.and_result K arr r"
      using ckt.normalization_sound [of K n] g that unfolding ckt.and_spec_def by blast
    then show ?thesis by (cases r) (auto simp: ckt.and_result_def)
  qed
  show "(r = None \<longrightarrow> (\<forall>e. Some e \<notin> set arr)) \<and> (\<forall>e. r = Some e \<longrightarrow> typed K e)" if "orCreate K n arr None c = Some r"
  proof -
    have "ckt.or_result K arr r"
      using ckt.normalization_sound [of K n] g that unfolding ckt.or_spec_def by blast
    then show ?thesis by (cases r) (auto simp: ckt.or_result_def)
  qed
qed

lemma negate_typed: "typed K e \<Longrightarrow> negate K n e = Some r \<Longrightarrow> typed K r"
  using ckt.normalization_sound [of K n] unfolding ckt.negate_spec_def by blast

section \<open>Outcomes\<close>

text \<open>
  The tokens of a scan: \<open>EOF\<close> ends them and stands nowhere else, and the current token is one of
  them.
\<close>

definition at_token :: "Parser \<Rightarrow> bool" where
  "at_token p \<longleftrightarrow> p_tokens p \<noteq> [] \<and> p_current p < length (p_tokens p) \<and>
     (\<forall>i < length (p_tokens p). is_EOFTok (p_tokens p ! i) \<longleftrightarrow> i = length (p_tokens p) - 1)"

definition moved :: "Parser \<Rightarrow> Parser \<Rightarrow> bool" where
  "moved p q \<longleftrightarrow> (\<exists>c \<ge> p_current p. q = p\<lparr>p_current := c\<rparr>) \<and> at_token q"

text \<open>
  From a parser at one of its tokens a method moves forward and returns a value as named, or
  records one error and throws; it does nothing else.
\<close>

definition sound_outcome :: "('a \<Rightarrow> Parser \<Rightarrow> bool) \<Rightarrow> Parser \<Rightarrow> 'a outcome \<Rightarrow> bool" where
  "sound_outcome Q p m \<longleftrightarrow> (case m of
       Returns a q \<Rightarrow> moved p q \<and> Q a q
     | ParseError q \<Rightarrow> p_scanner q = p_scanner p \<and> (\<exists>e. p_parsingErrors q = p_parsingErrors p @ [e])
     | TypeErrorThrown \<Rightarrow> False
     | NoResult \<Rightarrow> True)"

named_theorems outcomes \<open>outcomes of the methods\<close>

lemma moved_trans:
  assumes "moved p q" and "moved q r"
  shows "moved p r"
proof -
  obtain c d where "c \<ge> p_current p" "q = p\<lparr>p_current := c\<rparr>" "d \<ge> p_current q" "r = q\<lparr>p_current := d\<rparr>"
    using assms unfolding moved_def by blast
  then have "d \<ge> p_current p \<and> r = p\<lparr>p_current := d\<rparr>" by simp
  then show ?thesis using assms(2) unfolding moved_def by blast
qed

lemma moved_at_token: "moved p q \<Longrightarrow> at_token q"
  by (simp add: moved_def)

lemma outcome_bind [outcomes]:
  assumes "sound_outcome Q p m" and "\<And>a q. at_token q \<Longrightarrow> Q a q \<Longrightarrow> m = Returns a q \<Longrightarrow> sound_outcome R q (f a q)"
  shows "sound_outcome R p (bindP m f)"
proof (cases m)
  case (Returns a q)
  with assms(1) have mv: "moved p q" "Q a q" by (auto simp: sound_outcome_def)
  with assms(2) Returns have "sound_outcome R q (f a q)" using moved_at_token by blast
  then show ?thesis using Returns mv(1)
    by (cases "f a q") (auto simp: sound_outcome_def intro: moved_trans, auto simp: moved_def)
qed (use assms(1) in \<open>auto simp: sound_outcome_def\<close>)

lemma outcome_mono: "sound_outcome Q p m \<Longrightarrow> (\<And>a q. at_token q \<Longrightarrow> Q a q \<Longrightarrow> R a q) \<Longrightarrow> sound_outcome R p m"
  by (cases m) (auto simp: sound_outcome_def dest: moved_at_token)

lemma moved_refl: "at_token p \<Longrightarrow> moved p p"
  unfolding moved_def by (metis Parser.surjective Parser.update_convs(3) order_refl)

lemma outcome_Returns [outcomes]: "at_token p \<Longrightarrow> R a p \<Longrightarrow> sound_outcome R p (Returns a p)"
  by (simp add: sound_outcome_def moved_refl)

lemma outcome_stop [outcomes]:
  "sound_outcome R p NoResult" "sound_outcome R p (ParseError (pushError p a b c d))"
  "sound_outcome R p (errExpectedButGot E x t p)"
  by (simp_all add: sound_outcome_def errExpectedButGot_def pushError_def)

lemma outcome_cases [outcomes]:
  "(b \<Longrightarrow> sound_outcome R p m) \<Longrightarrow> (\<not> b \<Longrightarrow> sound_outcome R p n) \<Longrightarrow> sound_outcome R p (if b then m else n)"
  "(x = None \<Longrightarrow> sound_outcome R p m) \<Longrightarrow> (\<And>y. x = Some y \<Longrightarrow> sound_outcome R p (g y)) \<Longrightarrow>
     sound_outcome R p (case x of None \<Rightarrow> m | Some y \<Rightarrow> g y)"
  "sound_outcome R p (f v) \<Longrightarrow> sound_outcome R p (Let v f)"
  by ((cases b; simp), (cases x; simp), simp)

lemma outcome_token [outcomes]:
  "(\<And>i. t = LParen i \<Longrightarrow> sound_outcome R p (f1 i)) \<Longrightarrow> (\<And>i. t = RParen i \<Longrightarrow> sound_outcome R p (f2 i)) \<Longrightarrow>
   (\<And>i. t = Neg i \<Longrightarrow> sound_outcome R p (f3 i)) \<Longrightarrow> (\<And>i x. t = EqTok i x \<Longrightarrow> sound_outcome R p (f4 i x)) \<Longrightarrow>
   (\<And>i x. t = NotEqTok i x \<Longrightarrow> sound_outcome R p (f5 i x)) \<Longrightarrow> (\<And>i. t = Lt i \<Longrightarrow> sound_outcome R p (f6 i)) \<Longrightarrow>
   (\<And>i. t = LtEq i \<Longrightarrow> sound_outcome R p (f7 i)) \<Longrightarrow> (\<And>i. t = Gt i \<Longrightarrow> sound_outcome R p (f8 i)) \<Longrightarrow>
   (\<And>i. t = GtEq i \<Longrightarrow> sound_outcome R p (f9 i)) \<Longrightarrow> (\<And>i. t = RegexOp i \<Longrightarrow> sound_outcome R p (f10 i)) \<Longrightarrow>
   (\<And>i x. t = RegexStr i x \<Longrightarrow> sound_outcome R p (f11 i x)) \<Longrightarrow> (\<And>i. t = TrueTok i \<Longrightarrow> sound_outcome R p (f12 i)) \<Longrightarrow>
   (\<And>i. t = FalseTok i \<Longrightarrow> sound_outcome R p (f13 i)) \<Longrightarrow> (\<And>i. t = InTok i \<Longrightarrow> sound_outcome R p (f14 i)) \<Longrightarrow>
   (\<And>i. t = NotTok i \<Longrightarrow> sound_outcome R p (f15 i)) \<Longrightarrow> (\<And>i. t = AndTok i \<Longrightarrow> sound_outcome R p (f16 i)) \<Longrightarrow>
   (\<And>i. t = OrTok i \<Longrightarrow> sound_outcome R p (f17 i)) \<Longrightarrow> (\<And>i x. t = StrTok i x \<Longrightarrow> sound_outcome R p (f18 i x)) \<Longrightarrow>
   (\<And>i x. t = QuotedStr i x \<Longrightarrow> sound_outcome R p (f19 i x)) \<Longrightarrow> (\<And>i x. t = ErrorTok i x \<Longrightarrow> sound_outcome R p (f20 i x)) \<Longrightarrow>
   (\<And>i. t = EOFTok i \<Longrightarrow> sound_outcome R p (f21 i)) \<Longrightarrow>
   sound_outcome R p (case_Token f1 f2 f3 f4 f5 f6 f7 f8 f9 f10 f11 f12 f13 f14 f15 f16 f17 f18 f19 f20 f21 t)"
  by (cases t) simp_all

definition current_token :: "Parser \<Rightarrow> Token" where
  "current_token p = p_tokens p ! p_current p"

lemma outcome_peek [outcomes]: "at_token p \<Longrightarrow> sound_outcome (\<lambda>t q. q = p \<and> current_token p = t) p (Parser_peek p)"
  by (simp add: sound_outcome_def Parser_peek_def moved_refl current_token_def at_token_def [of p])

lemma outcome_previous [outcomes]:
  "at_token p \<Longrightarrow> 0 < p_current p \<Longrightarrow> sound_outcome (\<lambda>t q. q = p) p (Parser_previous p)"
  unfolding at_token_def [of p] by (auto simp: sound_outcome_def Parser_previous_def at_token_def [of p] intro!: moved_refl)

lemma at_token_advance:
  assumes "at_token p" and "\<not> is_EOFTok (current_token p)"
  shows "at_token (p\<lparr>p_current := Suc (p_current p)\<rparr>)" "moved p (p\<lparr>p_current := Suc (p_current p)\<rparr>)"
proof -
  have "p_current p < length (p_tokens p)" "p_current p \<noteq> length (p_tokens p) - 1"
    using assms unfolding at_token_def current_token_def by blast+
  then have "Suc (p_current p) < length (p_tokens p)" by linarith
  then show t: "at_token (p\<lparr>p_current := Suc (p_current p)\<rparr>)" using assms(1) unfolding at_token_def by simp
  then show "moved p (p\<lparr>p_current := Suc (p_current p)\<rparr>)"
    unfolding moved_def by (intro conjI exI [of _ "Suc (p_current p)"]) simp_all
qed

lemma outcome_isAtEnd [outcomes]:
  "at_token p \<Longrightarrow> sound_outcome (\<lambda>b q. q = p \<and> b = is_EOFTok (current_token p)) p (Parser_isAtEnd p)"
  unfolding Parser_isAtEnd_def by (rule outcomes | assumption | simp)+

lemma outcome_advance [outcomes]:
  assumes "at_token p"
  shows "sound_outcome (\<lambda>u q. \<not> is_EOFTok (current_token p) \<longrightarrow> q = p\<lparr>p_current := Suc (p_current p)\<rparr>) p (Parser_advance p)"
proof -
  from assms have "Parser_advance p = Returns () (if is_EOFTok (current_token p) then p else p\<lparr>p_current := Suc (p_current p)\<rparr>)"
    by (simp add: Parser_advance_def Parser_isAtEnd_def Parser_peek_def at_token_def current_token_def)
  then show ?thesis using at_token_advance [OF assms] moved_refl [OF assms] by (simp add: sound_outcome_def)
qed

lemma outcome_check [outcomes]:
  "at_token p \<Longrightarrow> sound_outcome (\<lambda>b q. q = p) p (Parser_check type p)"
  unfolding Parser_check_def by (rule outcomes | assumption | simp)+

lemma outcome_matchOne [outcomes]: "at_token p \<Longrightarrow> sound_outcome (\<lambda>_ _. True) p (Parser_matchOne type p)"
  unfolding Parser_matchOne_def by (rule outcomes TrueI | assumption | simp)+

lemma outcome_any: "sound_outcome Q p m \<Longrightarrow> sound_outcome (\<lambda>_ _. True) p m"
  by (erule outcome_mono) simp

lemma outcome_consume [outcomes]: "at_token p \<Longrightarrow> sound_outcome (\<lambda>_ _. True) p (Parser_consume E type m p)"
  unfolding Parser_consume_def by (rule outcome_any [OF outcome_advance] outcomes TrueI | assumption | simp)+

lemma outcome_value [outcomes]:
  "at_token p \<Longrightarrow> sound_outcome (\<lambda>_ _. True) p (Parser_value p)"
  unfolding Parser_value_def by (rule outcomes TrueI | assumption | simp)+

lemma outcome_reconstruct [outcomes]:
  "at_token p \<Longrightarrow> sound_outcome (\<lambda>_ _. True) p (reconstruct_loop expr t b xs p)"
proof (induction expr t b xs p rule: reconstruct_loop.induct)
  case (1 expr t b xs p)
  show ?case
    unfolding reconstruct_loop.simps [of expr t b xs p]
    by (rule outcomes TrueI 1 refl | assumption | simp)+
qed

lemma outcome_regex [outcomes]:
  "at_token p \<Longrightarrow> sound_outcome (\<lambda>e _. \<exists>x. e = Some x \<and> typed K x) p (regexOfLexeme E key t s p)"
  "at_token p \<Longrightarrow> sound_outcome (\<lambda>e _. \<exists>x. e = Some x \<and> typed K x) p (regexOfQuoted E key t s p)"
  unfolding regexOfLexeme_def regexOfQuoted_def by (rule outcomes | assumption | simp)+

lemma outcome_Parser_regex [outcomes]:
  "at_token p \<Longrightarrow> sound_outcome (\<lambda>e _. \<exists>x. e = Some x \<and> typed K x) p (Parser_regex E key p)"
  unfolding Parser_regex_def by (rule outcomes | assumption | simp)+

lemma outcome_equality [outcomes]:
  assumes "at_token p" and "\<not> is_EOFTok (current_token p)" and "typed K whenTrue" "typed K whenFalse" "\<And>v. typed K (otherwise v)"
  shows "sound_outcome (\<lambda>e _. \<exists>x. e = Some x \<and> typed K x) p (Parser_equality whenTrue whenFalse otherwise p)"
proof -
  have pos: "sound_outcome (\<lambda>_ q'. 0 < p_current q') q (Parser_value q)" if "at_token q" "0 < p_current q" for q
    using outcome_value [OF that(1)] that(2) by (cases "Parser_value q") (auto simp: sound_outcome_def moved_def)
  show ?thesis
    unfolding Parser_equality_def using assms by - (rule pos outcomes | assumption | simp)+
qed

lemma outcome_comparison [outcomes]:
  assumes "at_token p" and "\<And>v. typed K (create v)"
  shows "sound_outcome (\<lambda>e _. \<exists>x. e = Some x \<and> typed K x) p (Parser_comparison create p)"
  unfolding Parser_comparison_def using assms by - (rule outcomes | assumption | simp)+

lemma fresh_typed:
  "typed K (DefinedExpr_create K k None)" "typed K (NotExpr_create K k None)" "typed K (EqualsExpr_create K k v None)"
  "typed K (NotEqualsExpr_create K k v None)" "typed K (SmallerExpr_create k (JStr s) None)"
  "typed K (SmallerEqualsExpr_create k (JStr s) None)" "typed K (GreaterExpr_create k (JStr s) None)"
  "typed K (GreaterEqualsExpr_create k (JStr s) None)"
  by (simp_all add: create_typed create_equality_typed create_number_typed comparable_def)

lemma outcome_key [outcomes]:
  "at_token p \<Longrightarrow> K = env_constants E \<Longrightarrow> sound_outcome (\<lambda>e _. \<exists>x. e = Some x \<and> typed K x) p (Parser_key E key p)"
  unfolding Parser_key_def Let_def by (rule outcomes | assumption | simp add: fresh_typed)+

section \<open>The grammar\<close>

abbreviation parses :: "parser_env \<Rightarrow> Parser \<Rightarrow> ContextKeyExpression option outcome \<Rightarrow> bool" where
  "parses E \<equiv> sound_outcome (\<lambda>e _. \<exists>x. e = Some x \<and> typed (env_constants E) x)"

lemma outcome_create [outcomes]:
  assumes "at_token p" and "es \<noteq> []" and "\<forall>e \<in> set es. \<exists>x. e = Some x \<and> typed (env_constants E) x"
  shows "parses E p (ContextKeyExpr_or E es p)" "parses E p (ContextKeyExpr_and E es p)"
proof -
  have t: "\<forall>e. Some e \<in> set es \<longrightarrow> typed (env_constants E) e" using assms(3) by auto
  obtain e where e: "Some e \<in> set es" using assms(2,3) by (cases es) auto
  have r: "\<exists>x. r = Some x \<and> typed (env_constants E) x"
    if "orCreate (env_constants E) n es None c = Some r \<or> andCreate (env_constants E) n es None c = Some r" for n c r
    using create_nodes_typed [OF t, of n c r] that e by (cases r) auto
  show "parses E p (ContextKeyExpr_or E es p)"
    using r [of "env_depth E" True] assms(1)
    by (cases "orCreate (env_constants E) (env_depth E) es None True") (simp_all add: ContextKeyExpr_or_def sound_outcome_def moved_refl)
  show "parses E p (ContextKeyExpr_and E es p)"
    using r [of "env_depth E" True] assms(1)
    by (cases "andCreate (env_constants E) (env_depth E) es None True") (simp_all add: ContextKeyExpr_and_def sound_outcome_def moved_refl)
qed

lemma outcome_negate [outcomes]:
  "at_token p \<Longrightarrow> \<exists>x. e = Some x \<and> typed (env_constants E) x \<Longrightarrow> parses E p (negate_optional E e p)"
  by (auto simp: negate_optional_def sound_outcome_def moved_refl negate_typed split: option.split)

lemma single_typed: "es \<noteq> [] \<Longrightarrow> \<forall>e \<in> set es. P e \<Longrightarrow> P (hd es)"
  by (cases es) auto

lemma methods_parse:
  "at_token p1 \<Longrightarrow> parses E1 p1 (Parser_or E1 p1)"
  "at_token p2 \<Longrightarrow> es2 \<noteq> [] \<Longrightarrow> \<forall>e \<in> set es2. \<exists>x. e = Some x \<and> typed (env_constants E2) x \<Longrightarrow> parses E2 p2 (or_loop E2 es2 p2)"
  "at_token p3 \<Longrightarrow> parses E3 p3 (Parser_and E3 p3)"
  "at_token p4 \<Longrightarrow> es4 \<noteq> [] \<Longrightarrow> \<forall>e \<in> set es4. \<exists>x. e = Some x \<and> typed (env_constants E4) x \<Longrightarrow> parses E4 p4 (and_loop E4 es4 p4)"
  "at_token p5 \<Longrightarrow> parses E5 p5 (Parser_term E5 p5)"
  "at_token p6 \<Longrightarrow> parses E6 p6 (Parser_primary E6 p6)"
proof (induction E1 p1 and E2 es2 p2 and E3 p3 and E4 es4 p4 and E5 p5 and E6 p6
    rule: Parser_or_or_loop_Parser_and_and_loop_Parser_term_Parser_primary.induct)
  case (1 E p)
  then show ?case unfolding Parser_or.simps [of E p] by - (rule outcomes 1(1,2) | assumption | simp)+
next
  case (2 E es p)
  note prems = 2(3-5)
  show ?case unfolding or_loop.simps [of E es p]
    by (rule outcomes 2(1,2) single_typed [where P = "\<lambda>e. \<exists>x. e = Some x \<and> typed (env_constants E) x"]
      | assumption | (insert prems, simp; fail))+
next
  case (3 E p)
  then show ?case unfolding Parser_and.simps [of E p] by - (rule outcomes 3(1,2) | assumption | simp)+
next
  case (4 E es p)
  note prems = 4(3-5)
  show ?case unfolding and_loop.simps [of E es p]
    by (rule outcomes 4(1,2) single_typed [where P = "\<lambda>e. \<exists>x. e = Some x \<and> typed (env_constants E) x"]
      | assumption | (insert prems, simp; fail))+
next
  case (5 E p)
  show ?case unfolding Parser_term.simps [of E p]
    by (rule outcomes 5 refl | assumption | simp add: fresh_typed)+
next
  case (6 E p)
  show ?case unfolding Parser_primary.simps [of E p]
    by (rule outcomes 6 refl | assumption | simp add: fresh_typed)+
qed

section \<open>Parsing a clause\<close>

definition fresh_parser :: "parser_env \<Rightarrow> js_string \<Rightarrow> Parser" where
  "fresh_parser E input =
     (let (tokens, scanner) = Scanner_scan (env_host E) (Scanner_reset input)
      in \<lparr>p_scanner = scanner, p_tokens = tokens, p_current = 0, p_parsingErrors = []\<rparr>)"

lemma fresh_at_token: "at_token (fresh_parser E input)"
proof -
  obtain ts where ts: "fst (Scanner_scan (env_host E) (Scanner_reset input)) = ts @ [EOFTok (length input)]"
      "lexed (env_host E) 0 input (ts @ [EOFTok (length input)])"
    using scan_lexed [where P = "env_host E" and s = input] by blast
  then have "p_tokens (fresh_parser E input) = ts @ [EOFTok (length input)]" "p_current (fresh_parser E input) = 0"
    by (auto simp: fresh_parser_def split: prod.splits)
  with lexed_EOF_last [OF ts(2)] show ?thesis by (auto simp: at_token_def)
qed

text \<open>What \<open>parse\<close> does on an input that is not empty, before the exception is caught.\<close>

definition parse_all :: "parser_env \<Rightarrow> Parser \<Rightarrow> ContextKeyExpression option outcome" where
  "parse_all E p = bindP (Parser_or E p) (\<lambda>expr p.
     bindP (Parser_isAtEnd p) (\<lambda>atEnd p.
       if \<not> atEnd then
         bindP (Parser_peek p) (\<lambda>peek p.
           ParseError (pushError p (errorUnexpectedToken (env_host E)) (token_offset peek) (getLexeme peek)
             (if is_StrTok peek then Some (hintUnexpectedToken (env_host E)) else None)))
       else Returns expr p))"

lemma Parser_parse_eq:
  "input \<noteq> [] \<Longrightarrow> Parser_parse E input p = (case parse_all E (fresh_parser E input) of ParseError q \<Rightarrow> Returns None q | r \<Rightarrow> r)"
  by (simp add: Parser_parse_def fresh_parser_def parse_all_def Let_def split: prod.splits)

lemma parse_all_outcome: "parses E (fresh_parser E input) (parse_all E (fresh_parser E input))"
  using fresh_at_token [of E input] unfolding parse_all_def
  by - (rule outcomes methods_parse | assumption | simp)+

lemma fresh_simps [simp]:
  "p_scanner (fresh_parser E input) = snd (Scanner_scan (env_host E) (Scanner_reset input))" "p_parsingErrors (fresh_parser E input) = []"
  by (simp_all add: fresh_parser_def split: prod.splits)

lemma parse_cases:
  assumes "input \<noteq> []"
  obtains (parsed) e q where "Parser_parse E input p = Returns (Some e) q" "typed (env_constants E) e" "p_parsingErrors q = []"
      "p_scanner q = snd (Scanner_scan (env_host E) (Scanner_reset input))"
  | (failed) q where "Parser_parse E input p = Returns None q" "p_parsingErrors q \<noteq> []"
      "p_scanner q = snd (Scanner_scan (env_host E) (Scanner_reset input))"
  | (no_result) "Parser_parse E input p = NoResult"
  using parse_all_outcome [of E input] Parser_parse_eq [OF assms, of E p]
  by (cases "parse_all E (fresh_parser E input)") (auto simp: sound_outcome_def moved_def)

text \<open>
  \<^bold>\<open>C5.\<close> Parsing never runs past its tokens.  It returns \<open>undefined\<close> exactly when it has
  recorded a parsing error (otherwise all records are gone, also those of an earlier call), and
  an expression it returns is typed; the only other outcome is a normalization that does not
  return within the given depth.
\<close>

theorem Parser_parse_correct:
  "(\<exists>e q. Parser_parse E input p = Returns e q \<and>
      (case e of None \<Rightarrow> p_parsingErrors q \<noteq> [] | Some x \<Rightarrow> p_parsingErrors q = [] \<and> typed (env_constants E) x)) \<or>
   Parser_parse E input p = NoResult"
proof (cases "input = []")
  case True
  then show ?thesis by (simp add: Parser_parse_def pushError_def)
next
  case False
  then show ?thesis by (cases rule: parse_cases [of input E p]) simp_all
qed

text \<open>
  \<^bold>\<open>C24.\<close> What conjunction, disjunction and negation make of typed expressions is typed: nodes
  have operands, comparisons have a number or a string, cached negations are typed and deny their
  expression; and the results of the creating functions are only \<open>undefined\<close> without operands.
  This is so for every result, whatever the depth; and on the normal forms \<open>dnf_form\<close> the three
  return at every sufficient depth.
\<close>

theorem normalization_typed:
  assumes "\<forall>e. Some e \<in> set arr \<longrightarrow> typed K e" and "typed K e"
  shows "(\<forall>n c r. andCreate K n arr None c = Some r \<or> orCreate K n arr None c = Some r \<longrightarrow>
           (r = None \<longrightarrow> (\<forall>x. Some x \<notin> set arr)) \<and> (\<forall>x. r = Some x \<longrightarrow> typed K x)) \<and>
         (\<forall>n t. negate K n e = Some t \<longrightarrow> typed K t) \<and>
         ((\<forall>e. Some e \<in> set arr \<longrightarrow> dnf_form e) \<and> dnf_form e \<longrightarrow>
           (\<forall>c. \<exists>N. \<forall>n \<ge> N. andCreate K n arr None c \<noteq> None \<and> orCreate K n arr None c \<noteq> None \<and> negate K n e \<noteq> None))"
proof (intro conjI)
  show "\<forall>n c r. andCreate K n arr None c = Some r \<or> orCreate K n arr None c = Some r \<longrightarrow>
      (r = None \<longrightarrow> (\<forall>x. Some x \<notin> set arr)) \<and> (\<forall>x. r = Some x \<longrightarrow> typed K x)"
    using create_nodes_typed [OF assms(1)] by blast
  show "\<forall>n t. negate K n e = Some t \<longrightarrow> typed K t" using negate_typed [OF assms(2)] by blast
  show "(\<forall>e. Some e \<in> set arr \<longrightarrow> dnf_form e) \<and> dnf_form e \<longrightarrow>
      (\<forall>c. \<exists>N. \<forall>n \<ge> N. andCreate K n arr None c \<noteq> None \<and> orCreate K n arr None c \<noteq> None \<and> negate K n e \<noteq> None)"
    using normalization_returns [of arr e K] by (metis option.distinct(1))
qed

theorem normalization_typed_witness:
  "\<exists>r t. orCreate (\<lambda>_. None) 1 (map Some example_keys) None True = Some r \<and> r \<noteq> None \<and>
     negate (\<lambda>_. None) 2 (OrExpr example_keys None) = Some t \<and> typed (\<lambda>_. None) t"
proof -
  let ?K = "\<lambda>_ :: js_string. None :: bool option" and ?arr = "map Some example_keys"
  have g: "\<forall>e. Some e \<in> set ?arr \<longrightarrow> typed ?K e" "typed ?K (OrExpr example_keys None)"
    by (auto simp: example_keys_def)
  have o: "orCreate ?K 1 ?arr None True = Some (Some (OrExpr example_keys None))" by code_simp
  have n: "negate ?K 2 (OrExpr example_keys None) = Some (AndExpr [NotExpr (js ''a'') (Some (DefinedExpr (js ''a'') None)),
      NotExpr (js ''b'') (Some (DefinedExpr (js ''b'') None))] None)" by code_simp
  from normalization_typed [OF g, THEN conjunct2, THEN conjunct1, rule_format, OF n] show ?thesis unfolding o n by blast
qed

text \<open>
  \<^bold>\<open>C25.\<close> The empty clause does not reset the scanner: validating it after a clause with lexing
  errors reports the errors of that clause again, at its offsets, and the error recorded for the
  empty clause is not reported.
\<close>

theorem validateWhenClauses_stale:
  assumes "sc_errors (snd (Scanner_scan (env_host E) (Scanner_reset s))) \<noteq> []" and "validateWhenClauses E [s, []] = Returns r q"
  shows "\<exists>x. x \<noteq> [] \<and> r = [x, x]"
proof -
  let ?E = "E\<lparr>regexParsingWithErrorRecovery := False\<rparr>"
  have "sc_errors (snd (Scanner_scan (env_host E) (Scanner_reset []))) = []"
    using scan_of_lexed [OF lexed_EOF [of "env_host E" 0]] by simp
  then have s: "s \<noteq> []" using assms(1) by metis
  let ?x = "map (when_lexingError (env_host E)) (sc_errors (snd (Scanner_scan (env_host E) (Scanner_reset s))))"
  have r: "r = [?x, ?x]"
    if "Parser_parse ?E s new_Parser = Returns e p" "p_scanner p = snd (Scanner_scan (env_host E) (Scanner_reset s))" for e p
    using that assms by (auto simp: validateWhenClauses_def Parser_parse_def [of _ "[]"] pushError_def clause_errors_def)
  have "r = [?x, ?x]"
    using assms(2) r by (cases rule: parse_cases [OF s, of ?E new_Parser]) (auto simp: validateWhenClauses_def)
  then show ?thesis using assms(1) by auto
qed

text \<open>An engine for the witnesses, without letters beyond the pattern's own; messages are not translated.\<close>

definition example_parser_host :: parser_host where
  "example_parser_host = \<lparr>isLetter = \<lambda>_. False, localize = \<lambda>message _. message,
     newRegExp = \<lambda>source flags. Some \<lparr>re_source = source, re_flags = (case flags of None \<Rightarrow> [] | Some f \<Rightarrow> f)\<rparr>\<rparr>"

definition example_parser_env :: parser_env where
  "example_parser_env = \<lparr>env_constants = \<lambda>_. None, env_depth = 3, env_host = example_parser_host,
     regexParsingWithErrorRecovery = True\<rparr>"

theorem validateWhenClauses_stale_witness:
  "\<exists>x q. validateWhenClauses example_parser_env [js ''a = b'', []] = Returns [x, x] q \<and> x \<noteq> []"
proof -
  have e: "sc_errors (snd (Scanner_scan (env_host example_parser_env) (Scanner_reset (js ''a = b'')))) \<noteq> []" by code_simp
  have v: "case validateWhenClauses example_parser_env [js ''a = b'', []] of Returns r q \<Rightarrow> True | _ \<Rightarrow> False" by code_simp
  then obtain r q where r: "validateWhenClauses example_parser_env [js ''a = b'', []] = Returns r q"
    by (cases "validateWhenClauses example_parser_env [js ''a = b'', []]") simp_all
  from validateWhenClauses_stale [OF e r] r show ?thesis by auto
qed

end
