(* ===== verification/ContextKeyRoundTrip.thy ===== *)
theory ContextKeyRoundTrip
  imports ContextKeyParsing
begin

text \<open>
  Printing an expression and parsing the text again: \<open>parse\<close> of \<open>serialize e\<close> returns, without
  errors, an expression with the truth value of \<open>e\<close> in every context that meets the conditions
  on its terms, for disjunctions of conjunctions of tests of keys and of equalities with strings.
\<close>

section \<open>Scanning printed text\<close>

text \<open>Words the scanner reads as one string token, and texts it reads as one quoted string.\<close>

definition plain_char :: "parser_host \<Rightarrow> 16 word \<Rightarrow> bool" where
  "plain_char P c \<longleftrightarrow> string_char (isLetter P) c \<and> \<not> is_lead c \<and> c \<notin> {40, 41, 33, 39, 61, 38, 124} \<and> c \<notin> white"

definition word_ok :: "parser_host \<Rightarrow> js_string \<Rightarrow> bool" where
  "word_ok P k \<longleftrightarrow> k \<noteq> [] \<and> list_all (plain_char P) k \<and> hd k \<notin> {47, 60, 62} \<and> keyword_token k = None"

definition value_ok :: "js_string \<Rightarrow> bool" where
  "value_ok v \<longleftrightarrow> 39 \<notin> set v"

text \<open>
  \<open>scans P x T\<close>: from any position where the text \<open>x\<close> stands, followed by a space or the end,
  scanning adds the tokens \<open>T\<close> and goes on after it.
\<close>

definition scans :: "parser_host \<Rightarrow> js_string \<Rightarrow> (nat \<Rightarrow> Token list) \<Rightarrow> bool" where
  "scans P x T \<longleftrightarrow> (\<forall>sc rest. sc_current sc \<le> length (sc_input sc) \<longrightarrow> drop (sc_current sc) (sc_input sc) = x @ rest \<longrightarrow>
     (rest = [] \<or> hd rest = 32) \<longrightarrow>
     (\<exists>a. scan_loop P sc = scan_loop P (sc\<lparr>sc_start := a, sc_current := sc_current sc + length x,
        sc_tokens := sc_tokens sc @ T (sc_current sc)\<rparr>)))"

lemma scansD:
  "scans P x T \<Longrightarrow> sc_current sc \<le> length (sc_input sc) \<Longrightarrow> drop (sc_current sc) (sc_input sc) = x @ rest \<Longrightarrow>
   rest = [] \<or> hd rest = 32 \<Longrightarrow>
   \<exists>a. scan_loop P sc = scan_loop P (sc\<lparr>sc_start := a, sc_current := sc_current sc + length x,
        sc_tokens := sc_tokens sc @ T (sc_current sc)\<rparr>)"
  unfolding scans_def by blast

lemma scan_loop_step: "sc_current sc < length (sc_input sc) \<Longrightarrow> scan_loop P sc = scan_loop P (scan_step P sc)"
  by (subst scan_loop.simps) (simp add: Scanner_isAtEnd_def)

lemma scan_loop_end: "length (sc_input sc) \<le> sc_current sc \<Longrightarrow> scan_loop P sc = sc"
  by (subst scan_loop.simps) (simp add: Scanner_isAtEnd_def)

lemma drop_append: "drop i s = x @ r \<Longrightarrow> drop (i + length x) s = r"
  by (metis append_eq_conv_conj drop_drop add.commute)

lemma scans_append:
  assumes "scans P x T" and "scans P y U"
  shows "scans P (x @ 32 # y) (\<lambda>i. T i @ U (i + length x + 1))"
  unfolding scans_def
proof (intro allI impI)
  fix sc :: Scanner and rest
  assume sc: "sc_current sc \<le> length (sc_input sc)" "drop (sc_current sc) (sc_input sc) = (x @ 32 # y) @ rest" "rest = [] \<or> hd rest = 32"
  from sc(2) have "drop (sc_current sc) (sc_input sc) = x @ (32 # y @ rest)" by simp
  with assms(1) sc(1) obtain a where a: "scan_loop P sc = scan_loop P (sc\<lparr>sc_start := a, sc_current := sc_current sc + length x,
      sc_tokens := sc_tokens sc @ T (sc_current sc)\<rparr>)"
    unfolding scans_def by (metis list.sel(1))
  let ?sc = "sc\<lparr>sc_start := a, sc_current := sc_current sc + length x, sc_tokens := sc_tokens sc @ T (sc_current sc)\<rparr>"
  have d: "drop (sc_current sc + length x) (sc_input sc) = 32 # y @ rest"
    using drop_append [of "sc_current sc" _ x "32 # y @ rest"] sc(2) by simp
  note d' = drop_ConsD [OF d]
  let ?sc2 = "?sc\<lparr>sc_start := sc_current ?sc, sc_current := Suc (sc_current ?sc)\<rparr>"
  have "scan_step P ?sc = ?sc2"
    using d' by (simp add: scan_step_def Let_def Scanner_advance_def charCodeAt_def)
  with a scan_loop_step [of ?sc P] d' have "scan_loop P sc = scan_loop P ?sc2" by simp
  moreover have "sc_current ?sc2 \<le> length (sc_input ?sc2)" "drop (sc_current ?sc2) (sc_input ?sc2) = y @ rest" using d' by simp_all
  with assms(2) sc(3) obtain b where "scan_loop P ?sc2 = scan_loop P (?sc2\<lparr>sc_start := b, sc_current := sc_current ?sc2 + length y,
      sc_tokens := sc_tokens ?sc2 @ U (sc_current ?sc2)\<rparr>)" unfolding scans_def by blast
  ultimately show "\<exists>a. scan_loop P sc = scan_loop P (sc\<lparr>sc_start := a, sc_current := sc_current sc + length (x @ 32 # y),
      sc_tokens := sc_tokens sc @ T (sc_current sc) @ U (sc_current sc + length x + 1)\<rparr>)"
    by (intro exI [of _ b]) (simp add: ac_simps)
qed

text \<open>A text that one round of the loop reads.\<close>

lemma scans_step:
  assumes "x \<noteq> []" and "\<And>(sc :: Scanner) rest. sc_current sc < length (sc_input sc) \<Longrightarrow> drop (sc_current sc) (sc_input sc) = x @ rest \<Longrightarrow>
      rest = [] \<or> hd rest = 32 \<Longrightarrow> \<exists>a. scan_step P sc = sc\<lparr>sc_start := a, sc_current := sc_current sc + length x,
        sc_tokens := sc_tokens sc @ T (sc_current sc)\<rparr>"
  shows "scans P x T"
  unfolding scans_def
proof (intro allI impI)
  fix sc :: Scanner and rest
  assume sc: "sc_current sc \<le> length (sc_input sc)" "drop (sc_current sc) (sc_input sc) = x @ rest" "rest = [] \<or> hd rest = 32"
  have lt: "sc_current sc < length (sc_input sc)" using sc(1,2) assms(1) by (cases "sc_current sc = length (sc_input sc)") auto
  from assms(2) [OF lt sc(2,3)] obtain a where
    "scan_step P sc = sc\<lparr>sc_start := a, sc_current := sc_current sc + length x, sc_tokens := sc_tokens sc @ T (sc_current sc)\<rparr>" by blast
  with scan_loop_step [OF lt, of P]
  show "\<exists>a. scan_loop P sc = scan_loop P (sc\<lparr>sc_start := a, sc_current := sc_current sc + length x,
      sc_tokens := sc_tokens sc @ T (sc_current sc)\<rparr>)" by metis
qed

lemma scans_operator:
  "scans P [61, 61] (\<lambda>i. [EqTok i False])" "scans P [33, 61] (\<lambda>i. [NotEqTok i False])"
  "scans P [38, 38] (\<lambda>i. [AndTok i])" "scans P [124, 124] (\<lambda>i. [OrTok i])"
proof -
  have two: "scan_step P sc = sc\<lparr>sc_start := sc_current sc, sc_current := Suc (Suc (sc_current sc)), sc_tokens := sc_tokens sc @ [T (sc_current sc)]\<rparr>"
    if d0: "drop (sc_current sc) (sc_input sc) = c # d # rest" and r: "rest = [] \<or> hd rest = 32"
      and T: "(c, d, T) \<in> {(61, 61, \<lambda>i. EqTok i False), (33, 61, \<lambda>i. NotEqTok i False), (38, 38, AndTok), (124, 124, OrTok)}"
    for sc :: Scanner and c d T rest
  proof -
    note d1 = drop_ConsD [OF d0]
    note d2 = drop_ConsD [OF conjunct2 [OF conjunct2 [OF d1]]]
    let ?sc1 = "sc\<lparr>sc_start := sc_current sc, sc_current := Suc (sc_current sc)\<rparr>"
    let ?sc2 = "sc\<lparr>sc_start := sc_current sc, sc_current := Suc (Suc (sc_current sc))\<rparr>"
    have adv: "Scanner_advance (sc\<lparr>sc_start := sc_current sc\<rparr>) = (Some c, ?sc1)"
      using d1 by (simp add: Scanner_advance_def charCodeAt_def)
    have m: "Scanner_match ?sc1 d = (True, ?sc2)"
      using d2 by (simp add: Scanner_match_def Scanner_isAtEnd_def charCodeAt_def)
    have "Suc (Suc (sc_current sc)) < length (sc_input sc) \<Longrightarrow> sc_input sc ! Suc (Suc (sc_current sc)) = 32"
      using d2 r by (metis hd_drop_conv_nth drop_eq_Nil2 leD)
    then have n: "Scanner_match ?sc2 61 = (False, ?sc2)"
      by (auto simp: Scanner_match_def Scanner_isAtEnd_def charCodeAt_def)
    consider "c = 61" "d = 61" "T = (\<lambda>i. EqTok i False)" | "c = 33" "d = 61" "T = (\<lambda>i. NotEqTok i False)"
      | "c = 38" "d = 38" "T = AndTok" | "c = 124" "d = 124" "T = OrTok" using T by blast
    then show ?thesis
    proof cases
      case 1
      with adv m n show ?thesis by (simp add: scan_step_def Let_def)
    next
      case 2
      with adv m n show ?thesis by (simp add: scan_step_def Let_def)
    next
      case 3
      with adv m show ?thesis by (simp add: scan_step_def Let_def Scanner_addToken_def)
    next
      case 4
      with adv m show ?thesis by (simp add: scan_step_def Let_def Scanner_addToken_def)
    qed
  qed
  have op: "scans P [c, d] (\<lambda>i. [T i])"
    if T: "(c, d, T) \<in> {(61, 61, \<lambda>i. EqTok i False), (33, 61, \<lambda>i. NotEqTok i False), (38, 38, AndTok), (124, 124, OrTok)}" for c d T
  proof (rule scans_step)
    fix sc :: Scanner and rest
    assume "drop (sc_current sc) (sc_input sc) = [c, d] @ rest" "rest = [] \<or> hd rest = 32"
    then have "drop (sc_current sc) (sc_input sc) = c # d # rest" "rest = [] \<or> hd rest = 32" by simp_all
    from two [OF this T] show "\<exists>a. scan_step P sc = sc\<lparr>sc_start := a, sc_current := sc_current sc + length [c, d],
        sc_tokens := sc_tokens sc @ [T (sc_current sc)]\<rparr>" by (intro exI [of _ "sc_current sc"]) simp
  qed simp
  show "scans P [61, 61] (\<lambda>i. [EqTok i False])" "scans P [33, 61] (\<lambda>i. [NotEqTok i False])"
    "scans P [38, 38] (\<lambda>i. [AndTok i])" "scans P [124, 124] (\<lambda>i. [OrTok i])"
    by (rule op; simp)+
qed

lemma string_run_word:
  "list_all (plain_char P) k \<Longrightarrow> rest = [] \<or> hd rest = 32 \<Longrightarrow> \<not> isLetter P 32 \<Longrightarrow> string_run (isLetter P) (k @ rest) = length k"
proof (induction k)
  case Nil
  have "\<not> string_char (isLetter P) 32 \<and> \<not> is_lead 32" if "\<not> isLetter P 32"
    using that by (auto simp: string_char_def is_lead_def js_def)
  with Nil show ?case by (cases rest; cases "tl rest") auto
next
  case (Cons c k)
  then have c: "string_char (isLetter P) c" "\<not> is_lead c" by (simp_all add: plain_char_def)
  with Cons show ?case by (cases "k @ rest") (auto simp add: c)
qed

lemma scans_word:
  assumes "word_ok P k" and "\<not> isLetter P 32"
  shows "scans P k (\<lambda>i. [StrTok i k])"
proof (rule scans_step)
  show "k \<noteq> []" using assms(1) by (simp add: word_ok_def)
  fix sc :: Scanner and rest
  assume lt: "sc_current sc < length (sc_input sc)" and d: "drop (sc_current sc) (sc_input sc) = k @ rest" and r: "rest = [] \<or> hd rest = 32"
  obtain c k' where k: "k = c # k'" using assms(1) by (cases k) (simp_all add: word_ok_def)
  have c: "c \<notin> {40, 41, 33, 39, 47, 61, 60, 62, 38, 124} \<union> white" using assms(1) k by (auto simp: word_ok_def plain_char_def)
  have ch: "charCodeAt (sc_input sc) (sc_current sc) = Some c" using d k by (simp add: charCodeAt_drop)
  have run: "string_run (isLetter P) (k @ rest) = length k" using assms r by (simp add: string_run_word word_ok_def)
  have len: "sc_current sc + length k \<le> length (sc_input sc)" using arg_cong [OF d, of length] lt by simp
  have "js_substring (sc_input sc) (int (sc_current sc)) (int (sc_current sc + length k)) = k"
    using len d by (subst substring_nat) simp_all
  then have "Scanner_string P (sc\<lparr>sc_start := sc_current sc, sc_current := Suc (sc_current sc)\<rparr>) =
      sc\<lparr>sc_start := sc_current sc, sc_current := sc_current sc + length k, sc_tokens := sc_tokens sc @ [StrTok (sc_current sc) k]\<rparr>"
    using assms(1) d run k by (simp add: Scanner_string_def Let_def Scanner_lexeme_def word_ok_def)
  then show "\<exists>a. scan_step P sc = sc\<lparr>sc_start := a, sc_current := sc_current sc + length k, sc_tokens := sc_tokens sc @ [StrTok (sc_current sc) k]\<rparr>"
    using c ch by (intro exI [of _ "sc_current sc"]) (simp add: scan_step_def Let_def Scanner_advance_def white_def)
qed

lemma nth_after: "drop i s = x @ r \<Longrightarrow> j < length x \<Longrightarrow> i + j < length s \<and> s ! (i + j) = x ! j"
proof -
  assume d: "drop i s = x @ r" "j < length x"
  then have "j < length (drop i s)" by simp
  moreover from this have "i + j < length s" by simp
  moreover have "drop i s ! j = x ! j" using d by (simp add: nth_append)
  ultimately show "i + j < length s \<and> s ! (i + j) = x ! j" by simp
qed

lemma scans_quoted:
  assumes "value_ok v"
  shows "scans P (39 # v @ [39]) (\<lambda>i. [QuotedStr (Suc i) v])"
proof (rule scans_step)
  fix sc :: Scanner and rest
  assume lt: "sc_current sc < length (sc_input sc)" and d: "drop (sc_current sc) (sc_input sc) = (39 # v @ [39]) @ rest"
  let ?i = "sc_current sc" and ?s = "sc_input sc"
  let ?sc = "sc\<lparr>sc_start := ?i, sc_current := Suc ?i\<rparr>" and ?e = "Suc ?i + length v"
  have d1: "?s ! ?i = 39" "drop (Suc ?i) ?s = (v @ [39]) @ rest" using d by (auto dest: drop_ConsD)
  have e: "?e < length ?s" "?s ! ?e = 39" using nth_after [OF d1(2), of "length v"] by (simp_all add: nth_append)
  have v: "?s ! (Suc ?i + j) \<noteq> 39" if "j < length v" for j
  proof -
    have "v ! j \<noteq> 39" using nth_mem [OF that] assms unfolding value_ok_def by metis
    with nth_after [OF d1(2), of j] that show ?thesis by (simp add: nth_append)
  qed
  obtain c where c: "quotedString_loop ?sc = ?sc\<lparr>sc_current := c\<rparr>" "Suc ?i \<le> c" "c \<le> length ?s"
      "c < length ?s \<longrightarrow> ?s ! c = 39" "\<forall>j. Suc ?i \<le> j \<and> j < c \<longrightarrow> ?s ! j \<noteq> 39"
    using quotedString_loop_spec [of ?sc] lt by auto
  have "c = ?e"
  proof (rule ccontr)
    assume "c \<noteq> ?e"
    then consider "c < ?e" | "?e < c" by linarith
    then show False
    proof cases
      case 1
      then have "c = Suc ?i + (c - Suc ?i)" "c - Suc ?i < length v" using c(2) by linarith+
      with v [of "c - Suc ?i"] c(4) 1 e(1) show False by simp
    next
      case 2
      with c(5) e(2) show False by simp
    qed
  qed
  moreover have "js_substring ?s (int ?i + 1) (int ?e) = v"
  proof -
    have "int ?i + 1 = int (Suc ?i)" by simp
    then have "js_substring ?s (int ?i + 1) (int ?e) = take (?e - Suc ?i) (drop (Suc ?i) ?s)"
      using e(1) by (simp only: substring_nat)
    then show ?thesis using d1(2) by simp
  qed
  ultimately have "Scanner_quotedString P ?sc = sc\<lparr>sc_start := ?i, sc_current := Suc ?e, sc_tokens := sc_tokens sc @ [QuotedStr (Suc ?i) v]\<rparr>"
    using c(1) e(1) by (simp add: Scanner_quotedString_def Scanner_isAtEnd_def Scanner_advance_def Let_def)
  then show "\<exists>a. scan_step P sc = sc\<lparr>sc_start := a, sc_current := ?i + length (39 # v @ [39]), sc_tokens := sc_tokens sc @ [QuotedStr (Suc ?i) v]\<rparr>"
    using d1 lt by (intro exI [of _ ?i]) (simp add: scan_step_def Let_def Scanner_advance_def charCodeAt_def)
qed simp

lemma scans_negated:
  assumes "word_ok P k" and "\<not> isLetter P 32"
  shows "scans P (33 # k) (\<lambda>i. [Neg i, StrTok (Suc i) k])"
  unfolding scans_def
proof (intro allI impI)
  fix sc :: Scanner and rest
  assume sc: "sc_current sc \<le> length (sc_input sc)" "drop (sc_current sc) (sc_input sc) = (33 # k) @ rest" "rest = [] \<or> hd rest = 32"
  have d: "sc_current sc < length (sc_input sc)" "sc_input sc ! sc_current sc = 33" "drop (Suc (sc_current sc)) (sc_input sc) = k @ rest"
    using sc(2) by (auto dest: drop_ConsD)
  obtain c k' where k: "k = c # k'" "c \<noteq> 61" using assms(1) by (cases k) (auto simp: word_ok_def plain_char_def)
  let ?sc = "sc\<lparr>sc_start := sc_current sc, sc_current := Suc (sc_current sc), sc_tokens := sc_tokens sc @ [Neg (sc_current sc)]\<rparr>"
  have d2: "Suc (sc_current sc) < length (sc_input sc)" "sc_input sc ! Suc (sc_current sc) = c"
    using drop_ConsD [of "Suc (sc_current sc)" "sc_input sc" c "k' @ rest"] d(3) k(1) by simp_all
  have "scan_step P sc = ?sc"
    using d d2 k(2) by (simp add: scan_step_def Let_def Scanner_advance_def charCodeAt_def Scanner_match_def Scanner_isAtEnd_def
        Scanner_addToken_def)
  with scan_loop_step [OF d(1)] have "scan_loop P sc = scan_loop P ?sc" by simp
  moreover obtain a where "scan_loop P ?sc = scan_loop P (?sc\<lparr>sc_start := a, sc_current := sc_current ?sc + length k,
      sc_tokens := sc_tokens ?sc @ [StrTok (sc_current ?sc) k]\<rparr>)"
    using scansD [OF scans_word [OF assms], of ?sc rest] d d2 sc(3) by auto
  ultimately show "\<exists>a. scan_loop P sc = scan_loop P (sc\<lparr>sc_start := a, sc_current := sc_current sc + length (33 # k),
      sc_tokens := sc_tokens sc @ [Neg (sc_current sc), StrTok (Suc (sc_current sc)) k]\<rparr>)"
    by (intro exI [of _ a]) simp
qed

section \<open>The tokens of an expression\<close>

fun printable_literal :: "parser_host \<Rightarrow> ContextKeyExpression \<Rightarrow> bool" where
  "printable_literal P (DefinedExpr k _) = word_ok P k"
| "printable_literal P (NotExpr k _) = word_ok P k"
| "printable_literal P (EqualsExpr k v _) = (word_ok P k \<and> (case v of JStr s \<Rightarrow> value_ok s | _ \<Rightarrow> False))"
| "printable_literal P (NotEqualsExpr k v _) = (word_ok P k \<and> (case v of JStr s \<Rightarrow> value_ok s | _ \<Rightarrow> False))"
| "printable_literal P e = False"

text \<open>The tokens up to their offsets.\<close>

fun no_offset :: "Token \<Rightarrow> Token" where
  "no_offset (StrTok _ s) = StrTok 0 s"
| "no_offset (QuotedStr _ s) = QuotedStr 0 s"
| "no_offset (EqTok _ b) = EqTok 0 b"
| "no_offset (NotEqTok _ b) = NotEqTok 0 b"
| "no_offset (Neg _) = Neg 0"
| "no_offset (AndTok _) = AndTok 0"
| "no_offset (OrTok _) = OrTok 0"
| "no_offset t = t"

fun literal_tokens :: "ContextKeyExpression \<Rightarrow> Token list" where
  "literal_tokens (DefinedExpr k _) = [StrTok 0 k]"
| "literal_tokens (NotExpr k _) = [Neg 0, StrTok 0 k]"
| "literal_tokens (EqualsExpr k v _) = [StrTok 0 k, EqTok 0 False, QuotedStr 0 (case v of JStr s \<Rightarrow> s | _ \<Rightarrow> [])]"
| "literal_tokens (NotEqualsExpr k v _) = [StrTok 0 k, NotEqTok 0 False, QuotedStr 0 (case v of JStr s \<Rightarrow> s | _ \<Rightarrow> [])]"
| "literal_tokens e = []"

definition scans_as :: "parser_host \<Rightarrow> js_string \<Rightarrow> Token list \<Rightarrow> bool" where
  "scans_as P x ts \<longleftrightarrow> (\<exists>T. scans P x T \<and> (\<forall>i. map no_offset (T i) = ts))"

lemma scans_asI: "scans P x T \<Longrightarrow> (\<And>i. map no_offset (T i) = ts) \<Longrightarrow> scans_as P x ts"
  by (auto simp: scans_as_def)

lemma scans_as_append: "scans_as P x ts \<Longrightarrow> scans_as P y us \<Longrightarrow> scans_as P (x @ 32 # y) (ts @ us)"
proof -
  assume "scans_as P x ts" "scans_as P y us"
  then obtain T U where T: "scans P x T" "scans P y U" "\<forall>i. map no_offset (T i) = ts" "\<forall>i. map no_offset (U i) = us"
    unfolding scans_as_def by blast
  show "scans_as P (x @ 32 # y) (ts @ us)" by (rule scans_asI [OF scans_append [OF T(1,2)]]) (simp add: T(3,4))
qed

lemma js_separators: "js '' == '' = [32, 61, 61, 32]" "js '' != '' = [32, 33, 61, 32]" "js '' && '' = [32, 38, 38, 32]"
  "js '' || '' = [32, 124, 124, 32]"
  by code_simp+

lemma literal_scans:
  assumes "printable_literal P e" and "\<not> isLetter P 32"
  shows "scans_as P (serialize H e) (literal_tokens e)"
proof -
  have word: "scans_as P k [StrTok 0 k]" if "word_ok P k" for k
    using scans_word [OF that assms(2)] by (rule scans_asI) simp
  have op: "scans_as P (k @ 32 # o1 # o2 # 32 # 39 # s @ [39]) [StrTok 0 k, T 0, QuotedStr 0 s]"
    if "word_ok P k" "value_ok s" "scans P [o1, o2] (\<lambda>i. [T i])" "\<And>i. no_offset (T i) = T 0" for k s o1 o2 T
  proof -
    have "scans_as P [o1, o2] [T 0]" by (rule scans_asI [OF that(3)]) (simp add: that(4))
    moreover have "scans_as P (39 # s @ [39]) [QuotedStr 0 s]" by (rule scans_asI [OF scans_quoted [OF that(2)]]) simp
    ultimately have "scans_as P ([o1, o2] @ 32 # 39 # s @ [39]) ([T 0] @ [QuotedStr 0 s])" by (rule scans_as_append)
    from scans_as_append [OF word [OF that(1)] this] show ?thesis by simp
  qed
  from assms(1) show ?thesis
  proof (cases e rule: ContextKeyExpression.exhaust)
    case (NotExpr k n)
    with assms have "scans P (33 # k) (\<lambda>i. [Neg i, StrTok (Suc i) k])" by (simp add: scans_negated)
    from scans_asI [OF this] NotExpr show ?thesis by simp
  next
    case (EqualsExpr k v n)
    with assms(1) obtain s where "v = JStr s" "word_ok P k" "value_ok s" by (auto split: js_prim.splits)
    with op [of k s 61 61 "\<lambda>i. EqTok i False"] scans_operator(1) EqualsExpr show ?thesis by (simp add: js_separators quote_def)
  next
    case (NotEqualsExpr k v n)
    with assms(1) obtain s where "v = JStr s" "word_ok P k" "value_ok s" by (auto split: js_prim.splits)
    with op [of k s 33 61 "\<lambda>i. NotEqTok i False"] scans_operator(2) NotEqualsExpr show ?thesis by (simp add: js_separators quote_def)
  qed (simp_all add: word)
qed

section \<open>Parsing the tokens\<close>

definition rest_tokens :: "Parser \<Rightarrow> Token list" where
  "rest_tokens p = drop (p_current p) (p_tokens p)"

definition ahead :: "nat \<Rightarrow> Parser \<Rightarrow> Parser" where
  "ahead n p = p\<lparr>p_current := p_current p + n\<rparr>"

lemma ahead_simps [simp]: "ahead m (ahead n p) = ahead (n + m) p" "ahead 0 p = p"
  by (simp_all add: ahead_def ac_simps)

lemma rest_ahead: "rest_tokens p = ts @ r \<Longrightarrow> rest_tokens (ahead (length ts) p) = r"
  unfolding rest_tokens_def ahead_def by (simp add: drop_append)

lemma rest_peek:
  assumes "rest_tokens p = t # r"
  shows "Parser_peek p = Returns t p" "Parser_check type p = Returns (type t) p"
    "\<not> is_EOFTok t \<Longrightarrow> Parser_advance p = Returns () (ahead 1 p)"
    "\<not> is_EOFTok t \<Longrightarrow> Parser_matchOne type p = (if type t then Returns True (ahead 1 p) else Returns False p)"
    "\<not> type t \<Longrightarrow> Parser_matchOne type p = Returns False p"
    "Parser_isAtEnd p = Returns (is_EOFTok t) p"
    "Parser_previous (ahead 1 p) = Returns t (ahead 1 p)"
    "rest_tokens (ahead 1 p) = r"
proof -
  have t: "p_current p < length (p_tokens p)" "p_tokens p ! p_current p = t" "drop (Suc (p_current p)) (p_tokens p) = r"
    using assms drop_ConsD [of "p_current p" "p_tokens p" t r] unfolding rest_tokens_def by simp_all
  then show "Parser_peek p = Returns t p" "Parser_check type p = Returns (type t) p"
    "Parser_isAtEnd p = Returns (is_EOFTok t) p" "rest_tokens (ahead 1 p) = r"
    "Parser_previous (ahead 1 p) = Returns t (ahead 1 p)"
    by (simp_all add: Parser_peek_def Parser_check_def Parser_isAtEnd_def rest_tokens_def ahead_def Parser_previous_def)
  show "\<not> is_EOFTok t \<Longrightarrow> Parser_advance p = Returns () (ahead 1 p)"
    "\<not> is_EOFTok t \<Longrightarrow> Parser_matchOne type p = (if type t then Returns True (ahead 1 p) else Returns False p)"
    "\<not> type t \<Longrightarrow> Parser_matchOne type p = Returns False p"
    using t by (simp_all add: Parser_advance_def Parser_matchOne_def Parser_isAtEnd_def Parser_peek_def Parser_check_def ahead_def)
qed

lemma no_offset_eq:
  "no_offset t = StrTok 0 s \<longleftrightarrow> (\<exists>i. t = StrTok i s)" "no_offset t = QuotedStr 0 s \<longleftrightarrow> (\<exists>i. t = QuotedStr i s)"
  "no_offset t = EqTok 0 b \<longleftrightarrow> (\<exists>i. t = EqTok i b)" "no_offset t = NotEqTok 0 b \<longleftrightarrow> (\<exists>i. t = NotEqTok i b)"
  "no_offset t = Neg 0 \<longleftrightarrow> (\<exists>i. t = Neg i)" "no_offset t = AndTok 0 \<longleftrightarrow> (\<exists>i. t = AndTok i)"
  "no_offset t = OrTok 0 \<longleftrightarrow> (\<exists>i. t = OrTok i)"
  by (cases t; auto)+

fun rebuild_literal :: "ck_constants \<Rightarrow> ContextKeyExpression \<Rightarrow> ContextKeyExpression" where
  "rebuild_literal K (DefinedExpr k _) = DefinedExpr_create K k None"
| "rebuild_literal K (NotExpr k _) = NotExpr_create K k None"
| "rebuild_literal K (EqualsExpr k v _) = EqualsExpr_create K k v None"
| "rebuild_literal K (NotEqualsExpr k v _) = NotEqualsExpr_create K k v None"
| "rebuild_literal K e = e"

definition follows :: "Token \<Rightarrow> bool" where
  "follows t \<longleftrightarrow> is_AndTok t \<or> is_OrTok t \<or> is_EOFTok t"

lemma followsD:
  assumes "follows t"
  shows "\<not> is_RegexOp t" "\<not> is_NotTok t"
  using assms by (cases t; simp add: follows_def)+

lemma key_equality:
  assumes r: "rest_tokens p = StrTok i k # op # QuotedStr j s # r" and "is_EqTok op \<or> is_NotEqTok op"
  shows "Parser_key E k p = Returns (Some (if is_EqTok op then EqualsExpr_create (env_constants E) k (JStr s) None
    else NotEqualsExpr_create (env_constants E) k (JStr s) None)) (ahead 3 p)"
proof -
  let ?p1 = "ahead 1 p" and ?p2 = "ahead 1 (ahead 1 p)" and ?p3 = "ahead 1 (ahead 1 (ahead 1 p))"
  note r1 = rest_peek [OF r]
  note r2 = rest_peek [OF r1(8)]
  note r3 = rest_peek [OF r2(8)]
  have op: "\<not> is_EOFTok op" "\<not> is_RegexOp op" "\<not> is_NotTok op" using assms(2) by (cases op; simp)+
  have "Parser_value ?p2 = Returns s ?p3" using r3 by (simp add: Parser_value_def del: ahead_simps)
  moreover have "Parser_previous ?p3 = Returns (QuotedStr j s) ?p3" by (rule r3(7))
  ultimately have eq: "Parser_equality a b f ?p1 = Returns (Some (f s)) ?p3" for a b f
    using r2 op by (simp add: Parser_equality_def del: ahead_simps)
  have "ahead 3 p = ?p3" by (simp add: numeral_3_eq_3)
  then show ?thesis
    using assms(2) r1 r2 op eq by (cases op) (simp_all add: Parser_key_def del: ahead_simps)
qed

lemma parse_literal:
  assumes "rest_tokens p = ts @ t # r" and "map no_offset ts = literal_tokens e" and "printable_literal P e" and "follows t"
  shows "Parser_term E p = Returns (Some (rebuild_literal (env_constants E) e)) (ahead (length ts) p)"
proof -
  from assms(3) consider k n where "e = DefinedExpr k n" | k n where "e = NotExpr k n"
    | k s n where "e = EqualsExpr k (JStr s) n" | k s n where "e = NotEqualsExpr k (JStr s) n"
    by (cases e rule: ContextKeyExpression.exhaust) (auto split: js_prim.splits)
  then show ?thesis
  proof cases
    case (1 k n)
    with assms(2) obtain i where ts: "ts = [StrTok i k]" by (auto simp: no_offset_eq)
    with assms(1) have r: "rest_tokens p = StrTok i k # t # r" by simp
    note r1 = rest_peek [OF r]
    note r2 = rest_peek [OF r1(8)]
    have "Parser_key E k p = Returns (Some (DefinedExpr_create (env_constants E) k None)) (ahead 1 p)"
      using r1 r2 assms(4) followsD [OF assms(4)] by (cases t) (simp_all add: Parser_key_def follows_def)
    with r1 show ?thesis by (simp add: Parser_term.simps [of E p] Parser_primary.simps [of E p] 1 ts)
  next
    case (2 k n)
    with assms(2) obtain i j where ts: "ts = [Neg i, StrTok j k]" by (auto simp: no_offset_eq)
    with assms(1) have r: "rest_tokens p = Neg i # StrTok j k # t # r" by simp
    note r1 = rest_peek [OF r]
    note r2 = rest_peek [OF r1(8)]
    from r1 r2 show ?thesis by (simp add: Parser_term.simps [of E p] 2 ts)
  next
    case (3 k s n)
    with assms(2) obtain i j l where ts: "ts = [StrTok i k, EqTok j False, QuotedStr l s]" by (auto simp: no_offset_eq)
    with assms(1) have r: "rest_tokens p = StrTok i k # EqTok j False # QuotedStr l s # t # r" by simp
    from rest_peek [OF r] key_equality [OF r, of E] show ?thesis
      by (simp add: Parser_term.simps [of E p] Parser_primary.simps [of E p] 3 ts numeral_3_eq_3)
  next
    case (4 k s n)
    with assms(2) obtain i j l where ts: "ts = [StrTok i k, NotEqTok j False, QuotedStr l s]" by (auto simp: no_offset_eq)
    with assms(1) have r: "rest_tokens p = StrTok i k # NotEqTok j False # QuotedStr l s # t # r" by simp
    from rest_peek [OF r] key_equality [OF r, of E] show ?thesis
      by (simp add: Parser_term.simps [of E p] Parser_primary.simps [of E p] 4 ts numeral_3_eq_3)
  qed
qed

text \<open>Chains of literals and of conjunctions.\<close>

definition chain :: "Token \<Rightarrow> Token list list \<Rightarrow> Token list" where
  "chain sep tss = concat (map (\<lambda>ts. sep # ts) tss)"

lemma chain_simps [simp]: "chain sep [] = []" "chain sep (ts # tss) = sep # ts @ chain sep tss"
  by (simp_all add: chain_def)

lemma map_eq_appendE:
  assumes "map f xs = ys @ zs"
  obtains us vs where "xs = us @ vs" "map f us = ys" "map f vs = zs"
  using assms by (metis append_eq_map_conv)

definition conj_of :: "parser_env \<Rightarrow> ContextKeyExpression option list \<Rightarrow> Parser \<Rightarrow> ContextKeyExpression option outcome" where
  "conj_of E es p = (if length es = 1 then Returns (hd es) p else ContextKeyExpr_and E es p)"

lemma first_follows:
  assumes "map no_offset ts = chain sep tss" and "follows t" and "sep = AndTok 0 \<or> sep = OrTok 0"
  obtains u us where "ts @ t # r = u # us" "follows u" "ts \<noteq> [] \<Longrightarrow> no_offset u = sep" "ts = [] \<Longrightarrow> u = t"
proof (cases ts)
  case (Cons u ts')
  with assms(1) have "no_offset u = sep" by (cases tss) auto
  moreover from this have "follows u" using assms(3) by (cases u) (auto simp: follows_def)
  ultimately show ?thesis using that [of u "ts' @ t # r"] Cons by simp
qed (use that [of t r] assms(2) in simp)

lemma parse_and_loop:
  "rest_tokens p = ts @ t # r \<Longrightarrow> map no_offset ts = chain (AndTok 0) (map literal_tokens ls) \<Longrightarrow>
   \<forall>l \<in> set ls. printable_literal P l \<Longrightarrow> follows t \<Longrightarrow> \<not> is_AndTok t \<Longrightarrow>
   and_loop E acc p = conj_of E (acc @ map (\<lambda>l. Some (rebuild_literal (env_constants E) l)) ls) (ahead (length ts) p)"
proof (induction ls arbitrary: p ts acc)
  case Nil
  then have r: "rest_tokens p = t # r" by simp
  from rest_peek(5) [OF r] Nil show ?case by (simp add: and_loop.simps [of E acc p] conj_of_def)
next
  case (Cons l ls)
  from Cons.prems(2) obtain a us where ts: "ts = a # us" "no_offset a = AndTok 0"
      "map no_offset us = literal_tokens l @ chain (AndTok 0) (map literal_tokens ls)"
    by (cases ts) auto
  then obtain xs ys where us: "us = xs @ ys" "map no_offset xs = literal_tokens l"
      "map no_offset ys = chain (AndTok 0) (map literal_tokens ls)"
    by (auto elim: map_eq_appendE)
  obtain i where a: "a = AndTok i" using ts(2) by (auto simp: no_offset_eq)
  obtain u vs where u: "ys @ t # r = u # vs" "follows u"
    using first_follows [OF us(3) Cons.prems(4), of r] by blast
  have r: "rest_tokens p = a # xs @ u # vs" using Cons.prems(1) ts(1) us(1) u(1) by simp
  note r1 = rest_peek [OF r]
  have t: "Parser_term E (ahead 1 p) = Returns (Some (rebuild_literal (env_constants E) l)) (ahead (length xs) (ahead 1 p))"
    using parse_literal [where P = P and E = E, OF r1(8) us(2) _ u(2)] Cons.prems(3) by simp
  have "rest_tokens (ahead (length xs) (ahead 1 p)) = ys @ t # r" using rest_ahead [OF r1(8)] u(1) by simp
  from Cons.IH [OF this us(3) _ Cons.prems(4,5), of "acc @ [Some (rebuild_literal (env_constants E) l)]"] Cons.prems(3)
  have "and_loop E (acc @ [Some (rebuild_literal (env_constants E) l)]) (ahead (length xs) (ahead 1 p)) =
      conj_of E (acc @ map (\<lambda>l. Some (rebuild_literal (env_constants E) l)) (l # ls)) (ahead (length ys) (ahead (length xs) (ahead 1 p)))"
    by simp
  with r1 t a show ?case by (simp add: and_loop.simps [of E acc p] ts(1) us(1) ac_simps)
qed

lemma parse_conj:
  assumes "rest_tokens p = ts @ t # r" and "map no_offset ts = literal_tokens l @ chain (AndTok 0) (map literal_tokens ls)"
    and "\<forall>l \<in> set (l # ls). printable_literal P l" and "follows t" "\<not> is_AndTok t"
  shows "Parser_and E p = conj_of E (map (\<lambda>l. Some (rebuild_literal (env_constants E) l)) (l # ls)) (ahead (length ts) p)"
proof -
  from assms(2) obtain xs ys where us: "ts = xs @ ys" "map no_offset xs = literal_tokens l"
      "map no_offset ys = chain (AndTok 0) (map literal_tokens ls)"
    by (auto elim: map_eq_appendE)
  obtain u vs where u: "ys @ t # r = u # vs" "follows u"
    using first_follows [OF us(3) assms(4), of r] by blast
  have r: "rest_tokens p = xs @ u # vs" using assms(1) us(1) u(1) by simp
  have t: "Parser_term E p = Returns (Some (rebuild_literal (env_constants E) l)) (ahead (length xs) p)"
    using parse_literal [where P = P and E = E, OF r us(2) _ u(2)] assms(3) by simp
  have "rest_tokens (ahead (length xs) p) = ys @ t # r" using rest_ahead [OF r] u(1) by simp
  from parse_and_loop [OF this us(3) _ assms(4,5), of P E "[Some (rebuild_literal (env_constants E) l)]"] assms(3) t
  show ?thesis by (simp add: Parser_and.simps [of E p] us(1))
qed

definition conj_terms :: "ContextKeyExpression \<Rightarrow> ContextKeyExpression list" where
  "conj_terms e = (case e of AndExpr es _ \<Rightarrow> es | _ \<Rightarrow> [e])"

definition disj_terms :: "ContextKeyExpression \<Rightarrow> ContextKeyExpression list" where
  "disj_terms e = (case e of OrExpr es _ \<Rightarrow> es | _ \<Rightarrow> [e])"

definition conj_tokens :: "ContextKeyExpression \<Rightarrow> Token list" where
  "conj_tokens e = literal_tokens (hd (conj_terms e)) @ chain (AndTok 0) (map literal_tokens (tl (conj_terms e)))"

definition printable_conj :: "parser_host \<Rightarrow> ContextKeyExpression \<Rightarrow> bool" where
  "printable_conj P e \<longleftrightarrow> conj_terms e \<noteq> [] \<and> (\<forall>l \<in> set (conj_terms e). printable_literal P l)"

definition printable :: "parser_host \<Rightarrow> ContextKeyExpression \<Rightarrow> bool" where
  "printable P e \<longleftrightarrow> disj_terms e \<noteq> [] \<and> (\<forall>x \<in> set (disj_terms e). printable_conj P x)"

text \<open>What parsing makes of the terms, at a depth of normalization.\<close>

definition rebuild_conj :: "ck_constants \<Rightarrow> nat \<Rightarrow> ContextKeyExpression \<Rightarrow> ContextKeyExpression option option" where
  "rebuild_conj K n e =
     (let es = map (\<lambda>l. Some (rebuild_literal K l)) (conj_terms e)
      in if length es = 1 then Some (hd es) else andCreate K n es None True)"

definition rebuild :: "ck_constants \<Rightarrow> nat \<Rightarrow> ContextKeyExpression \<Rightarrow> ContextKeyExpression option option" where
  "rebuild K n e = (case mapO (rebuild_conj K n) (disj_terms e) of
     None \<Rightarrow> None | Some es \<Rightarrow> if length es = 1 then Some (hd es) else orCreate K n es None True)"

lemma parse_conj_rebuild:
  assumes "rest_tokens p = ts @ t # r" and "map no_offset ts = conj_tokens e" and "printable_conj P e"
    and "follows t" "\<not> is_AndTok t"
  shows "Parser_and E p = (case rebuild_conj (env_constants E) (env_depth E) e of
      None \<Rightarrow> NoResult | Some x \<Rightarrow> Returns x (ahead (length ts) p))"
proof -
  obtain l ls where l: "conj_terms e = l # ls" using assms(3) by (cases "conj_terms e") (auto simp: printable_conj_def)
  have "Parser_and E p = conj_of E (map (\<lambda>l. Some (rebuild_literal (env_constants E) l)) (l # ls)) (ahead (length ts) p)"
    using parse_conj [OF assms(1), of l ls P E] assms(2-5) by (simp add: conj_tokens_def printable_conj_def l)
  then show ?thesis by (simp add: conj_of_def rebuild_conj_def l ContextKeyExpr_and_def split: option.split)
qed

lemma parse_or_loop:
  "rest_tokens p = ts @ t # r \<Longrightarrow> map no_offset ts = chain (OrTok 0) (map conj_tokens es) \<Longrightarrow>
   \<forall>e \<in> set es. printable_conj P e \<Longrightarrow> is_EOFTok t \<Longrightarrow>
   or_loop E acc p = (case mapO (rebuild_conj (env_constants E) (env_depth E)) es of None \<Rightarrow> NoResult
     | Some xs \<Rightarrow> if length (acc @ xs) = 1 then Returns (hd (acc @ xs)) (ahead (length ts) p)
                  else ContextKeyExpr_or E (acc @ xs) (ahead (length ts) p))"
proof (induction es arbitrary: p ts acc)
  case Nil
  then have r: "rest_tokens p = t # r" by simp
  from Nil have "\<not> is_OrTok t" by (cases t) simp_all
  with rest_peek(5) [OF r, of is_OrTok] Nil show ?case by (simp add: or_loop.simps [of E acc p])
next
  case (Cons e es)
  from Cons.prems(2) obtain a us where ts: "ts = a # us" "no_offset a = OrTok 0"
      "map no_offset us = conj_tokens e @ chain (OrTok 0) (map conj_tokens es)"
    by (cases ts) auto
  then obtain xs ys where us: "us = xs @ ys" "map no_offset xs = conj_tokens e"
      "map no_offset ys = chain (OrTok 0) (map conj_tokens es)"
    by (auto elim: map_eq_appendE)
  obtain i where a: "a = OrTok i" using ts(2) by (auto simp: no_offset_eq)
  have ft: "follows t" using Cons.prems(4) by (simp add: follows_def)
  obtain u vs where u: "ys @ t # r = u # vs" "follows u" "ys \<noteq> [] \<Longrightarrow> no_offset u = OrTok 0" "ys = [] \<Longrightarrow> u = t"
    using first_follows [OF us(3) ft, of r] by blast
  have u_and: "\<not> is_AndTok u" using u(3,4) Cons.prems(4) by (cases "ys = []"; cases u) auto
  have r: "rest_tokens p = a # xs @ u # vs" using Cons.prems(1) ts(1) us(1) u(1) by simp
  note r1 = rest_peek [OF r]
  have t: "Parser_and E (ahead 1 p) = (case rebuild_conj (env_constants E) (env_depth E) e of
      None \<Rightarrow> NoResult | Some x \<Rightarrow> Returns x (ahead (length xs) (ahead 1 p)))"
    using parse_conj_rebuild [OF r1(8) us(2) _ u(2) u_and, of P E] Cons.prems(3) by simp
  have "rest_tokens (ahead (length xs) (ahead 1 p)) = ys @ t # r" using rest_ahead [OF r1(8)] u(1) by simp
  note IH = Cons.IH [OF this us(3) _ Cons.prems(4)]
  show ?case
  proof (cases "rebuild_conj (env_constants E) (env_depth E) e")
    case None
    with r1 t a show ?thesis by (simp add: or_loop.simps [of E acc p])
  next
    case (Some x)
    with r1 t a IH [of "acc @ [x]"] Cons.prems(3)
    show ?thesis by (simp add: or_loop.simps [of E acc p] ts(1) us(1) ac_simps split: option.split)
  qed
qed

lemma parse_rebuild:
  assumes "rest_tokens p = ts @ [EOFTok i]" and "printable P e"
    and "map no_offset ts = conj_tokens (hd (disj_terms e)) @ chain (OrTok 0) (map conj_tokens (tl (disj_terms e)))"
  shows "Parser_or E p = (case rebuild (env_constants E) (env_depth E) e of
      None \<Rightarrow> NoResult | Some x \<Rightarrow> Returns x (ahead (length ts) p))"
proof -
  obtain l ls where l: "disj_terms e = l # ls" using assms(2) by (cases "disj_terms e") (auto simp: printable_def)
  with assms(2) have pr: "printable_conj P l" "\<forall>x \<in> set ls. printable_conj P x" by (auto simp: printable_def)
  obtain xs ys where us: "ts = xs @ ys" "map no_offset xs = conj_tokens l" "map no_offset ys = chain (OrTok 0) (map conj_tokens ls)"
    using assms(3) l by (auto elim: map_eq_appendE)
  have f: "follows (EOFTok i)" by (simp add: follows_def)
  obtain u vs where u: "ys @ [EOFTok i] = u # vs" "follows u" "ys \<noteq> [] \<Longrightarrow> no_offset u = OrTok 0" "ys = [] \<Longrightarrow> u = EOFTok i"
    using first_follows [OF us(3) f, of "[]"] by blast
  have u_and: "\<not> is_AndTok u" using u(3,4) by (cases "ys = []"; cases u) auto
  have r: "rest_tokens p = xs @ u # vs" using assms(1) us(1) u(1) by simp
  have t: "Parser_and E p = (case rebuild_conj (env_constants E) (env_depth E) l of
      None \<Rightarrow> NoResult | Some x \<Rightarrow> Returns x (ahead (length xs) p))"
    by (rule parse_conj_rebuild [OF r us(2) pr(1) u(2) u_and])
  have "rest_tokens (ahead (length xs) p) = ys @ [EOFTok i]" using rest_ahead [OF r] u(1) by simp
  note loop = parse_or_loop [OF this us(3) pr(2), of E]
  show ?thesis
    using t loop by (simp add: Parser_or.simps [of E p] rebuild_def l us(1) ContextKeyExpr_or_def split: option.split)
qed

section \<open>The whole text\<close>

lemma join_scans:
  "ls \<noteq> [] \<Longrightarrow> \<forall>l \<in> set ls. scans_as P (f l) (g l) \<Longrightarrow> scans_as P [o1, o2] [sep] \<Longrightarrow>
   scans_as P (js_join [32, o1, o2, 32] (map f ls)) (g (hd ls) @ chain sep (map g (tl ls)))"
proof (induction ls rule: induct_list012)
  case (3 x y zs)
  then have "scans_as P (js_join [32, o1, o2, 32] (map f (y # zs))) (g y @ chain sep (map g zs))" by simp
  from scans_as_append [OF 3(5) this]
  have "scans_as P ([o1, o2] @ 32 # js_join [32, o1, o2, 32] (map f (y # zs))) ([sep] @ g y @ chain sep (map g zs))" .
  with scans_as_append [OF _ this, of "f x" "g x"] 3(4) show ?case by simp
qed simp_all

lemma serialize_terms:
  "serialize H e = js_join (js '' && '') (map (serialize H) (conj_terms e))"
  "serialize H e = js_join (js '' || '') (map (serialize H) (disj_terms e))"
  by (cases e; simp add: conj_terms_def disj_terms_def)+

lemma conj_scans:
  assumes "printable_conj P e" and "\<not> isLetter P 32"
  shows "scans_as P (serialize H e) (conj_tokens e)"
proof -
  have "scans_as P [38, 38] [AndTok 0]" by (rule scans_asI [OF scans_operator(3)]) simp
  then have "scans_as P (js_join [32, 38, 38, 32] (map (serialize H) (conj_terms e))) (conj_tokens e)"
    unfolding conj_tokens_def using assms by (intro join_scans) (auto simp: printable_conj_def literal_scans)
  then show ?thesis by (simp only: serialize_terms(1) [of H e] js_separators)
qed

lemma printable_scans:
  assumes "printable P e" and "\<not> isLetter P 32"
  shows "scans_as P (serialize H e) (conj_tokens (hd (disj_terms e)) @ chain (OrTok 0) (map conj_tokens (tl (disj_terms e))))"
proof -
  have "scans_as P [124, 124] [OrTok 0]" by (rule scans_asI [OF scans_operator(4)]) simp
  then have "scans_as P (js_join [32, 124, 124, 32] (map (serialize H) (disj_terms e)))
      (conj_tokens (hd (disj_terms e)) @ chain (OrTok 0) (map conj_tokens (tl (disj_terms e))))"
    using assms by (intro join_scans) (auto simp: printable_def conj_scans)
  then show ?thesis by (simp only: serialize_terms(2) [of H e] js_separators)
qed

lemma scans_as_scan:
  assumes "scans_as P x us"
  obtains ts sc where "Scanner_scan P (Scanner_reset x) = (ts @ [EOFTok (length x)], sc)" "map no_offset ts = us" "sc_errors sc = []"
proof -
  obtain T where T: "scans P x T" "\<forall>i. map no_offset (T i) = us" using assms by (auto simp: scans_as_def)
  obtain a where a: "scan_loop P (Scanner_reset x) = scan_loop P ((Scanner_reset x)\<lparr>sc_start := a, sc_current := length x, sc_tokens := T 0\<rparr>)"
    using scansD [OF T(1), of "Scanner_reset x" "[]"] by (auto simp: Scanner_reset_def)
  then have "scan_loop P (Scanner_reset x) = (Scanner_reset x)\<lparr>sc_start := a, sc_current := length x, sc_tokens := T 0\<rparr>"
    by (simp add: scan_loop_end Scanner_reset_def)
  then show ?thesis
    using T(2) by (intro that [of "T 0" "(Scanner_reset x)\<lparr>sc_start := length x, sc_current := length x,
        sc_tokens := T 0 @ [EOFTok (length x)]\<rparr>"]) (simp_all add: Scanner_scan_def Let_def Scanner_addToken_def Scanner_reset_def)
qed

lemma literal_tokens_nonempty: "printable_literal P e \<Longrightarrow> literal_tokens e \<noteq> []"
  by (cases e) simp_all

lemma parse_serialized:
  assumes "printable (env_host E) e" and "\<not> isLetter (env_host E) 32"
  shows "\<exists>q. Parser_parse E (serialize H e) p = (case rebuild (env_constants E) (env_depth E) e of
      None \<Rightarrow> NoResult | Some x \<Rightarrow> Returns x q) \<and> p_parsingErrors q = [] \<and> sc_errors (p_scanner q) = []"
proof -
  let ?s = "serialize H e" and ?us = "conj_tokens (hd (disj_terms e)) @ chain (OrTok 0) (map conj_tokens (tl (disj_terms e)))"
  obtain ts sc where scan: "Scanner_scan (env_host E) (Scanner_reset ?s) = (ts @ [EOFTok (length ?s)], sc)"
      "map no_offset ts = ?us" "sc_errors sc = []"
    using scans_as_scan [OF printable_scans [OF assms, of H]] by blast
  have "printable_conj (env_host E) (hd (disj_terms e))" using assms(1) by (cases "disj_terms e") (auto simp: printable_def)
  then have "printable_literal (env_host E) (hd (conj_terms (hd (disj_terms e))))"
    by (cases "conj_terms (hd (disj_terms e))") (auto simp: printable_conj_def)
  then have "?us \<noteq> []" using literal_tokens_nonempty by (simp add: conj_tokens_def)
  with scan(2) have ts: "ts \<noteq> []" by auto
  have "?s \<noteq> []"
  proof
    assume "?s = []"
    with scan(1) have "length (ts @ [EOFTok 0]) = 1"
      by (simp add: Scanner_scan_def Let_def scan_loop.simps Scanner_isAtEnd_def Scanner_reset_def Scanner_addToken_def)
    with ts show False by simp
  qed
  moreover have rest: "rest_tokens (fresh_parser E ?s) = ts @ [EOFTok (length ?s)]"
    by (simp add: fresh_parser_def scan(1) rest_tokens_def)
  let ?q = "ahead (length ts) (fresh_parser E ?s)"
  have "Parser_isAtEnd ?q = Returns True ?q"
    using rest_peek(6) [of ?q "EOFTok (length ?s)" "[]"] rest_ahead [OF rest] by simp
  then have "parse_all E (fresh_parser E ?s) = (case rebuild (env_constants E) (env_depth E) e of
      None \<Rightarrow> NoResult | Some x \<Rightarrow> Returns x ?q)"
    using parse_rebuild [OF rest assms(1) scan(2), of] by (simp add: parse_all_def split: option.split)
  moreover have "p_parsingErrors ?q = []" "sc_errors (p_scanner ?q) = []" by (simp_all add: ahead_def scan(1,3))
  ultimately show ?thesis by (intro exI [of _ ?q]) (simp add: Parser_parse_eq split: option.split)
qed

section \<open>The meaning of what is parsed\<close>

lemma rebuild_literal_evaluate:
  assumes "printable_literal P e" and "expr_good K H ctx F e"
  shows "expr_good K H ctx F (rebuild_literal K e) \<and> evaluate H ctx (rebuild_literal K e) = evaluate H ctx e"
  using assms
  by (cases e rule: ContextKeyExpression.exhaust)
    (auto simp: DefinedExpr_create_def NotExpr_create_def EqualsExpr_create_def NotEqualsExpr_create_def defined_good_def
      equals_good_def split: js_prim.splits option.splits)

lemma rebuild_literal_form:
  assumes "printable_literal P e"
  shows "conj_form (rebuild_literal K e)"
proof -
  have "conj_form x" if "is_const x \<or> is_lit x \<and> cached x = None" for x
    using that by (elim disjE conjE) (rule conj_const, assumption, rule conj_literal, rule literal.intros, simp_all)
  moreover have "is_const (rebuild_literal K e) \<or> is_lit (rebuild_literal K e) \<and> cached (rebuild_literal K e) = None"
    using assms by (cases e rule: ContextKeyExpression.exhaust)
      (auto simp: DefinedExpr_create_def NotExpr_create_def EqualsExpr_create_def NotEqualsExpr_create_def constExpr_def
        is_const_def is_lit_def split: js_prim.splits option.splits)
  ultimately show ?thesis by blast
qed

lemma good_terms:
  "expr_good K H ctx F e \<Longrightarrow> (\<forall>x \<in> set (conj_terms e). expr_good K H ctx F x) \<and>
     evaluate H ctx e = (\<forall>x \<in> set (conj_terms e). evaluate H ctx x)"
  "expr_good K H ctx F e \<Longrightarrow> (\<forall>x \<in> set (disj_terms e). expr_good K H ctx F x) \<and>
     evaluate H ctx e = (\<exists>x \<in> set (disj_terms e). evaluate H ctx x)"
  by (cases e; simp add: conj_terms_def disj_terms_def list_all_iff list_ex_iff)+

lemma rebuild_conj_evaluate:
  assumes "printable_conj P e" and "expr_good K H ctx F e" and "rebuild_conj K n e = Some r"
  shows "\<exists>x. r = Some x \<and> expr_good K H ctx F x \<and> evaluate H ctx x = evaluate H ctx e"
proof -
  let ?es = "map (\<lambda>l. Some (rebuild_literal K l)) (conj_terms e)"
  note good = good_terms(1) [OF assms(2)]
  have lit: "expr_good K H ctx F (rebuild_literal K l) \<and> evaluate H ctx (rebuild_literal K l) = evaluate H ctx l"
    if "l \<in> set (conj_terms e)" for l
    using that assms(1) good rebuild_literal_evaluate unfolding printable_conj_def by blast
  show ?thesis
  proof (cases "length (conj_terms e) = 1")
    case True
    then obtain l where "conj_terms e = [l]" by (auto simp: length_Suc_conv)
    with lit [of l] good assms(3) show ?thesis by (auto simp: rebuild_conj_def)
  next
    case False
    with assms(3) have r: "andCreate K n ?es None True = Some r" by (simp add: rebuild_conj_def)
    have "\<forall>x. Some x \<in> set ?es \<longrightarrow> expr_good K H ctx F x" using lit by auto
    note ev = andCreate_evaluate [OF this _ r, simplified]
    obtain l where "l \<in> set (conj_terms e)" using assms(1) by (cases "conj_terms e") (auto simp: printable_conj_def)
    then have "Some (rebuild_literal K l) \<in> set ?es" by simp
    with ev obtain x where "r = Some x" "expr_good K H ctx F x"
        "evaluate H ctx x \<longleftrightarrow> (\<forall>x. Some x \<in> set ?es \<longrightarrow> evaluate H ctx x)"
      by (cases r) auto
    moreover have "(\<forall>x. Some x \<in> set ?es \<longrightarrow> evaluate H ctx x) \<longleftrightarrow> (\<forall>l \<in> set (conj_terms e). evaluate H ctx l)"
      using lit by auto
    ultimately show ?thesis using good by blast
  qed
qed

lemma rebuild_evaluate:
  assumes "printable P e" and "expr_good K H ctx F e" and "rebuild K n e = Some r"
  shows "\<exists>x. r = Some x \<and> expr_good K H ctx F x \<and> evaluate H ctx x = evaluate H ctx e"
proof -
  note good = good_terms(2) [OF assms(2)]
  obtain es where es: "mapO (rebuild_conj K n) (disj_terms e) = Some es"
      "(if length es = 1 then Some (hd es) else orCreate K n es None True) = Some r"
    using assms(3) by (auto simp: rebuild_def split: option.splits)
  have conj: "\<exists>x. y = Some x \<and> expr_good K H ctx F x \<and> evaluate H ctx x = evaluate H ctx d"
    if "d \<in> set (disj_terms e)" "rebuild_conj K n d = Some y" for d y
    using rebuild_conj_evaluate [of P d K H ctx F n y] that assms(1) good unfolding printable_def by blast
  have "\<forall>y \<in> set es. \<exists>d \<in> set (disj_terms e). \<exists>x. y = Some x \<and> expr_good K H ctx F x \<and> evaluate H ctx x = evaluate H ctx d"
    using conj mapO_set [OF es(1)] by blast
  moreover have "\<forall>d \<in> set (disj_terms e). \<exists>x. Some x \<in> set es \<and> evaluate H ctx x = evaluate H ctx d"
    using conj mapO_defined [OF es(1)] by metis
  ultimately have ev: "\<forall>y \<in> set es. \<exists>x. y = Some x \<and> expr_good K H ctx F x"
      "(\<exists>x. Some x \<in> set es \<and> evaluate H ctx x) \<longleftrightarrow> evaluate H ctx e"
    using good by (blast, metis option.inject)
  have ne: "es \<noteq> []" using es(1) assms(1) by (auto simp: mapO_eq_Some printable_def)
  show ?thesis
  proof (cases "length es = 1")
    case True
    then obtain y where "es = [y]" by (auto simp: length_Suc_conv)
    with es(2) ev show ?thesis by auto
  next
    case False
    with es(2) have r: "orCreate K n es None True = Some r" by simp
    have "\<forall>x. Some x \<in> set es \<longrightarrow> expr_good K H ctx F x" using ev(1) by auto
    from orCreate_evaluate [OF this _ r] ev ne show ?thesis by (cases r; cases es) auto
  qed
qed

lemma rebuild_conj_converges:
  assumes "printable_conj P e"
  shows "\<exists>r. converges (\<lambda>n. rebuild_conj K n e) r \<and> (\<forall>x. r = Some x \<longrightarrow> dnf_form x)"
proof -
  let ?es = "map (\<lambda>l. Some (rebuild_literal K l)) (conj_terms e)"
  have form: "dnf_form (rebuild_literal K l)" if "l \<in> set (conj_terms e)" for l
    using assms that rebuild_literal_form dnf_conj unfolding printable_conj_def by blast
  show ?thesis
  proof (cases "length (conj_terms e) = 1")
    case True
    then obtain l where "conj_terms e = [l]" by (auto simp: length_Suc_conv)
    with form show ?thesis by (intro exI [of _ "Some (rebuild_literal K l)"]) (simp add: rebuild_conj_def)
  next
    case False
    have "\<forall>x. Some x \<in> set ?es \<longrightarrow> dnf_form x" using form by auto
    then have "and_returns K ?es None True" by (intro and_returns_dnf) simp_all
    with False show ?thesis by (auto simp: and_returns_def rebuild_conj_def)
  qed
qed

lemma rebuild_converges:
  assumes "printable P e"
  shows "\<exists>r. converges (\<lambda>n. rebuild K n e) r"
proof -
  have "\<forall>x \<in> set (disj_terms e). \<exists>r. converges (\<lambda>n. rebuild_conj K n x) r \<and> (\<forall>y. r = Some y \<longrightarrow> dnf_form y)"
    using assms rebuild_conj_converges unfolding printable_def by blast
  from converges_mapO [OF this] obtain es where es: "converges (\<lambda>n. mapO (rebuild_conj K n) (disj_terms e)) es"
      "list_all2 (\<lambda>x r. \<forall>y. r = Some y \<longrightarrow> dnf_form y) (disj_terms e) es" by blast
  have form: "\<forall>y. Some y \<in> set es \<longrightarrow> dnf_form y" using es(2) by (induction rule: list_all2_induct) auto
  have "\<exists>r. converges (\<lambda>n. if length es = 1 then Some (hd es) else orCreate K n es None True) r"
  proof (cases "length es = 1")
    case False
    have "\<forall>y. Some y \<in> set es \<longrightarrow> (\<forall>x \<in> set (getTerminals y). negatable K x)" using form conj_negates(2) by blast
    with form obtain r where "converges (\<lambda>n. orCreate K n es None True) r"
      using orCreate_converges [of es None True K] by auto
    with False show ?thesis by auto
  qed (intro exI [of _ "hd es"], simp)
  then obtain r where r: "converges (\<lambda>n. if length es = 1 then Some (hd es) else orCreate K n es None True) r" by blast
  have "converges (\<lambda>n. rebuild K n e) r"
    by (rule converges_bind [OF es(1), where g = "\<lambda>n es. if length es = 1 then Some (hd es) else orCreate K n es None True"])
      (use r in \<open>simp_all add: rebuild_def\<close>)
  then show ?thesis by blast
qed

text \<open>
  \<^bold>\<open>C4.\<close> For disjunctions of conjunctions of tests of a key, equalities with a string and the
  negations of these, whose keys the scanner reads as one word that is no keyword and whose
  strings have no quote (\<open>printable\<close>; no comparisons, regular expressions, \<open>in\<close> or constants):
  parsing the printed text returns at every sufficient depth of normalization one and the same
  expression, without lexing or parsing errors, and it has the truth value of the printed one in
  every context that meets the conditions \<open>expr_good\<close>.  The space is not a letter.
\<close>

theorem serialize_parse_roundtrip:
  assumes "printable (env_host E) e" and "\<not> isLetter (env_host E) 32"
  shows "\<exists>N r. \<forall>n \<ge> N. \<exists>q. Parser_parse (E\<lparr>env_depth := n\<rparr>) (serialize H e) p = Returns (Some r) q \<and>
     p_parsingErrors q = [] \<and> sc_errors (p_scanner q) = [] \<and>
     (\<forall>H' ctx F. expr_good (env_constants E) H' ctx F e \<longrightarrow> evaluate H' ctx r = evaluate H' ctx e)"
proof -
  obtain N x where x: "\<And>n. n \<ge> N \<Longrightarrow> rebuild (env_constants E) n e = Some x"
    using rebuild_converges [OF assms(1), of "env_constants E"] unfolding converges_def by blast
  have parse: "\<exists>q. Parser_parse (E\<lparr>env_depth := n\<rparr>) (serialize H e) p = Returns x q \<and> p_parsingErrors q = [] \<and>
      sc_errors (p_scanner q) = []" if "n \<ge> N" for n
    using parse_serialized [of "E\<lparr>env_depth := n\<rparr>" e H p] assms x [OF that] by simp
  obtain q where q: "Parser_parse (E\<lparr>env_depth := N\<rparr>) (serialize H e) p = Returns x q" "p_parsingErrors q = []"
    using parse [of N] by blast
  then have ne: "serialize H e \<noteq> []" by (auto simp: Parser_parse_def pushError_def)
  have "\<exists>r. x = Some r"
    by (cases rule: parse_cases [OF ne, of "E\<lparr>env_depth := N\<rparr>" p]) (use q in auto)
  then obtain r where r: "x = Some r" ..
  have "evaluate H' ctx r = evaluate H' ctx e" if "expr_good (env_constants E) H' ctx F e" for H' ctx F
    using rebuild_evaluate [OF assms(1) that x [OF order_refl]] r by simp
  with parse r show ?thesis by (intro exI [of _ N] exI [of _ r]) blast
qed

theorem serialize_parse_roundtrip_witness:
  "\<exists>n r q. Parser_parse (example_parser_env\<lparr>env_depth := n\<rparr>)
      (serialize example_host (OrExpr [AndExpr example_keys None, EqualsExpr (js ''c'') (JStr (js ''x y'')) None] None)) new_Parser =
      Returns (Some r) q"
proof -
  let ?e = "OrExpr [AndExpr example_keys None, EqualsExpr (js ''c'') (JStr (js ''x y'')) None] None"
  have "printable_literal example_parser_host (DefinedExpr (js ''a'') None)"
    "printable_literal example_parser_host (DefinedExpr (js ''b'') None)"
    "printable_literal example_parser_host (EqualsExpr (js ''c'') (JStr (js ''x y'')) None)" by code_simp+
  then have p: "printable (env_host example_parser_env) ?e"
    by (auto simp: printable_def disj_terms_def printable_conj_def conj_terms_def example_keys_def example_parser_env_def)
  have l: "\<not> isLetter (env_host example_parser_env) 32" by (simp add: example_parser_env_def example_parser_host_def)
  obtain N r where "\<forall>n \<ge> N. \<exists>q. Parser_parse (example_parser_env\<lparr>env_depth := n\<rparr>) (serialize example_host ?e) new_Parser =
      Returns (Some r) q \<and> p_parsingErrors q = [] \<and> sc_errors (p_scanner q) = [] \<and>
      (\<forall>H' ctx F. expr_good (env_constants example_parser_env) H' ctx F ?e \<longrightarrow> evaluate H' ctx r = evaluate H' ctx ?e)"
    using serialize_parse_roundtrip [OF p l, of example_host new_Parser] by (elim exE)
  from this [rule_format, OF order_refl] show ?thesis by (elim exE conjE) (intro exI, assumption)
qed

end
