(* ===== verification/LinkedMaps.thy ===== *)
theory LinkedMaps
  imports Prelude Complex_Main "HOL-Library.AList"
begin

text \<open>
  \<open>base/common/map.ts\<close>: the map that keeps its entries in a doubly linked list, and the two
  caches built on it.

  The items of the list are objects that are linked and unlinked in place, so the map carries the
  store of its items: \<open>lm_store\<close> gives the item at an address, \<open>lm_fresh\<close> the next address to
  allocate.  Items never leave the map but through its iterators.  A reference that may be
  \<open>undefined\<close> is an address option; reading or writing a field of \<open>undefined\<close> is a \<open>TypeError\<close>.
  The caches extend the record of the map as the classes extend the class; methods of the map
  are defined on all extensions.
\<close>

section \<open>The state\<close>

record ('k, 'v) Item =
  item_previous :: "nat option"
  item_next :: "nat option"
  item_key :: 'k
  item_value :: 'v

datatype Touch = TouchNone | AsOld | AsNew

record ('k, 'v) LinkedMap =
  lm_store :: "nat \<Rightarrow> ('k, 'v) Item option"
  lm_fresh :: nat
  lm_map :: "'k \<Rightarrow> nat option"
  lm_head :: "nat option"
  lm_tail :: "nat option"
  lm_size :: int
  lm_state :: int

definition new_LinkedMap :: "('k, 'v) LinkedMap" where
  "new_LinkedMap = \<lparr>lm_store = (\<lambda>_. None), lm_fresh = 0, lm_map = (\<lambda>_. None), lm_head = None, lm_tail = None,
     lm_size = 0, lm_state = 0\<rparr>"

definition invalid_list :: "'a result" where
  "invalid_list = Inl (GenericError ''Invalid list'')"

text \<open>Reading an item and writing its fields.\<close>

definition item_at :: "('k, 'v, 'z) LinkedMap_scheme \<Rightarrow> nat option \<Rightarrow> ('k, 'v) Item result" where
  "item_at m r = (case r of None \<Rightarrow> Inl TypeError
     | Some a \<Rightarrow> (case lm_store m a of None \<Rightarrow> Inl TypeError | Some item \<Rightarrow> Inr item))"

definition write_item ::
  "('k, 'v, 'z) LinkedMap_scheme \<Rightarrow> nat option \<Rightarrow> (('k, 'v) Item \<Rightarrow> ('k, 'v) Item) \<Rightarrow> ('k, 'v, 'z) LinkedMap_scheme result" where
  "write_item m r f =
     bindE (item_at m r) (\<lambda>item. Inr (m\<lparr>lm_store := (lm_store m)(the r := Some (f item))\<rparr>))"

definition set_next ::
  "('k, 'v, 'z) LinkedMap_scheme \<Rightarrow> nat option \<Rightarrow> nat option \<Rightarrow> ('k, 'v, 'z) LinkedMap_scheme result" where
  "set_next m r n = write_item m r (\<lambda>item. item\<lparr>item_next := n\<rparr>)"

definition set_previous ::
  "('k, 'v, 'z) LinkedMap_scheme \<Rightarrow> nat option \<Rightarrow> nat option \<Rightarrow> ('k, 'v, 'z) LinkedMap_scheme result" where
  "set_previous m r p = write_item m r (\<lambda>item. item\<lparr>item_previous := p\<rparr>)"

definition changed :: "('k, 'v, 'z) LinkedMap_scheme \<Rightarrow> ('k, 'v, 'z) LinkedMap_scheme" where
  "changed m = m\<lparr>lm_state := lm_state m + 1\<rparr>"

section \<open>Linking and unlinking\<close>

definition addItemFirst :: "nat \<Rightarrow> ('k, 'v, 'z) LinkedMap_scheme \<Rightarrow> ('k, 'v, 'z) LinkedMap_scheme result" where
  "addItemFirst item m =
     bindE (if lm_head m = None \<and> lm_tail m = None then Inr (m\<lparr>lm_tail := Some item\<rparr>)
            else if lm_head m = None then invalid_list
            else bindE (set_next m (Some item) (lm_head m)) (\<lambda>m. set_previous m (lm_head m) (Some item)))
       (\<lambda>m. Inr (changed (m\<lparr>lm_head := Some item\<rparr>)))"

definition addItemLast :: "nat \<Rightarrow> ('k, 'v, 'z) LinkedMap_scheme \<Rightarrow> ('k, 'v, 'z) LinkedMap_scheme result" where
  "addItemLast item m =
     bindE (if lm_head m = None \<and> lm_tail m = None then Inr (m\<lparr>lm_head := Some item\<rparr>)
            else if lm_tail m = None then invalid_list
            else bindE (set_previous m (Some item) (lm_tail m)) (\<lambda>m. set_next m (lm_tail m) (Some item)))
       (\<lambda>m. Inr (changed (m\<lparr>lm_tail := Some item\<rparr>)))"

definition removeItem :: "nat \<Rightarrow> ('k, 'v, 'z) LinkedMap_scheme \<Rightarrow> ('k, 'v, 'z) LinkedMap_scheme result" where
  "removeItem item m =
     bindE (item_at m (Some item)) (\<lambda>it.
       bindE (if Some item = lm_head m \<and> Some item = lm_tail m then Inr (m\<lparr>lm_head := None, lm_tail := None\<rparr>)
              else if Some item = lm_head m then
                (if item_next it = None then invalid_list
                 else bindE (set_previous m (item_next it) None) (\<lambda>m. Inr (m\<lparr>lm_head := item_next it\<rparr>)))
              else if Some item = lm_tail m then
                (if item_previous it = None then invalid_list
                 else bindE (set_next m (item_previous it) None) (\<lambda>m. Inr (m\<lparr>lm_tail := item_previous it\<rparr>)))
              else if item_next it = None \<or> item_previous it = None then invalid_list
              else bindE (set_previous m (item_next it) (item_previous it)) (\<lambda>m.
                     set_next m (item_previous it) (item_next it)))
         (\<lambda>m. bindE (set_next m (Some item) None) (\<lambda>m.
           bindE (set_previous m (Some item) None) (\<lambda>m. Inr (changed m)))))"

definition touch_old :: "nat \<Rightarrow> ('k, 'v, 'z) LinkedMap_scheme \<Rightarrow> ('k, 'v, 'z) LinkedMap_scheme result" where
  "touch_old item m =
     (if Some item = lm_head m then Inr m
      else bindE (item_at m (Some item)) (\<lambda>it. let next' = item_next it; previous = item_previous it in
        bindE (if Some item = lm_tail m then bindE (set_next m previous None) (\<lambda>m. Inr (m\<lparr>lm_tail := previous\<rparr>))
               else bindE (set_previous m next' previous) (\<lambda>m. set_next m previous next')) (\<lambda>m.
        bindE (set_previous m (Some item) None) (\<lambda>m.
        bindE (set_next m (Some item) (lm_head m)) (\<lambda>m.
        bindE (set_previous m (lm_head m) (Some item)) (\<lambda>m.
          Inr (changed (m\<lparr>lm_head := Some item\<rparr>))))))))"

definition touch_new :: "nat \<Rightarrow> ('k, 'v, 'z) LinkedMap_scheme \<Rightarrow> ('k, 'v, 'z) LinkedMap_scheme result" where
  "touch_new item m =
     (if Some item = lm_tail m then Inr m
      else bindE (item_at m (Some item)) (\<lambda>it. let next' = item_next it; previous = item_previous it in
        bindE (if Some item = lm_head m then bindE (set_previous m next' None) (\<lambda>m. Inr (m\<lparr>lm_head := next'\<rparr>))
               else bindE (set_previous m next' previous) (\<lambda>m. set_next m previous next')) (\<lambda>m.
        bindE (set_next m (Some item) None) (\<lambda>m.
        bindE (set_previous m (Some item) (lm_tail m)) (\<lambda>m.
        bindE (set_next m (lm_tail m) (Some item)) (\<lambda>m.
          Inr (changed (m\<lparr>lm_tail := Some item\<rparr>))))))))"

definition LinkedMap_touch ::
  "nat \<Rightarrow> Touch \<Rightarrow> ('k, 'v, 'z) LinkedMap_scheme \<Rightarrow> ('k, 'v, 'z) LinkedMap_scheme result" where
  "LinkedMap_touch item touch m =
     (if lm_head m = None \<or> lm_tail m = None then invalid_list
      else case touch of TouchNone \<Rightarrow> Inr m | AsOld \<Rightarrow> touch_old item m | AsNew \<Rightarrow> touch_new item m)"

section \<open>The map\<close>

definition LinkedMap_clear :: "('k, 'v, 'z) LinkedMap_scheme \<Rightarrow> ('k, 'v, 'z) LinkedMap_scheme" where
  "LinkedMap_clear m = changed (m\<lparr>lm_map := (\<lambda>_. None), lm_head := None, lm_tail := None, lm_size := 0\<rparr>)"

definition LinkedMap_isEmpty :: "('k, 'v, 'z) LinkedMap_scheme \<Rightarrow> bool" where
  "LinkedMap_isEmpty m \<longleftrightarrow> lm_head m = None \<and> lm_tail m = None"

definition LinkedMap_size :: "('k, 'v, 'z) LinkedMap_scheme \<Rightarrow> int" where
  "LinkedMap_size m = lm_size m"

text \<open>\<open>item?.value\<close>\<close>

definition value_of :: "('k, 'v, 'z) LinkedMap_scheme \<Rightarrow> nat option \<Rightarrow> 'v option result" where
  "value_of m r = (if r = None then Inr None else bindE (item_at m r) (\<lambda>item. Inr (Some (item_value item))))"

definition LinkedMap_first :: "('k, 'v, 'z) LinkedMap_scheme \<Rightarrow> 'v option result" where
  "LinkedMap_first m = value_of m (lm_head m)"

definition LinkedMap_last :: "('k, 'v, 'z) LinkedMap_scheme \<Rightarrow> 'v option result" where
  "LinkedMap_last m = value_of m (lm_tail m)"

definition LinkedMap_has :: "'k \<Rightarrow> ('k, 'v, 'z) LinkedMap_scheme \<Rightarrow> bool" where
  "LinkedMap_has key m \<longleftrightarrow> lm_map m key \<noteq> None"

definition LinkedMap_get ::
  "'k \<Rightarrow> Touch \<Rightarrow> ('k, 'v, 'z) LinkedMap_scheme \<Rightarrow> ('v option \<times> ('k, 'v, 'z) LinkedMap_scheme) result" where
  "LinkedMap_get key touch m =
     (case lm_map m key of
        None \<Rightarrow> Inr (None, m)
      | Some item \<Rightarrow>
          bindE (if touch \<noteq> TouchNone then LinkedMap_touch item touch m else Inr m) (\<lambda>m.
            bindE (item_at m (Some item)) (\<lambda>it. Inr (Some (item_value it), m))))"

definition LinkedMap_set ::
  "'k \<Rightarrow> 'v \<Rightarrow> Touch \<Rightarrow> ('k, 'v, 'z) LinkedMap_scheme \<Rightarrow> ('k, 'v, 'z) LinkedMap_scheme result" where
  "LinkedMap_set key v touch m =
     (case lm_map m key of
        Some item \<Rightarrow>
          bindE (write_item m (Some item) (\<lambda>it. it\<lparr>item_value := v\<rparr>)) (\<lambda>m.
            if touch \<noteq> TouchNone then LinkedMap_touch item touch m else Inr m)
      | None \<Rightarrow>
          (let item = lm_fresh m;
               m = m\<lparr>lm_store := (lm_store m)(item \<mapsto> \<lparr>item_previous = None, item_next = None, item_key = key, item_value = v\<rparr>),
                     lm_fresh := item + 1\<rparr>
           in bindE (case touch of TouchNone \<Rightarrow> addItemLast item m | AsOld \<Rightarrow> addItemFirst item m | AsNew \<Rightarrow> addItemLast item m)
                (\<lambda>m. Inr (m\<lparr>lm_map := (lm_map m)(key \<mapsto> item), lm_size := lm_size m + 1\<rparr>))))"

definition LinkedMap_remove ::
  "'k \<Rightarrow> ('k, 'v, 'z) LinkedMap_scheme \<Rightarrow> ('v option \<times> ('k, 'v, 'z) LinkedMap_scheme) result" where
  "LinkedMap_remove key m =
     (case lm_map m key of
        None \<Rightarrow> Inr (None, m)
      | Some item \<Rightarrow>
          bindE (removeItem item (m\<lparr>lm_map := (lm_map m)(key := None)\<rparr>)) (\<lambda>m.
            let m = m\<lparr>lm_size := lm_size m - 1\<rparr>
            in bindE (item_at m (Some item)) (\<lambda>it. Inr (Some (item_value it), m))))"

text \<open>\<open>!!this.remove(key)\<close>: \<open>truthy\<close> is the truth value of the stored values.\<close>

definition LinkedMap_delete ::
  "('v \<Rightarrow> bool) \<Rightarrow> 'k \<Rightarrow> ('k, 'v, 'z) LinkedMap_scheme \<Rightarrow> (bool \<times> ('k, 'v, 'z) LinkedMap_scheme) result" where
  "LinkedMap_delete truthy key m =
     bindE (LinkedMap_remove key m) (\<lambda>(v, m). Inr (case v of None \<Rightarrow> False | Some v \<Rightarrow> truthy v, m))"

definition LinkedMap_shift ::
  "('k, 'v, 'z) LinkedMap_scheme \<Rightarrow> ('v option \<times> ('k, 'v, 'z) LinkedMap_scheme) result" where
  "LinkedMap_shift m =
     (if lm_head m = None \<and> lm_tail m = None then Inr (None, m)
      else case lm_head m of
        None \<Rightarrow> invalid_list
      | Some item \<Rightarrow>
          if lm_tail m = None then invalid_list
          else bindE (item_at m (Some item)) (\<lambda>it.
            bindE (removeItem item (m\<lparr>lm_map := (lm_map m)(item_key it := None)\<rparr>)) (\<lambda>m.
              let m = m\<lparr>lm_size := lm_size m - 1\<rparr>
              in bindE (item_at m (Some item)) (\<lambda>it. Inr (Some (item_value it), m)))))"

section \<open>Iteration\<close>

text \<open>
  The iterators of \<open>keys\<close>, \<open>values\<close> and \<open>entries\<close> are one record, the state of the map when they
  were made and the current item; \<open>next\<close> gives what \<open>read\<close> makes of the item.
\<close>

record lm_iterator =
  it_state :: int
  it_current :: "nat option"

definition LinkedMap_iterator :: "('k, 'v, 'z) LinkedMap_scheme \<Rightarrow> lm_iterator" where
  "LinkedMap_iterator m = \<lparr>it_state = lm_state m, it_current = lm_head m\<rparr>"

definition modified :: "'a result" where
  "modified = Inl (GenericError ''LinkedMap got modified during iteration.'')"

definition iterator_next ::
  "(('k, 'v) Item \<Rightarrow> 'a) \<Rightarrow> ('k, 'v, 'z) LinkedMap_scheme \<Rightarrow> lm_iterator \<Rightarrow> ('a option \<times> lm_iterator) result" where
  "iterator_next read m i =
     (if lm_state m \<noteq> it_state i then modified
      else if it_current i = None then Inr (None, i)
      else bindE (item_at m (it_current i)) (\<lambda>item. Inr (Some (read item), i\<lparr>it_current := item_next item\<rparr>)))"

definition LinkedMap_keys_next :: "('k, 'v, 'z) LinkedMap_scheme \<Rightarrow> lm_iterator \<Rightarrow> ('k option \<times> lm_iterator) result" where
  "LinkedMap_keys_next = iterator_next item_key"

definition LinkedMap_values_next :: "('k, 'v, 'z) LinkedMap_scheme \<Rightarrow> lm_iterator \<Rightarrow> ('v option \<times> lm_iterator) result" where
  "LinkedMap_values_next = iterator_next item_value"

definition LinkedMap_entries_next ::
  "('k, 'v, 'z) LinkedMap_scheme \<Rightarrow> lm_iterator \<Rightarrow> (('k \<times> 'v) option \<times> lm_iterator) result" where
  "LinkedMap_entries_next = iterator_next (\<lambda>item. (item_key item, item_value item))"

text \<open>
  \<open>forEach\<close>: the callback may change the map and a state of its own, or throw.  The loop follows
  the links, so that it ends is a fact about the links; \<open>None\<close> is a loop that does not end.
\<close>

partial_function (option) forEach_loop ::
  "('v \<Rightarrow> 'k \<Rightarrow> 's \<times> ('k, 'v, 'z) LinkedMap_scheme \<Rightarrow> ('s \<times> ('k, 'v, 'z) LinkedMap_scheme) result) \<Rightarrow> int \<Rightarrow> nat option \<Rightarrow>
   's \<times> ('k, 'v, 'z) LinkedMap_scheme \<Rightarrow> ('s \<times> ('k, 'v, 'z) LinkedMap_scheme) result option" where
  "forEach_loop callbackfn state current sm =
     (if current = None then Some (Inr sm)
      else case bindE (item_at (snd sm) current) (\<lambda>item. callbackfn (item_value item) (item_key item) sm) of
        Inl e \<Rightarrow> Some (Inl e)
      | Inr sm \<Rightarrow>
          if lm_state (snd sm) \<noteq> state then Some modified
          else (case item_at (snd sm) current of
            Inl e \<Rightarrow> Some (Inl e)
          | Inr item \<Rightarrow> forEach_loop callbackfn state (item_next item) sm))"

definition LinkedMap_forEach ::
  "('v \<Rightarrow> 'k \<Rightarrow> 's \<times> ('k, 'v, 'z) LinkedMap_scheme \<Rightarrow> ('s \<times> ('k, 'v, 'z) LinkedMap_scheme) result) \<Rightarrow>
   's \<Rightarrow> ('k, 'v, 'z) LinkedMap_scheme \<Rightarrow> ('s \<times> ('k, 'v, 'z) LinkedMap_scheme) result option" where
  "LinkedMap_forEach callbackfn s m = forEach_loop callbackfn (lm_state m) (lm_head m) (s, m)"

definition LinkedMap_toJSON :: "('k, 'v, 'z) LinkedMap_scheme \<Rightarrow> (('k \<times> 'v) list \<times> ('k, 'v, 'z) LinkedMap_scheme) result option" where
  "LinkedMap_toJSON m = LinkedMap_forEach (\<lambda>v key (data, m). Inr (data @ [(key, v)], m)) [] m"

text \<open>\<open>this.set\<close> is the method of the object's class.\<close>

definition LinkedMap_fromJSON ::
  "('k \<Rightarrow> 'v \<Rightarrow> ('k, 'v, 'z) LinkedMap_scheme \<Rightarrow> ('k, 'v, 'z) LinkedMap_scheme result) \<Rightarrow> ('k \<times> 'v) list \<Rightarrow>
   ('k, 'v, 'z) LinkedMap_scheme \<Rightarrow> ('k, 'v, 'z) LinkedMap_scheme result" where
  "LinkedMap_fromJSON set_method data m = foldE (\<lambda>m (key, v). set_method key v m) (LinkedMap_clear m) data"

section \<open>Trimming\<close>

function trimOld_loop ::
  "int \<Rightarrow> nat option \<Rightarrow> int \<Rightarrow> ('k, 'v, 'z) LinkedMap_scheme \<Rightarrow> (nat option \<times> int \<times> ('k, 'v, 'z) LinkedMap_scheme) result" where
  "trimOld_loop newSize current currentSize m =
     (if current \<noteq> None \<and> currentSize > newSize then
        bindE (item_at m current) (\<lambda>item.
          trimOld_loop newSize (item_next item) (currentSize - 1) (m\<lparr>lm_map := (lm_map m)(item_key item := None)\<rparr>))
      else Inr (current, currentSize, m))"
  by pat_completeness auto
termination
  by (relation "measure (\<lambda>(newSize, _, currentSize, _). nat (currentSize - newSize))") auto

definition trimOld :: "int \<Rightarrow> ('k, 'v, 'z) LinkedMap_scheme \<Rightarrow> ('k, 'v, 'z) LinkedMap_scheme result" where
  "trimOld newSize m =
     (if newSize \<ge> lm_size m then Inr m
      else if newSize = 0 then Inr (LinkedMap_clear m)
      else bindE (trimOld_loop newSize (lm_head m) (lm_size m) m) (\<lambda>(current, currentSize, m).
        let m = m\<lparr>lm_head := current, lm_size := currentSize\<rparr>
        in bindE (if current \<noteq> None then set_previous m current None else Inr m) (\<lambda>m. Inr (changed m))))"

function trimNew_loop ::
  "int \<Rightarrow> nat option \<Rightarrow> int \<Rightarrow> ('k, 'v, 'z) LinkedMap_scheme \<Rightarrow> (nat option \<times> int \<times> ('k, 'v, 'z) LinkedMap_scheme) result" where
  "trimNew_loop newSize current currentSize m =
     (if current \<noteq> None \<and> currentSize > newSize then
        bindE (item_at m current) (\<lambda>item.
          trimNew_loop newSize (item_previous item) (currentSize - 1) (m\<lparr>lm_map := (lm_map m)(item_key item := None)\<rparr>))
      else Inr (current, currentSize, m))"
  by pat_completeness auto
termination
  by (relation "measure (\<lambda>(newSize, _, currentSize, _). nat (currentSize - newSize))") auto

definition trimNew :: "int \<Rightarrow> ('k, 'v, 'z) LinkedMap_scheme \<Rightarrow> ('k, 'v, 'z) LinkedMap_scheme result" where
  "trimNew newSize m =
     (if newSize \<ge> lm_size m then Inr m
      else if newSize = 0 then Inr (LinkedMap_clear m)
      else bindE (trimNew_loop newSize (lm_tail m) (lm_size m) m) (\<lambda>(current, currentSize, m).
        let m = m\<lparr>lm_tail := current, lm_size := currentSize\<rparr>
        in bindE (if current \<noteq> None then set_next m current None else Inr m) (\<lambda>m. Inr (changed m))))"

declare trimOld_loop.simps [simp del] trimNew_loop.simps [simp del]

section \<open>The caches\<close>

text \<open>
  The limit is an integer; the ratio and the product with the limit are rational numbers, where
  the sources compute with the nearest floating point numbers.  \<open>Math.round\<close> rounds halves up.
\<close>

record ('k, 'v) Cache = "('k, 'v) LinkedMap" +
  c_limit :: int
  c_ratio :: rat

definition js_round :: "rat \<Rightarrow> int" where
  "js_round x = \<lfloor>x + 1 / 2\<rfloor>"

definition clamp_ratio :: "rat \<Rightarrow> rat" where
  "clamp_ratio ratio = min (max 0 ratio) 1"

definition new_Cache :: "int \<Rightarrow> rat \<Rightarrow> ('k, 'v) Cache" where
  "new_Cache limit ratio = LinkedMap.extend new_LinkedMap (Cache.fields limit (clamp_ratio ratio))"

definition trim_size :: "('k, 'v) Cache \<Rightarrow> int" where
  "trim_size c = js_round (of_int (c_limit c) * c_ratio c)"

text \<open>\<open>trim\<close> is abstract in \<open>Cache\<close>: the two caches supply it.\<close>

definition checkTrim :: "(int \<Rightarrow> ('k, 'v) Cache \<Rightarrow> ('k, 'v) Cache result) \<Rightarrow> ('k, 'v) Cache \<Rightarrow> ('k, 'v) Cache result" where
  "checkTrim trim c = (if LinkedMap_size c > c_limit c then trim (trim_size c) c else Inr c)"

definition Cache_set_limit ::
  "(int \<Rightarrow> ('k, 'v) Cache \<Rightarrow> ('k, 'v) Cache result) \<Rightarrow> int \<Rightarrow> ('k, 'v) Cache \<Rightarrow> ('k, 'v) Cache result" where
  "Cache_set_limit trim limit c = checkTrim trim (c\<lparr>c_limit := limit\<rparr>)"

definition Cache_set_ratio ::
  "(int \<Rightarrow> ('k, 'v) Cache \<Rightarrow> ('k, 'v) Cache result) \<Rightarrow> rat \<Rightarrow> ('k, 'v) Cache \<Rightarrow> ('k, 'v) Cache result" where
  "Cache_set_ratio trim ratio c = checkTrim trim (c\<lparr>c_ratio := clamp_ratio ratio\<rparr>)"

definition Cache_get :: "'k \<Rightarrow> ('k, 'v) Cache \<Rightarrow> ('v option \<times> ('k, 'v) Cache) result" where
  "Cache_get key c = LinkedMap_get key AsNew c"

definition Cache_peek :: "'k \<Rightarrow> ('k, 'v) Cache \<Rightarrow> ('v option \<times> ('k, 'v) Cache) result" where
  "Cache_peek key c = LinkedMap_get key TouchNone c"

definition Cache_set :: "'k \<Rightarrow> 'v \<Rightarrow> ('k, 'v) Cache \<Rightarrow> ('k, 'v) Cache result" where
  "Cache_set key v c = LinkedMap_set key v AsNew c"

definition LRUCache_trim :: "int \<Rightarrow> ('k, 'v) Cache \<Rightarrow> ('k, 'v) Cache result" where
  "LRUCache_trim newSize c = trimOld newSize c"

definition LRUCache_set :: "'k \<Rightarrow> 'v \<Rightarrow> ('k, 'v) Cache \<Rightarrow> ('k, 'v) Cache result" where
  "LRUCache_set key v c = bindE (Cache_set key v c) (\<lambda>c. checkTrim LRUCache_trim c)"

definition MRUCache_trim :: "int \<Rightarrow> ('k, 'v) Cache \<Rightarrow> ('k, 'v) Cache result" where
  "MRUCache_trim newSize c = trimNew newSize c"

definition MRUCache_set :: "'k \<Rightarrow> 'v \<Rightarrow> ('k, 'v) Cache \<Rightarrow> ('k, 'v) Cache result" where
  "MRUCache_set key v c =
     bindE (if c_limit c \<le> LinkedMap_size c \<and> \<not> LinkedMap_has key c then MRUCache_trim (trim_size c - 1) c else Inr c)
       (\<lambda>c. Cache_set key v c)"

end
