(* ===== verification/LinkedMapRefinement.thy ===== *)
theory LinkedMapRefinement
  imports LinkedMaps "HOL-Library.Multiset"
begin

text \<open>
  The linked map refines the list of its entries, oldest first.  A doubly linked segment of the
  store is described from its nodes (address, key and value); the methods are specified by what
  they do to the nodes, and any sequence of calls by what it does to the list of entries.
\<close>

section \<open>Doubly linked segments\<close>

type_synonym ('k, 'v) node = "nat \<times> 'k \<times> 'v"

definition first_or :: "('k, 'v) node list \<Rightarrow> nat option \<Rightarrow> nat option" where
  "first_or ns n = (case ns of [] \<Rightarrow> n | x # _ \<Rightarrow> Some (fst x))"

definition last_or :: "nat option \<Rightarrow> ('k, 'v) node list \<Rightarrow> nat option" where
  "last_or p ns = (if ns = [] then p else Some (fst (last ns)))"

fun node_item :: "nat option \<Rightarrow> ('k, 'v) node \<Rightarrow> nat option \<Rightarrow> ('k, 'v) Item" where
  "node_item p (a, k, v) n = \<lparr>item_previous = p, item_next = n, item_key = k, item_value = v\<rparr>"

primrec dseg :: "(nat \<Rightarrow> ('k, 'v) Item option) \<Rightarrow> nat option \<Rightarrow> ('k, 'v) node list \<Rightarrow> nat option \<Rightarrow> bool" where
  "dseg h p [] n \<longleftrightarrow> True"
| "dseg h p (x # xs) n \<longleftrightarrow> h (fst x) = Some (node_item p x (first_or xs n)) \<and> dseg h (Some (fst x)) xs n"

lemma first_last_simps [simp]:
  "first_or [] n = n" "first_or (x # xs) n = Some (fst x)" "last_or p [] = p"
  "last_or p (xs @ [x]) = Some (fst x)" "first_or (xs @ ys) n = first_or xs (first_or ys n)"
  "last_or p (x # xs) = last_or (Some (fst x)) xs" "last_or p (xs @ ys) = last_or (last_or p xs) ys"
  by (auto simp: first_or_def last_or_def split: list.splits)

lemma dseg_append: "dseg h p (xs @ ys) n \<longleftrightarrow> dseg h p xs (first_or ys n) \<and> dseg h (last_or p xs) ys n"
  by (induction xs arbitrary: p) auto

lemma dseg_upd [simp]: "a \<notin> fst ` set xs \<Longrightarrow> dseg (h(a := z)) p xs n = dseg h p xs n"
  by (induction xs arbitrary: p) auto

lemma node_item_fields [simp]:
  "item_previous (node_item p x n) = p" "item_next (node_item p x n) = n" "item_key (node_item p x n) = fst (snd x)"
  "item_value (node_item p x n) = snd (snd x)" "(node_item p x n)\<lparr>item_previous := q\<rparr> = node_item q x n"
  "(node_item p x n)\<lparr>item_next := q\<rparr> = node_item p x q" "(node_item p x n)\<lparr>item_value := v\<rparr> = node_item p (fst x, fst (snd x), v) n"
  by (cases x; simp)+

text \<open>\<open>runs r Q\<close>: \<open>r\<close> throws nothing and its value satisfies \<open>Q\<close>.\<close>

definition runs :: "'a result \<Rightarrow> ('a \<Rightarrow> bool) \<Rightarrow> bool" where
  "runs r Q \<longleftrightarrow> (\<exists>x. r = Inr x \<and> Q x)"

lemma runs_Inr [simp]: "runs (Inr x) Q \<longleftrightarrow> Q x"
  by (simp add: runs_def)

lemma runs_bind: "runs r (\<lambda>x. runs (f x) Q) \<Longrightarrow> runs (bindE r f) Q"
  by (auto simp: runs_def)

lemma runs_mono: "runs r Q \<Longrightarrow> (\<And>x. Q x \<Longrightarrow> R x) \<Longrightarrow> runs r R"
  by (auto simp: runs_def)

lemma runsE: "runs r Q \<Longrightarrow> (\<And>x. r = Inr x \<Longrightarrow> Q x \<Longrightarrow> thesis) \<Longrightarrow> thesis"
  by (auto simp: runs_def)

text \<open>Three segments with distinct addresses, the middle one a single node.\<close>

definition parts ::
  "(nat \<Rightarrow> ('k, 'v) Item option) \<Rightarrow> nat option \<Rightarrow> ('k, 'v) node list \<Rightarrow> nat option \<Rightarrow> nat option \<Rightarrow> ('k, 'v) node \<Rightarrow> nat option \<Rightarrow>
   nat option \<Rightarrow> ('k, 'v) node list \<Rightarrow> nat option \<Rightarrow> bool" where
  "parts h p as n px x nx pb bs nb \<longleftrightarrow>
     dseg h p as n \<and> dseg h px [x] nx \<and> dseg h pb bs nb \<and> distinct (map fst (as @ x # bs))"

lemma runs_set_next:
  assumes "dseg (lm_store m) p xs n" and "xs \<noteq> []" and "distinct (map fst xs)"
    and "\<And>item. dseg ((lm_store m)(fst (last xs) \<mapsto> item)) p xs q \<Longrightarrow> Q (m\<lparr>lm_store := (lm_store m)(fst (last xs) \<mapsto> item)\<rparr>)"
  shows "runs (set_next m (Some (fst (last xs))) q) Q"
proof -
  obtain ys y where xs: "xs = ys @ [y]" using assms(2) by (cases xs rule: rev_cases) auto
  then have "fst y \<notin> fst ` set ys" using assms(3) by auto
  then show ?thesis using assms(1,4) by (simp add: xs dseg_append set_next_def write_item_def item_at_def)
qed

lemma runs_set_previous:
  assumes "dseg (lm_store m) p xs n" and "xs \<noteq> []" and "distinct (map fst xs)"
    and "\<And>item. dseg ((lm_store m)(fst (hd xs) \<mapsto> item)) q xs n \<Longrightarrow> Q (m\<lparr>lm_store := (lm_store m)(fst (hd xs) \<mapsto> item)\<rparr>)"
  shows "runs (set_previous m (Some (fst (hd xs))) q) Q"
proof -
  obtain y ys where xs: "xs = y # ys" using assms(2) by (cases xs) auto
  then have "fst y \<notin> fst ` set ys" using assms(3) by auto
  then show ?thesis using assms(1,4) by (simp add: xs set_previous_def write_item_def item_at_def)
qed

lemma end_nodes: "xs \<noteq> [] \<Longrightarrow> fst (last xs) \<in> fst ` set xs" "xs \<noteq> [] \<Longrightarrow> fst (hd xs) \<in> fst ` set xs"
  by simp_all

lemma runs_parts:
  assumes parts: "parts (lm_store m) p as n px x nx pb bs nb"
  shows "as \<noteq> [] \<Longrightarrow> r = Some (fst (last as)) \<Longrightarrow> (\<And>h. parts h p as q px x nx pb bs nb \<Longrightarrow> Q (m\<lparr>lm_store := h\<rparr>)) \<Longrightarrow>
      runs (set_next m r q) Q"
    and "as \<noteq> [] \<Longrightarrow> r = Some (fst (hd as)) \<Longrightarrow> (\<And>h. parts h q as n px x nx pb bs nb \<Longrightarrow> Q (m\<lparr>lm_store := h\<rparr>)) \<Longrightarrow>
      runs (set_previous m r q) Q"
    and "r = Some (fst x) \<Longrightarrow> (\<And>h. parts h p as n px x q pb bs nb \<Longrightarrow> Q (m\<lparr>lm_store := h\<rparr>)) \<Longrightarrow> runs (set_next m r q) Q"
    and "r = Some (fst x) \<Longrightarrow> (\<And>h. parts h p as n q x nx pb bs nb \<Longrightarrow> Q (m\<lparr>lm_store := h\<rparr>)) \<Longrightarrow> runs (set_previous m r q) Q"
    and "bs \<noteq> [] \<Longrightarrow> r = Some (fst (last bs)) \<Longrightarrow> (\<And>h. parts h p as n px x nx pb bs q \<Longrightarrow> Q (m\<lparr>lm_store := h\<rparr>)) \<Longrightarrow>
      runs (set_next m r q) Q"
    and "bs \<noteq> [] \<Longrightarrow> r = Some (fst (hd bs)) \<Longrightarrow> (\<And>h. parts h p as n px x nx q bs nb \<Longrightarrow> Q (m\<lparr>lm_store := h\<rparr>)) \<Longrightarrow>
      runs (set_previous m r q) Q"
proof -
  have a: "dseg (lm_store m) p as n" and x: "dseg (lm_store m) px [x] nx" and b: "dseg (lm_store m) pb bs nb"
    and d: "distinct (map fst as)" "distinct (map fst [x])" "distinct (map fst bs)"
    and all: "distinct (map fst (as @ x # bs))"
    and x': "fst x \<notin> fst ` set as" "fst x \<notin> fst ` set bs" and ab: "fst ` set as \<inter> fst ` set bs = {}"
    using parts by (simp_all add: parts_def)
  have disj: "c \<notin> fst ` set bs \<and> c \<noteq> fst x" if "c \<in> fst ` set as" for c using that x' ab by blast
  have disj': "c \<notin> fst ` set as \<and> c \<noteq> fst x" if "c \<in> fst ` set bs" for c using that x' ab by blast
  show "runs (set_next m r q) Q" if "as \<noteq> []" "r = Some (fst (last as))" "\<And>h. parts h p as q px x nx pb bs nb \<Longrightarrow> Q (m\<lparr>lm_store := h\<rparr>)"
    unfolding that(2) by (rule runs_set_next [OF a that(1) d(1)], rule that(3)) (use x b all disj [OF end_nodes(1) [OF that(1)]] in \<open>simp add: parts_def\<close>)
  show "runs (set_previous m r q) Q" if "as \<noteq> []" "r = Some (fst (hd as))" "\<And>h. parts h q as n px x nx pb bs nb \<Longrightarrow> Q (m\<lparr>lm_store := h\<rparr>)"
    unfolding that(2) by (rule runs_set_previous [OF a that(1) d(1)], rule that(3)) (use x b all disj [OF end_nodes(2) [OF that(1)]] in \<open>simp add: parts_def\<close>)
  show "runs (set_next m r q) Q" if "r = Some (fst x)" "\<And>h. parts h p as n px x q pb bs nb \<Longrightarrow> Q (m\<lparr>lm_store := h\<rparr>)"
    using runs_set_next [OF x _ d(2), of q Q] that a b all x' by (simp add: parts_def)
  show "runs (set_previous m r q) Q" if "r = Some (fst x)" "\<And>h. parts h p as n q x nx pb bs nb \<Longrightarrow> Q (m\<lparr>lm_store := h\<rparr>)"
    using runs_set_previous [OF x _ d(2), of q Q] that a b all x' by (simp add: parts_def)
  show "runs (set_next m r q) Q" if "bs \<noteq> []" "r = Some (fst (last bs))" "\<And>h. parts h p as n px x nx pb bs q \<Longrightarrow> Q (m\<lparr>lm_store := h\<rparr>)"
    unfolding that(2) by (rule runs_set_next [OF b that(1) d(3)], rule that(3)) (use x a all disj' [OF end_nodes(1) [OF that(1)]] in \<open>simp add: parts_def\<close>)
  show "runs (set_previous m r q) Q" if "bs \<noteq> []" "r = Some (fst (hd bs))" "\<And>h. parts h p as n px x nx q bs nb \<Longrightarrow> Q (m\<lparr>lm_store := h\<rparr>)"
    unfolding that(2) by (rule runs_set_previous [OF b that(1) d(3)], rule that(3)) (use x a all disj' [OF end_nodes(2) [OF that(1)]] in \<open>simp add: parts_def\<close>)
qed

section \<open>Linking and unlinking nodes\<close>

definition lm_nodes :: "('k, 'v, 'z) LinkedMap_scheme \<Rightarrow> ('k, 'v) node list \<Rightarrow> bool" where
  "lm_nodes m ns \<longleftrightarrow> dseg (lm_store m) None ns None \<and> distinct (map fst ns) \<and> lm_head m = first_or ns None \<and> lm_tail m = last_or None ns"

text \<open>What linking leaves alone.\<close>

definition relinked :: "('k, 'v, 'z) LinkedMap_scheme \<Rightarrow> ('k, 'v, 'z) LinkedMap_scheme \<Rightarrow> bool" where
  "relinked m m' \<longleftrightarrow> lm_map m' = lm_map m \<and> lm_size m' = lm_size m \<and> lm_fresh m' = lm_fresh m \<and>
     LinkedMap.more m' = LinkedMap.more m \<and> lm_state m' = lm_state m + 1"

lemma parts_nodes:
  assumes "lm_nodes m (as @ x # bs)"
  shows "parts (lm_store m) None as (Some (fst x)) (last_or None as) x (first_or bs None) (Some (fst x)) bs None"
  using assms by (simp add: lm_nodes_def parts_def dseg_append)

lemma nodes_ends:
  assumes "lm_nodes m (as @ x # bs)"
  shows "lm_head m = (if as = [] then Some (fst x) else Some (fst (hd as)))" "lm_tail m = (if bs = [] then Some (fst x) else Some (fst (last bs)))"
    and "Some (fst x) = lm_head m \<longleftrightarrow> as = []" "Some (fst x) = lm_tail m \<longleftrightarrow> bs = []"
    and "item_at m (Some (fst x)) = Inr (node_item (last_or None as) x (first_or bs None))"
proof -
  have d: "distinct (map fst (as @ x # bs))" using assms by (simp add: lm_nodes_def)
  show h: "lm_head m = (if as = [] then Some (fst x) else Some (fst (hd as)))"
    using assms by (cases as) (auto simp: lm_nodes_def)
  show t: "lm_tail m = (if bs = [] then Some (fst x) else Some (fst (last bs)))"
    using assms by (cases bs rule: rev_cases) (auto simp: lm_nodes_def)
  have "fst x \<notin> fst ` set as" "fst x \<notin> fst ` set bs" using d by simp_all
  then have "as \<noteq> [] \<Longrightarrow> fst (hd as) \<noteq> fst x" "bs \<noteq> [] \<Longrightarrow> fst (last bs) \<noteq> fst x" using end_nodes [of as] end_nodes [of bs] by metis+
  then show "Some (fst x) = lm_head m \<longleftrightarrow> as = []" "Some (fst x) = lm_tail m \<longleftrightarrow> bs = []"
    unfolding h t by auto
  show "item_at m (Some (fst x)) = Inr (node_item (last_or None as) x (first_or bs None))"
    using assms by (simp add: lm_nodes_def dseg_append item_at_def)
qed

lemma ends_or [simp]: "ns \<noteq> [] \<Longrightarrow> first_or ns n = Some (fst (hd ns))" "ns \<noteq> [] \<Longrightarrow> last_or p ns = Some (fst (last ns))"
  by (auto simp: first_or_def last_or_def split: list.splits)

text \<open>The segments of the three parts make up the nodes in a new order.\<close>

lemma nodes_of_parts:
  assumes "parts h p as n px x nx pb bs nb" and "n = first_or bs None" and "pb = last_or None as"
  shows "p = None \<Longrightarrow> px = last_or pb bs \<Longrightarrow> nb = Some (fst x) \<Longrightarrow> nx = None \<Longrightarrow> bs \<noteq> [] \<Longrightarrow> dseg h None (as @ bs @ [x]) None"
    and "nb = None \<Longrightarrow> p = None \<Longrightarrow> dseg h None (as @ bs) None"
  using assms by (simp_all add: parts_def dseg_append)

lemma touch_new_nodes:
  assumes "lm_nodes m (as @ x # bs)" and "bs \<noteq> []"
  shows "runs (touch_new (fst x) m) (\<lambda>m'. lm_nodes m' (as @ bs @ [x]) \<and> relinked m m')"
proof -
  let ?first = "first_or bs None" and ?last = "last_or None as"
  note ends = nodes_ends [OF assms(1)] and ps = parts_nodes [OF assms(1)]
  have d: "distinct (map fst (as @ bs @ [x]))" using assms(1) by (auto simp: lm_nodes_def)
  have t: "lm_tail m = Some (fst (last bs))" using ends assms(2) by simp
  have fin: "runs (bindE (set_next m1 (Some (fst x)) None) (\<lambda>m. bindE (set_previous m (Some (fst x)) (lm_tail m)) (\<lambda>m.
        bindE (set_next m (lm_tail m) (Some (fst x))) (\<lambda>m. Inr (changed (m\<lparr>lm_tail := Some (fst x)\<rparr>)))))) (\<lambda>m'. lm_nodes m' (as @ bs @ [x]) \<and> relinked m m')"
    if ps: "parts (lm_store m1) None as ?first ?last x nx ?last bs None" and t: "lm_tail m1 = Some (fst (last bs))"
      and "lm_head m1 = first_or (as @ bs) None" "lm_map m1 = lm_map m" "lm_size m1 = lm_size m" "lm_fresh m1 = lm_fresh m"
      "LinkedMap.more m1 = LinkedMap.more m" "lm_state m1 = lm_state m" for m1 nx
    apply (rule runs_bind, rule runs_parts(3) [OF ps refl])
    apply (rule runs_bind, rule runs_parts(4), simp, rule refl)
    apply (rule runs_bind, rule runs_parts(5), simp, rule assms(2), simp add: t)
    using d that(2-) assms(2) by (simp add: lm_nodes_def relinked_def changed_def nodes_of_parts(1))
  show ?thesis
  proof (cases "as = []")
    case True
    show ?thesis
      unfolding touch_new_def Let_def ends(3-5) bindE_simps node_item_fields if_not_P [OF assms(2)] if_P [OF True]
      apply (rule runs_bind, rule runs_bind, rule runs_parts(6) [OF ps assms(2)], simp add: assms(2))
      apply (simp only: runs_Inr, rule fin [where nx = ?first]; simp add: t assms(2) True parts_def)
      done
  next
    case False
    show ?thesis
      unfolding touch_new_def Let_def ends(3-5) bindE_simps node_item_fields if_not_P [OF assms(2)] if_not_P [OF False]
      apply (rule runs_bind, rule runs_bind, rule runs_parts(6) [OF ps assms(2)], simp add: assms(2))
      apply (rule runs_parts(1), simp, rule False, simp add: False)
      apply (rule fin; simp add: t assms(2) ends(1) False)
      done
  qed
qed

lemma touch_old_nodes:
  assumes "lm_nodes m (as @ x # bs)" and "as \<noteq> []"
  shows "runs (touch_old (fst x) m) (\<lambda>m'. lm_nodes m' (x # as @ bs) \<and> relinked m m')"
proof -
  let ?first = "first_or bs None" and ?last = "last_or None as"
  note ends = nodes_ends [OF assms(1)] and ps = parts_nodes [OF assms(1)]
  have d: "distinct (map fst (x # as @ bs))" using assms(1) by (auto simp: lm_nodes_def)
  have t: "lm_head m = Some (fst (hd as))" using ends assms(2) by simp
  have fin: "runs (bindE (set_previous m1 (Some (fst x)) None) (\<lambda>m. bindE (set_next m (Some (fst x)) (lm_head m)) (\<lambda>m.
        bindE (set_previous m (lm_head m) (Some (fst x))) (\<lambda>m. Inr (changed (m\<lparr>lm_head := Some (fst x)\<rparr>)))))) (\<lambda>m'. lm_nodes m' (x # as @ bs) \<and> relinked m m')"
    if ps: "parts (lm_store m1) None as ?first px x ?first ?last bs None" and t: "lm_head m1 = Some (fst (hd as))"
      and "lm_tail m1 = last_or None (as @ bs)" "lm_map m1 = lm_map m" "lm_size m1 = lm_size m" "lm_fresh m1 = lm_fresh m"
      "LinkedMap.more m1 = LinkedMap.more m" "lm_state m1 = lm_state m" for m1 px
    apply (rule runs_bind, rule runs_parts(4) [OF ps refl])
    apply (rule runs_bind, rule runs_parts(3), simp, rule refl)
    apply (rule runs_bind, rule runs_parts(2), simp, rule assms(2), simp add: t)
    using d that(2-) assms(2) by (simp add: lm_nodes_def relinked_def changed_def parts_def dseg_append)
  show ?thesis
  proof (cases "bs = []")
    case True
    show ?thesis
      unfolding touch_old_def Let_def ends(3-5) bindE_simps node_item_fields if_not_P [OF assms(2)] if_P [OF True]
      apply (rule runs_bind, rule runs_bind, rule runs_parts(1) [OF ps assms(2)], simp add: assms(2))
      apply (simp only: runs_Inr, rule fin [where px = ?last]; simp add: t assms(2) True parts_def)
      done
  next
    case False
    show ?thesis
      unfolding touch_old_def Let_def ends(3-5) bindE_simps node_item_fields if_not_P [OF assms(2)] if_not_P [OF False]
      apply (rule runs_bind, rule runs_bind, rule runs_parts(6) [OF ps False], simp add: False)
      apply (rule runs_parts(1), simp, rule assms(2), simp add: assms(2))
      apply (rule fin; simp add: t assms(2) ends(2) False)
      done
  qed
qed

text \<open>A new item, linked to nothing.\<close>

lemma new_item_parts:
  assumes "lm_nodes m ns" and "lm_store m (fst x) = Some (node_item None x None)" and "fst x \<notin> fst ` set ns"
  shows "parts (lm_store m) None ns None None x None (last_or None ns) [] None" "parts (lm_store m) None [] None None x None None ns None"
  using assms by (simp_all add: parts_def lm_nodes_def)

lemma addItemLast_nodes:
  assumes "lm_nodes m ns" and "lm_store m (fst x) = Some (node_item None x None)" and "fst x \<notin> fst ` set ns"
  shows "runs (addItemLast (fst x) m) (\<lambda>m'. lm_nodes m' (ns @ [x]) \<and> relinked m m')"
proof (cases "ns = []")
  case True
  then show ?thesis using assms by (simp add: addItemLast_def lm_nodes_def relinked_def changed_def)
next
  case False
  have d: "distinct (map fst (ns @ [x]))" and e: "lm_head m = Some (fst (hd ns))" "lm_tail m = Some (fst (last ns))"
    using assms(1,3) False by (simp_all add: lm_nodes_def)
  show ?thesis unfolding addItemLast_def
    apply (simp only: e option.distinct simp_thms if_False)
    apply (rule runs_bind, rule runs_bind, rule runs_parts(4) [OF new_item_parts(1) [OF assms] refl])
    apply (rule runs_parts(1), simp, rule False, simp add: e)
    using d False e by (simp add: lm_nodes_def relinked_def changed_def parts_def dseg_append)
qed

lemma addItemFirst_nodes:
  assumes "lm_nodes m ns" and "lm_store m (fst x) = Some (node_item None x None)" and "fst x \<notin> fst ` set ns"
  shows "runs (addItemFirst (fst x) m) (\<lambda>m'. lm_nodes m' (x # ns) \<and> relinked m m')"
proof (cases "ns = []")
  case True
  then show ?thesis using assms by (simp add: addItemFirst_def lm_nodes_def relinked_def changed_def)
next
  case False
  have d: "distinct (map fst (x # ns))" and e: "lm_head m = Some (fst (hd ns))" "lm_tail m = Some (fst (last ns))"
    using assms(1,3) False by (simp_all add: lm_nodes_def)
  show ?thesis unfolding addItemFirst_def
    apply (simp only: e option.distinct simp_thms if_False)
    apply (rule runs_bind, rule runs_bind, rule runs_parts(3) [OF new_item_parts(2) [OF assms] refl])
    apply (rule runs_parts(6), simp, rule False, simp add: e)
    using d False e by (simp add: lm_nodes_def relinked_def changed_def parts_def)
qed

lemma removeItem_nodes:
  assumes "lm_nodes m (as @ x # bs)"
  shows "runs (removeItem (fst x) m) (\<lambda>m'. lm_nodes m' (as @ bs) \<and> relinked m m' \<and> item_at m' (Some (fst x)) = Inr (node_item None x None))"
proof -
  let ?first = "first_or bs None" and ?last = "last_or None as"
  note ends = nodes_ends [OF assms] and ps = parts_nodes [OF assms]
  have d: "distinct (map fst (as @ bs))" using assms by (auto simp: lm_nodes_def)
  let ?unlinked = "\<lambda>m1. (\<exists>px nx. parts (lm_store m1) None as ?first px x nx ?last bs None) \<and> lm_head m1 = first_or (as @ bs) None \<and>
      lm_tail m1 = last_or None (as @ bs) \<and> lm_map m1 = lm_map m \<and> lm_size m1 = lm_size m \<and> lm_fresh m1 = lm_fresh m \<and>
      LinkedMap.more m1 = LinkedMap.more m \<and> lm_state m1 = lm_state m"
  have fin: "runs (bindE (set_next m1 (Some (fst x)) None) (\<lambda>m. bindE (set_previous m (Some (fst x)) None) (\<lambda>m. Inr (changed m))))
      (\<lambda>m'. lm_nodes m' (as @ bs) \<and> relinked m m' \<and> item_at m' (Some (fst x)) = Inr (node_item None x None))"
    if unlinked: "?unlinked m1" for m1
  proof -
    obtain px nx where ps: "parts (lm_store m1) None as ?first px x nx ?last bs None" using unlinked by blast
    show ?thesis
      apply (rule runs_bind, rule runs_parts(3) [OF ps refl])
      apply (rule runs_bind, rule runs_parts(4), simp, rule refl)
      using d unlinked by (auto simp: lm_nodes_def relinked_def changed_def nodes_of_parts(2) item_at_def parts_def)
  qed
  show ?thesis
    unfolding removeItem_def ends(3-5) bindE_simps node_item_fields
  proof (rule runs_bind, rule runs_mono [where Q = ?unlinked], goal_cases)
    case 1
    show ?case
      apply (cases "as = []"; cases "bs = []"; simp only: simp_thms if_True if_False)
         apply (use ps in \<open>auto simp: parts_def\<close>)[1]
        apply (simp, rule runs_bind, rule runs_parts(6) [OF ps], assumption, simp, simp add: ends)
        apply (auto simp: parts_def)[1]
       apply (simp, rule runs_bind, rule runs_parts(1) [OF ps], assumption, simp, simp add: ends)
       apply (auto simp: parts_def)[1]
      apply (simp, rule runs_bind, rule runs_parts(6) [OF ps], assumption, simp)
      apply (rule runs_parts(1), simp, assumption, simp, simp add: ends)
      apply blast
      done
  qed (rule fin)
qed

section \<open>The methods on the list of entries\<close>

definition indexed :: "('k \<Rightarrow> nat option) \<Rightarrow> ('k, 'v) node list \<Rightarrow> bool" where
  "indexed f ns \<longleftrightarrow> (\<forall>k a. f k = Some a \<longleftrightarrow> (\<exists>v. (a, k, v) \<in> set ns))"

definition lm_rep :: "('k, 'v, 'z) LinkedMap_scheme \<Rightarrow> ('k, 'v) node list \<Rightarrow> bool" where
  "lm_rep m ns \<longleftrightarrow> lm_nodes m ns \<and> distinct (map fst (map snd ns)) \<and> indexed (lm_map m) ns \<and> lm_size m = int (length ns) \<and>
     (\<forall>x \<in> set ns. fst x < lm_fresh m)"

text \<open>Every change of the order or of the keys counts up the state, which the iterators watch.\<close>

definition moves ::
  "('k, 'v, 'z) LinkedMap_scheme \<Rightarrow> ('k, 'v) node list \<Rightarrow> ('k, 'v, 'z) LinkedMap_scheme \<Rightarrow> ('k, 'v) node list \<Rightarrow> bool" where
  "moves m ns m' ns' \<longleftrightarrow> LinkedMap.more m' = LinkedMap.more m \<and> lm_state m \<le> lm_state m' \<and>
     (lm_state m' = lm_state m \<longrightarrow> map (\<lambda>x. (fst x, fst (snd x))) ns' = map (\<lambda>x. (fst x, fst (snd x))) ns)"

definition becomes ::
  "('k, 'v, 'z) LinkedMap_scheme \<Rightarrow> ('k, 'v) node list \<Rightarrow> ('k \<times> 'v) list \<Rightarrow> ('k, 'v, 'z) LinkedMap_scheme \<Rightarrow> bool" where
  "becomes m ns xs m' \<longleftrightarrow> (\<exists>ns'. lm_rep m' ns' \<and> map snd ns' = xs \<and> moves m ns m' ns')"

fun touched :: "Touch \<Rightarrow> 'k \<Rightarrow> 'v \<Rightarrow> ('k \<times> 'v) list \<Rightarrow> ('k \<times> 'v) list" where
  "touched TouchNone k v xs = AList.update k v xs"
| "touched AsOld k v xs = (k, v) # AList.delete k xs"
| "touched AsNew k v xs = AList.delete k xs @ [(k, v)]"

lemma moves_refl [simp]: "moves m ns m ns"
  by (simp add: moves_def)

lemma moves_trans: "moves m ns m' ns' \<Longrightarrow> moves m' ns' m'' ns'' \<Longrightarrow> moves m ns m'' ns''"
  by (auto simp: moves_def)

lemma becomes_same: "lm_rep m ns \<Longrightarrow> xs = map snd ns \<Longrightarrow> becomes m ns xs m"
  unfolding becomes_def by (rule exI [of _ ns]) simp

lemma delete_absent: "k \<notin> fst ` set xs \<Longrightarrow> AList.delete k xs = xs"
  by (simp add: delete_id)

lemma update_absent: "k \<notin> fst ` set xs \<Longrightarrow> AList.update k v xs = xs @ [(k, v)]"
  by (induction xs) auto

lemma update_present: "k \<notin> fst ` set xs \<Longrightarrow> AList.update k w (xs @ (k, v) # ys) = xs @ (k, w) # ys"
  by (induction xs) auto

lemma rep_lookup:
  assumes "lm_rep m ns"
  shows "lm_map m k = None \<Longrightarrow> k \<notin> fst ` set (map snd ns)"
    and "lm_map m k = Some a \<Longrightarrow> (\<And>as v bs. ns = as @ (a, k, v) # bs \<Longrightarrow> k \<notin> fst ` set (map snd as) \<Longrightarrow> k \<notin> fst ` set (map snd bs) \<Longrightarrow> thesis) \<Longrightarrow> thesis"
proof -
  show "k \<notin> fst ` set (map snd ns)" if "lm_map m k = None"
    using assms that by (force simp: lm_rep_def indexed_def)
  show thesis if "lm_map m k = Some a"
    "\<And>as v bs. ns = as @ (a, k, v) # bs \<Longrightarrow> k \<notin> fst ` set (map snd as) \<Longrightarrow> k \<notin> fst ` set (map snd bs) \<Longrightarrow> thesis"
  proof -
    have "\<exists>v. (a, k, v) \<in> set ns" using assms that(1) by (simp add: lm_rep_def indexed_def)
    then obtain v where "(a, k, v) \<in> set ns" ..
    then obtain as bs where "ns = as @ (a, k, v) # bs" by (auto simp: in_set_conv_decomp)
    with assms that(2) show thesis by (simp add: lm_rep_def image_image)
  qed
qed

lemma delete_append: "AList.delete k (xs @ ys) = AList.delete k xs @ AList.delete k ys"
  by (induction xs) auto

lemma entry_facts:
  assumes "k \<notin> fst ` set xs" and "k \<notin> fst ` set ys"
  shows "map_of (xs @ (k, v) # ys) k = Some v" "AList.delete k (xs @ (k, v) # ys) = xs @ ys"
    "AList.update k w (xs @ (k, v) # ys) = xs @ (k, w) # ys"
  using assms by (simp_all add: map_add_def map_of_eq_None_iff [THEN iffD2] delete_absent delete_append update_present)

lemma rep_reordered:
  assumes "lm_rep m ns" and "lm_nodes m' ns'" and "relinked m m'" and "mset ns' = mset ns"
  shows "lm_rep m' ns' \<and> moves m ns m' ns'"
proof -
  have "mset (map fst (map snd ns')) = mset (map fst (map snd ns))" using assms(4) by (simp add: mset_map)
  then have "distinct (map fst (map snd ns')) = distinct (map fst (map snd ns))" by (rule mset_eq_imp_distinct_iff)
  moreover have "set ns' = set ns" "length ns' = length ns" using assms(4) by (auto dest: mset_eq_setD mset_eq_length)
  ultimately show ?thesis using assms(1-3) by (simp add: lm_rep_def relinked_def moves_def indexed_def)
qed

lemma item_in_rep:
  assumes "lm_rep m ns" and "(a, k, v) \<in> set ns"
  shows "runs (item_at m (Some a)) (\<lambda>item. item_value item = v \<and> item_key item = k)"
proof -
  obtain as bs where "ns = as @ (a, k, v) # bs" using assms(2) by (auto simp: in_set_conv_decomp)
  then show ?thesis using assms(1) nodes_ends(5) [of m as "(a, k, v)" bs] by (simp add: lm_rep_def)
qed

lemma touch_becomes:
  assumes rep: "lm_rep m ns" and ns: "ns = as @ (a, k, v) # bs"
  shows "runs (LinkedMap_touch a touch m) (\<lambda>m'. runs (item_at m' (Some a)) (\<lambda>item. item_value item = v) \<and>
     becomes m ns (if touch = TouchNone then map snd ns else touched touch k v (map snd ns)) m')"
proof -
  have n: "lm_nodes m (as @ (a, k, v) # bs)" and k: "k \<notin> fst ` set (map snd as)" "k \<notin> fst ` set (map snd bs)"
    using rep ns by (simp_all add: lm_rep_def image_image)
  note ends = nodes_ends [OF n, simplified]
  have some: "(lm_head m = None \<or> lm_tail m = None) = False" using ends(1,2) by (simp split: if_splits)
  have xs: "AList.delete k (map snd ns) = map snd (as @ bs)" using entry_facts(2) [OF k] by (simp add: ns)
  have same: "runs (item_at m (Some a)) (\<lambda>item. item_value item = v) \<and> becomes m ns ys m" if "ys = map snd ns" for ys
    using item_in_rep [OF rep, of a k v] ns becomes_same [OF rep that] by (auto elim: runs_mono)
  have moved: "runs (item_at m' (Some a)) (\<lambda>item. item_value item = v) \<and> becomes m ns ys m'"
    if "lm_nodes m' ns' \<and> relinked m m'" "mset ns' = mset ns" "ys = map snd ns'" for m' ns' ys
  proof -
    have "lm_rep m' ns' \<and> moves m ns m' ns'" using that rep_reordered [OF rep] by blast
    moreover have "(a, k, v) \<in> set ns'" using that(2) ns by (metis in_set_conv_decomp set_mset_mset)
    ultimately show ?thesis using item_in_rep [of m' ns' a k v] that(3) by (auto simp: becomes_def elim: runs_mono)
  qed
  show ?thesis
  proof (cases touch)
    case TouchNone
    then show ?thesis using same by (simp add: LinkedMap_touch_def some)
  next
    case AsOld
    show ?thesis
    proof (cases "as = []")
      case True
      then show ?thesis using same AsOld ends(3) xs ns by (simp add: LinkedMap_touch_def some touch_old_def)
    next
      case False
      have "runs (touch_old a m) (\<lambda>m'. lm_nodes m' ((a, k, v) # as @ bs) \<and> relinked m m')"
        using touch_old_nodes [OF n False] by simp
      then show ?thesis using AsOld by (simp add: LinkedMap_touch_def some xs) (erule runs_mono, erule moved; simp add: ns)
    qed
  next
    case AsNew
    show ?thesis
    proof (cases "bs = []")
      case True
      then show ?thesis using same AsNew ends(4) xs ns by (simp add: LinkedMap_touch_def some touch_new_def)
    next
      case False
      have "runs (touch_new a m) (\<lambda>m'. lm_nodes m' (as @ bs @ [(a, k, v)]) \<and> relinked m m')"
        using touch_new_nodes [OF n False] by simp
      then show ?thesis using AsNew by (simp add: LinkedMap_touch_def some xs) (erule runs_mono, erule moved; simp add: ns)
    qed
  qed
qed

lemma get_becomes:
  assumes "lm_rep m ns"
  shows "runs (LinkedMap_get k touch m) (\<lambda>(r, m'). r = map_of (map snd ns) k \<and>
     becomes m ns (case map_of (map snd ns) k of Some v \<Rightarrow> if touch = TouchNone then map snd ns else touched touch k v (map snd ns)
                   | None \<Rightarrow> map snd ns) m')"
proof (cases "lm_map m k")
  case None
  have "map_of (map snd ns) k = None" using rep_lookup(1) [OF assms None] by (simp add: map_of_eq_None_iff)
  then show ?thesis using None assms by (simp add: LinkedMap_get_def becomes_same)
next
  case (Some a)
  obtain as v bs where ns: "ns = as @ (a, k, v) # bs" and k: "k \<notin> fst ` set (map snd as)" "k \<notin> fst ` set (map snd bs)"
    using rep_lookup(2) [OF assms Some] by blast
  have v: "map_of (map snd ns) k = Some v" using entry_facts(1) [OF k] by (simp add: ns)
  have "runs (if touch \<noteq> TouchNone then LinkedMap_touch a touch m else Inr m) (\<lambda>m'. runs (item_at m' (Some a)) (\<lambda>item. item_value item = v) \<and>
     becomes m ns (if touch = TouchNone then map snd ns else touched touch k v (map snd ns)) m')"
    using touch_becomes [OF assms ns, of touch] item_in_rep [OF assms, of a k v] becomes_same [OF assms refl] ns
    by (auto elim: runs_mono)
  then show ?thesis unfolding LinkedMap_get_def Some option.case v
    by (intro runs_bind) (auto simp: runs_def)
qed

lemma becomes_trans: "moves m ns m1 ns1 \<Longrightarrow> becomes m1 ns1 xs m2 \<Longrightarrow> becomes m ns xs m2"
  using moves_trans unfolding becomes_def by blast

lemma write_value_rep:
  assumes rep: "lm_rep m (as @ (a, k, v) # bs)"
  shows "runs (write_item m (Some a) (\<lambda>it. it\<lparr>item_value := w\<rparr>)) (\<lambda>m1. lm_rep m1 (as @ (a, k, w) # bs) \<and>
    moves m (as @ (a, k, v) # bs) m1 (as @ (a, k, w) # bs))"
proof -
  have "a \<notin> fst ` set as" "a \<notin> fst ` set bs" using rep by (simp_all add: lm_rep_def lm_nodes_def)
  then show ?thesis
    using rep by (auto simp: lm_rep_def lm_nodes_def write_item_def item_at_def dseg_append moves_def indexed_def)
qed

lemma indexed_add:
  assumes "indexed f ns" and "k \<notin> fst ` set (map snd ns)" and "set ns' = insert (a, k, v) (set ns)"
  shows "indexed (f(k \<mapsto> a)) ns'"
proof -
  have "(b, k, w) \<notin> set ns" for b w using assms(2) by force
  then show ?thesis using assms(1,3) by (auto simp: indexed_def)
qed

lemma indexed_remove:
  assumes "indexed f (as @ (a, k, v) # bs)" and "k \<notin> fst ` set (map snd as)" and "k \<notin> fst ` set (map snd bs)"
  shows "indexed (f(k := None)) (as @ bs)"
proof -
  have "(b, k, w) \<notin> set (as @ bs)" for b w using assms(2,3) by force
  then show ?thesis using assms(1) by (auto simp: indexed_def)
qed

lemma new_item_rep:
  assumes rep: "lm_rep m ns" and new: "lm_map m k = None"
    and nodes: "lm_nodes m2 ns'" "mset ns' = mset ((lm_fresh m, k, v) # ns)"
    and linked: "relinked (m\<lparr>lm_store := h, lm_fresh := lm_fresh m + 1\<rparr>) m2"
    and m': "m' = m2\<lparr>lm_map := (lm_map m2)(k \<mapsto> lm_fresh m), lm_size := lm_size m2 + 1\<rparr>"
  shows "lm_rep m' ns' \<and> moves m ns m' ns'"
proof -
  have k: "k \<notin> fst ` set (map snd ns)" by (rule rep_lookup(1) [OF rep new])
  have set': "set ns' = insert (lm_fresh m, k, v) (set ns)" and len: "length ns' = length ns + 1"
    using mset_eq_setD [OF nodes(2)] mset_eq_length [OF nodes(2)] by simp_all
  have "mset (map fst (map snd ns')) = mset (map fst (map snd ((lm_fresh m, k, v) # ns)))" using nodes(2) by (simp add: mset_map)
  then have "distinct (map fst (map snd ns')) = distinct (map fst (map snd ((lm_fresh m, k, v) # ns)))" by (rule mset_eq_imp_distinct_iff)
  moreover have "distinct (map fst (map snd ((lm_fresh m, k, v) # ns)))" using rep k by (simp add: lm_rep_def image_image)
  moreover have "indexed (lm_map m') ns'"
    using indexed_add [of "lm_map m" ns k ns' "lm_fresh m" v] rep linked k set' by (simp add: relinked_def lm_rep_def m')
  ultimately show ?thesis
    using rep linked nodes(1) len by (auto simp: lm_rep_def relinked_def m' set' moves_def lm_nodes_def)
qed

lemma set_becomes:
  assumes "lm_rep m ns"
  shows "runs (LinkedMap_set k v touch m) (becomes m ns (touched touch k v (map snd ns)))"
proof (cases "lm_map m k")
  case (Some a)
  obtain as w bs where ns: "ns = as @ (a, k, w) # bs" and k: "k \<notin> fst ` set (map snd as)" "k \<notin> fst ` set (map snd bs)"
    using rep_lookup(2) [OF assms Some] by blast
  let ?ns = "as @ (a, k, v) # bs"
  have xs: "(if touch = TouchNone then map snd ?ns else touched touch k v (map snd ?ns)) = touched touch k v (map snd ns)"
    using entry_facts [OF k] by (cases touch) (simp_all add: ns)
  have "runs (if touch \<noteq> TouchNone then LinkedMap_touch a touch m1 else Inr m1) (becomes m ns (touched touch k v (map snd ns)))"
    if m1: "lm_rep m1 ?ns \<and> moves m ns m1 ?ns" for m1
    using touch_becomes [of m1 ?ns as a k v bs touch] becomes_same [of m1 ?ns] that becomes_trans unfolding xs [symmetric]
    by (auto elim!: runs_mono)
  then show ?thesis unfolding LinkedMap_set_def Some option.case
    using write_value_rep [of m as a k w bs v] assms ns by (intro runs_bind) (auto elim!: runs_mono)
next
  case None
  let ?a = "lm_fresh m" and ?x = "(lm_fresh m, k, v)"
  let ?m = "m\<lparr>lm_store := (lm_store m)(?a \<mapsto> \<lparr>item_previous = None, item_next = None, item_key = k, item_value = v\<rparr>), lm_fresh := ?a + 1\<rparr>"
  have a: "fst ?x \<notin> fst ` set ns" using assms by (auto simp: lm_rep_def)
  have nodes: "lm_nodes ?m ns" using assms a by (simp add: lm_rep_def lm_nodes_def)
  have item: "lm_store ?m (fst ?x) = Some (node_item None ?x None)" by simp
  have k: "k \<notin> fst ` set (map snd ns)" by (rule rep_lookup(1) [OF assms None])
  have fin: "becomes m ns (map snd ns') (m2\<lparr>lm_map := (lm_map m2)(k \<mapsto> ?a), lm_size := lm_size m2 + 1\<rparr>)"
    if "lm_nodes m2 ns' \<and> relinked ?m m2" "mset ns' = mset (?x # ns)" for m2 ns'
    using new_item_rep [OF assms None _ that(2) _ refl] that(1) unfolding becomes_def by blast
  have first: "runs (addItemFirst ?a ?m) (\<lambda>m2. lm_nodes m2 (?x # ns) \<and> relinked ?m m2)"
    and last: "runs (addItemLast ?a ?m) (\<lambda>m2. lm_nodes m2 (ns @ [?x]) \<and> relinked ?m m2)"
    using addItemFirst_nodes [OF nodes item a] addItemLast_nodes [OF nodes item a] by simp_all
  have xs: "touched AsOld k v (map snd ns) = map snd (?x # ns)" "touched AsNew k v (map snd ns) = map snd (ns @ [?x])"
    "touched TouchNone k v (map snd ns) = map snd (ns @ [?x])"
    using k by (simp_all add: delete_absent update_absent)
  show ?thesis unfolding LinkedMap_set_def None option.case Let_def
    apply (cases touch; simp only: Touch.case xs)
      apply (rule runs_bind, rule runs_mono [OF last], simp only: runs_Inr, erule fin, simp)
     apply (rule runs_bind, rule runs_mono [OF first], simp only: runs_Inr, erule fin, simp)
    apply (rule runs_bind, rule runs_mono [OF last], simp only: runs_Inr, erule fin, simp)
    done
qed

lemma remove_becomes:
  assumes rep: "lm_rep m (as @ (a, k, v) # bs)"
  shows "runs (removeItem a (m\<lparr>lm_map := (lm_map m)(k := None)\<rparr>)) (\<lambda>m2.
    becomes m (as @ (a, k, v) # bs) (map snd (as @ bs)) (m2\<lparr>lm_size := lm_size m2 - 1\<rparr>) \<and>
    runs (item_at m2 (Some a)) (\<lambda>it. item_value it = v))"
proof -
  let ?m = "m\<lparr>lm_map := (lm_map m)(k := None)\<rparr>" and ?ns = "as @ (a, k, v) # bs"
  have nodes: "lm_nodes ?m ?ns" and k: "k \<notin> fst ` set (map snd as)" "k \<notin> fst ` set (map snd bs)"
    using rep by (simp_all add: lm_rep_def lm_nodes_def image_image)
  have "lm_rep (m2\<lparr>lm_size := lm_size m2 - 1\<rparr>) (as @ bs) \<and> moves m ?ns (m2\<lparr>lm_size := lm_size m2 - 1\<rparr>) (as @ bs)"
    if "lm_nodes m2 (as @ bs)" "relinked ?m m2" for m2
  proof -
    have "indexed (lm_map m2) (as @ bs)"
      using indexed_remove [of "lm_map m" as a k v bs] rep that(2) k by (simp add: relinked_def lm_rep_def)
    then show ?thesis using rep that by (auto simp: lm_rep_def relinked_def moves_def lm_nodes_def)
  qed
  then show ?thesis
    using removeItem_nodes [OF nodes] by (auto simp: becomes_def elim!: runs_mono intro!: exI [of _ "as @ bs"])
qed

lemma LinkedMap_remove_becomes:
  assumes "lm_rep m ns"
  shows "runs (LinkedMap_remove k m) (\<lambda>(r, m'). r = map_of (map snd ns) k \<and> becomes m ns (AList.delete k (map snd ns)) m')"
proof (cases "lm_map m k")
  case None
  have "k \<notin> fst ` set (map snd ns)" by (rule rep_lookup(1) [OF assms None])
  then show ?thesis using None assms
    by (simp add: LinkedMap_remove_def becomes_same delete_absent map_of_eq_None_iff [THEN iffD2])
next
  case (Some a)
  obtain as v bs where ns: "ns = as @ (a, k, v) # bs" and k: "k \<notin> fst ` set (map snd as)" "k \<notin> fst ` set (map snd bs)"
    using rep_lookup(2) [OF assms Some] by blast
  have xs: "map_of (map snd ns) k = Some v" "AList.delete k (map snd ns) = map snd (as @ bs)"
    using entry_facts(1,2) [OF k] by (simp_all add: ns)
  show ?thesis unfolding LinkedMap_remove_def Some option.case xs
    using remove_becomes [OF assms [unfolded ns]] unfolding ns
    by (intro runs_bind) (auto simp: runs_def item_at_def)
qed

lemma LinkedMap_shift_becomes:
  assumes "lm_rep m ns"
  shows "runs (LinkedMap_shift m) (\<lambda>(r, m'). r = map_option snd (case ns of [] \<Rightarrow> None | x # _ \<Rightarrow> Some (snd x)) \<and> becomes m ns (tl (map snd ns)) m')"
proof (cases ns)
  case Nil
  then show ?thesis using assms by (simp add: LinkedMap_shift_def lm_rep_def lm_nodes_def becomes_same)
next
  case (Cons x bs)
  obtain a k v where x: "x = (a, k, v)" by (cases x)
  have n: "lm_nodes m ([] @ (a, k, v) # bs)" and rep: "lm_rep m ([] @ (a, k, v) # bs)" using assms Cons x by (simp_all add: lm_rep_def)
  note ends = nodes_ends [OF n]
  have t: "lm_head m = Some a" "lm_tail m = None \<longleftrightarrow> False" "item_at m (Some a) = Inr (node_item None (a, k, v) (first_or bs None))"
    using ends by (simp_all split: if_splits)
  have "runs (bindE (removeItem a (m\<lparr>lm_map := (lm_map m)(k := None)\<rparr>)) (\<lambda>m. let m = m\<lparr>lm_size := lm_size m - 1\<rparr>
      in bindE (item_at m (Some a)) (\<lambda>it. Inr (Some (item_value it), m)))) (\<lambda>(r, m'). r = Some v \<and> becomes m ns (map snd bs) m')"
    using remove_becomes [OF rep] by (intro runs_bind) (auto simp: runs_def item_at_def Cons x)
  then show ?thesis by (simp add: LinkedMap_shift_def t Cons x)
qed

lemma clear_becomes: "becomes m ns [] (LinkedMap_clear m)"
  unfolding becomes_def
  by (rule exI [of _ "[]"]) (simp add: LinkedMap_clear_def changed_def lm_rep_def lm_nodes_def indexed_def moves_def)

lemma lm_rep_queries:
  assumes "lm_rep m ns"
  shows "LinkedMap_isEmpty m \<longleftrightarrow> map snd ns = []" "LinkedMap_size m = int (length (map snd ns))"
    "LinkedMap_has k m \<longleftrightarrow> k \<in> fst ` set (map snd ns)"
    "LinkedMap_first m = Inr (map_option snd (case map snd ns of [] \<Rightarrow> None | x # _ \<Rightarrow> Some x))"
    "LinkedMap_last m = Inr (if map snd ns = [] then None else Some (snd (last (map snd ns))))"
proof -
  show "LinkedMap_isEmpty m \<longleftrightarrow> map snd ns = []" "LinkedMap_size m = int (length (map snd ns))"
    using assms by (cases "ns = []"; simp add: lm_rep_def lm_nodes_def LinkedMap_isEmpty_def LinkedMap_size_def)+
  show "LinkedMap_has k m \<longleftrightarrow> k \<in> fst ` set (map snd ns)"
    using assms by (force simp: LinkedMap_has_def lm_rep_def indexed_def)
  show "LinkedMap_first m = Inr (map_option snd (case map snd ns of [] \<Rightarrow> None | x # _ \<Rightarrow> Some x))"
  proof (cases ns)
    case Nil
    then show ?thesis using assms by (simp add: LinkedMap_first_def value_of_def lm_rep_def lm_nodes_def)
  next
    case (Cons x bs)
    then have n: "lm_nodes m ([] @ x # bs)" using assms by (simp add: lm_rep_def)
    show ?thesis using nodes_ends [OF n] Cons by (simp add: LinkedMap_first_def value_of_def)
  qed
  show "LinkedMap_last m = Inr (if map snd ns = [] then None else Some (snd (last (map snd ns))))"
  proof (cases ns rule: rev_cases)
    case Nil
    then show ?thesis using assms by (simp add: LinkedMap_last_def value_of_def lm_rep_def lm_nodes_def)
  next
    case (snoc as x)
    then have n: "lm_nodes m (as @ x # [])" using assms by (simp add: lm_rep_def)
    show ?thesis using nodes_ends [OF n] snoc by (simp add: LinkedMap_last_def value_of_def)
  qed
qed

section \<open>Iteration\<close>

text \<open>A callback that leaves the map alone sees the entries in order.\<close>

lemma forEach_loop_nodes:
  assumes "lm_nodes m (as @ bs)"
  shows "forEach_loop (\<lambda>v k (s, m). Inr (f v k s, m)) (lm_state m) (first_or bs None) (s, m) =
     Some (Inr (fold (\<lambda>(k, v). f v k) (map snd bs) s, m))"
  using assms
proof (induction bs arbitrary: as s)
  case Nil
  then show ?case by (simp add: forEach_loop.simps)
next
  case (Cons x bs)
  obtain a k v where x: "x = (a, k, v)" by (cases x)
  note ends = nodes_ends [OF Cons.prems]
  show ?case
    using Cons.IH [of "as @ [x]"] Cons.prems ends(5) by (subst forEach_loop.simps) (simp add: x)
qed

lemma LinkedMap_forEach_rep:
  assumes "lm_rep m ns"
  shows "LinkedMap_forEach (\<lambda>v k (s, m). Inr (f v k s, m)) s m = Some (Inr (fold (\<lambda>(k, v). f v k) (map snd ns) s, m))"
  using forEach_loop_nodes [of m "[]" ns f s] assms by (simp add: LinkedMap_forEach_def lm_rep_def lm_nodes_def)

lemma LinkedMap_toJSON_rep:
  assumes "lm_rep m ns"
  shows "LinkedMap_toJSON m = Some (Inr (map snd ns, m))"
proof -
  have "fold (\<lambda>(k, v) data. data @ [(k, v)]) xs acc = acc @ xs" for xs acc :: "('a \<times> 'b) list"
    by (induction xs arbitrary: acc) auto
  then show ?thesis
    using LinkedMap_forEach_rep [OF assms, of "\<lambda>v k data. data @ [(k, v)]" "[]"] by (simp add: LinkedMap_toJSON_def)
qed

section \<open>Trimming\<close>

definition forget :: "'k set \<Rightarrow> ('k, 'v, 'z) LinkedMap_scheme \<Rightarrow> ('k, 'v, 'z) LinkedMap_scheme" where
  "forget ks m = m\<lparr>lm_map := (\<lambda>k. if k \<in> ks then None else lm_map m k)\<rparr>"

lemma trimOld_loop_nodes:
  assumes "dseg (lm_store m) p ns None" and "0 \<le> n" and "d = length ns - nat n"
  shows "trimOld_loop n (first_or ns None) (int (length ns)) m =
     Inr (first_or (drop d ns) None, int (length ns - d), forget (fst ` set (map snd (take d ns))) m)"
  using assms
proof (induction ns arbitrary: m p d)
  case Nil
  then show ?case by (simp add: trimOld_loop.simps forget_def)
next
  case (Cons x ns)
  show ?case
  proof (cases "n < int (length (x # ns))")
    case True
    then obtain e where e: "d = Suc e" "e = length ns - nat n" using Cons.prems(2,3) by (cases d) auto
    have item: "item_at m (Some (fst x)) = Inr (node_item p x (first_or ns None))" using Cons.prems(1) by (simp add: item_at_def)
    show ?thesis
      using Cons.IH [of "m\<lparr>lm_map := (lm_map m)(fst (snd x) := None)\<rparr>" "Some (fst x)" e] Cons.prems(1,2) True e item
      by (subst trimOld_loop.simps) (auto simp: forget_def fun_eq_iff)
  next
    case False
    then have "d = 0" using Cons.prems by simp
    then show ?thesis using False by (subst trimOld_loop.simps) (simp add: forget_def)
  qed
qed

lemma trimNew_loop_nodes:
  assumes "dseg (lm_store m) None ns n'" and "0 \<le> n" and "d = nat n"
  shows "trimNew_loop n (last_or None ns) (int (length ns)) m =
     Inr (last_or None (take d ns), int (min d (length ns)), forget (fst ` set (map snd (drop d ns))) m)"
  using assms
proof (induction ns arbitrary: m n' rule: rev_induct)
  case Nil
  then show ?case by (simp add: trimNew_loop.simps forget_def)
next
  case (snoc x ns)
  show ?case
  proof (cases "n < int (length (ns @ [x]))")
    case True
    have item: "item_at m (Some (fst x)) = Inr (node_item (last_or None ns) x n')" using snoc.prems(1) by (simp add: item_at_def dseg_append)
    have seg: "dseg (lm_store m) None ns (Some (fst x))" using snoc.prems(1) by (simp add: dseg_append)
    have d: "d \<le> length ns" using True snoc.prems(2,3) by simp
    show ?thesis
      using snoc.IH [of "m\<lparr>lm_map := (lm_map m)(fst (snd x) := None)\<rparr>" "Some (fst x)"] snoc.prems(2,3) True seg item d
      by (subst trimNew_loop.simps) (auto simp: forget_def fun_eq_iff min_def)
  next
    case False
    then have "length (ns @ [x]) \<le> d" using snoc.prems by simp
    then show ?thesis using False by (subst trimNew_loop.simps) (simp add: forget_def min_def)
  qed
qed

lemma node_key: "(a, k, v) \<in> set xs \<Longrightarrow> k \<in> fst ` set (map snd xs)"
  by force

lemma indexed_forget:
  assumes "indexed f (as @ bs)" and "distinct (map fst (map snd (as @ bs)))"
  shows "indexed (\<lambda>k. if k \<in> fst ` set (map snd as) then None else f k) bs"
    and "indexed (\<lambda>k. if k \<in> fst ` set (map snd bs) then None else f k) as"
proof -
  have disj: "k \<in> fst ` set (map snd as) \<Longrightarrow> k \<in> fst ` set (map snd bs) \<Longrightarrow> False" for k
    using assms(2) by (simp add: disjoint_iff image_image)
  have f: "f k = Some a \<longleftrightarrow> (\<exists>v. (a, k, v) \<in> set as) \<or> (\<exists>v. (a, k, v) \<in> set bs)" for k a
    using assms(1) by (auto simp: indexed_def)
  show "indexed (\<lambda>k. if k \<in> fst ` set (map snd as) then None else f k) bs"
    unfolding indexed_def if_split_eq1 using f node_key [where xs = as] node_key [where xs = bs] disj by blast
  show "indexed (\<lambda>k. if k \<in> fst ` set (map snd bs) then None else f k) as"
    unfolding indexed_def if_split_eq1 using f node_key [where xs = as] node_key [where xs = bs] disj by blast
qed

lemma trimOld_becomes:
  assumes rep: "lm_rep m ns" and n: "0 \<le> n"
  shows "runs (trimOld n m) (becomes m ns (drop (length ns - nat n) (map snd ns)))"
proof -
  have size: "lm_size m = int (length ns)" using rep by (simp add: lm_rep_def)
  consider "n \<ge> int (length ns)" | "n = 0" "n < int (length ns)" | "0 < n" "n < int (length ns)" using n by linarith
  then show ?thesis
  proof cases
    case 1
    then show ?thesis using rep by (simp add: trimOld_def size becomes_same nat_le_iff)
  next
    case 2
    then show ?thesis using clear_becomes by (simp add: trimOld_def size)
  next
    case 3
    define d where "d = length ns - nat n"
    let ?as = "take d ns" and ?bs = "drop d ns"
    have d: "d < length ns" "int (length ns - d) = n" using 3 by (simp_all add: d_def)
    have bs: "?bs \<noteq> []" using d by simp
    have nodes: "dseg (lm_store m) None ns None" "distinct (map fst ns)" "lm_head m = first_or ns None" "lm_tail m = last_or None ns"
      "distinct (map fst (map snd ns))" "indexed (lm_map m) ns" "\<forall>x \<in> set ns. fst x < lm_fresh m"
      using rep by (simp_all add: lm_rep_def lm_nodes_def)
    have split: "ns = ?as @ ?bs" by simp
    have seg: "dseg (lm_store m) (last_or None ?as) ?bs None" using nodes(1) by (subst (asm) split) (simp only: dseg_append)
    have db: "distinct (map fst ?bs)" using nodes(2) by (simp add: drop_map [symmetric])
    have idx: "indexed (\<lambda>k. if k \<in> fst ` set (map snd ?as) then None else lm_map m k) ?bs"
      using nodes(5,6) by (intro indexed_forget) simp_all
    let ?m = "(forget (fst ` set (map snd ?as)) m)\<lparr>lm_head := first_or ?bs None, lm_size := n\<rparr>"
    have loop: "trimOld_loop n (lm_head m) (lm_size m) m = Inr (first_or ?bs None, n, forget (fst ` set (map snd ?as)) m)"
      using trimOld_loop_nodes [OF nodes(1) n d_def] by (simp only: nodes(3) size d(2))
    have "runs (set_previous ?m (Some (fst (hd ?bs))) None) (\<lambda>m1. becomes m ns (map snd ?bs) (changed m1))"
    proof (rule runs_set_previous [OF _ bs db])
      show "dseg (lm_store ?m) (last_or None ?as) ?bs None" using seg by (simp add: forget_def)
      fix item
      assume a: "dseg ((lm_store ?m)(fst (hd ?bs) \<mapsto> item)) None ?bs None"
      have "last_or None ns = last_or None ?bs" using d by (cases ns) (auto simp: last_or_def)
      moreover have "\<forall>x \<in> set ?bs. fst x < lm_fresh m" using nodes(7) in_set_dropD by fastforce
      ultimately show "becomes m ns (map snd ?bs) (changed (?m\<lparr>lm_store := (lm_store ?m)(fst (hd ?bs) \<mapsto> item)\<rparr>))"
        unfolding becomes_def using a db bs idx nodes(4,5) d
        by (intro exI [of _ ?bs]) (simp add: lm_rep_def lm_nodes_def changed_def moves_def forget_def drop_map [symmetric] distinct_drop)
    qed
    then show ?thesis using 3 bs unfolding trimOld_def loop bindE_simps
      by (simp add: size) (rule runs_bind, simp add: drop_map d_def [symmetric])
  qed
qed

lemma trimNew_becomes:
  assumes rep: "lm_rep m ns" and n: "0 \<le> n"
  shows "runs (trimNew n m) (becomes m ns (take (nat n) (map snd ns)))"
proof -
  have size: "lm_size m = int (length ns)" using rep by (simp add: lm_rep_def)
  consider "n \<ge> int (length ns)" | "n = 0" "n < int (length ns)" | "0 < n" "n < int (length ns)" using n by linarith
  then show ?thesis
  proof cases
    case 1
    then show ?thesis using rep by (simp add: trimNew_def size becomes_same)
  next
    case 2
    then show ?thesis using clear_becomes by (simp add: trimNew_def size)
  next
    case 3
    define d where "d = nat n"
    let ?as = "take d ns" and ?bs = "drop d ns"
    have d: "d < length ns" "0 < d" "int (min d (length ns)) = n" using 3 by (simp_all add: d_def)
    have as: "?as \<noteq> []" using d by auto
    have nodes: "dseg (lm_store m) None ns None" "distinct (map fst ns)" "lm_head m = first_or ns None" "lm_tail m = last_or None ns"
      "distinct (map fst (map snd ns))" "indexed (lm_map m) ns" "\<forall>x \<in> set ns. fst x < lm_fresh m"
      using rep by (simp_all add: lm_rep_def lm_nodes_def)
    have split: "ns = ?as @ ?bs" by simp
    have seg: "dseg (lm_store m) None ?as (first_or ?bs None)" using nodes(1) by (subst (asm) split) (simp only: dseg_append)
    have da: "distinct (map fst ?as)" using nodes(2) by (simp add: take_map [symmetric] distinct_take)
    have idx: "indexed (\<lambda>k. if k \<in> fst ` set (map snd ?bs) then None else lm_map m k) ?as"
      using nodes(5,6) by (intro indexed_forget) simp_all
    let ?m = "(forget (fst ` set (map snd ?bs)) m)\<lparr>lm_tail := last_or None ?as, lm_size := n\<rparr>"
    have loop: "trimNew_loop n (lm_tail m) (lm_size m) m = Inr (last_or None ?as, n, forget (fst ` set (map snd ?bs)) m)"
      using trimNew_loop_nodes [OF nodes(1) n d_def] by (simp only: nodes(4) size d(3))
    have "runs (set_next ?m (Some (fst (last ?as))) None) (\<lambda>m1. becomes m ns (map snd ?as) (changed m1))"
    proof (rule runs_set_next [OF _ as da])
      show "dseg (lm_store ?m) None ?as (first_or ?bs None)" using seg by (simp add: forget_def)
      fix item
      assume a: "dseg ((lm_store ?m)(fst (last ?as) \<mapsto> item)) None ?as None"
      have "first_or ns None = first_or ?as None" using d by (cases ns; cases d) simp_all
      moreover have "\<forall>x \<in> set ?as. fst x < lm_fresh m" using nodes(7) in_set_takeD by fastforce
      ultimately show "becomes m ns (map snd ?as) (changed (?m\<lparr>lm_store := (lm_store ?m)(fst (last ?as) \<mapsto> item)\<rparr>))"
        unfolding becomes_def using a da as idx nodes(3,5) d
        by (intro exI [of _ ?as]) (simp add: lm_rep_def lm_nodes_def changed_def moves_def forget_def take_map [symmetric] distinct_take)
    qed
    then show ?thesis using 3 as unfolding trimNew_def loop bindE_simps
      by (simp add: size) (rule runs_bind, simp add: take_map d_def [symmetric])
  qed
qed

end
