(* ===== verification/LinkedMapCalls.thy ===== *)
theory LinkedMapCalls
  imports LinkedMapRefinement Simulation
begin

text \<open>
  Whole sequences of calls: the linked map behaves as a list of entries with distinct keys, its
  iterators fail rather than follow the links of removed items, and the two caches keep within
  their limits.
\<close>

section \<open>The linked map\<close>

datatype ('k, 'v) lm_call =
  CallClear | CallIsEmpty | CallSize | CallFirst | CallLast | CallHas 'k | CallGet 'k Touch | CallSet 'k 'v Touch
| CallDelete 'k | CallRemove 'k | CallShift | CallToJSON | CallFromJSON "('k \<times> 'v) list"

datatype ('k, 'v) lm_answer = Done | IsTrue bool | Count int | Found "'v option" | Entries "('k \<times> 'v) list"

definition call_result :: "('a \<Rightarrow> 'r) \<Rightarrow> ('a \<times> 'c) result \<Rightarrow> ('r \<times> 'c) result option" where
  "call_result answer r = Some (bindE r (\<lambda>(x, c). Inr (answer x, c)))"

fun LinkedMap_call :: "('v \<Rightarrow> bool) \<Rightarrow> ('k, 'v) lm_call \<Rightarrow> ('k, 'v) LinkedMap \<Rightarrow> (('k, 'v) lm_answer \<times> ('k, 'v) LinkedMap) result option" where
  "LinkedMap_call truthy CallClear m = Some (Inr (Done, LinkedMap_clear m))"
| "LinkedMap_call truthy CallIsEmpty m = Some (Inr (IsTrue (LinkedMap_isEmpty m), m))"
| "LinkedMap_call truthy CallSize m = Some (Inr (Count (LinkedMap_size m), m))"
| "LinkedMap_call truthy CallFirst m = Some (bindE (LinkedMap_first m) (\<lambda>v. Inr (Found v, m)))"
| "LinkedMap_call truthy CallLast m = Some (bindE (LinkedMap_last m) (\<lambda>v. Inr (Found v, m)))"
| "LinkedMap_call truthy (CallHas k) m = Some (Inr (IsTrue (LinkedMap_has k m), m))"
| "LinkedMap_call truthy (CallGet k touch) m = call_result Found (LinkedMap_get k touch m)"
| "LinkedMap_call truthy (CallSet k v touch) m = Some (bindE (LinkedMap_set k v touch m) (\<lambda>m. Inr (Done, m)))"
| "LinkedMap_call truthy (CallDelete k) m = call_result IsTrue (LinkedMap_delete truthy k m)"
| "LinkedMap_call truthy (CallRemove k) m = call_result Found (LinkedMap_remove k m)"
| "LinkedMap_call truthy CallShift m = call_result Found (LinkedMap_shift m)"
| "LinkedMap_call truthy CallToJSON m = (case LinkedMap_toJSON m of None \<Rightarrow> None | Some r \<Rightarrow> call_result Entries r)"
| "LinkedMap_call truthy (CallFromJSON data) m =
     Some (bindE (LinkedMap_fromJSON (\<lambda>k v. LinkedMap_set k v TouchNone) data m) (\<lambda>m. Inr (Done, m)))"

text \<open>The same calls on the list of entries, oldest first.\<close>

definition get_entries :: "'k \<Rightarrow> Touch \<Rightarrow> ('k \<times> 'v) list \<Rightarrow> ('k \<times> 'v) list" where
  "get_entries k touch xs =
     (case map_of xs k of Some v \<Rightarrow> if touch = TouchNone then xs else touched touch k v xs | None \<Rightarrow> xs)"

fun entries_call :: "('v \<Rightarrow> bool) \<Rightarrow> ('k, 'v) lm_call \<Rightarrow> ('k \<times> 'v) list \<Rightarrow> ('k, 'v) lm_answer \<times> ('k \<times> 'v) list" where
  "entries_call truthy CallClear xs = (Done, [])"
| "entries_call truthy CallIsEmpty xs = (IsTrue (xs = []), xs)"
| "entries_call truthy CallSize xs = (Count (int (length xs)), xs)"
| "entries_call truthy CallFirst xs = (Found (if xs = [] then None else Some (snd (hd xs))), xs)"
| "entries_call truthy CallLast xs = (Found (if xs = [] then None else Some (snd (last xs))), xs)"
| "entries_call truthy (CallHas k) xs = (IsTrue (k \<in> fst ` set xs), xs)"
| "entries_call truthy (CallGet k touch) xs = (Found (map_of xs k), get_entries k touch xs)"
| "entries_call truthy (CallSet k v touch) xs = (Done, touched touch k v xs)"
| "entries_call truthy (CallDelete k) xs =
     (IsTrue (case map_of xs k of None \<Rightarrow> False | Some v \<Rightarrow> truthy v), AList.delete k xs)"
| "entries_call truthy (CallRemove k) xs = (Found (map_of xs k), AList.delete k xs)"
| "entries_call truthy CallShift xs = (Found (if xs = [] then None else Some (snd (hd xs))), tl xs)"
| "entries_call truthy CallToJSON xs = (Entries xs, xs)"
| "entries_call truthy (CallFromJSON data) xs = (Done, fold (\<lambda>(k, v). AList.update k v) data [])"

definition lm_entries :: "('k, 'v, 'z) LinkedMap_scheme \<Rightarrow> ('k \<times> 'v) list \<Rightarrow> bool" where
  "lm_entries m xs \<longleftrightarrow> (\<exists>ns. lm_rep m ns \<and> map snd ns = xs)"

lemma lm_entriesE: "lm_entries m xs \<Longrightarrow> (\<And>ns. lm_rep m ns \<Longrightarrow> xs = map snd ns \<Longrightarrow> thesis) \<Longrightarrow> thesis"
  by (auto simp: lm_entries_def)

lemma becomes_entries: "becomes m ns xs m' \<Longrightarrow> lm_entries m' xs"
  by (auto simp: becomes_def lm_entries_def)

lemma becomesE:
  "becomes m0 ns0 xs m \<Longrightarrow> (\<And>ns. lm_rep m ns \<Longrightarrow> xs = map snd ns \<Longrightarrow> moves m0 ns0 m ns \<Longrightarrow> thesis) \<Longrightarrow> thesis"
  by (auto simp: becomes_def)

lemma new_LinkedMap_rep: "lm_rep new_LinkedMap []"
  by (simp add: new_LinkedMap_def lm_rep_def lm_nodes_def indexed_def)

lemma answers_call_result:
  "runs r (\<lambda>(x, c). answer x = y \<and> Q c) \<Longrightarrow> answers (call_result answer r) y Q"
  by (auto simp: runs_def call_result_def answers_def)

lemma answers_done: "runs r Q \<Longrightarrow> answers (Some (bindE r (\<lambda>c. Inr (y, c)))) y Q"
  by (auto simp: runs_def answers_def)

lemma answers_mono: "answers m r Q \<Longrightarrow> (\<And>c. Q c \<Longrightarrow> R c) \<Longrightarrow> answers m r R"
  by (auto simp: answers_def)

lemma set_step: "becomes m0 ns0 xs m \<Longrightarrow> runs (LinkedMap_set k v touch m) (becomes m0 ns0 (touched touch k v xs))"
  by (erule becomesE) (auto intro: runs_mono [OF set_becomes] becomes_trans)

lemma get_step:
  "becomes m0 ns0 xs m \<Longrightarrow> runs (LinkedMap_get k touch m) (\<lambda>(r, m'). r = map_of xs k \<and> becomes m0 ns0 (get_entries k touch xs) m')"
  by (erule becomesE, rule runs_mono, erule get_becomes) (auto simp: get_entries_def elim: becomes_trans split: option.splits)

lemma remove_step:
  "becomes m0 ns0 xs m \<Longrightarrow> runs (LinkedMap_remove k m) (\<lambda>(r, m'). r = map_of xs k \<and> becomes m0 ns0 (AList.delete k xs) m')"
  by (erule becomesE, rule runs_mono, erule LinkedMap_remove_becomes) (auto elim: becomes_trans)

lemma delete_step:
  "becomes m0 ns0 xs m \<Longrightarrow> runs (LinkedMap_delete truthy k m)
     (\<lambda>(r, m'). r = (case map_of xs k of None \<Rightarrow> False | Some v \<Rightarrow> truthy v) \<and> becomes m0 ns0 (AList.delete k xs) m')"
  unfolding LinkedMap_delete_def by (rule runs_bind, rule runs_mono, erule remove_step) auto

lemma shift_step:
  "becomes m0 ns0 xs m \<Longrightarrow> runs (LinkedMap_shift m)
     (\<lambda>(r, m'). r = (if xs = [] then None else Some (snd (hd xs))) \<and> becomes m0 ns0 (tl xs) m')"
  by (erule becomesE, rule runs_mono, erule LinkedMap_shift_becomes) (auto elim: becomes_trans split: list.splits)

lemma clear_step: "becomes m0 ns0 xs m \<Longrightarrow> becomes m0 ns0 [] (LinkedMap_clear m)"
  by (erule becomesE) (erule becomes_trans, rule clear_becomes)

lemma foldE_runs:
  assumes "\<And>m xs x. R m xs \<Longrightarrow> runs (f m x) (\<lambda>m'. R m' (g x xs))"
  shows "R m xs \<Longrightarrow> runs (foldE f m data) (\<lambda>m'. R m' (fold g data xs))"
proof (induction data arbitrary: m xs)
  case (Cons x data)
  show ?case using assms [OF Cons.prems, of x] Cons.IH by (auto intro!: runs_bind elim!: runs_mono)
qed simp

lemma fromJSON_step:
  "becomes m0 ns0 xs m \<Longrightarrow> runs (LinkedMap_fromJSON (\<lambda>k v. LinkedMap_set k v TouchNone) data m)
     (becomes m0 ns0 (fold (\<lambda>(k, v). AList.update k v) data []))"
  unfolding LinkedMap_fromJSON_def using set_step [where touch = TouchNone]
  by (intro foldE_runs [where R = "\<lambda>m xs. becomes m0 ns0 xs m" and g = "\<lambda>(k, v). AList.update k v"]) (auto simp: clear_step)

lemma LinkedMap_call_becomes:
  assumes "becomes m0 ns0 xs m"
  shows "answers (LinkedMap_call truthy c m) (fst (entries_call truthy c xs)) (becomes m0 ns0 (snd (entries_call truthy c xs)))"
proof -
  obtain ns where ns: "lm_rep m ns" "xs = map snd ns" using assms by (rule becomesE)
  note q = lm_rep_queries [OF ns(1), folded ns(2)]
  note steps = set_step [OF assms] get_step [OF assms] remove_step [OF assms] delete_step [OF assms] shift_step [OF assms]
    fromJSON_step [OF assms]
  show ?thesis
  proof (cases c)
    case CallClear
    then show ?thesis using clear_step [OF assms] by (simp add: answers_def)
  next
    case CallToJSON
    then show ?thesis using LinkedMap_toJSON_rep [OF ns(1)] assms by (simp add: call_result_def answers_def ns(2))
  next
    case CallShift
    then show ?thesis
      by (simp only: LinkedMap_call.simps entries_call.simps, intro answers_call_result runs_mono [OF steps(5)]) (simp add: split_beta)
  next
    case (CallFromJSON data)
    then show ?thesis using steps(6) by (simp add: answers_done)
  qed (use assms q in \<open>cases xs; simp add: answers_def; fail\<close> |
    simp, rule answers_call_result answers_done; rule runs_mono, rule steps; simp add: split_beta)+
qed

lemma LinkedMap_call_entries:
  "lm_entries m xs \<Longrightarrow> answers (LinkedMap_call truthy c m) (fst (entries_call truthy c xs)) (\<lambda>m'. lm_entries m' (snd (entries_call truthy c xs)))"
  by (erule lm_entriesE, rule answers_mono, rule LinkedMap_call_becomes, erule (1) becomes_same) (rule becomes_entries)

interpretation lm: simulation "LinkedMap_call truthy" "entries_call truthy" lm_entries "\<lambda>_. True" for truthy :: "'v \<Rightarrow> bool"
  by unfold_locales (rule LinkedMap_call_entries)

lemma LinkedMap_runs:
  "lm_entries m xs \<Longrightarrow> \<exists>rs m'. run_calls (LinkedMap_call truthy) cs m = Some (Inr (rs, m')) \<and>
     lm_entries m' (snd (spec_calls (entries_call truthy) cs xs))"
  using lm.run_simulates [of m xs cs truthy] by (auto simp: answers_def list_all_iff)

interpretation lm_from: simulation "LinkedMap_call truthy" "entries_call truthy" "\<lambda>m xs. becomes m0 ns0 xs m" "\<lambda>_. True"
  for truthy :: "'v \<Rightarrow> bool" and m0 ns0
  by unfold_locales (rule LinkedMap_call_becomes)

text \<open>
  \<^bold>\<open>C8.\<close> The linked map refines the list of its entries: any sequence of calls on a new map
  returns without throwing, with the answers the list gives (\<open>delete\<close> answers whether the removed
  value is truthy), and the map then holds the entries of the list, oldest first.
\<close>

theorem LinkedMap_refines:
  "answers (run_calls (LinkedMap_call truthy) cs new_LinkedMap) (fst (spec_calls (entries_call truthy) cs []))
     (\<lambda>m. LinkedMap_toJSON m = Some (Inr (snd (spec_calls (entries_call truthy) cs []), m)))"
proof -
  let ?xs = "snd (spec_calls (entries_call truthy) cs [])"
  obtain m where m: "run_calls (LinkedMap_call truthy) cs new_LinkedMap = Some (Inr (fst (spec_calls (entries_call truthy) cs []), m))" "lm_entries m ?xs"
    using lm.run_simulates [of new_LinkedMap "[]" cs truthy] new_LinkedMap_rep by (auto simp: answers_def list_all_iff lm_entries_def)
  from m(2) have "LinkedMap_toJSON m = Some (Inr (?xs, m))" by (rule lm_entriesE) (simp add: LinkedMap_toJSON_rep)
  with m(1) show ?thesis by (rule answersI)
qed

section \<open>Iterators\<close>

primrec iterator_steps ::
  "nat \<Rightarrow> ('k, 'v, 'z) LinkedMap_scheme \<Rightarrow> lm_iterator \<Rightarrow> (('k \<times> 'v) option list \<times> lm_iterator) result" where
  "iterator_steps 0 m i = Inr ([], i)"
| "iterator_steps (Suc n) m i =
     bindE (iterator_steps n m i) (\<lambda>(xs, i). bindE (LinkedMap_entries_next m i) (\<lambda>(x, i). Inr (xs @ [x], i)))"

definition nth_entry :: "'a list \<Rightarrow> nat \<Rightarrow> 'a option" where
  "nth_entry xs n = (if n < length xs then Some (xs ! n) else None)"

lemma entries_next_rep:
  assumes "lm_rep m ns"
  shows "LinkedMap_entries_next m \<lparr>it_state = lm_state m, it_current = first_or (drop n ns) None\<rparr> =
    Inr (nth_entry (map snd ns) n, \<lparr>it_state = lm_state m, it_current = first_or (drop (Suc n) ns) None\<rparr>)"
proof (cases "n < length ns")
  case True
  then have ns: "ns = take n ns @ ns ! n # drop (Suc n) ns" and d: "drop n ns = ns ! n # drop (Suc n) ns"
    by (simp_all add: id_take_nth_drop [symmetric] Cons_nth_drop_Suc)
  have "lm_nodes m (take n ns @ ns ! n # drop (Suc n) ns)" using assms ns by (simp add: lm_rep_def)
  from nodes_ends(5) [OF this] True show ?thesis
    by (simp add: LinkedMap_entries_next_def iterator_next_def d nth_entry_def)
qed (simp add: LinkedMap_entries_next_def iterator_next_def nth_entry_def)

lemma iterator_steps_rep:
  assumes "lm_rep m ns"
  shows "iterator_steps n m (LinkedMap_iterator m) =
    Inr (map (nth_entry (map snd ns)) [0..<n], \<lparr>it_state = lm_state m, it_current = first_or (drop n ns) None\<rparr>)"
proof (induction n)
  case 0
  then show ?case using assms by (simp add: LinkedMap_iterator_def lm_rep_def lm_nodes_def)
next
  case (Suc n)
  then show ?case using entries_next_rep [OF assms] by simp
qed

lemma first_or_map: "map (\<lambda>x. (fst x, fst (snd x))) ns' = map (\<lambda>x. (fst x, fst (snd x))) ns \<Longrightarrow> first_or (drop n ns') None = first_or (drop n ns) None"
proof -
  assume "map (\<lambda>x. (fst x, fst (snd x))) ns' = map (\<lambda>x. (fst x, fst (snd x))) ns"
  then have "map fst (map (\<lambda>x. (fst x, fst (snd x))) ns') = map fst (map (\<lambda>x. (fst x, fst (snd x))) ns)" by (rule arg_cong)
  then have "map fst (drop n ns') = map fst (drop n ns)" by (simp add: comp_def drop_map [symmetric])
  then show ?thesis by (cases "drop n ns'"; cases "drop n ns") simp_all
qed

text \<open>
  \<^bold>\<open>C9.\<close> Iterating is safe.  An iterator of a map reads its entries in order; after any further
  calls on the map its next step throws, or the keys are still the same and it reads the current
  entry at its place, never one that was removed.
\<close>

theorem LinkedMap_iterator_safe:
  assumes "run_calls (LinkedMap_call truthy) cs new_LinkedMap = Some (Inr (rs, m))"
    and "run_calls (LinkedMap_call truthy) ds m = Some (Inr (rs', m'))"
  shows "\<exists>i. iterator_steps n m (LinkedMap_iterator m) =
      Inr (map (nth_entry (snd (spec_calls (entries_call truthy) cs []))) [0..<n], i) \<and>
    (LinkedMap_entries_next m' i = modified \<or>
     map fst (snd (spec_calls (entries_call truthy) (cs @ ds) [])) = map fst (snd (spec_calls (entries_call truthy) cs [])) \<and>
     (\<exists>i'. LinkedMap_entries_next m' i = Inr (nth_entry (snd (spec_calls (entries_call truthy) (cs @ ds) [])) n, i')))"
proof -
  let ?xs = "snd (spec_calls (entries_call truthy) cs [])" and ?ys = "snd (spec_calls (entries_call truthy) (cs @ ds) [])"
  have ys: "?ys = snd (spec_calls (entries_call truthy) ds ?xs)" by (rule spec_calls_append)
  have "lm_entries m ?xs"
    using lm.run_simulates [of new_LinkedMap "[]" cs truthy] assms(1) new_LinkedMap_rep by (auto simp: answers_def list_all_iff lm_entries_def)
  then obtain ns where ns: "lm_rep m ns" "?xs = map snd ns" by (rule lm_entriesE)
  have "becomes m ns ?ys m'"
    using lm_from.run_simulates [of m ns ?xs m ds truthy] assms(2) becomes_same [OF ns(1,2)] by (auto simp: answers_def list_all_iff ys)
  then obtain ns' where ns': "lm_rep m' ns'" "?ys = map snd ns'" "moves m ns m' ns'" by (rule becomesE)
  let ?i = "\<lparr>it_state = lm_state m, it_current = first_or (drop n ns) None\<rparr>"
  have "LinkedMap_entries_next m' ?i = modified \<or> map fst ?ys = map fst ?xs \<and> (\<exists>i'. LinkedMap_entries_next m' ?i = Inr (nth_entry ?ys n, i'))"
  proof (cases "lm_state m' = lm_state m")
    case False
    then show ?thesis by (simp add: LinkedMap_entries_next_def iterator_next_def)
  next
    case True
    then have same: "map (\<lambda>x. (fst x, fst (snd x))) ns' = map (\<lambda>x. (fst x, fst (snd x))) ns" using ns'(3) by (simp add: moves_def)
    then have "map snd (map (\<lambda>x. (fst x, fst (snd x))) ns') = map snd (map (\<lambda>x. (fst x, fst (snd x))) ns)" by (rule arg_cong)
    then have "map fst ?ys = map fst ?xs" by (simp add: ns(2) ns'(2) comp_def)
    then show ?thesis using entries_next_rep [OF ns'(1), of n] first_or_map [OF same, of n] True by (simp add: ns'(2))
  qed
  then show ?thesis using iterator_steps_rep [OF ns(1), of n] ns(2) by (intro exI [of _ ?i]) simp
qed

theorem LinkedMap_iterator_safe_witness:
  "\<exists>rs m rs' m' i. run_calls (LinkedMap_call (\<lambda>_. True)) [CallSet ''a'' 1 TouchNone, CallSet ''b'' (2::nat) TouchNone] new_LinkedMap = Some (Inr (rs, m)) \<and>
     run_calls (LinkedMap_call (\<lambda>_. True)) [CallRemove ''b''] m = Some (Inr (rs', m')) \<and>
     iterator_steps 1 m (LinkedMap_iterator m) = Inr ([Some (''a'', 1)], i) \<and> LinkedMap_entries_next m' i = modified"
proof -
  let ?cs = "[CallSet ''a'' 1 TouchNone, CallSet ''b'' (2::nat) TouchNone]"
  have "lm_entries (new_LinkedMap :: (string, nat) LinkedMap) []" using new_LinkedMap_rep by (auto simp: lm_entries_def)
  then obtain rs and m :: "(string, nat) LinkedMap" where m: "run_calls (LinkedMap_call (\<lambda>_. True)) ?cs new_LinkedMap = Some (Inr (rs, m))"
    "lm_entries m (snd (spec_calls (entries_call (\<lambda>_. True)) ?cs []))"
    using LinkedMap_runs by blast
  obtain rs' m' where m': "run_calls (LinkedMap_call (\<lambda>_. True)) [CallRemove ''b''] m = Some (Inr (rs', m'))"
    using LinkedMap_runs [OF m(2)] by blast
  from LinkedMap_iterator_safe [OF m(1) m', of 1] m(1) m' show ?thesis
    by (auto simp: nth_entry_def simp del: run_calls.simps)
qed

end
