(* ===== verification/Caches.thy ===== *)
theory Caches
  imports LinkedMapCalls
begin

text \<open>
  The caches of \<open>base/common/map.ts\<close> as lists of entries, the least recently used first, with a
  limit and the ratio of it that trimming leaves.
\<close>

section \<open>Calls on a cache\<close>

datatype ('k, 'v) cache_call =
  CacheGet 'k | CachePeek 'k | CacheSet 'k 'v | CacheRemove 'k | CacheLimit int | CacheRatio rat | CacheToJSON

fun Cache_call ::
  "(int \<Rightarrow> ('k, 'v) Cache \<Rightarrow> ('k, 'v) Cache result) \<Rightarrow> ('k \<Rightarrow> 'v \<Rightarrow> ('k, 'v) Cache \<Rightarrow> ('k, 'v) Cache result) \<Rightarrow>
   ('k, 'v) cache_call \<Rightarrow> ('k, 'v) Cache \<Rightarrow> (('k, 'v) lm_answer \<times> ('k, 'v) Cache) result option" where
  "Cache_call trim set_method (CacheGet k) c = call_result Found (Cache_get k c)"
| "Cache_call trim set_method (CachePeek k) c = call_result Found (Cache_peek k c)"
| "Cache_call trim set_method (CacheSet k v) c = Some (bindE (set_method k v c) (\<lambda>c. Inr (Done, c)))"
| "Cache_call trim set_method (CacheRemove k) c = call_result Found (LinkedMap_remove k c)"
| "Cache_call trim set_method (CacheLimit l) c = Some (bindE (Cache_set_limit trim l c) (\<lambda>c. Inr (Done, c)))"
| "Cache_call trim set_method (CacheRatio r) c = Some (bindE (Cache_set_ratio trim r c) (\<lambda>c. Inr (Done, c)))"
| "Cache_call trim set_method CacheToJSON c = (case LinkedMap_toJSON c of None \<Rightarrow> None | Some r \<Rightarrow> call_result Entries r)"

definition LRUCache_call ::
  "('k, 'v) cache_call \<Rightarrow> ('k, 'v) Cache \<Rightarrow> (('k, 'v) lm_answer \<times> ('k, 'v) Cache) result option" where
  "LRUCache_call = Cache_call LRUCache_trim LRUCache_set"

definition MRUCache_call ::
  "('k, 'v) cache_call \<Rightarrow> ('k, 'v) Cache \<Rightarrow> (('k, 'v) lm_answer \<times> ('k, 'v) Cache) result option" where
  "MRUCache_call = Cache_call MRUCache_trim MRUCache_set"

text \<open>The list, the limit and the ratio.\<close>

type_synonym ('k, 'v) cache_state = "('k \<times> 'v) list \<times> int \<times> rat"

definition trim_to :: "int \<Rightarrow> rat \<Rightarrow> nat" where
  "trim_to l r = nat (js_round (of_int l * r))"

definition lru_trimmed :: "int \<Rightarrow> rat \<Rightarrow> ('k \<times> 'v) list \<Rightarrow> ('k \<times> 'v) list" where
  "lru_trimmed l r xs = (if int (length xs) > l then drop (length xs - trim_to l r) xs else xs)"

fun lru_spec :: "('k, 'v) cache_call \<Rightarrow> ('k, 'v) cache_state \<Rightarrow> ('k, 'v) lm_answer \<times> ('k, 'v) cache_state" where
  "lru_spec (CacheGet k) (xs, l, r) = (Found (map_of xs k), get_entries k AsNew xs, l, r)"
| "lru_spec (CachePeek k) (xs, l, r) = (Found (map_of xs k), xs, l, r)"
| "lru_spec (CacheSet k v) (xs, l, r) = (Done, lru_trimmed l r (touched AsNew k v xs), l, r)"
| "lru_spec (CacheRemove k) (xs, l, r) = (Found (map_of xs k), AList.delete k xs, l, r)"
| "lru_spec (CacheLimit l') (xs, l, r) = (Done, lru_trimmed l' r xs, l', r)"
| "lru_spec (CacheRatio r') (xs, l, r) = (Done, lru_trimmed l (clamp_ratio r') xs, l, clamp_ratio r')"
| "lru_spec CacheToJSON (xs, l, r) = (Entries xs, xs, l, r)"

definition mru_set :: "'k \<Rightarrow> 'v \<Rightarrow> int \<Rightarrow> rat \<Rightarrow> ('k \<times> 'v) list \<Rightarrow> ('k \<times> 'v) list" where
  "mru_set k v l r xs = touched AsNew k v (if l \<le> int (length xs) \<and> k \<notin> fst ` set xs then take (trim_to l r - 1) xs else xs)"

fun mru_spec :: "('k, 'v) cache_call \<Rightarrow> ('k, 'v) cache_state \<Rightarrow> ('k, 'v) lm_answer \<times> ('k, 'v) cache_state" where
  "mru_spec (CacheSet k v) (xs, l, r) = (Done, mru_set k v l r xs, l, r)"
| "mru_spec c a = lru_spec c a"

text \<open>A legal limit is not negative; the second cache keeps its limit.\<close>

fun lru_legal :: "('k, 'v) cache_call \<Rightarrow> bool" where
  "lru_legal (CacheLimit l) \<longleftrightarrow> 0 \<le> l"
| "lru_legal _ \<longleftrightarrow> True"

fun mru_legal :: "('k, 'v) cache_call \<Rightarrow> bool" where
  "mru_legal (CacheLimit _) \<longleftrightarrow> False"
| "mru_legal (CacheRatio _) \<longleftrightarrow> False"
| "mru_legal _ \<longleftrightarrow> True"

definition cache_rel :: "('k, 'v) Cache \<Rightarrow> ('k, 'v) cache_state \<Rightarrow> bool" where
  "cache_rel c a \<longleftrightarrow> (case a of (xs, l, r) \<Rightarrow>
     lm_entries c xs \<and> c_limit c = l \<and> c_ratio c = r \<and> 0 \<le> l \<and> 0 \<le> r \<and> r \<le> 1 \<and> int (length xs) \<le> l)"

lemma cache_relE:
  assumes "cache_rel c (xs, l, r)"
  obtains ns where "lm_rep c ns" "xs = map snd ns" "c_limit c = l" "c_ratio c = r" "0 \<le> l" "0 \<le> r" "r \<le> 1" "int (length xs) \<le> l"
  using assms by (auto simp: cache_rel_def lm_entries_def)

lemma cache_fields:
  fixes c c' :: "('k, 'v) Cache"
  shows "LinkedMap.more c' = LinkedMap.more c \<Longrightarrow> c_limit c' = c_limit c \<and> c_ratio c' = c_ratio c"
  by (cases c; cases c') simp

lemma cache_update_rep [simp]: "lm_rep (c\<lparr>c_limit := l\<rparr>) ns = lm_rep c ns" "lm_rep (c\<lparr>c_ratio := r\<rparr>) ns = lm_rep c ns"
  by (simp_all add: lm_rep_def lm_nodes_def)

lemma becomes_rel:
  fixes c c' :: "('k, 'v) Cache"
  assumes "becomes c ns xs c'" and "0 \<le> c_limit c" "0 \<le> c_ratio c" "c_ratio c \<le> 1" "int (length xs) \<le> c_limit c"
  shows "cache_rel c' (xs, c_limit c, c_ratio c)"
  using assms cache_fields [of c' c] by (auto simp: cache_rel_def becomes_def moves_def lm_entries_def)

lemma trim_size_bounds:
  assumes "0 \<le> l" and "0 \<le> r" and "r \<le> 1"
  shows "0 \<le> js_round (of_int l * r)" "js_round (of_int l * r) \<le> l"
proof -
  have "0 \<le> of_int l * r" "of_int l * r \<le> of_int l" using assms by (simp_all add: mult_left_le)
  then show "0 \<le> js_round (of_int l * r)" "js_round (of_int l * r) \<le> l"
    unfolding js_round_def by linarith+
qed

lemma clamp_ratio_bounds: "0 \<le> clamp_ratio r" "clamp_ratio r \<le> 1"
  by (simp_all add: clamp_ratio_def)

lemma lru_trimmed_length:
  assumes "0 \<le> l" and "0 \<le> r" and "r \<le> 1"
  shows "int (length (lru_trimmed l r xs)) \<le> l"
  using trim_size_bounds [OF assms] by (auto simp: lru_trimmed_def trim_to_def)

lemma touched_length: "length (touched AsNew k v xs) \<le> Suc (length xs)"
  using length_delete_le [of k xs] by simp

lemma get_entries_length: "length (get_entries k AsNew xs) \<le> length xs"
proof (cases "map_of xs k")
  case (Some v)
  then have "k \<in> fst ` set xs" by (metis domI dom_map_of_conv_image_fst)
  then obtain w ys zs where "xs = ys @ (k, w) # zs" by (metis imageE prod.collapse split_list)
  then have "length (AList.delete k xs) < length xs"
    using length_delete_le [of k ys] length_delete_le [of k zs] by (simp add: delete_append)
  then show ?thesis by (simp add: get_entries_def Some)
qed (simp add: get_entries_def)

section \<open>The least recently used cache\<close>

lemma checkTrim_becomes:
  fixes c :: "('k, 'v) Cache"
  assumes "lm_rep c ns" and "0 \<le> c_limit c" "0 \<le> c_ratio c" "c_ratio c \<le> 1"
  shows "runs (checkTrim LRUCache_trim c) (becomes c ns (lru_trimmed (c_limit c) (c_ratio c) (map snd ns)))"
  using trimOld_becomes [OF assms(1) trim_size_bounds(1) [OF assms(2-4)]] lm_rep_queries(2) [OF assms(1)] becomes_same [OF assms(1)]
  by (simp add: checkTrim_def LRUCache_trim_def trim_size_def lru_trimmed_def trim_to_def)

lemma checkTrim_rel:
  fixes c :: "('k, 'v) Cache"
  assumes "lm_rep c ns" and "0 \<le> c_limit c" "0 \<le> c_ratio c" "c_ratio c \<le> 1"
  shows "runs (checkTrim LRUCache_trim c) (\<lambda>c'. cache_rel c' (lru_trimmed (c_limit c) (c_ratio c) (map snd ns), c_limit c, c_ratio c))"
  by (rule runs_mono [OF checkTrim_becomes [OF assms]], erule becomes_rel) (use assms lru_trimmed_length in auto)

text \<open>The calls both caches share.\<close>

lemma shared_steps:
  fixes c :: "('k, 'v) Cache"
  assumes "cache_rel c (xs, l, r)"
  shows get_rel: "runs (LinkedMap_get k AsNew c) (\<lambda>(x, c'). x = map_of xs k \<and> cache_rel c' (get_entries k AsNew xs, l, r))"
    and peek_rel: "runs (LinkedMap_get k TouchNone c) (\<lambda>(x, c'). x = map_of xs k \<and> cache_rel c' (xs, l, r))"
    and remove_rel: "runs (LinkedMap_remove k c) (\<lambda>(x, c'). x = map_of xs k \<and> cache_rel c' (AList.delete k xs, l, r))"
    and toJSON_rel: "LinkedMap_toJSON c = Some (Inr (xs, c))"
proof -
  from assms obtain ns where ns: "lm_rep c ns" "xs = map snd ns" and lr: "c_limit c = l" "c_ratio c = r" "0 \<le> l" "0 \<le> r" "r \<le> 1" "int (length xs) \<le> l"
    by (rule cache_relE)
  note b = becomes_same [OF ns]
  have fin: "cache_rel c' (ys, l, r)" if "becomes c ns ys c'" "length ys \<le> length xs" for c' :: "('k, 'v) Cache" and ys
    using becomes_rel [OF that(1)] that(2) lr by auto
  show "runs (LinkedMap_get k AsNew c) (\<lambda>(x, c'). x = map_of xs k \<and> cache_rel c' (get_entries k AsNew xs, l, r))"
    using get_step [OF b, of k AsNew] by (auto elim!: runs_mono intro: fin get_entries_length)
  have "get_entries k TouchNone xs = xs" by (simp add: get_entries_def split: option.splits)
  then show "runs (LinkedMap_get k TouchNone c) (\<lambda>(x, c'). x = map_of xs k \<and> cache_rel c' (xs, l, r))"
    using get_step [OF b, of k TouchNone] by (auto elim!: runs_mono intro: fin)
  show "runs (LinkedMap_remove k c) (\<lambda>(x, c'). x = map_of xs k \<and> cache_rel c' (AList.delete k xs, l, r))"
    using remove_step [OF b, of k] by (auto elim!: runs_mono intro: fin length_delete_le)
  show "LinkedMap_toJSON c = Some (Inr (xs, c))" using LinkedMap_toJSON_rep [OF ns(1)] by (simp add: ns(2))
qed

lemma shared_calls:
  assumes rel: "cache_rel c (xs, l, r)" and op: "op \<in> {CacheGet k, CachePeek k, CacheRemove k, CacheToJSON}"
  shows "answers (Cache_call trim set_method op c) (fst (lru_spec op (xs, l, r))) (\<lambda>c'. cache_rel c' (snd (lru_spec op (xs, l, r))))"
proof -
  have "answers (Cache_call trim set_method (CacheGet k) c) (Found (map_of xs k)) (\<lambda>c'. cache_rel c' (get_entries k AsNew xs, l, r))"
    "answers (Cache_call trim set_method (CachePeek k) c) (Found (map_of xs k)) (\<lambda>c'. cache_rel c' (xs, l, r))"
    "answers (Cache_call trim set_method (CacheRemove k) c) (Found (map_of xs k)) (\<lambda>c'. cache_rel c' (AList.delete k xs, l, r))"
    using get_rel [OF rel, of k] peek_rel [OF rel, of k] remove_rel [OF rel, of k] unfolding Cache_call.simps Cache_get_def Cache_peek_def
    by (intro answers_call_result; auto elim!: runs_mono)+
  then show ?thesis using op toJSON_rel [OF rel] rel by (auto simp: call_result_def answers_def)
qed

lemma LRUCache_set_rel:
  assumes "cache_rel c (xs, l, r)"
  shows "runs (LRUCache_set k v c) (\<lambda>c'. cache_rel c' (lru_trimmed l r (touched AsNew k v xs), l, r))"
proof -
  obtain ns where ns: "lm_rep c ns" "xs = map snd ns" and lr: "c_limit c = l" "c_ratio c = r" "0 \<le> l" "0 \<le> r" "r \<le> 1" "int (length xs) \<le> l"
    using assms by (rule cache_relE)
  show ?thesis unfolding LRUCache_set_def Cache_set_def
  proof (rule runs_bind, rule runs_mono [OF set_becomes [OF ns(1), of k v AsNew]])
    fix c' assume c': "becomes c ns (touched AsNew k v (map snd ns)) c'"
    then obtain ns' where ns': "lm_rep c' ns'" "touched AsNew k v xs = map snd ns'" "LinkedMap.more c' = LinkedMap.more c"
      by (auto simp: becomes_def moves_def ns(2))
    from cache_fields [OF ns'(3)] lr checkTrim_rel [OF ns'(1)]
    show "runs (checkTrim LRUCache_trim c') (\<lambda>c'. cache_rel c' (lru_trimmed l r (touched AsNew k v xs), l, r))" unfolding ns'(2) by simp
  qed
qed

lemma LRUCache_call_rel:
  assumes rel: "cache_rel c a" and legal: "lru_legal op"
  shows "answers (LRUCache_call op c) (fst (lru_spec op a)) (\<lambda>c'. cache_rel c' (snd (lru_spec op a)))"
proof -
  obtain xs l r where a: "a = (xs, l, r)" by (cases a)
  obtain ns where ns: "lm_rep c ns" "xs = map snd ns" and lr: "c_limit c = l" "c_ratio c = r" "0 \<le> l" "0 \<le> r" "r \<le> 1"
    using rel [unfolded a] by (rule cache_relE)
  show ?thesis
  proof (cases op)
    case (CacheSet k v)
    then show ?thesis using LRUCache_set_rel [OF rel [unfolded a]] by (simp add: a LRUCache_call_def answers_done)
  next
    case (CacheLimit l')
    then show ?thesis using checkTrim_rel [of "c\<lparr>c_limit := l'\<rparr>" ns] ns lr legal
      by (simp add: a LRUCache_call_def answers_done Cache_set_limit_def)
  next
    case (CacheRatio r')
    then show ?thesis using checkTrim_rel [of "c\<lparr>c_ratio := clamp_ratio r'\<rparr>" ns] ns lr clamp_ratio_bounds
      by (simp add: a LRUCache_call_def answers_done Cache_set_ratio_def)
  qed (simp only: a LRUCache_call_def, rule shared_calls [OF rel [unfolded a]], simp)+
qed

interpretation lru: simulation LRUCache_call lru_spec cache_rel lru_legal
  by unfold_locales (rule LRUCache_call_rel)

lemma new_Cache_rel: "0 \<le> l \<Longrightarrow> cache_rel (new_Cache l r) ([], l, clamp_ratio r)"
  using clamp_ratio_bounds [of r]
  by (auto simp: cache_rel_def new_Cache_def lm_entries_def lm_rep_def lm_nodes_def indexed_def new_LinkedMap_def LinkedMap.defs Cache.defs)

text \<open>
  \<^bold>\<open>C20.\<close> The least recently used cache keeps within its limit: any calls on a new cache with
  limits that are not negative return without throwing and answer as the list does from which
  the least recently used entries are dropped, to the given ratio of the limit, whenever it has
  grown beyond the limit; the cache never holds more entries than its current limit.
\<close>

theorem LRUCache_within_limit:
  assumes "0 \<le> l" and "list_all lru_legal cs"
  shows "answers (run_calls LRUCache_call cs (new_Cache l r)) (fst (spec_calls lru_spec cs ([], l, clamp_ratio r)))
    (\<lambda>c. LinkedMap_size c \<le> c_limit c \<and> 0 \<le> LinkedMap_size c \<and>
         LinkedMap_toJSON c = Some (Inr (fst (snd (spec_calls lru_spec cs ([], l, clamp_ratio r))), c)))"
proof (rule answers_mono [OF lru.run_simulates [OF new_Cache_rel [OF assms(1)] assms(2)]])
  fix c assume c: "cache_rel c (snd (spec_calls lru_spec cs ([], l, clamp_ratio r)))"
  obtain xs l' r' where s: "snd (spec_calls lru_spec cs ([], l, clamp_ratio r)) = (xs, l', r')" by (metis prod.exhaust)
  from c [unfolded s] toJSON_rel [OF c [unfolded s]] show "LinkedMap_size c \<le> c_limit c \<and> 0 \<le> LinkedMap_size c \<and>
      LinkedMap_toJSON c = Some (Inr (fst (snd (spec_calls lru_spec cs ([], l, clamp_ratio r))), c))"
    by (elim cache_relE) (simp add: s lm_rep_queries(2))
qed

theorem LRUCache_within_limit_witness:
  "\<exists>c. run_calls LRUCache_call [CacheSet ''a'' 1, CacheSet ''b'' 2, CacheGet ''a'', CacheSet ''c'' (3::nat), CacheGet ''b''] (new_Cache 2 1) =
     Some (Inr ([Done, Done, Found (Some 1), Done, Found None], c)) \<and> LinkedMap_toJSON c = Some (Inr ([(''a'', 1), (''c'', 3)], c))"
proof -
  let ?cs = "[CacheSet ''a'' 1, CacheSet ''b'' 2, CacheGet ''a'', CacheSet ''c'' (3::nat), CacheGet ''b'']"
  have s: "spec_calls lru_spec ?cs ([], 2, clamp_ratio 1) = ([Done, Done, Found (Some 1), Done, Found None], [(''a'', 1), (''c'', 3)], 2, 1)"
    by code_simp
  show ?thesis using LRUCache_within_limit [of 2 ?cs 1, unfolded s] by (auto simp: answers_def simp del: run_calls.simps)
qed

section \<open>The most recently used cache\<close>

definition mru_rel :: "('k, 'v) Cache \<Rightarrow> ('k, 'v) cache_state \<Rightarrow> bool" where
  "mru_rel c a \<longleftrightarrow> cache_rel c a \<and> 1 \<le> js_round (of_int (fst (snd a)) * snd (snd a))"

lemma set_size:
  "int (length xs) \<le> l \<Longrightarrow> int (length xs) < l \<or> k \<in> fst ` set xs \<Longrightarrow> int (length (touched AsNew k v xs)) \<le> l"
proof -
  assume a: "int (length xs) \<le> l" "int (length xs) < l \<or> k \<in> fst ` set xs"
  show ?thesis
  proof (cases "k \<in> fst ` set xs")
    case True
    then obtain w ys zs where "xs = ys @ (k, w) # zs" by (metis imageE prod.collapse split_list)
    then show ?thesis using a(1) length_delete_le [of k ys] length_delete_le [of k zs] by (simp add: delete_append)
  qed (use a touched_length [of k v xs] in linarith)
qed

lemma MRUCache_set_rel:
  assumes rel: "cache_rel c (xs, l, r)" and one: "1 \<le> js_round (of_int l * r)"
  shows "runs (MRUCache_set k v c) (\<lambda>c'. cache_rel c' (mru_set k v l r xs, l, r))"
proof -
  obtain ns where ns: "lm_rep c ns" "xs = map snd ns" and lr: "c_limit c = l" "c_ratio c = r" "0 \<le> l" "0 \<le> r" "r \<le> 1" "int (length xs) \<le> l"
    using rel by (rule cache_relE)
  let ?full = "l \<le> int (length xs) \<and> k \<notin> fst ` set xs"
  let ?ys = "if ?full then take (trim_to l r - 1) xs else xs"
  have cond: "c_limit c \<le> LinkedMap_size c \<and> \<not> LinkedMap_has k c \<longleftrightarrow> ?full"
    using lm_rep_queries(2,3) [OF ns(1)] by (simp only: lr(1) ns(2))
  have room: "int (length ?ys) \<le> l \<and> (int (length ?ys) < l \<or> k \<in> fst ` set ?ys)"
    using lr(6) one trim_size_bounds(2) [OF lr(3-5)] by (auto simp: trim_to_def)
  have trim: "runs (if ?full then MRUCache_trim (trim_size c - 1) c else Inr c) (becomes c ns ?ys)"
    using trimNew_becomes [OF ns(1), of "trim_size c - 1"] becomes_same [OF ns] one
    by (simp add: MRUCache_trim_def trim_size_def lr trim_to_def ns(2) nat_diff_distrib)
  show ?thesis unfolding MRUCache_set_def Cache_set_def cond
  proof (rule runs_bind, rule runs_mono [OF trim])
    fix c' assume c': "becomes c ns ?ys c'"
    show "runs (LinkedMap_set k v AsNew c') (\<lambda>c'. cache_rel c' (mru_set k v l r xs, l, r))"
    proof (rule runs_mono [OF set_step [OF c', of k v AsNew]])
      fix c'' assume "becomes c ns (touched AsNew k v ?ys) c''"
      from becomes_rel [OF this] lr room set_size [of ?ys l k v]
      show "cache_rel c'' (mru_set k v l r xs, l, r)" unfolding mru_set_def by (simp only: lr)
    qed
  qed
qed

lemma MRUCache_call_rel:
  assumes rel: "mru_rel c a" and legal: "mru_legal op"
  shows "answers (MRUCache_call op c) (fst (mru_spec op a)) (\<lambda>c'. mru_rel c' (snd (mru_spec op a)))"
proof -
  obtain xs l r where a: "a = (xs, l, r)" by (cases a)
  have rel: "cache_rel c (xs, l, r)" and one: "1 \<le> js_round (of_int l * r)" using rel by (simp_all add: mru_rel_def a)
  have lift: "answers m y (\<lambda>c'. mru_rel c' (ys, l, r))" if "answers m y (\<lambda>c'. cache_rel c' (ys, l, r))" for m ys and y :: "('a, 'b) lm_answer"
    using that one by (auto simp: answers_def mru_rel_def)
  show ?thesis
  proof (cases op)
    case (CacheSet k v)
    then show ?thesis using lift [OF answers_done [OF MRUCache_set_rel [OF rel one]]] by (simp add: a MRUCache_call_def)
  next
    case (CacheGet k)
    show ?thesis using shared_calls [OF rel, of op k] CacheGet by (auto simp: a MRUCache_call_def intro!: lift)
  next
    case (CachePeek k)
    show ?thesis using shared_calls [OF rel, of op k] CachePeek by (auto simp: a MRUCache_call_def intro!: lift)
  next
    case (CacheRemove k)
    show ?thesis using shared_calls [OF rel, of op k] CacheRemove by (auto simp: a MRUCache_call_def intro!: lift)
  next
    case CacheToJSON
    show ?thesis using shared_calls [OF rel, of op] CacheToJSON by (auto simp: a MRUCache_call_def intro!: lift)
  qed (use legal in simp_all)
qed

interpretation mru: simulation MRUCache_call mru_spec mru_rel mru_legal
  by unfold_locales (rule MRUCache_call_rel)

text \<open>
  What happens to a cache whose trimming size rounds to zero: \<open>set\<close> trims to the size -1, which
  unlinks the tail but not the head.
\<close>

lemma MRUCache_set_invalid:
  assumes ns: "lm_rep c ns" "xs = map snd ns" and full: "c_limit c \<le> int (length xs)" "xs \<noteq> []" "k \<notin> fst ` set xs"
    and zero: "trim_size c = 0"
  shows "MRUCache_set k v c = Inl (GenericError ''Invalid list'')"
proof -
  have nodes: "dseg (lm_store c) None ns None" "lm_head c = Some (fst (hd ns))" "lm_tail c = last_or None ns" "lm_size c = int (length ns)"
    using ns full(2) by (simp_all add: lm_rep_def lm_nodes_def)
  have loop: "trimNew_loop (- 1) (last_or None ns) (int (length ns)) m = Inr (None, 0, forget (fst ` set (map snd ns)) m)"
    if "dseg (lm_store m) None ns n'" for m :: "('a, 'b) Cache" and n'
    using that
  proof (induction ns arbitrary: m n' rule: rev_induct)
    case Nil
    then show ?case by (simp add: trimNew_loop.simps forget_def)
  next
    case (snoc x ns)
    have "item_at m (Some (fst x)) = Inr (node_item (last_or None ns) x n')" using snoc.prems by (simp add: item_at_def dseg_append)
    with snoc.IH [of "m\<lparr>lm_map := (lm_map m)(fst (snd x) := None)\<rparr>" "Some (fst x)"] snoc.prems show ?case
      by (subst trimNew_loop.simps) (auto simp: forget_def fun_eq_iff dseg_append)
  qed
  have "MRUCache_trim (- 1) c = Inr (changed ((forget (fst ` set (map snd ns)) c)\<lparr>lm_tail := None, lm_size := 0\<rparr>))"
    using loop [OF nodes(1)] by (simp add: MRUCache_trim_def trimNew_def nodes(3,4))
  moreover have "c_limit c \<le> LinkedMap_size c \<and> \<not> LinkedMap_has k c"
    using full lm_rep_queries(2,3) [OF ns(1)] by (simp add: ns(2))
  moreover have "lm_map c k = None" using full(3) lm_rep_queries(3) [OF ns(1), of k] by (simp add: LinkedMap_has_def ns(2))
  ultimately show ?thesis
    using nodes(2) by (simp add: MRUCache_set_def zero Cache_set_def LinkedMap_set_def forget_def changed_def Let_def
        addItemLast_def invalid_list_def)
qed

theorem MRUCache_within_limit:
  assumes "0 \<le> l" and "list_all mru_legal cs" and "1 \<le> js_round (of_int l * clamp_ratio r)"
  shows "answers (run_calls MRUCache_call cs (new_Cache l r)) (fst (spec_calls mru_spec cs ([], l, clamp_ratio r)))
    (\<lambda>c. LinkedMap_size c \<le> c_limit c)"
proof (rule answers_mono [OF mru.run_simulates [OF _ assms(2)]])
  show "mru_rel (new_Cache l r) ([], l, clamp_ratio r)" using new_Cache_rel [OF assms(1)] assms(3) by (simp add: mru_rel_def)
  fix c :: "('a, 'b) Cache" assume c: "mru_rel c (snd (spec_calls mru_spec cs ([], l, clamp_ratio r)))"
  obtain xs l' r' where s: "snd (spec_calls mru_spec cs ([], l, clamp_ratio r)) = (xs, l', r')" by (metis prod.exhaust)
  from c [unfolded s mru_rel_def] show "LinkedMap_size c \<le> c_limit c"
    by (elim conjE cache_relE) (simp add: lm_rep_queries(2))
qed

text \<open>
  \<^bold>\<open>C21.\<close> A most recently used cache with the limit one (or zero) whose trimming size rounds to
  zero cannot take a second key: setting it throws \<open>Invalid list\<close>.
\<close>

theorem MRUCache_set_throws:
  assumes "0 \<le> l" and "l \<le> 1" and "js_round (of_int l * clamp_ratio r) = 0" and "k \<noteq> k'"
  shows "run_calls MRUCache_call [CacheSet k v, CacheSet k' v'] (new_Cache l r) = Some (Inl (GenericError ''Invalid list''))"
proof -
  let ?c = "new_Cache l r :: ('a, 'b) Cache"
  have new: "lm_rep ?c []" "LinkedMap_size ?c = 0" "\<not> LinkedMap_has k ?c" "c_limit ?c = l" "c_ratio ?c = clamp_ratio r"
    by (simp_all add: new_Cache_def new_LinkedMap_def LinkedMap.defs Cache.defs lm_rep_def lm_nodes_def indexed_def LinkedMap_size_def LinkedMap_has_def)
  have "runs (if c_limit ?c \<le> LinkedMap_size ?c \<and> \<not> LinkedMap_has k ?c then MRUCache_trim (trim_size ?c - 1) ?c else Inr ?c) (becomes ?c [] [])"
  proof (cases "l \<le> 0")
    case True
    have "becomes ?c [] [] (changed (?c\<lparr>lm_tail := None, lm_size := 0\<rparr>))"
      using new(1) by (auto simp: becomes_def lm_rep_def lm_nodes_def changed_def moves_def intro!: exI [of _ "[]"])
    then show ?thesis using True new assms(3)
      by (simp add: MRUCache_trim_def trimNew_def trim_size_def lm_rep_def lm_nodes_def trimNew_loop.simps)
  next
    case False
    have "becomes ?c [] [] ?c" by (rule becomes_same [OF new(1)]) simp
    with False show ?thesis by (simp add: new)
  qed
  then have "runs (MRUCache_set k v ?c) (becomes ?c [] [(k, v)])"
    unfolding MRUCache_set_def Cache_set_def using set_step [where xs = "[]" and touch = AsNew]
    by (intro runs_bind) (fastforce elim!: runs_mono)
  then obtain c where c: "MRUCache_set k v ?c = Inr c" "becomes ?c [] [(k, v)] c" by (auto simp: runs_def)
  from c(2) obtain ns where ns: "lm_rep c ns" "[(k, v)] = map snd ns" "LinkedMap.more c = LinkedMap.more ?c" by (auto simp: becomes_def moves_def)
  have "MRUCache_set k' v' c = Inl (GenericError ''Invalid list'')"
    using cache_fields [OF ns(3)] new assms by (intro MRUCache_set_invalid [OF ns(1,2)]) (simp_all add: trim_size_def)
  then show ?thesis by (simp add: MRUCache_call_def c(1))
qed

theorem MRUCache_set_throws_witness:
  "run_calls MRUCache_call [CacheSet ''a'' (1::nat), CacheSet ''b'' 2] (new_Cache 1 (2 / 5)) = Some (Inl (GenericError ''Invalid list''))"
  by (rule MRUCache_set_throws; code_simp)

end
