(* ===== verification/KeybindingResolver.thy ===== *)
theory KeybindingResolver
  imports ContextKeyLogic
begin

text \<open>
  \<open>platform/keybinding/common/keybindingResolver.ts\<close> and \<open>resolvedKeybindingItem.ts\<close>: the
  resolver that maps sequences of pressed chords to commands, and commands to the key bindings
  that the user is shown.

  A key binding item is compared by object identity in one place, so the record carries the
  identity of the object.  The fields of an item that the resolver never reads, or only prints (the
  resolved key binding, the extension, the system-wide flag), are left out, and so is the log.  A \<open>Map\<close> is a function to options.  Substituting constants in a \<open>when\<close> clause
  needs a depth (theory \<open>ContextKeys\<close>), so building a resolver is an option: \<open>None\<close> when the depth
  is too small.
\<close>

section \<open>Key binding items\<close>

record 'args ResolvedKeybindingItem =
  kb_object :: nat
  kb_chords :: "js_string list"
  kb_bubble :: bool
  kb_command :: "js_string option"
  kb_commandArgs :: 'args
  kb_when :: "ContextKeyExpression option"
  kb_isDefault :: bool

text \<open>A string or \<open>null\<close> in a condition: \<open>null\<close> and the empty string are false.\<close>

definition truthy_string :: "js_string option \<Rightarrow> bool" where
  "truthy_string s \<longleftrightarrow> s \<noteq> None \<and> s \<noteq> Some []"

fun toEmptyArrayIfContainsNull :: "js_string option list \<Rightarrow> js_string list \<Rightarrow> js_string list" where
  "toEmptyArrayIfContainsNull [] result = result"
| "toEmptyArrayIfContainsNull (element # arr) result =
     (if \<not> truthy_string element then [] else toEmptyArrayIfContainsNull arr (result @ [the element]))"

text \<open>
  A resolved keybinding is the pair of its dispatch chords and its single modifier dispatch chords.
\<close>

definition new_ResolvedKeybindingItem ::
  "nat \<Rightarrow> (js_string option list \<times> js_string option list) option \<Rightarrow> js_string option \<Rightarrow> 'args \<Rightarrow> ContextKeyExpression option \<Rightarrow> bool \<Rightarrow>
   'args ResolvedKeybindingItem" where
  "new_ResolvedKeybindingItem object resolvedKeybinding command commandArgs when isDefault =
     (let chords = (case resolvedKeybinding of None \<Rightarrow> [] | Some (dispatch, _) \<Rightarrow> toEmptyArrayIfContainsNull dispatch []);
          chords = (case resolvedKeybinding of
                      Some (_, single) \<Rightarrow> if chords = [] then toEmptyArrayIfContainsNull single [] else chords
                    | None \<Rightarrow> chords);
          bubble = (truthy_string command \<and> hd (the command) = 94)
      in \<lparr>kb_object = object, kb_chords = chords, kb_bubble = bubble,
          kb_command = (if bubble then Some (tl (the command)) else command),
          kb_commandArgs = commandArgs, kb_when = when, kb_isDefault = isDefault\<rparr>)"

section \<open>Implication of conditions\<close>

definition whenIsEntirelyIncluded :: "ContextKeyExpression option \<Rightarrow> ContextKeyExpression option \<Rightarrow> bool" where
  "whenIsEntirelyIncluded a b =
     (if b = None \<or> b = Some TrueExpr then True
      else if a = None \<or> a = Some TrueExpr then False
      else implies (the a) (the b))"

text \<open>\<open>when?.substituteConstants()\<close>\<close>

definition substituteWhen :: "ck_constants \<Rightarrow> nat \<Rightarrow> ContextKeyExpression option \<Rightarrow> ContextKeyExpression option option" where
  "substituteWhen K n when = (case when of None \<Rightarrow> Some None | Some e \<Rightarrow> map_option snd (substituteConstants K n e))"

section \<open>Removals\<close>

text \<open>\<open>chords[i]\<close> is \<open>undefined\<close> past the end and then differs from every string.\<close>

definition startsWithChords :: "js_string list \<Rightarrow> js_string list \<Rightarrow> bool" where
  "startsWithChords keypress chords \<longleftrightarrow> list_all (\<lambda>i. i < length chords \<and> keypress ! i = chords ! i) [0..<length keypress]"

definition isTargetedForRemoval ::
  "ck_constants \<Rightarrow> nat \<Rightarrow> 'args ResolvedKeybindingItem \<Rightarrow> js_string list \<Rightarrow> ContextKeyExpression option \<Rightarrow> bool option" where
  "isTargetedForRemoval K n defaultKb keypress when =
     (if \<not> startsWithChords keypress (kb_chords defaultKb) then Some False
      else if when \<noteq> None \<and> when \<noteq> Some TrueExpr then
        (if kb_when defaultKb = None then Some False
         else case (substituteWhen K n (kb_when defaultKb), substituteWhen K n when) of
           (Some defaultWhen, Some removalWhen) \<Rightarrow> Some (whenIsEntirelyIncluded defaultWhen removalWhen)
         | _ \<Rightarrow> None)
      else Some True)"

type_synonym 'args kb_map = "js_string \<Rightarrow> 'args ResolvedKeybindingItem list option"

definition is_removal :: "'args ResolvedKeybindingItem \<Rightarrow> bool" where
  "is_removal rule \<longleftrightarrow> truthy_string (kb_command rule) \<and> hd (the (kb_command rule)) = 45"

definition collect_removals :: "'args ResolvedKeybindingItem list \<Rightarrow> 'args kb_map" where
  "collect_removals rules = foldl (\<lambda>removals rule.
     if is_removal rule then
       let command = tl (the (kb_command rule))
       in case removals command of
            None \<Rightarrow> removals(command \<mapsto> [rule])
          | Some rs \<Rightarrow> removals(command \<mapsto> rs @ [rule])
     else removals) (\<lambda>_. None) rules"

text \<open>The loop over the removals of a command stops at the first that targets the rule.\<close>

fun targeted_by :: "ck_constants \<Rightarrow> nat \<Rightarrow> 'args ResolvedKeybindingItem \<Rightarrow> 'args ResolvedKeybindingItem list \<Rightarrow> bool option" where
  "targeted_by K n rule [] = Some False"
| "targeted_by K n rule (commandRemoval # rs) =
     (case isTargetedForRemoval K n rule (kb_chords commandRemoval) (kb_when commandRemoval) of
        None \<Rightarrow> None
      | Some True \<Rightarrow> Some True
      | Some False \<Rightarrow> targeted_by K n rule rs)"

fun removals_loop ::
  "ck_constants \<Rightarrow> nat \<Rightarrow> 'args kb_map \<Rightarrow> 'args ResolvedKeybindingItem list \<Rightarrow> 'args ResolvedKeybindingItem list \<Rightarrow>
   'args ResolvedKeybindingItem list option" where
  "removals_loop K n removals [] result = Some result"
| "removals_loop K n removals (rule # rules) result =
     (if \<not> truthy_string (kb_command rule) then removals_loop K n removals rules (result @ [rule])
      else if hd (the (kb_command rule)) = 45 then removals_loop K n removals rules result
      else case removals (the (kb_command rule)) of
        None \<Rightarrow> removals_loop K n removals rules (result @ [rule])
      | Some commandRemovals \<Rightarrow>
          if \<not> kb_isDefault rule then removals_loop K n removals rules (result @ [rule])
          else case targeted_by K n rule commandRemovals of
            None \<Rightarrow> None
          | Some isRemoved \<Rightarrow> removals_loop K n removals rules (if isRemoved then result else result @ [rule]))"

definition handleRemovals ::
  "ck_constants \<Rightarrow> nat \<Rightarrow> 'args ResolvedKeybindingItem list \<Rightarrow> 'args ResolvedKeybindingItem list option" where
  "handleRemovals K n rules =
     (if \<not> list_ex is_removal rules then Some rules
      else removals_loop K n (collect_removals rules) rules [])"

section \<open>The maps of the resolver\<close>

record 'args KeybindingResolver =
  kr_defaultKeybindings :: "'args ResolvedKeybindingItem list"
  kr_keybindings :: "'args ResolvedKeybindingItem list"
  kr_defaultBoundCommands :: "js_string set"
  kr_map :: "'args kb_map"
  kr_lookupMap :: "'args kb_map"

definition addToLookupMap :: "'args ResolvedKeybindingItem \<Rightarrow> 'args KeybindingResolver \<Rightarrow> 'args KeybindingResolver" where
  "addToLookupMap item r =
     (if \<not> truthy_string (kb_command item) then r
      else let command = the (kb_command item)
           in r\<lparr>kr_lookupMap := (kr_lookupMap r)(command \<mapsto> (case kr_lookupMap r command of None \<Rightarrow> [item] | Some arr \<Rightarrow> arr @ [item]))\<rparr>)"

fun remove_object :: "nat \<Rightarrow> 'args ResolvedKeybindingItem list \<Rightarrow> 'args ResolvedKeybindingItem list" where
  "remove_object object [] = []"
| "remove_object object (x # arr) = (if kb_object x = object then arr else x # remove_object object arr)"

definition removeFromLookupMap :: "'args ResolvedKeybindingItem \<Rightarrow> 'args KeybindingResolver \<Rightarrow> 'args KeybindingResolver" where
  "removeFromLookupMap item r =
     (if \<not> truthy_string (kb_command item) then r
      else case kr_lookupMap r (the (kb_command item)) of
        None \<Rightarrow> r
      | Some arr \<Rightarrow> r\<lparr>kr_lookupMap := (kr_lookupMap r)(the (kb_command item) \<mapsto> remove_object (kb_object item) arr)\<rparr>)"

text \<open>The test for a common prefix starts at the second chord: both items have the first.\<close>

definition isShorterKbPrefix :: "'args ResolvedKeybindingItem \<Rightarrow> 'args ResolvedKeybindingItem \<Rightarrow> bool" where
  "isShorterKbPrefix conflict item \<longleftrightarrow>
     list_all (\<lambda>i. kb_chords conflict ! i = kb_chords item ! i) [1..<min (length (kb_chords conflict)) (length (kb_chords item))]"

definition overwrites :: "'args ResolvedKeybindingItem \<Rightarrow> 'args ResolvedKeybindingItem \<Rightarrow> bool" where
  "overwrites item conflict \<longleftrightarrow>
     kb_command conflict \<noteq> kb_command item \<and> isShorterKbPrefix conflict item \<and> whenIsEntirelyIncluded (kb_when conflict) (kb_when item)"

definition addKeyPress :: "js_string \<Rightarrow> 'args ResolvedKeybindingItem \<Rightarrow> 'args KeybindingResolver \<Rightarrow> 'args KeybindingResolver" where
  "addKeyPress keypress item r =
     (case kr_map r keypress of
        None \<Rightarrow> addToLookupMap item (r\<lparr>kr_map := (kr_map r)(keypress \<mapsto> [item])\<rparr>)
      | Some conflicts \<Rightarrow>
          let r = fold (\<lambda>conflict r. if overwrites item conflict then removeFromLookupMap conflict r else r) (rev conflicts) r
          in addToLookupMap item (r\<lparr>kr_map := (kr_map r)(keypress \<mapsto> conflicts @ [item])\<rparr>))"

fun add_keybindings ::
  "ck_constants \<Rightarrow> nat \<Rightarrow> 'args ResolvedKeybindingItem list \<Rightarrow> 'args KeybindingResolver \<Rightarrow> 'args KeybindingResolver option" where
  "add_keybindings K n [] r = Some r"
| "add_keybindings K n (k # ks) r =
     (if kb_chords k = [] then add_keybindings K n ks r
      else case substituteWhen K n (kb_when k) of
        None \<Rightarrow> None
      | Some when \<Rightarrow>
          if when = Some FalseExpr then add_keybindings K n ks r
          else add_keybindings K n ks (addKeyPress (hd (kb_chords k)) k r))"

definition boundCommands :: "'args ResolvedKeybindingItem list \<Rightarrow> js_string set" where
  "boundCommands defaultKeybindings = foldl (\<lambda>commands k.
     if truthy_string (kb_command k) \<and> hd (the (kb_command k)) \<noteq> 45 then insert (the (kb_command k)) commands else commands)
     {} defaultKeybindings"

definition new_KeybindingResolver ::
  "ck_constants \<Rightarrow> nat \<Rightarrow> 'args ResolvedKeybindingItem list \<Rightarrow> 'args ResolvedKeybindingItem list \<Rightarrow> 'args KeybindingResolver option" where
  "new_KeybindingResolver K n defaultKeybindings overrides =
     (case handleRemovals K n (defaultKeybindings @ overrides) of
        None \<Rightarrow> None
      | Some keybindings \<Rightarrow>
          add_keybindings K n keybindings
            \<lparr>kr_defaultKeybindings = defaultKeybindings, kr_keybindings = keybindings,
             kr_defaultBoundCommands = boundCommands defaultKeybindings,
             kr_map = (\<lambda>_. None), kr_lookupMap = (\<lambda>_. None)\<rparr>)"

section \<open>Resolving\<close>

datatype 'args ResolutionResult = NoMatchingKb | MoreChordsNeeded | KbFound "js_string option" 'args bool

definition contextMatchesRules :: "js_host \<Rightarrow> ck_context \<Rightarrow> ContextKeyExpression option \<Rightarrow> bool" where
  "contextMatchesRules H context rules = (case rules of None \<Rightarrow> True | Some e \<Rightarrow> evaluate H context e)"

text \<open>The last of the matches whose condition holds.\<close>

fun findCommand_loop :: "js_host \<Rightarrow> ck_context \<Rightarrow> 'args ResolvedKeybindingItem list \<Rightarrow> 'args ResolvedKeybindingItem option" where
  "findCommand_loop H context [] = None"
| "findCommand_loop H context (k # ks) =
     (if \<not> contextMatchesRules H context (kb_when k) then findCommand_loop H context ks else Some k)"

definition findCommand :: "js_host \<Rightarrow> ck_context \<Rightarrow> 'args ResolvedKeybindingItem list \<Rightarrow> 'args ResolvedKeybindingItem option" where
  "findCommand H context matches = findCommand_loop H context (rev matches)"

definition chord_candidates :: "js_string list \<Rightarrow> 'args ResolvedKeybindingItem list \<Rightarrow> 'args ResolvedKeybindingItem list" where
  "chord_candidates pressedChords kbCandidates =
     (if length pressedChords < 2 then kbCandidates
      else filter (\<lambda>candidate. \<not> length pressedChords > length (kb_chords candidate) \<and>
             list_all (\<lambda>i. kb_chords candidate ! i = pressedChords ! i) [1..<length pressedChords]) kbCandidates)"

definition resolve_item ::
  "js_host \<Rightarrow> ck_context \<Rightarrow> js_string list \<Rightarrow> 'args KeybindingResolver \<Rightarrow> 'args ResolvedKeybindingItem option" where
  "resolve_item H context pressedChords r =
     (case kr_map r (hd pressedChords) of
        None \<Rightarrow> None
      | Some kbCandidates \<Rightarrow> findCommand H context (chord_candidates pressedChords kbCandidates))"

definition KeybindingResolver_resolve ::
  "js_host \<Rightarrow> ck_context \<Rightarrow> js_string list \<Rightarrow> js_string \<Rightarrow> 'args KeybindingResolver \<Rightarrow> 'args ResolutionResult" where
  "KeybindingResolver_resolve H context currentChords keypress r =
     (let pressedChords = currentChords @ [keypress]
      in case resolve_item H context pressedChords r of
           None \<Rightarrow> NoMatchingKb
         | Some result \<Rightarrow>
             if length pressedChords < length (kb_chords result) then MoreChordsNeeded
             else KbFound (kb_command result) (kb_commandArgs result) (kb_bubble result))"

section \<open>Looking up\<close>

definition lookupKeybindings :: "js_string \<Rightarrow> 'args KeybindingResolver \<Rightarrow> 'args ResolvedKeybindingItem list" where
  "lookupKeybindings commandId r = (case kr_lookupMap r commandId of None \<Rightarrow> [] | Some items \<Rightarrow> rev items)"

text \<open>\<open>matches\<close> is \<open>contextMatchesRules\<close> of the context key service.\<close>

definition lookupPrimaryKeybinding ::
  "(ContextKeyExpression option \<Rightarrow> bool) \<Rightarrow> bool \<Rightarrow> js_string \<Rightarrow> 'args KeybindingResolver \<Rightarrow> 'args ResolvedKeybindingItem option" where
  "lookupPrimaryKeybinding matches enforceContextCheck commandId r =
     (case kr_lookupMap r commandId of
        None \<Rightarrow> None
      | Some items \<Rightarrow>
          if items = [] then None
          else if length items = 1 \<and> \<not> enforceContextCheck then Some (hd items)
          else case find (\<lambda>item. matches (kb_when item)) (rev items) of
            Some item \<Rightarrow> Some item
          | None \<Rightarrow> if enforceContextCheck then None else Some (last items))"

end
