(* ===== verification/KeybindingResolution.thy ===== *)
theory KeybindingResolution
  imports KeybindingResolver ContextKeyForms
begin

text \<open>
  What the resolver computes: resolving picks the last key binding whose chords start with the
  pressed ones and whose condition holds; looking up lists the key bindings of a command that no
  later one overwrites, and an overwritten one is shadowed by a later one.
\<close>

section \<open>Removals\<close>

text \<open>The rule that decides about one key binding, without the hash map of the first pass.\<close>

definition removed_by :: "ck_constants \<Rightarrow> nat \<Rightarrow> 'args ResolvedKeybindingItem \<Rightarrow> 'args ResolvedKeybindingItem \<Rightarrow> bool" where
  "removed_by K n rule removal \<longleftrightarrow>
     kb_command removal = Some (45 # the (kb_command rule)) \<and>
     isTargetedForRemoval K n rule (kb_chords removal) (kb_when removal) = Some True"

definition kept :: "ck_constants \<Rightarrow> nat \<Rightarrow> 'args ResolvedKeybindingItem list \<Rightarrow> 'args ResolvedKeybindingItem \<Rightarrow> bool" where
  "kept K n rules rule \<longleftrightarrow> \<not> truthy_string (kb_command rule) \<or>
     \<not> is_removal rule \<and> (\<not> kb_isDefault rule \<or> \<not> list_ex (removed_by K n rule) rules)"

lemma is_removal_iff: "is_removal rule \<longleftrightarrow> (\<exists>command. kb_command rule = Some (45 # command))"
  by (cases "kb_command rule"; cases "the (kb_command rule)") (auto simp: is_removal_def truthy_string_def)

lemma collect_removals_snoc:
  "collect_removals (rules @ [rule]) =
     (case kb_command rule of
        Some (x # command) \<Rightarrow>
          if x = 45 then (collect_removals rules)(command \<mapsto> (case collect_removals rules command of None \<Rightarrow> [rule] | Some rs \<Rightarrow> rs @ [rule]))
          else collect_removals rules
      | _ \<Rightarrow> collect_removals rules)"
  by (auto simp: collect_removals_def Let_def is_removal_def truthy_string_def split: option.splits list.splits)

lemma collect_removals_eq:
  "collect_removals rules command =
     (let rs = filter (\<lambda>rule. kb_command rule = Some (45 # command)) rules in if rs = [] then None else Some rs)"
proof (induction rules rule: rev_induct)
  case Nil
  then show ?case by (simp add: collect_removals_def)
next
  case (snoc rule rules)
  then show ?case by (auto simp: collect_removals_snoc Let_def split: option.splits list.splits)
qed

lemma targeted_by_eq:
  assumes "targeted_by K n rule rs = Some b"
  shows "b \<longleftrightarrow> list_ex (\<lambda>removal. isTargetedForRemoval K n rule (kb_chords removal) (kb_when removal) = Some True) rs"
  using assms by (induction rs) (auto split: option.splits bool.splits)

lemma removals_loop_eq:
  assumes "removals_loop K n (collect_removals all) rules result = Some kbs"
  shows "kbs = result @ filter (kept K n all) rules"
  using assms
proof (induction rules arbitrary: result)
  case (Cons rule rules)
  let ?c = "the (kb_command rule)"
  show ?case
  proof (cases "\<not> truthy_string (kb_command rule)")
    case True
    then have "kept K n all rule" by (simp add: kept_def)
    then show ?thesis using Cons.IH [of "result @ [rule]"] Cons.prems True by simp
  next
    case False
    note t = this
    then obtain x c where c: "kb_command rule = Some (x # c)" by (cases "kb_command rule"; cases "the (kb_command rule)") (auto simp: truthy_string_def)
    show ?thesis
    proof (cases "x = 45 \<or> collect_removals all ?c = None \<or> \<not> kb_isDefault rule")
      case True
      moreover have "\<not> list_ex (removed_by K n rule) all" if "collect_removals all ?c = None"
        using that by (auto simp: collect_removals_eq Let_def filter_empty_conv removed_by_def list_ex_iff split: if_splits)
      ultimately have "kept K n all rule \<longleftrightarrow> x \<noteq> 45" using t c by (auto simp: kept_def is_removal_iff)
      then show ?thesis using Cons.IH [of result] Cons.IH [of "result @ [rule]"] Cons.prems t c True by (auto split: option.splits if_splits)
    next
      case False
      then obtain rs where rs: "collect_removals all ?c = Some rs" "x \<noteq> 45" "kb_isDefault rule" by auto
      then have rs': "rs = filter (\<lambda>rule'. kb_command rule' = Some (45 # ?c)) all" by (auto simp: collect_removals_eq Let_def split: if_splits)
      obtain b where b: "targeted_by K n rule rs = Some b"
        using Cons.prems t c rs by (auto split: option.splits if_splits)
      have "kept K n all rule \<longleftrightarrow> \<not> b"
        using targeted_by_eq [OF b] rs t c by (auto simp: kept_def is_removal_iff rs' removed_by_def list_ex_iff)
      then show ?thesis using Cons.IH [of "if b then result else result @ [rule]"] Cons.prems t c rs b by auto
    qed
  qed
qed simp

lemma handleRemovals_eq:
  assumes "handleRemovals K n rules = Some kbs"
  shows "kbs = filter (kept K n rules) rules"
proof (cases "list_ex is_removal rules")
  case True
  then show ?thesis using assms removals_loop_eq [of K n rules rules "[]" kbs] by (simp add: handleRemovals_def)
next
  case False
  then have "\<not> list_ex (removed_by K n rule) rules" for rule
    by (auto simp: list_ex_iff removed_by_def is_removal_iff)
  then have "kept K n rules rule" if "rule \<in> set rules" for rule
    using False that by (auto simp: kept_def list_ex_iff)
  then have "filter (kept K n rules) rules = rules" by (simp add: filter_id_conv)
  then show ?thesis using assms False by (simp add: handleRemovals_def)
qed

section \<open>The maps\<close>

definition effective :: "ck_constants \<Rightarrow> nat \<Rightarrow> 'args ResolvedKeybindingItem \<Rightarrow> bool" where
  "effective K n k \<longleftrightarrow> kb_chords k \<noteq> [] \<and> substituteWhen K n (kb_when k) \<noteq> Some (Some FalseExpr)"

definition hides :: "'args ResolvedKeybindingItem \<Rightarrow> 'args ResolvedKeybindingItem \<Rightarrow> bool" where
  "hides item k \<longleftrightarrow> hd (kb_chords k) = hd (kb_chords item) \<and> overwrites item k"

fun shown :: "'args ResolvedKeybindingItem list \<Rightarrow> 'args ResolvedKeybindingItem list" where
  "shown [] = []"
| "shown (k # ks) = (if list_ex (\<lambda>item. hides item k) ks then shown ks else k # shown ks)"

lemma shown_snoc: "shown (ks @ [item]) = filter (\<lambda>k. \<not> hides item k) (shown ks) @ [item]"
  by (induction ks) auto

lemma shown_subset: "set (shown ks) \<subseteq> set ks"
  by (induction ks) auto

lemma shown_distinct: "distinct (map kb_object ks) \<Longrightarrow> distinct (map kb_object (shown ks))"
  using shown_subset by (induction ks) fastforce+

definition grouped :: "('a \<Rightarrow> bool) \<Rightarrow> 'a list \<Rightarrow> 'a list option" where
  "grouped P ks = (if list_ex P ks then Some (filter P ks) else None)"

definition maps_of :: "'args ResolvedKeybindingItem list \<Rightarrow> 'args KeybindingResolver \<Rightarrow> bool" where
  "maps_of ks r \<longleftrightarrow>
     (\<forall>c. kr_map r c = grouped (\<lambda>k. hd (kb_chords k) = c) ks) \<and>
     (\<forall>c. kr_lookupMap r c = (if c \<noteq> [] \<and> list_ex (\<lambda>k. kb_command k = Some c) ks
        then Some (filter (\<lambda>k. kb_command k = Some c) (shown ks)) else None))"

lemma remove_object_filter:
  "distinct (map kb_object xs) \<Longrightarrow> remove_object i xs = filter (\<lambda>x. kb_object x \<noteq> i) xs"
  by (induction xs) (auto intro!: filter_True [symmetric], metis image_eqI)

definition lookup_distinct :: "'args KeybindingResolver \<Rightarrow> bool" where
  "lookup_distinct r \<longleftrightarrow> (\<forall>c xs. kr_lookupMap r c = Some xs \<longrightarrow> distinct (map kb_object xs))"

lemma removeFromLookupMap_maps:
  assumes "lookup_distinct r"
  shows "kr_map (removeFromLookupMap k r) = kr_map r"
    and "kr_lookupMap (removeFromLookupMap k r) c =
      map_option (filter (\<lambda>x. \<not> (truthy_string (kb_command k) \<and> kb_command k = Some c \<and> kb_object x = kb_object k))) (kr_lookupMap r c)"
    and "lookup_distinct (removeFromLookupMap k r)"
proof -
  show "kr_map (removeFromLookupMap k r) = kr_map r" by (simp add: removeFromLookupMap_def split: option.splits)
  have same: "map_option (filter (\<lambda>x. True)) o' = o'" for o' :: "'a ResolvedKeybindingItem list option" by (cases o') simp_all
  show lookup: "kr_lookupMap (removeFromLookupMap k r) c =
      map_option (filter (\<lambda>x. \<not> (truthy_string (kb_command k) \<and> kb_command k = Some c \<and> kb_object x = kb_object k))) (kr_lookupMap r c)" for c
  proof (cases "truthy_string (kb_command k) \<and> kb_command k = Some c")
    case True
    then show ?thesis using assms by (cases "kr_lookupMap r c") (auto simp: removeFromLookupMap_def lookup_distinct_def remove_object_filter)
  next
    case False
    then have "(\<lambda>x :: 'a ResolvedKeybindingItem. \<not> (truthy_string (kb_command k) \<and> kb_command k = Some c \<and> kb_object x = kb_object k)) = (\<lambda>x. True)"
      by auto
    moreover have "kr_lookupMap (removeFromLookupMap k r) c = kr_lookupMap r c"
      using False by (auto simp: removeFromLookupMap_def truthy_string_def split: option.splits)
    ultimately show ?thesis by (simp only: same)
  qed
  show "lookup_distinct (removeFromLookupMap k r)"
    using assms unfolding lookup_distinct_def lookup by (auto simp: distinct_map_filter)
qed

lemma fold_removes:
  assumes "lookup_distinct r"
  shows "kr_map (fold (\<lambda>conflict r. if P conflict then removeFromLookupMap conflict r else r) cs r) = kr_map r"
    and "kr_lookupMap (fold (\<lambda>conflict r. if P conflict then removeFromLookupMap conflict r else r) cs r) c =
      map_option (filter (\<lambda>x. \<not> (\<exists>k \<in> set cs. P k \<and> truthy_string (kb_command k) \<and> kb_command k = Some c \<and> kb_object x = kb_object k))) (kr_lookupMap r c)"
  using assms
proof (induction cs arbitrary: r)
  case Nil
  {
    case 1
    show ?case by simp
  next
    case 2
    show ?case by (cases "kr_lookupMap r c") simp_all
  }
next
  case (Cons k cs)
  {
    case 1
    note step = removeFromLookupMap_maps [OF 1, of k]
    show ?case using Cons.IH(1) [OF step(3)] Cons.IH(1) [OF 1] step(1) by simp
  next
    case 2
    note step = removeFromLookupMap_maps [OF 2, of k]
    show ?case
      using Cons.IH(2) [OF 2] Cons.IH(2) [OF step(3)] step(2) [of c]
      by (cases "kr_lookupMap r c"; cases "P k") (auto intro!: filter_cong)
  }
qed

lemma addKeyPress_maps:
  assumes maps: "maps_of ks r" and dist: "distinct (map kb_object (ks @ [item]))"
  shows "maps_of (ks @ [item]) (addKeyPress (hd (kb_chords item)) item r)"
proof -
  let ?same = "\<lambda>k. hd (kb_chords k) = hd (kb_chords item)"
  let ?cs = "filter ?same ks"
  let ?r = "fold (\<lambda>conflict r. if overwrites item conflict then removeFromLookupMap conflict r else r) (rev ?cs) r"
  have ld: "lookup_distinct r"
    using maps dist shown_distinct [of ks] by (auto simp: lookup_distinct_def maps_of_def distinct_map_filter split: if_splits)
  have inj: "x = k" if "x \<in> set ks" "k \<in> set ks" "kb_object x = kb_object k" for x k
    using dist that by (auto simp: distinct_map dest: inj_onD)
  have map': "kr_map ?r = kr_map r" by (rule fold_removes(1) [OF ld])
  have lookup': "kr_lookupMap ?r c = (if c \<noteq> [] \<and> list_ex (\<lambda>k. kb_command k = Some c) ks
      then Some (filter (\<lambda>k. kb_command k = Some c) (filter (\<lambda>k. \<not> hides item k) (shown ks))) else None)" for c
  proof -
    have "filter (\<lambda>x. \<not> (\<exists>k \<in> set (rev ?cs). overwrites item k \<and> truthy_string (kb_command k) \<and> kb_command k = Some c \<and> kb_object x = kb_object k))
        (filter (\<lambda>k. kb_command k = Some c) (shown ks)) =
      filter (\<lambda>k. kb_command k = Some c) (filter (\<lambda>k. \<not> hides item k) (shown ks))" if "c \<noteq> []"
      unfolding filter_filter using that inj shown_subset [of ks]
      by (intro filter_cong) (auto simp: hides_def truthy_string_def)
    then show ?thesis using maps by (simp add: fold_removes(2) [OF ld] maps_of_def)
  qed
  have add: "maps_of (ks @ [item]) (addToLookupMap item (r'\<lparr>kr_map := (kr_map r)(hd (kb_chords item) \<mapsto> ?cs @ [item])\<rparr>))"
    if "\<And>c. kr_lookupMap r' c = (if c \<noteq> [] \<and> list_ex (\<lambda>k. kb_command k = Some c) ks
      then Some (filter (\<lambda>k. kb_command k = Some c) (filter (\<lambda>k. \<not> hides item k) (shown ks))) else None)" for r'
  proof -
    let ?r' = "r'\<lparr>kr_map := (kr_map r)(hd (kb_chords item) \<mapsto> ?cs @ [item])\<rparr>"
    have "kr_map ?r' c = grouped (\<lambda>k. hd (kb_chords k) = c) (ks @ [item])" for c
      using maps by (auto simp: maps_of_def grouped_def)
    moreover have "kr_lookupMap (addToLookupMap item ?r') c = (if c \<noteq> [] \<and> list_ex (\<lambda>k. kb_command k = Some c) (ks @ [item])
        then Some (filter (\<lambda>k. kb_command k = Some c) (shown (ks @ [item]))) else None)" for c
    proof -
      have "\<not> list_ex (\<lambda>k. kb_command k = Some c) ks \<Longrightarrow> filter (\<lambda>k. kb_command k = Some c) (filter (\<lambda>k. \<not> hides item k) (shown ks)) = []"
        using shown_subset [of ks] by (auto simp: list_ex_iff filter_empty_conv)
      then show ?thesis using that [of c]
        by (cases "kb_command item") (auto simp: addToLookupMap_def truthy_string_def shown_snoc Let_def)
    qed
    ultimately show ?thesis by (simp add: maps_of_def addToLookupMap_def Let_def)
  qed
  show ?thesis
  proof (cases "list_ex ?same ks")
    case True
    then have m: "kr_map r (hd (kb_chords item)) = Some ?cs" using maps by (simp add: maps_of_def grouped_def)
    show ?thesis using add [OF lookup'] by (simp add: addKeyPress_def m map' Let_def)
  next
    case False
    then have m: "kr_map r (hd (kb_chords item)) = None" "?cs = []" using maps by (auto simp: maps_of_def grouped_def filter_empty_conv list_ex_iff)
    show ?thesis using add [of r] lookup' m by (simp add: addKeyPress_def)
  qed
qed

section \<open>The resolver of a list of rules\<close>

lemma add_keybindings_maps:
  assumes "add_keybindings K n kbs r = Some r'" "maps_of ks r" "distinct (map kb_object (ks @ kbs))"
  shows "maps_of (ks @ filter (effective K n) kbs) r'"
  using assms
proof (induction kbs arbitrary: ks r)
  case (Cons k kbs)
  show ?case
  proof (cases "effective K n k")
    case True
    then have "add_keybindings K n kbs (addKeyPress (hd (kb_chords k)) k r) = Some r'"
      using Cons.prems(1) by (auto simp: effective_def split: option.splits if_splits)
    moreover have "maps_of (ks @ [k]) (addKeyPress (hd (kb_chords k)) k r)"
      using Cons.prems(2,3) by (intro addKeyPress_maps) auto
    ultimately have "maps_of ((ks @ [k]) @ filter (effective K n) kbs) r'"
      using Cons.prems(3) by (intro Cons.IH) auto
    then show ?thesis using True by simp
  next
    case False
    then have "add_keybindings K n kbs r = Some r'"
      using Cons.prems(1) by (auto simp: effective_def split: option.splits if_splits)
    then have "maps_of (ks @ filter (effective K n) kbs) r'"
      using Cons.prems(2,3) by (intro Cons.IH) auto
    then show ?thesis using False by simp
  qed
qed simp

text \<open>The key bindings that take part: neither removed nor without chords nor with a false condition.\<close>

definition active :: "ck_constants \<Rightarrow> nat \<Rightarrow> 'args ResolvedKeybindingItem list \<Rightarrow> 'args ResolvedKeybindingItem list" where
  "active K n rules = filter (\<lambda>k. kept K n rules k \<and> effective K n k) rules"

lemma new_KeybindingResolver_maps:
  assumes new: "new_KeybindingResolver K n defaults overrides = Some r"
    and dist: "distinct (map kb_object (defaults @ overrides))"
  shows "maps_of (active K n (defaults @ overrides)) r"
proof -
  let ?all = "defaults @ overrides"
  obtain kbs where kbs: "handleRemovals K n ?all = Some kbs"
    using new by (auto simp: new_KeybindingResolver_def split: option.splits)
  let ?r = "\<lparr>kr_defaultKeybindings = defaults, kr_keybindings = kbs, kr_defaultBoundCommands = boundCommands defaults,
             kr_map = (\<lambda>_. None), kr_lookupMap = (\<lambda>_. None)\<rparr>"
  have eq: "kbs = filter (kept K n ?all) ?all" by (rule handleRemovals_eq [OF kbs])
  have "add_keybindings K n kbs ?r = Some r" using new kbs by (simp add: new_KeybindingResolver_def)
  moreover have "maps_of [] ?r" by (simp add: maps_of_def grouped_def)
  moreover have "distinct (map kb_object ([] @ kbs))" using distinct_map_filter [OF dist] by (simp only: eq append_Nil)
  ultimately have "maps_of ([] @ filter (effective K n) kbs) r" by (rule add_keybindings_maps)
  then show ?thesis by (simp add: eq active_def conj_commute)
qed

lemma active_chords: "k \<in> set (active K n rules) \<Longrightarrow> kb_chords k \<noteq> []"
  by (simp add: active_def effective_def)

section \<open>Resolving\<close>

definition matches_press :: "js_host \<Rightarrow> ck_context \<Rightarrow> js_string list \<Rightarrow> 'args ResolvedKeybindingItem \<Rightarrow> bool" where
  "matches_press H ctx pressed k \<longleftrightarrow> take (length pressed) (kb_chords k) = pressed \<and> contextMatchesRules H ctx (kb_when k)"

lemma findCommand_eq: "findCommand H ctx ks = find (\<lambda>k. contextMatchesRules H ctx (kb_when k)) (rev ks)"
proof -
  have "findCommand_loop H ctx xs = find (\<lambda>k. contextMatchesRules H ctx (kb_when k)) xs" for xs :: "'a ResolvedKeybindingItem list"
    by (induction xs) auto
  then show ?thesis by (simp add: findCommand_def)
qed

lemma take_eq_nth:
  "length pressed \<le> length xs \<Longrightarrow> take (length pressed) xs = pressed \<longleftrightarrow> (\<forall>i < length pressed. xs ! i = pressed ! i)"
  by (simp add: list_eq_iff_nth_eq min_def)

lemma chord_candidates_eq:
  assumes "pressed \<noteq> []" "\<And>k. k \<in> set ks \<Longrightarrow> kb_chords k \<noteq> []"
  shows "chord_candidates pressed (filter (\<lambda>k. hd (kb_chords k) = hd pressed) ks) =
    filter (\<lambda>k. take (length pressed) (kb_chords k) = pressed) ks"
proof -
  have split: "(\<forall>i < length pressed. P i) \<longleftrightarrow> P 0 \<and> (\<forall>i \<in> {1..<length pressed}. P i)" for P
    using assms(1) by (metis One_nat_def Suc_leI atLeastLessThan_iff length_greater_0_conv not_gr_zero)
  have eq: "take (length pressed) (kb_chords k) = pressed \<longleftrightarrow>
      hd (kb_chords k) = hd pressed \<and> length pressed \<le> length (kb_chords k) \<and>
      (\<forall>i \<in> {1..<length pressed}. kb_chords k ! i = pressed ! i)" if "k \<in> set ks" for k
  proof (cases "length pressed \<le> length (kb_chords k)")
    case True
    then show ?thesis using assms(1) assms(2) [OF that]
      by (simp add: take_eq_nth split [of "\<lambda>i. kb_chords k ! i = pressed ! i"] hd_conv_nth)
  next
    case False
    then have "length (take (length pressed) (kb_chords k)) \<noteq> length pressed" by simp
    then show ?thesis using False by metis
  qed
  show ?thesis
  proof (cases "length pressed < 2")
    case True
    then have "length pressed = 1" using assms(1) by (cases pressed) auto
    moreover have "1 \<le> length (kb_chords k)" if "k \<in> set ks" for k using assms(2) [OF that] by (simp add: Suc_le_eq)
    ultimately show ?thesis using eq by (auto simp: chord_candidates_def intro!: filter_cong)
  next
    case False
    then show ?thesis using eq by (auto simp: chord_candidates_def list_all_iff not_less intro!: filter_cong)
  qed
qed

lemma find_filter: "find P (filter Q xs) = find (\<lambda>x. Q x \<and> P x) xs"
  by (induction xs) auto

lemma resolve_item_eq:
  assumes "maps_of ks r" "pressed \<noteq> []" "\<And>k. k \<in> set ks \<Longrightarrow> kb_chords k \<noteq> []"
  shows "resolve_item H ctx pressed r = find (matches_press H ctx pressed) (rev ks)"
proof (cases "list_ex (\<lambda>k. hd (kb_chords k) = hd pressed) ks")
  case True
  then have "kr_map r (hd pressed) = Some (filter (\<lambda>k. hd (kb_chords k) = hd pressed) ks)"
    using assms(1) by (simp add: maps_of_def grouped_def)
  then show ?thesis
    by (simp add: resolve_item_def chord_candidates_eq [OF assms(2,3)] findCommand_eq rev_filter find_filter matches_press_def [abs_def])
next
  case False
  then have "kr_map r (hd pressed) = None" using assms(1) by (simp add: maps_of_def grouped_def)
  moreover have "\<not> matches_press H ctx pressed k" if "k \<in> set ks" for k
  proof
    assume "matches_press H ctx pressed k"
    then have "take (length pressed) (kb_chords k) = pressed" by (simp add: matches_press_def)
    then have "hd (kb_chords k) = hd pressed" using assms(2) by (metis hd_take length_greater_0_conv)
    then show False using False that by (auto simp: list_ex_iff)
  qed
  ultimately show ?thesis by (simp add: resolve_item_def find_None_iff eq_commute [of None])
qed

section \<open>Hidden key bindings\<close>

lemma find_append: "find P (xs @ ys) = (case find P xs of None \<Rightarrow> find P ys | Some x \<Rightarrow> Some x)"
  by (induction xs) auto

lemma find_last:
  assumes "item \<in> set ys" "P item" "k \<notin> set ys"
  shows "find P (rev (xs @ k # ys)) \<noteq> Some k"
proof -
  from assms(1,2) have "find P (rev ys) \<noteq> None" by (auto simp: find_None_iff)
  then obtain y where y: "find P (rev ys) = Some y" by blast
  then have "y \<in> set ys" using find_in [OF y] by simp
  then show ?thesis using y assms(3) by (auto simp: find_append)
qed

text \<open>
  What the resolver asks of the logic of conditions: on the conditions that it decides soundly, a
  condition that is included in another holds only when the other does.  Then the search for the
  last match never picks an item before a later one that matches the same presses and includes
  its condition.
\<close>

locale when_logic =
  fixes included :: "'w \<Rightarrow> 'w \<Rightarrow> bool" and decided :: "'w \<Rightarrow> bool" and holds :: "'w \<Rightarrow> bool"
  assumes included_holds: "included a b \<Longrightarrow> decided a \<Longrightarrow> decided b \<Longrightarrow> holds a \<Longrightarrow> holds b"
begin

lemma overwritten_not_found:
  assumes item: "item \<in> set ys" "P k \<Longrightarrow> P item" and k: "k \<notin> set ys"
    and w: "included (w k) (w item)" "decided (w k)" "decided (w item)"
  shows "find (\<lambda>j. P j \<and> holds (w j)) (rev (xs @ k # ys)) \<noteq> Some k"
proof
  assume found: "find (\<lambda>j. P j \<and> holds (w j)) (rev (xs @ k # ys)) = Some k"
  then have "P k \<and> holds (w k)" by (rule conjunct2 [OF find_in])
  then have "P item \<and> holds (w item)" using item(2) included_holds [OF w] by blast
  from find_last [where P = "\<lambda>j. P j \<and> holds (w j)" and xs = xs, OF item(1) this k] found show False by simp
qed

end

lemma whenIsEntirelyIncluded_sound:
  assumes "whenIsEntirelyIncluded a b"
    and "\<And>e. a = Some e \<Longrightarrow> sound K H ctx F e" "\<And>e. b = Some e \<Longrightarrow> sound K H ctx F e"
    and "contextMatchesRules H ctx a"
  shows "contextMatchesRules H ctx b"
proof (cases "b = None \<or> b = Some TrueExpr")
  case True
  then show ?thesis by (auto simp: contextMatchesRules_def)
next
  case False
  then obtain p q where pq: "a = Some p" "b = Some q" "implies p q"
    using assms(1) by (cases a; cases b) (auto simp: whenIsEntirelyIncluded_def split: if_splits)
  then show ?thesis using implies_evaluate [OF pq(3) assms(2) [OF pq(1)] assms(3) [OF pq(2)]] assms(4)
    by (simp add: contextMatchesRules_def)
qed

interpretation when_clauses: when_logic whenIsEntirelyIncluded "\<lambda>w. \<forall>e. w = Some e \<longrightarrow> sound K H ctx F e" "contextMatchesRules H ctx"
  for K H ctx F
  by unfold_locales (rule whenIsEntirelyIncluded_sound; blast)

lemma shown_hidden:
  "k \<in> set ks \<Longrightarrow> k \<notin> set (shown ks) \<Longrightarrow> \<exists>xs ys item. ks = xs @ k # ys \<and> item \<in> set ys \<and> hides item k"
proof (induction ks)
  case (Cons x ks)
  show ?case
  proof (cases "x = k")
    case True
    then have "list_ex (\<lambda>item. hides item k) ks" using Cons.prems by (auto split: if_splits)
    then show ?thesis using True by (force simp: list_ex_iff intro: exI [of _ "[]"])
  next
    case False
    then obtain xs ys item where "ks = xs @ k # ys" "item \<in> set ys" "hides item k"
      using Cons by (auto split: if_splits)
    then have "x # ks = (x # xs) @ k # ys \<and> item \<in> set ys \<and> hides item k" by simp
    then show ?thesis by blast
  qed
qed simp

lemma hides_takes:
  assumes "hides item k" "kb_chords k \<noteq> []" "kb_chords item \<noteq> []"
  defines "m \<equiv> min (length (kb_chords k)) (length (kb_chords item))"
  shows "take m (kb_chords item) = take m (kb_chords k)"
proof (rule nth_equalityI)
  fix i assume "i < length (take m (kb_chords item))"
  then have i: "i < m" by (simp add: m_def)
  show "take m (kb_chords item) ! i = take m (kb_chords k) ! i"
  proof (cases "i = 0")
    case True
    then show ?thesis using assms i by (simp add: hides_def hd_conv_nth)
  next
    case False
    then show ?thesis using assms i by (auto simp: hides_def overwrites_def isShorterKbPrefix_def list_all_iff m_def)
  qed
qed (simp add: m_def)

text \<open>
  A later key binding shadows an earlier one: it is for another command, the chords of one are
  the first chords of the other, and its condition holds whenever that of the earlier one does.
\<close>

definition shadows :: "js_host \<Rightarrow> ck_context \<Rightarrow> 'args ResolvedKeybindingItem list \<Rightarrow>
    'args ResolvedKeybindingItem \<Rightarrow> 'args ResolvedKeybindingItem \<Rightarrow> bool" where
  "shadows H ctx ks item k \<longleftrightarrow>
     (\<exists>xs ys. ks = xs @ k # ys \<and> item \<in> set ys) \<and> kb_command item \<noteq> kb_command k \<and>
     (let m = min (length (kb_chords k)) (length (kb_chords item)) in take m (kb_chords item) = take m (kb_chords k)) \<and>
     (contextMatchesRules H ctx (kb_when k) \<longrightarrow> contextMatchesRules H ctx (kb_when item))"

lemma hidden_shadowed:
  assumes new: "new_KeybindingResolver K n defaults overrides = Some r"
    and dist: "distinct (map kb_object (defaults @ overrides))"
    and good: "\<And>j e. j \<in> set (defaults @ overrides) \<Longrightarrow> kb_when j = Some e \<Longrightarrow> sound K H ctx F e"
    and k: "k \<in> set (active K n (defaults @ overrides))" "k \<notin> set (shown (active K n (defaults @ overrides)))"
  shows "\<exists>item. shadows H ctx (active K n (defaults @ overrides)) item k \<and>
    resolve_item H ctx (take (length (kb_chords item)) (kb_chords k)) r \<noteq> Some k"
proof -
  let ?ks = "active K n (defaults @ overrides)"
  obtain xs ys item where ks: "?ks = xs @ k # ys" "item \<in> set ys" "hides item k"
    using shown_hidden [OF k] by blast
  have "distinct (map kb_object ?ks)" using distinct_map_filter [OF dist] by (simp only: active_def)
  then have "k \<notin> set ys" using ks(1) by auto
  have item: "item \<in> set ?ks" using ks by simp
  note chords = active_chords [OF k(1)] active_chords [OF item]
  let ?m = "min (length (kb_chords k)) (length (kb_chords item))"
  let ?pressed = "take ?m (kb_chords k)"
  have m: "0 < ?m" "?pressed = take (length (kb_chords item)) (kb_chords k)"
    using chords by (simp_all add: min_def)
  have in_rules: "j \<in> set (defaults @ overrides)" if "j \<in> set ?ks" for j using that unfolding active_def by auto
  note sounds = good [OF in_rules [OF k(1)]] good [OF in_rules [OF item]]
  have incl: "whenIsEntirelyIncluded (kb_when k) (kb_when item)" using ks(3) by (simp add: hides_def overwrites_def)
  have takes: "take ?m (kb_chords item) = ?pressed" by (rule hides_takes [OF ks(3) chords])
  have "find (matches_press H ctx ?pressed) (rev ?ks) \<noteq> Some k"
    unfolding matches_press_def [abs_def] ks(1)
    by (intro when_clauses.overwritten_not_found [where item = item and K = K and F = F])
      (use ks(2) \<open>k \<notin> set ys\<close> incl takes sounds in auto)
  moreover have "resolve_item H ctx ?pressed r = find (matches_press H ctx ?pressed) (rev ?ks)"
    using chords m(1) by (intro resolve_item_eq new_KeybindingResolver_maps [OF new dist] active_chords) auto
  ultimately have "resolve_item H ctx (take (length (kb_chords item)) (kb_chords k)) r \<noteq> Some k"
    using m(2) by metis
  moreover have "shadows H ctx ?ks item k"
    unfolding shadows_def Let_def
    using ks takes whenIsEntirelyIncluded_sound [OF incl sounds] by (auto simp: hides_def overwrites_def)
  ultimately show ?thesis by blast
qed

lemma lookupKeybindings_eq:
  assumes "maps_of ks r"
  shows "lookupKeybindings c r = (if c = [] then [] else rev (filter (\<lambda>k. kb_command k = Some c) (shown ks)))"
proof -
  have "\<not> list_ex (\<lambda>k. kb_command k = Some c) ks \<Longrightarrow> filter (\<lambda>k. kb_command k = Some c) (shown ks) = []"
    using shown_subset [of ks] by (auto simp: list_ex_iff filter_empty_conv)
  then show ?thesis using assms by (auto simp: lookupKeybindings_def maps_of_def)
qed

lemma lookupPrimaryKeybinding_listed:
  assumes "lookupPrimaryKeybinding matches b c r = Some k"
  shows "k \<in> set (lookupKeybindings c r)"
proof -
  obtain items where items: "kr_lookupMap r c = Some items" "items \<noteq> []"
    using assms by (auto simp: lookupPrimaryKeybinding_def split: option.splits if_splits)
  then have "hd items \<in> set items" "last items \<in> set items" by simp_all
  then show ?thesis using assms items find_in [of _ "rev items"]
    by (auto simp: lookupPrimaryKeybinding_def lookupKeybindings_def split: option.splits if_splits)
qed

section \<open>Building a resolver\<close>

lemma substituteWhen_converges:
  assumes "\<forall>e. w = Some e \<longrightarrow> dnf_form e"
  shows "\<exists>r. converges (\<lambda>n. substituteWhen K n w) r"
proof (cases w)
  case (Some e)
  then obtain c r where "converges (\<lambda>n. substituteConstants K n e) (c, r)"
    using assms substituteConstants_converges(2) [of e K] by blast
  then have "converges (\<lambda>n. map_option snd (substituteConstants K n e)) r"
    by (rule converges_bind [where g = "\<lambda>_ p. Some (snd p)"]) auto
  then show ?thesis using Some by (auto simp: substituteWhen_def)
qed (simp add: substituteWhen_def converges_def)

lemma substituteWhen_list_converges:
  assumes "\<forall>k \<in> set rules. \<forall>e. kb_when k = Some e \<longrightarrow> dnf_form e"
  shows "\<exists>N. \<forall>n \<ge> N. \<forall>k \<in> set rules. substituteWhen K n (kb_when k) = substituteWhen K N (kb_when k) \<and> substituteWhen K n (kb_when k) \<noteq> None"
  using assms
proof (induction rules)
  case (Cons rule rules)
  then obtain N where N: "\<forall>n \<ge> N. \<forall>k \<in> set rules. substituteWhen K n (kb_when k) = substituteWhen K N (kb_when k) \<and> substituteWhen K n (kb_when k) \<noteq> None"
    by auto
  obtain r M where M: "\<forall>n \<ge> M. substituteWhen K n (kb_when rule) = Some r"
    using substituteWhen_converges [of "kb_when rule" K] Cons.prems by (auto simp: converges_def)
  have "substituteWhen K n (kb_when k) = substituteWhen K (max M N) (kb_when k) \<and> substituteWhen K n (kb_when k) \<noteq> None"
    if "n \<ge> max M N" "k \<in> set (rule # rules)" for n k
  proof -
    from that have "k = rule \<or> k \<in> set rules" "M \<le> n" "N \<le> n" by auto
    moreover have "M \<le> max M N" "N \<le> max M N" by simp_all
    ultimately show ?thesis using M N by (metis option.distinct(1))
  qed
  then show ?case by blast
qed simp

lemma targeted_by_total:
  "\<forall>k \<in> set (rule # rs). substituteWhen K n (kb_when k) \<noteq> None \<Longrightarrow> \<exists>b. targeted_by K n rule rs = Some b"
  by (induction rs) (auto simp: isTargetedForRemoval_def split: bool.splits)

lemma removals_loop_total:
  assumes "\<forall>k \<in> set rules. substituteWhen K n (kb_when k) \<noteq> None"
    and "\<forall>command rs. removals command = Some rs \<longrightarrow> (\<forall>k \<in> set rs. substituteWhen K n (kb_when k) \<noteq> None)"
  shows "\<exists>kbs. removals_loop K n removals rules result = Some kbs"
  using assms(1)
proof (induction rules arbitrary: result)
  case (Cons rule rules)
  then have IH: "\<exists>kbs. removals_loop K n removals rules result = Some kbs" for result by simp
  have "\<exists>b. targeted_by K n rule rs = Some b" if "removals (the (kb_command rule)) = Some rs" for rs
    using assms(2) that Cons.prems by (intro targeted_by_total) auto
  then show ?case using IH by (auto split: option.splits)
qed simp

lemma handleRemovals_total:
  assumes "\<forall>k \<in> set rules. substituteWhen K n (kb_when k) \<noteq> None"
  shows "handleRemovals K n rules = Some (filter (kept K n rules) rules)"
proof -
  have "\<forall>command rs. collect_removals rules command = Some rs \<longrightarrow> (\<forall>k \<in> set rs. substituteWhen K n (kb_when k) \<noteq> None)"
    using assms by (auto simp: collect_removals_eq Let_def split: if_splits)
  from removals_loop_total [OF assms this, of "[]"]
  obtain kbs where "removals_loop K n (collect_removals rules) rules [] = Some kbs" by blast
  then have "handleRemovals K n rules = Some (if list_ex is_removal rules then kbs else rules)"
    by (simp add: handleRemovals_def)
  with handleRemovals_eq [OF this] show ?thesis by simp
qed

lemma add_keybindings_total:
  "\<forall>k \<in> set kbs. substituteWhen K n (kb_when k) \<noteq> None \<Longrightarrow> \<exists>r'. add_keybindings K n kbs r = Some r'"
  by (induction kbs arbitrary: r) auto

lemma new_KeybindingResolver_total:
  assumes "\<forall>k \<in> set (defaults @ overrides). substituteWhen K n (kb_when k) \<noteq> None"
  shows "\<exists>r. new_KeybindingResolver K n defaults overrides = Some r"
proof -
  let ?kbs = "filter (kept K n (defaults @ overrides)) (defaults @ overrides)"
  have "\<forall>k \<in> set ?kbs. substituteWhen K n (kb_when k) \<noteq> None" using assms by auto
  from add_keybindings_total [OF this] show ?thesis
    by (simp add: new_KeybindingResolver_def handleRemovals_total [OF assms] del: filter_append)
qed

text \<open>The depth matters only through the substituted conditions.\<close>

lemma substituteWhen_congruence:
  assumes same: "\<forall>k \<in> set rules. substituteWhen K n (kb_when k) = substituteWhen K m (kb_when k)"
  shows "k \<in> set rules \<Longrightarrow> j \<in> set rules \<Longrightarrow>
      isTargetedForRemoval K n k chords (kb_when j) = isTargetedForRemoval K m k chords (kb_when j)"
    and "k \<in> set rules \<Longrightarrow> kept K n rules k = kept K m rules k"
    and "set kbs \<subseteq> set rules \<Longrightarrow> add_keybindings K n kbs r = add_keybindings K m kbs r"
proof -
  show targeted: "isTargetedForRemoval K n k chords (kb_when j) = isTargetedForRemoval K m k chords (kb_when j)"
    if "k \<in> set rules" "j \<in> set rules" for k j chords
    using same that by (simp add: isTargetedForRemoval_def)
  show "k \<in> set rules \<Longrightarrow> kept K n rules k = kept K m rules k"
    by (auto simp: kept_def list_ex_iff removed_by_def targeted)
  show "set kbs \<subseteq> set rules \<Longrightarrow> add_keybindings K n kbs r = add_keybindings K m kbs r"
    using same by (induction kbs arbitrary: r) (auto split: option.splits)
qed

lemma new_KeybindingResolver_congruence:
  assumes same: "\<forall>k \<in> set (defaults @ overrides). substituteWhen K n (kb_when k) = substituteWhen K m (kb_when k)"
    and "\<forall>k \<in> set (defaults @ overrides). substituteWhen K n (kb_when k) \<noteq> None"
  shows "new_KeybindingResolver K n defaults overrides = new_KeybindingResolver K m defaults overrides"
proof -
  let ?all = "defaults @ overrides"
  have m: "\<forall>k \<in> set ?all. substituteWhen K m (kb_when k) \<noteq> None" using assms by simp
  have kbs: "filter (kept K n ?all) ?all = filter (kept K m ?all) ?all"
    by (rule filter_cong [OF refl]) (rule substituteWhen_congruence(2) [OF same])
  have "set (filter (kept K m ?all) ?all) \<subseteq> set ?all" by (rule filter_is_subset)
  note this = substituteWhen_congruence(3) [OF same this]
  then show ?thesis
    by (simp only: new_KeybindingResolver_def handleRemovals_total [OF assms(2)] handleRemovals_total [OF m] kbs option.case)
qed

text \<open>
  A removal whose chords are only the first ones of a default key binding targets it: the chords
  are compared up to the length of those of the removal.
\<close>

lemma removal_targets_longer_chords:
  "isTargetedForRemoval K n
     (new_ResolvedKeybindingItem 0 (Some ([Some (js ''k''), Some (js ''c'')], [])) (Some (js ''a'')) () None True) [js ''k''] None = Some True"
  by (simp add: isTargetedForRemoval_def startsWithChords_def new_ResolvedKeybindingItem_def truthy_string_def Let_def js_def)

section \<open>Properties\<close>

text \<open>
  Two default key bindings, \<open>k c\<close> for the command \<open>a\<close> when \<open>x\<close> and \<open>k\<close> for \<open>b\<close>, a user's removal of
  \<open>d\<close> and a default key binding for \<open>d\<close>.
\<close>

definition example_rules :: "unit ResolvedKeybindingItem list" where
  "example_rules =
     [new_ResolvedKeybindingItem 0 (Some ([Some (js ''k''), Some (js ''c'')], [])) (Some (js ''a'')) () (Some (DefinedExpr (js ''x'') None)) True,
      new_ResolvedKeybindingItem 1 (Some ([Some (js ''k'')], [])) (Some (js ''b'')) () None True,
      new_ResolvedKeybindingItem 2 (Some ([Some (js ''m'')], [])) (Some (js ''d'')) () None True]"

definition example_removal :: "unit ResolvedKeybindingItem list" where
  "example_removal = [new_ResolvedKeybindingItem 3 None (Some (js ''-d'')) () None False]"

lemma example_built: "\<exists>r. new_KeybindingResolver (\<lambda>_. None) 0 example_rules example_removal = Some r"
proof -
  have "\<not> Option.is_none (new_KeybindingResolver (\<lambda>_. None) 0 example_rules example_removal)" by code_simp
  then show ?thesis by (simp add: Option.is_none_def)
qed

lemma example_objects: "distinct (map kb_object (example_rules @ example_removal))"
  by code_simp

lemma example_active: "map kb_object (active (\<lambda>_. None) 0 (example_rules @ example_removal)) = [0, 1]"
  by code_simp

text \<open>
  \<^bold>\<open>C18.\<close> Removals: when the conditions can be substituted, the rules that remain are, in their order,
  those without a command and those that are no removals and that, if they are defaults, no
  removal of their command targets.
\<close>

theorem handleRemovals_correct:
  assumes "\<forall>k \<in> set rules. substituteWhen K n (kb_when k) \<noteq> None"
  shows "handleRemovals K n rules = Some (filter (kept K n rules) rules)"
  by (rule handleRemovals_total [OF assms])

theorem handleRemovals_correct_witness:
  "map_option (map kb_object) (handleRemovals (\<lambda>_. None) 0 (example_rules @ example_removal)) = Some [0, 1]"
proof -
  have "\<forall>k \<in> set (example_rules @ example_removal). substituteWhen (\<lambda>_. None) 0 (kb_when k) \<noteq> None"
    by (simp add: example_rules_def example_removal_def new_ResolvedKeybindingItem_def Let_def substituteWhen_def)
  note eq = handleRemovals_correct [OF this]
  have "map kb_object (filter (kept (\<lambda>_. None) 0 (example_rules @ example_removal)) (example_rules @ example_removal)) = [0, 1]"
    by code_simp
  then show ?thesis by (simp only: eq option.map)
qed

text \<open>
  \<^bold>\<open>C19.\<close> Building a resolver returns, with one result from some depth on, when every condition is a
  constant, a term or a conjunction or disjunction of the forms on which normalization returns.
\<close>

theorem new_KeybindingResolver_terminates:
  assumes "\<forall>k \<in> set (defaults @ overrides). \<forall>e. kb_when k = Some e \<longrightarrow> dnf_form e"
  shows "\<exists>N r. \<forall>n \<ge> N. new_KeybindingResolver K n defaults overrides = Some r"
proof -
  obtain N where N: "\<forall>n \<ge> N. \<forall>k \<in> set (defaults @ overrides).
      substituteWhen K n (kb_when k) = substituteWhen K N (kb_when k) \<and> substituteWhen K n (kb_when k) \<noteq> None"
    using substituteWhen_list_converges [OF assms] by blast
  then obtain r where r: "new_KeybindingResolver K N defaults overrides = Some r"
    using new_KeybindingResolver_total [of defaults overrides K N] by blast
  have "new_KeybindingResolver K n defaults overrides = Some r" if "n \<ge> N" for n
  proof -
    have "\<forall>k \<in> set (defaults @ overrides). substituteWhen K n (kb_when k) = substituteWhen K N (kb_when k)"
      "\<forall>k \<in> set (defaults @ overrides). substituteWhen K n (kb_when k) \<noteq> None" using N that by blast+
    from new_KeybindingResolver_congruence [OF this] r show ?thesis by (simp only:)
  qed
  then show ?thesis by blast
qed

theorem new_KeybindingResolver_terminates_witness:
  "\<exists>N r. \<forall>n \<ge> N. new_KeybindingResolver (\<lambda>_. None) n example_rules example_removal = Some r"
proof -
  have "dnf_form (DefinedExpr (js ''x'') None)" using example_forms(2)
    by (intro dnf_conj conj_literal literal.intros) (simp_all add: is_lit_def)
  then have "\<forall>k \<in> set (example_rules @ example_removal). \<forall>e. kb_when k = Some e \<longrightarrow> dnf_form e"
    by (simp add: example_rules_def example_removal_def new_ResolvedKeybindingItem_def Let_def)
  from new_KeybindingResolver_terminates [OF this] show ?thesis .
qed

text \<open>
  \<^bold>\<open>C10.\<close> Resolving a sequence of presses finds the last active key binding whose chords start with
  it and whose condition holds, and reports that no key binding matches, that more chords are
  needed or what to run.
\<close>

theorem resolve_correct:
  assumes "new_KeybindingResolver K n defaults overrides = Some r"
    and "distinct (map kb_object (defaults @ overrides))"
  shows "KeybindingResolver_resolve H ctx current key r =
    (case find (matches_press H ctx (current @ [key])) (rev (active K n (defaults @ overrides))) of
       None \<Rightarrow> NoMatchingKb
     | Some k \<Rightarrow> if length (current @ [key]) < length (kb_chords k) then MoreChordsNeeded
                 else KbFound (kb_command k) (kb_commandArgs k) (kb_bubble k))"
proof -
  have "resolve_item H ctx (current @ [key]) r = find (matches_press H ctx (current @ [key])) (rev (active K n (defaults @ overrides)))"
    by (intro resolve_item_eq new_KeybindingResolver_maps [OF assms] active_chords) simp_all
  then show ?thesis by (simp add: KeybindingResolver_resolve_def Let_def)
qed

theorem resolve_correct_witness:
  "\<exists>r. new_KeybindingResolver (\<lambda>_. None) 0 example_rules example_removal = Some r \<and>
     KeybindingResolver_resolve example_host (\<lambda>_. Prim (JBool True)) [] (js ''k'') r = KbFound (Some (js ''b'')) () False"
proof -
  obtain r where r: "new_KeybindingResolver (\<lambda>_. None) 0 example_rules example_removal = Some r" using example_built by blast
  have "find (matches_press example_host (\<lambda>_. Prim (JBool True)) ([] @ [js ''k'']))
      (rev (active (\<lambda>_. None) 0 (example_rules @ example_removal))) = Some (example_rules ! 1)" by code_simp
  moreover have "kb_chords (example_rules ! 1) = [js ''k'']" "kb_command (example_rules ! 1) = Some (js ''b'')" "\<not> kb_bubble (example_rules ! 1)"
    by code_simp+
  ultimately have "KeybindingResolver_resolve example_host (\<lambda>_. Prim (JBool True)) [] (js ''k'') r = KbFound (Some (js ''b'')) () False"
    by (simp add: resolve_correct [OF r example_objects] js_def)
  with r show ?thesis by blast
qed

text \<open>
  \<^bold>\<open>C11.\<close> Looking up a command lists its active key bindings, the last first, without those that a
  later one overwrites.  When the conditions are ones on which implication is sound, an active key
  binding of the command that is not listed is shadowed by a later one of another command, and
  once the chords the two have in common are pressed it is not the key binding that is resolved.
  (It can still be reached by pressing all its chords: \<open>unlisted_still_runs\<close> below.)
\<close>

theorem lookupKeybindings_correct:
  assumes "new_KeybindingResolver K n defaults overrides = Some r"
    and "distinct (map kb_object (defaults @ overrides))"
    and "command \<noteq> []"
    and "\<forall>j \<in> set (defaults @ overrides). \<forall>e. kb_when j = Some e \<longrightarrow> expr_good K H ctx F e \<and> string_values e"
  shows "lookupKeybindings command r =
      rev (filter (\<lambda>k. kb_command k = Some command) (shown (active K n (defaults @ overrides)))) \<and>
    (\<forall>k \<in> set (active K n (defaults @ overrides)). kb_command k = Some command \<longrightarrow> k \<notin> set (lookupKeybindings command r) \<longrightarrow>
      (\<exists>item. shadows H ctx (active K n (defaults @ overrides)) item k \<and>
         resolve_item H ctx (take (length (kb_chords item)) (kb_chords k)) r \<noteq> Some k))"
proof -
  have eq: "lookupKeybindings command r =
      rev (filter (\<lambda>k. kb_command k = Some command) (shown (active K n (defaults @ overrides))))"
    using lookupKeybindings_eq [OF new_KeybindingResolver_maps [OF assms(1,2)]] assms(3) by simp
  have "\<exists>item. shadows H ctx (active K n (defaults @ overrides)) item k \<and>
      resolve_item H ctx (take (length (kb_chords item)) (kb_chords k)) r \<noteq> Some k"
    if "k \<in> set (active K n (defaults @ overrides))" "k \<notin> set (shown (active K n (defaults @ overrides)))" for k
    using that assms(4) by (intro hidden_shadowed [OF assms(1,2)]) blast+
  then show ?thesis by (simp add: eq)
qed

theorem lookupKeybindings_correct_witness:
  "\<exists>r. new_KeybindingResolver (\<lambda>_. None) 0 example_rules example_removal = Some r \<and>
     lookupKeybindings (js ''a'') r = [] \<and>
     (\<exists>item :: unit ResolvedKeybindingItem. resolve_item example_host (\<lambda>_. Prim (JBool True)) (take (length (kb_chords item)) [js ''k'', js ''c'']) r \<noteq> Some (hd example_rules))"
proof -
  let ?F = "\<lambda>_ :: js_string. [] :: js_string"
  obtain r where r: "new_KeybindingResolver (\<lambda>_. None) 0 example_rules example_removal = Some r" using example_built by blast
  have good: "\<forall>j \<in> set (example_rules @ example_removal). \<forall>e. kb_when j = Some e \<longrightarrow>
      expr_good (\<lambda>_. None) example_host (\<lambda>_. Prim (JBool True)) ?F e \<and> string_values e"
    by (auto simp: example_rules_def example_removal_def new_ResolvedKeybindingItem_def Let_def defined_good_def)
  have a: "js ''a'' \<noteq> []" by code_simp
  note lookup = lookupKeybindings_correct [OF r example_objects a good]
  have "filter (\<lambda>k. kb_command k = Some (js ''a'')) (shown (active (\<lambda>_. None) 0 (example_rules @ example_removal))) = []" by code_simp
  then have l: "lookupKeybindings (js ''a'') r = []" using lookup by simp
  have k: "hd example_rules \<in> set (active (\<lambda>_. None) 0 (example_rules @ example_removal))"
    by (simp add: active_def example_rules_def example_removal_def new_ResolvedKeybindingItem_def Let_def kept_def effective_def
        is_removal_def removed_by_def truthy_string_def substituteWhen_def js_def)
  have c: "kb_command (hd example_rules) = Some (js ''a'')" "kb_chords (hd example_rules) = [js ''k'', js ''c'']"
    by code_simp+
  have "hd example_rules \<notin> set (lookupKeybindings (js ''a'') r)" by (simp add: l)
  from conjunct2 [OF lookup, rule_format, OF k c(1) this]
  have "\<exists>item :: unit ResolvedKeybindingItem. resolve_item example_host (\<lambda>_. Prim (JBool True)) (take (length (kb_chords item)) (kb_chords (hd example_rules))) r \<noteq>
      Some (hd example_rules)" by blast
  with r l show ?thesis unfolding c by blast
qed

text \<open>
  What is not listed may still run: with key bindings \<open>k c\<close> for \<open>a\<close>, \<open>k\<close> for \<open>b\<close> and \<open>k m\<close> for
  \<open>d\<close>, the second takes the first off the list of \<open>a\<close>, but the third makes \<open>k\<close> wait for another
  chord, and \<open>c\<close> then runs \<open>a\<close>.
\<close>

definition example_unlisted :: "unit ResolvedKeybindingItem list" where
  "example_unlisted =
     [new_ResolvedKeybindingItem 0 (Some ([Some (js ''k''), Some (js ''c'')], [])) (Some (js ''a'')) () None True,
      new_ResolvedKeybindingItem 1 (Some ([Some (js ''k'')], [])) (Some (js ''b'')) () None True,
      new_ResolvedKeybindingItem 2 (Some ([Some (js ''k''), Some (js ''m'')], [])) (Some (js ''d'')) () None True]"

lemma unlisted_still_runs:
  "case new_KeybindingResolver (\<lambda>_. None) 0 example_unlisted [] of
     None \<Rightarrow> False
   | Some r \<Rightarrow> lookupKeybindings (js ''a'') r = [] \<and>
       KeybindingResolver_resolve example_host (\<lambda>_. Prim (JBool True)) [] (js ''k'') r = MoreChordsNeeded \<and>
       KeybindingResolver_resolve example_host (\<lambda>_. Prim (JBool True)) [js ''k''] (js ''c'') r = KbFound (Some (js ''a'')) () False"
  by code_simp

end
