(* ===== verification/Limiters.thy ===== *)
theory Limiters
  imports Prelude
begin

text \<open>
  \<open>base/common/async.ts\<close>: \<open>Limiter\<close>, \<open>Queue\<close>, \<open>ResourceQueue\<close>, \<open>TaskSequentializer\<close> and
  \<open>LimitedQueue\<close>, the helpers that decide when a task may start.

  A task is the factory that is passed in.  Calling it starts the task, or throws before there is
  a promise: \<open>throws\<close> says which.  The operations return the tasks they start, in order.  That a
  started task has settled is an event of its own, the call of \<open>consumed\<close> (\<open>doneRunning\<close>) that the
  code hangs on its promise.  The factories of a \<open>LimitedQueue\<close> are taken not to throw.  Factories
  and listeners that call back into the same object while
  they are called are not modelled, except for the listener \<open>ResourceQueue\<close> adds itself.
\<close>

section \<open>Limiter\<close>

record 'task Limiter =
  l_size :: int
  l_isDisposed :: bool
  l_runningPromises :: int
  l_max :: int
  l_outstanding :: "'task list"

definition new_Limiter :: "int \<Rightarrow> 'task Limiter" where
  "new_Limiter maxDegreeOfParalellism =
     \<lparr>l_size = 0, l_isDisposed = False, l_runningPromises = 0, l_max = maxDegreeOfParalellism, l_outstanding = []\<rparr>"

text \<open>A factory that throws ends the loop, after it was counted as running.\<close>

function consume :: "('task \<Rightarrow> bool) \<Rightarrow> 'task Limiter \<Rightarrow> 'task list \<times> 'task Limiter" where
  "consume throws l =
     (if l_outstanding l \<noteq> [] \<and> l_runningPromises l < l_max l then
        let t = hd (l_outstanding l);
            l = l\<lparr>l_outstanding := tl (l_outstanding l), l_runningPromises := l_runningPromises l + 1\<rparr>
        in if throws t then ([t], l) else let (ts, l) = consume throws l in (t # ts, l)
      else ([], l))"
  by pat_completeness auto

termination consume
  by (relation "measure (\<lambda>(_, l). length (l_outstanding l))") auto

declare consume.simps [simp del]

definition disposed_error :: "'a result" where
  "disposed_error = Inl (GenericError ''Object has been disposed'')"

definition limiter_queue :: "('task \<Rightarrow> bool) \<Rightarrow> 'task \<Rightarrow> 'task Limiter \<Rightarrow> ('task list \<times> 'task Limiter) result" where
  "limiter_queue throws factory l =
     (if l_isDisposed l then disposed_error
      else Inr (consume throws (l\<lparr>l_size := l_size l + 1, l_outstanding := l_outstanding l @ [factory]\<rparr>)))"

text \<open>
  \<open>onDrained\<close> is what the listeners of \<open>_onDrained\<close> do to the limiter; the second component says
  whether the event fires.
\<close>

definition limiter_consumed ::
  "('task \<Rightarrow> bool) \<Rightarrow> ('task Limiter \<Rightarrow> 'task Limiter) \<Rightarrow> 'task Limiter \<Rightarrow> 'task list \<times> bool \<times> 'task Limiter" where
  "limiter_consumed throws onDrained l =
     (if l_isDisposed l then ([], False, l)
      else
        let l = l\<lparr>l_runningPromises := l_runningPromises l - 1, l_size := l_size l - 1\<rparr>;
            drained = (l_size l = 0);
            l = (if drained then onDrained l else l);
            (ts, l) = (if 0 < length (l_outstanding l) then consume throws l else ([], l))
        in (ts, drained, l))"

definition limiter_clear :: "'task Limiter \<Rightarrow> 'task Limiter result" where
  "limiter_clear l =
     (if l_isDisposed l then disposed_error else Inr (l\<lparr>l_outstanding := [], l_size := l_runningPromises l\<rparr>))"

definition limiter_dispose :: "'task Limiter \<Rightarrow> 'task Limiter" where
  "limiter_dispose l = l\<lparr>l_isDisposed := True, l_outstanding := [], l_size := 0\<rparr>"

text \<open>Whether the promise of \<open>whenIdle\<close> is still open when it is returned.\<close>

definition whenIdle_waits :: "'task Limiter \<Rightarrow> bool" where
  "whenIdle_waits l \<longleftrightarrow> 0 < l_size l"

definition new_Queue :: "'task Limiter" where
  "new_Queue = new_Limiter 1"

section \<open>ResourceQueue\<close>

text \<open>
  A \<open>Map\<close> is the list of its entries in the order of insertion.  The identity of a queue is the
  number its drain listener is registered under.
\<close>

record ('key, 'task) ResourceQueue =
  rq_queues :: "('key \<times> nat \<times> 'task Limiter) list"
  rq_drainers :: nat
  rq_drainListeners :: "nat list option"
  rq_drainListenerCount :: nat

definition new_ResourceQueue :: "('key, 'task) ResourceQueue" where
  "new_ResourceQueue = \<lparr>rq_queues = [], rq_drainers = 0, rq_drainListeners = None, rq_drainListenerCount = 0\<rparr>"

definition rq_isDrained :: "('key, 'task) ResourceQueue \<Rightarrow> bool" where
  "rq_isDrained rq \<longleftrightarrow> \<not> list_ex (\<lambda>(_, _, queue). l_size queue > 0) (rq_queues rq)"

text \<open>Whether \<open>whenDrained\<close> returns at once; otherwise a drainer waits.\<close>

definition whenDrained :: "('key, 'task) ResourceQueue \<Rightarrow> bool \<times> ('key, 'task) ResourceQueue" where
  "whenDrained rq = (if rq_isDrained rq then (True, rq) else (False, rq\<lparr>rq_drainers := rq_drainers rq + 1\<rparr>))"

definition queueSize :: "'key \<Rightarrow> ('key, 'task) ResourceQueue \<Rightarrow> int" where
  "queueSize key rq = (case map_of (rq_queues rq) key of None \<Rightarrow> 0 | Some (_, queue) \<Rightarrow> l_size queue)"

definition create_queue :: "'key \<Rightarrow> ('key, 'task) ResourceQueue \<Rightarrow> ('key, 'task) ResourceQueue" where
  "create_queue key rq =
     (case map_of (rq_queues rq) key of
        Some _ \<Rightarrow> rq
      | None \<Rightarrow>
          let drainListenerId = rq_drainListenerCount rq;
              listeners = (case rq_drainListeners rq of None \<Rightarrow> [] | Some ids \<Rightarrow> ids)
          in rq\<lparr>rq_drainListenerCount := rq_drainListenerCount rq + 1,
                rq_drainListeners := Some (listeners @ [drainListenerId]),
                rq_queues := rq_queues rq @ [(key, drainListenerId, new_Queue)]\<rparr>)"

definition update_queue :: "nat \<Rightarrow> 'task Limiter \<Rightarrow> ('key, 'task) ResourceQueue \<Rightarrow> ('key, 'task) ResourceQueue" where
  "update_queue queueId queue rq =
     rq\<lparr>rq_queues := map (\<lambda>(key, n, q). (key, n, if n = queueId then queue else q)) (rq_queues rq)\<rparr>"

text \<open>The tasks that start are given with the number of their queue.\<close>

definition queueFor :: "('task \<Rightarrow> bool) \<Rightarrow> 'key \<Rightarrow> 'task \<Rightarrow> ('key, 'task) ResourceQueue \<Rightarrow>
    ((nat \<times> 'task) list \<times> ('key, 'task) ResourceQueue) result" where
  "queueFor throws key factory rq =
     (let rq = create_queue key rq
      in case map_of (rq_queues rq) key of
           None \<Rightarrow> Inl TypeError
         | Some (n, queue) \<Rightarrow>
             bindE (limiter_queue throws factory queue) (\<lambda>(ts, queue). Inr (map (Pair n) ts, update_queue n queue rq)))"

definition releaseDrainers :: "('key, 'task) ResourceQueue \<Rightarrow> ('key, 'task) ResourceQueue" where
  "releaseDrainers rq = rq\<lparr>rq_drainers := 0\<rparr>"

definition onDidQueueDrain :: "('key, 'task) ResourceQueue \<Rightarrow> ('key, 'task) ResourceQueue" where
  "onDidQueueDrain rq = (if \<not> rq_isDrained rq then rq else releaseDrainers rq)"

text \<open>What the drain listener does besides disposing the queue.\<close>

definition drain_listener :: "'key \<Rightarrow> nat \<Rightarrow> ('key, 'task) ResourceQueue \<Rightarrow> ('key, 'task) ResourceQueue" where
  "drain_listener key drainListenerId rq =
     (let rq = onDidQueueDrain (rq\<lparr>rq_queues := filter (\<lambda>e. fst e \<noteq> key) (rq_queues rq)\<rparr>);
          listeners = map_option (filter (\<lambda>n. n \<noteq> drainListenerId)) (rq_drainListeners rq)
      in rq\<lparr>rq_drainListeners := (if listeners = Some [] then None else listeners)\<rparr>)"

text \<open>
  A task of the queue \<open>queueId\<close> has settled.  A queue that is in the map no more is disposed, and
  \<open>consumed\<close> does nothing.
\<close>

definition rq_settled :: "('task \<Rightarrow> bool) \<Rightarrow> nat \<Rightarrow> ('key, 'task) ResourceQueue \<Rightarrow> (nat \<times> 'task) list \<times> ('key, 'task) ResourceQueue" where
  "rq_settled throws queueId rq =
     (case find (\<lambda>(_, n, _). n = queueId) (rq_queues rq) of
        None \<Rightarrow> ([], rq)
      | Some (key, n, queue) \<Rightarrow>
          let (ts, drained, queue) = limiter_consumed throws limiter_dispose queue;
              rq = update_queue n queue rq
          in (map (Pair n) ts, if drained then drain_listener key n rq else rq))"

definition rq_dispose :: "('key, 'task) ResourceQueue \<Rightarrow> ('key, 'task) ResourceQueue" where
  "rq_dispose rq = (let rq = releaseDrainers (rq\<lparr>rq_queues := []\<rparr>)
     in rq\<lparr>rq_drainListeners := map_option (\<lambda>_. []) (rq_drainListeners rq)\<rparr>)"

section \<open>TaskSequentializer\<close>

text \<open>A promise is a name; the running task has the name of its promise.\<close>

record ('task, 'promise) TaskSequentializer =
  ts_running :: "(int \<times> 'promise) option"
  ts_queued :: "('promise \<times> 'task) option"

definition ts_isRunning :: "int option \<Rightarrow> ('task, 'promise) TaskSequentializer \<Rightarrow> bool" where
  "ts_isRunning taskId s =
     (case taskId of
        Some n \<Rightarrow> (case ts_running s of None \<Rightarrow> False | Some (m, _) \<Rightarrow> m = n)
      | None \<Rightarrow> ts_running s \<noteq> None)"

definition ts_run :: "int \<Rightarrow> 'promise \<Rightarrow> ('task, 'promise) TaskSequentializer \<Rightarrow> ('task, 'promise) TaskSequentializer" where
  "ts_run taskId promise s = s\<lparr>ts_running := Some (taskId, promise)\<rparr>"

text \<open>The queued task that is to be called, if any.\<close>

definition ts_runQueued :: "('task, 'promise) TaskSequentializer \<Rightarrow> ('promise \<times> 'task) option \<times> ('task, 'promise) TaskSequentializer" where
  "ts_runQueued s = (case ts_queued s of None \<Rightarrow> (None, s) | Some queued \<Rightarrow> (Some queued, s\<lparr>ts_queued := None\<rparr>))"

definition ts_doneRunning :: "int \<Rightarrow> ('task, 'promise) TaskSequentializer \<Rightarrow> ('promise \<times> 'task) option \<times> ('task, 'promise) TaskSequentializer" where
  "ts_doneRunning taskId s =
     (case ts_running s of
        None \<Rightarrow> (None, s)
      | Some (n, _) \<Rightarrow> if taskId = n then ts_runQueued (s\<lparr>ts_running := None\<rparr>) else (None, s))"

definition ts_queue :: "'promise \<Rightarrow> 'task \<Rightarrow> ('task, 'promise) TaskSequentializer \<Rightarrow> 'promise \<times> ('task, 'promise) TaskSequentializer" where
  "ts_queue fresh run s =
     (case ts_queued s of
        None \<Rightarrow> (fresh, s\<lparr>ts_queued := Some (fresh, run)\<rparr>)
      | Some (promise, _) \<Rightarrow> (promise, s\<lparr>ts_queued := Some (promise, run)\<rparr>))"

definition ts_hasQueued :: "('task, 'promise) TaskSequentializer \<Rightarrow> bool" where
  "ts_hasQueued s \<longleftrightarrow> ts_queued s \<noteq> None"

text \<open>The promise that \<open>join\<close> waits for.\<close>

definition ts_join :: "('task, 'promise) TaskSequentializer \<Rightarrow> 'promise option" where
  "ts_join s = (case ts_queued s of Some (promise, _) \<Rightarrow> Some promise | None \<Rightarrow> map_option snd (ts_running s))"

section \<open>LimitedQueue\<close>

record ('task, 'promise) LimitedQueue =
  lq_sequentializer :: "('task, 'promise) TaskSequentializer"
  lq_tasks :: int

definition new_LimitedQueue :: "('task, 'promise) LimitedQueue" where
  "new_LimitedQueue = \<lparr>lq_sequentializer = \<lparr>ts_running = None, ts_queued = None\<rparr>, lq_tasks = 0\<rparr>"

text \<open>\<open>sequentializer.run(this.tasks++, factory())\<close>: the number of the task that starts.\<close>

definition lq_start :: "'promise \<Rightarrow> ('task, 'promise) LimitedQueue \<Rightarrow> int \<times> ('task, 'promise) LimitedQueue" where
  "lq_start promise q =
     (lq_tasks q, q\<lparr>lq_tasks := lq_tasks q + 1, lq_sequentializer := ts_run (lq_tasks q) promise (lq_sequentializer q)\<rparr>)"

text \<open>
  Queueing returns the task that starts, if it does.  \<open>promise\<close> names the promise of the factory
  when it starts and the promise of the queued task otherwise.
\<close>

definition lq_queue :: "'promise \<Rightarrow> 'task \<Rightarrow> ('task, 'promise) LimitedQueue \<Rightarrow>
    'promise \<times> (int \<times> 'task) list \<times> ('task, 'promise) LimitedQueue" where
  "lq_queue promise factory q =
     (if \<not> ts_isRunning None (lq_sequentializer q) then
        let (n, q) = lq_start promise q in (promise, [(n, factory)], q)
      else
        let (promise, s) = ts_queue promise factory (lq_sequentializer q)
        in (promise, [], q\<lparr>lq_sequentializer := s\<rparr>))"

text \<open>A task has settled; the queued factory starts, with the promise \<open>promise\<close>.\<close>

definition lq_settled :: "'promise \<Rightarrow> int \<Rightarrow> ('task, 'promise) LimitedQueue \<Rightarrow> (int \<times> 'task) list \<times> ('task, 'promise) LimitedQueue" where
  "lq_settled promise taskId q =
     (let (queued, s) = ts_doneRunning taskId (lq_sequentializer q);
          q = q\<lparr>lq_sequentializer := s\<rparr>
      in case queued of
           None \<Rightarrow> ([], q)
         | Some (_, factory) \<Rightarrow> let (n, q) = lq_start promise q in ([(n, factory)], q))"

end
