(* ===== verification/LimiterRuns.thy ===== *)
theory LimiterRuns
  imports Limiters
begin

text \<open>
  What the limiters guarantee along sequences of events: at most so many tasks run at a time, tasks
  start in the order they were queued, and every task starts once enough earlier ones settle.
\<close>

section \<open>Single operations\<close>

definition lim_inv :: "'task Limiter \<Rightarrow> bool" where
  "lim_inv l \<longleftrightarrow> 0 \<le> l_runningPromises l \<and> l_runningPromises l \<le> l_max l \<and>
     l_size l = l_runningPromises l + int (length (l_outstanding l)) \<and>
     (l_outstanding l \<noteq> [] \<longrightarrow> l_runningPromises l = l_max l)"

lemma consume_full: "l_max l \<le> l_runningPromises l \<Longrightarrow> consume throws l = ([], l)"
  by (simp add: consume.simps)

lemma consume_one:
  assumes "l_outstanding l = t # ts" "l_runningPromises l < l_max l" "ts = [] \<or> l_runningPromises l + 1 = l_max l"
  shows "consume throws l = ([t], l\<lparr>l_outstanding := ts, l_runningPromises := l_runningPromises l + 1\<rparr>)"
  using assms by (subst consume.simps) (auto simp: Let_def consume.simps [of throws "l\<lparr>l_outstanding := ts, l_runningPromises := l_runningPromises l + 1\<rparr>" for ts])

lemma limiter_queue_eq:
  assumes "lim_inv l" "\<not> l_isDisposed l"
  shows "limiter_queue throws t l =
    Inr (if l_runningPromises l < l_max l
         then ([t], l\<lparr>l_size := l_size l + 1, l_runningPromises := l_runningPromises l + 1\<rparr>)
         else ([], l\<lparr>l_size := l_size l + 1, l_outstanding := l_outstanding l @ [t]\<rparr>))"
proof (cases "l_runningPromises l < l_max l")
  case True
  then have nil: "l_outstanding l = []" using assms(1) by (auto simp: lim_inv_def)
  then have l: "l\<lparr>l_outstanding := []\<rparr> = l" by (cases l) simp
  have "consume throws (l\<lparr>l_size := l_size l + 1, l_outstanding := [t]\<rparr>) =
      ([t], l\<lparr>l_size := l_size l + 1, l_outstanding := [], l_runningPromises := l_runningPromises l + 1\<rparr>)"
    using True by (subst consume_one) simp_all
  also have "l\<lparr>l_size := l_size l + 1, l_outstanding := [], l_runningPromises := l_runningPromises l + 1\<rparr> =
      l\<lparr>l_size := l_size l + 1, l_runningPromises := l_runningPromises l + 1\<rparr>"
    using nil by (cases l) simp
  finally show ?thesis using True assms(2) nil by (simp add: limiter_queue_def)
next
  case False
  then show ?thesis using assms(2) by (simp add: limiter_queue_def consume_full)
qed

lemma limiter_consumed_eq:
  assumes "lim_inv l" "\<not> l_isDisposed l" "0 < l_runningPromises l"
  shows "limiter_consumed throws onDrained l =
    (case l_outstanding l of
       [] \<Rightarrow> let l' = l\<lparr>l_runningPromises := l_runningPromises l - 1, l_size := l_size l - 1\<rparr>;
                 l'' = if l_size l = 1 then onDrained l' else l';
                 (ts, l'') = if 0 < length (l_outstanding l'') then consume throws l'' else ([], l'')
             in (ts, l_size l = 1, l'')
     | t # ts \<Rightarrow> ([t], False, l\<lparr>l_size := l_size l - 1, l_outstanding := ts\<rparr>))"
proof (cases "l_outstanding l")
  case Nil
  then show ?thesis using assms(2) by (simp add: limiter_consumed_def Let_def)
next
  case (Cons t ts)
  let ?l = "l\<lparr>l_runningPromises := l_runningPromises l - 1, l_size := l_size l - 1\<rparr>"
  have full: "l_runningPromises l = l_max l" "l_size l \<noteq> 1" using assms(1,3) Cons by (auto simp: lim_inv_def)
  have "consume throws ?l = ([t], ?l\<lparr>l_outstanding := ts, l_runningPromises := l_runningPromises ?l + 1\<rparr>)"
    using Cons full(1) by (intro consume_one) simp_all
  moreover have "?l\<lparr>l_outstanding := ts, l_runningPromises := l_runningPromises ?l + 1\<rparr> = l\<lparr>l_size := l_size l - 1, l_outstanding := ts\<rparr>"
    by (cases l) simp
  ultimately show ?thesis using assms(2) full(2) Cons by (simp add: limiter_consumed_def)
qed

lemma remove1_length: "t \<in> set xs \<Longrightarrow> \<exists>k. length xs = Suc k \<and> length (remove1 t xs) = k"
  by (cases xs) (auto simp: length_remove1 dest: length_pos_if_in_set)

section \<open>Events\<close>

datatype 'task limiter_event = Queued 'task | Settled 'task | Cleared | Disposed

text \<open>The limiter, the tasks whose promises have not settled, the tasks that were started and how often it drained.\<close>

record 'task limiter_run =
  lr_limiter :: "'task Limiter"
  lr_inflight :: "'task list"
  lr_started :: "'task list"
  lr_drained :: nat

definition starts :: "('task \<Rightarrow> bool) \<Rightarrow> 'task list \<Rightarrow> 'task limiter_run \<Rightarrow> 'task limiter_run" where
  "starts throws ts r = r\<lparr>lr_inflight := lr_inflight r @ filter (\<lambda>t. \<not> throws t) ts, lr_started := lr_started r @ ts\<rparr>"

inductive limiter_step :: "('task \<Rightarrow> bool) \<Rightarrow> 'task limiter_run \<Rightarrow> 'task limiter_event \<Rightarrow> 'task limiter_run \<Rightarrow> bool"
  for throws :: "'task \<Rightarrow> bool" where
  queued: "limiter_queue throws t (lr_limiter r) = Inr (ts, l) \<Longrightarrow>
    limiter_step throws r (Queued t) (starts throws ts (r\<lparr>lr_limiter := l\<rparr>))"
| queued_throws: "limiter_queue throws t (lr_limiter r) = Inl e \<Longrightarrow> limiter_step throws r (Queued t) r"
| settled: "t \<in> set (lr_inflight r) \<Longrightarrow> limiter_consumed throws (\<lambda>l. l) (lr_limiter r) = (ts, drained, l) \<Longrightarrow>
    limiter_step throws r (Settled t)
      (starts throws ts (r\<lparr>lr_limiter := l, lr_inflight := remove1 t (lr_inflight r), lr_drained := lr_drained r + (if drained then 1 else 0)\<rparr>))"
| cleared: "limiter_clear (lr_limiter r) = Inr l \<Longrightarrow> limiter_step throws r Cleared (r\<lparr>lr_limiter := l\<rparr>)"
| cleared_throws: "limiter_clear (lr_limiter r) = Inl e \<Longrightarrow> limiter_step throws r Cleared r"
| disposed: "limiter_step throws r Disposed (r\<lparr>lr_limiter := limiter_dispose (lr_limiter r)\<rparr>)"

inductive_cases queued_stepE: "limiter_step throws r (Queued t) r'"
inductive_cases settled_stepE: "limiter_step throws r (Settled t) r'"
inductive_cases limiter_stepE: "limiter_step throws r e r'"

inductive limiter_runs :: "('task \<Rightarrow> bool) \<Rightarrow> 'task limiter_run \<Rightarrow> 'task limiter_event list \<Rightarrow> 'task limiter_run \<Rightarrow> bool"
  for throws :: "'task \<Rightarrow> bool" where
  no_events: "limiter_runs throws r [] r"
| one_more: "limiter_runs throws r evs r' \<Longrightarrow> limiter_step throws r' e r'' \<Longrightarrow> limiter_runs throws r (evs @ [e]) r''"

definition start_run :: "int \<Rightarrow> 'task limiter_run" where
  "start_run n = \<lparr>lr_limiter = new_Limiter n, lr_inflight = [], lr_started = [], lr_drained = 0\<rparr>"

section \<open>The invariant of a run\<close>

text \<open>While it is not disposed, what the limiter counts as running is what is in flight and the factories that threw.\<close>

definition run_inv :: "('task \<Rightarrow> bool) \<Rightarrow> int \<Rightarrow> 'task limiter_run \<Rightarrow> bool" where
  "run_inv throws n r \<longleftrightarrow> l_max (lr_limiter r) = n \<and> int (length (lr_inflight r)) \<le> n \<and>
     (\<not> l_isDisposed (lr_limiter r) \<longrightarrow> lim_inv (lr_limiter r) \<and>
        l_runningPromises (lr_limiter r) = int (length (lr_inflight r)) + int (length (filter throws (lr_started r))))"

lemma step_inv:
  assumes "limiter_step throws r e r'" "run_inv throws n r" "0 < n"
  shows "run_inv throws n r'"
  using assms(1)
proof (cases rule: limiter_step.cases)
  case (queued t ts l)
  then have nd: "\<not> l_isDisposed (lr_limiter r)" by (auto simp: limiter_queue_def disposed_error_def)
  then have inv: "lim_inv (lr_limiter r)" using assms(2) by (simp add: run_inv_def)
  show ?thesis using queued(2,3) assms(2) nd inv unfolding limiter_queue_eq [OF inv nd]
    by (auto simp: run_inv_def starts_def lim_inv_def split: if_splits)
next
  case (settled t ts drained l)
  obtain k where pos: "length (lr_inflight r) = Suc k" "length (remove1 t (lr_inflight r)) = k"
    using remove1_length [OF settled(3)] by blast
  show ?thesis
  proof (cases "l_isDisposed (lr_limiter r)")
    case True
    then show ?thesis using settled assms(2) pos by (auto simp: limiter_consumed_def run_inv_def starts_def)
  next
    case False
    then have inv: "lim_inv (lr_limiter r)" and running: "l_runningPromises (lr_limiter r) =
        int (length (lr_inflight r)) + int (length (filter throws (lr_started r)))"
      using assms(2) by (simp_all add: run_inv_def)
    have run: "0 < l_runningPromises (lr_limiter r)" using running pos(1) by linarith
    show ?thesis using settled(2,4) assms(2) False inv pos run unfolding limiter_consumed_eq [OF inv False run]
      by (auto simp: run_inv_def starts_def lim_inv_def Let_def split: list.splits if_splits)
  qed
qed (use assms in \<open>auto simp: run_inv_def limiter_clear_def limiter_dispose_def lim_inv_def disposed_error_def split: if_splits\<close>)

lemma runs_inv:
  assumes "limiter_runs throws r evs r'" "run_inv throws n r" "0 < n"
  shows "run_inv throws n r'"
  using assms by (induction rule: limiter_runs.induct) (auto dest: step_inv)

lemma start_inv: "0 < n \<Longrightarrow> run_inv throws n (start_run n)"
  by (simp add: run_inv_def start_run_def new_Limiter_def lim_inv_def)

section \<open>Runs without exceptions\<close>

fun queued_tasks :: "'task limiter_event list \<Rightarrow> 'task list" where
  "queued_tasks [] = []"
| "queued_tasks (Queued t # evs) = t # queued_tasks evs"
| "queued_tasks (e # evs) = queued_tasks evs"

fun is_settled :: "'task limiter_event \<Rightarrow> bool" where
  "is_settled (Settled t) = True"
| "is_settled e = False"

definition settled_count :: "'task limiter_event list \<Rightarrow> nat" where
  "settled_count evs = length (filter is_settled evs)"

definition uninterrupted :: "'task limiter_event list \<Rightarrow> bool" where
  "uninterrupted evs \<longleftrightarrow> Cleared \<notin> set evs \<and> Disposed \<notin> set evs"

lemma queued_tasks_snoc: "queued_tasks (evs @ [e]) = queued_tasks evs @ (case e of Queued t \<Rightarrow> [t] | _ \<Rightarrow> [])"
  by (induction evs rule: queued_tasks.induct) (auto split: limiter_event.splits)

lemma settled_count_snoc: "settled_count (evs @ [e]) = settled_count evs + (if is_settled e then 1 else 0)"
  by (simp add: settled_count_def)

text \<open>What one event does to the tasks that are started and waiting, and to the number in flight.\<close>

lemma step_progress:
  assumes step: "limiter_step throws r e r'" and inv: "run_inv throws n r" "0 < n" and ok: "\<forall>t. \<not> throws t"
    and nd: "\<not> l_isDisposed (lr_limiter r)" and e: "e \<noteq> Cleared" "e \<noteq> Disposed"
  shows "\<not> l_isDisposed (lr_limiter r')"
    and "lr_started r' @ l_outstanding (lr_limiter r') =
      lr_started r @ l_outstanding (lr_limiter r) @ (case e of Queued t \<Rightarrow> [t] | _ \<Rightarrow> [])"
    and "length (lr_started r') + length (lr_inflight r) =
      length (lr_started r) + (if is_settled e then 1 else 0) + length (lr_inflight r')"
    and "l_size (lr_limiter r') = l_size (lr_limiter r) + (case e of Queued t \<Rightarrow> 1 | _ \<Rightarrow> - 1)"
proof -
  have li: "lim_inv (lr_limiter r)" and running: "l_runningPromises (lr_limiter r) = int (length (lr_inflight r))"
    using inv nd ok by (simp_all add: run_inv_def)
  have "\<not> l_isDisposed (lr_limiter r') \<and>
    lr_started r' @ l_outstanding (lr_limiter r') =
      lr_started r @ l_outstanding (lr_limiter r) @ (case e of Queued t \<Rightarrow> [t] | _ \<Rightarrow> []) \<and>
    length (lr_started r') + length (lr_inflight r) =
      length (lr_started r) + (if is_settled e then 1 else 0) + length (lr_inflight r') \<and>
    l_size (lr_limiter r') = l_size (lr_limiter r) + (case e of Queued t \<Rightarrow> 1 | _ \<Rightarrow> - 1)"
    using step
  proof (cases rule: limiter_step.cases)
    case (queued t ts l)
    then show ?thesis using ok nd li unfolding limiter_queue_eq [OF li nd]
      by (auto simp: starts_def lim_inv_def split: if_splits)
  next
    case (settled t ts drained l)
    obtain k where pos: "length (lr_inflight r) = Suc k" "length (remove1 t (lr_inflight r)) = k"
      using remove1_length [OF settled(3)] by blast
    have run: "0 < l_runningPromises (lr_limiter r)" using running pos(1) by linarith
    show ?thesis using settled(1,2,4) ok nd li pos unfolding limiter_consumed_eq [OF li nd run]
      by (auto simp: starts_def Let_def split: list.splits if_splits)
  qed (use e nd in \<open>auto simp: limiter_queue_def disposed_error_def\<close>)
  then show "\<not> l_isDisposed (lr_limiter r')"
    and "lr_started r' @ l_outstanding (lr_limiter r') =
      lr_started r @ l_outstanding (lr_limiter r) @ (case e of Queued t \<Rightarrow> [t] | _ \<Rightarrow> [])"
    and "length (lr_started r') + length (lr_inflight r) =
      length (lr_started r) + (if is_settled e then 1 else 0) + length (lr_inflight r')"
    and "l_size (lr_limiter r') = l_size (lr_limiter r) + (case e of Queued t \<Rightarrow> 1 | _ \<Rightarrow> - 1)" by blast+
qed

lemma runs_progress:
  assumes "limiter_runs throws r evs r'" and "run_inv throws n r" "0 < n" "\<forall>t. \<not> throws t"
    and "\<not> l_isDisposed (lr_limiter r)" and "uninterrupted evs"
  shows "\<not> l_isDisposed (lr_limiter r') \<and>
    lr_started r' @ l_outstanding (lr_limiter r') = lr_started r @ l_outstanding (lr_limiter r) @ queued_tasks evs \<and>
    length (lr_started r') + length (lr_inflight r) = length (lr_started r) + settled_count evs + length (lr_inflight r') \<and>
    l_size (lr_limiter r') = l_size (lr_limiter r) + int (length (queued_tasks evs)) - int (settled_count evs)"
  using assms
proof (induction rule: limiter_runs.induct)
  case (no_events r)
  then show ?case by (simp add: settled_count_def)
next
  case (one_more r evs r' e r'')
  then have u: "uninterrupted evs" "e \<noteq> Cleared" "e \<noteq> Disposed" by (auto simp: uninterrupted_def)
  note IH = one_more.IH [OF one_more.prems(1-4) u(1)]
  note inv = runs_inv [OF one_more.hyps(1) one_more.prems(1,2)]
  note step = step_progress [OF one_more.hyps(2) inv one_more.prems(2,3) conjunct1 [OF IH] u(2,3)]
  show ?case using IH step u(2,3)
    by (cases e) (auto simp: queued_tasks_snoc settled_count_snoc)
qed

lemma fully_used:
  assumes "run_inv throws n r" "\<forall>t. \<not> throws t" "\<not> l_isDisposed (lr_limiter r)" "l_outstanding (lr_limiter r) \<noteq> []"
  shows "int (length (lr_inflight r)) = n"
  using assms by (simp add: run_inv_def lim_inv_def)

section \<open>Properties\<close>

text \<open>
  \<^bold>\<open>C13.\<close> At no time are more tasks in flight than the limiter allows, whatever throws and however
  it is cleared or disposed; until it is disposed its size counts the tasks in flight, those
  waiting and the factories that threw, and tasks wait only while it is fully used.
\<close>

theorem Limiter_bounded:
  assumes "limiter_runs throws (start_run n) evs r" and "0 < n"
  shows "int (length (lr_inflight r)) \<le> n \<and>
    (\<not> l_isDisposed (lr_limiter r) \<longrightarrow>
       l_size (lr_limiter r) = int (length (lr_inflight r)) + int (length (filter throws (lr_started r))) + int (length (l_outstanding (lr_limiter r))) \<and>
       (l_outstanding (lr_limiter r) \<noteq> [] \<longrightarrow> int (length (lr_inflight r)) + int (length (filter throws (lr_started r))) = n))"
  using runs_inv [OF assms(1) start_inv [OF assms(2)] assms(2)] by (auto simp: run_inv_def lim_inv_def)

text \<open>
  \<^bold>\<open>C17.\<close> Without exceptions, clearing and disposing, the tasks start in the order they were queued, as
  many as the limiter allows plus one for every task that settled; the size is what is left.
\<close>

theorem Limiter_schedule:
  assumes "limiter_runs throws (start_run n) evs r" and "0 < n" and "\<forall>t. \<not> throws t" and "uninterrupted evs"
  shows "lr_started r = take (nat n + settled_count evs) (queued_tasks evs) \<and>
    l_size (lr_limiter r) = int (length (queued_tasks evs)) - int (settled_count evs)"
proof -
  have start: "lr_started (start_run n :: 'a limiter_run) = []" "lr_inflight (start_run n :: 'a limiter_run) = []"
      "\<not> l_isDisposed (lr_limiter (start_run n :: 'a limiter_run))"
      "l_outstanding (lr_limiter (start_run n :: 'a limiter_run)) = []" "l_size (lr_limiter (start_run n :: 'a limiter_run)) = 0"
    by (simp_all add: start_run_def new_Limiter_def)
  note inv = runs_inv [OF assms(1) start_inv [OF assms(2)] assms(2)]
  have p: "\<not> l_isDisposed (lr_limiter r)" "lr_started r @ l_outstanding (lr_limiter r) = queued_tasks evs"
      "length (lr_started r) = settled_count evs + length (lr_inflight r)"
      "l_size (lr_limiter r) = int (length (queued_tasks evs)) - int (settled_count evs)"
    using runs_progress [OF assms(1) start_inv [OF assms(2)] assms(2,3) start(3) assms(4)] start by simp_all
  have "int (length (lr_inflight r)) \<le> n" using inv by (simp add: run_inv_def)
  moreover have "l_outstanding (lr_limiter r) \<noteq> [] \<Longrightarrow> int (length (lr_inflight r)) = n"
    by (rule fully_used [OF inv assms(3) p(1)])
  ultimately have "lr_started r = take (nat n + settled_count evs) (queued_tasks evs)"
    unfolding p(2) [symmetric] using p(3) by (cases "l_outstanding (lr_limiter r) = []") auto
  with p(4) show ?thesis by blast
qed

text \<open>
  \<^bold>\<open>C12.\<close> A task that waits at place \<open>p\<close> has started once \<open>p + 1\<close> tasks have settled, as long as no
  factory throws and the limiter is neither cleared nor disposed; and while a task waits there is
  one in flight that can settle.
\<close>

theorem Limiter_live:
  assumes "limiter_runs throws (start_run n) evs r" and "0 < n" and "\<forall>t. \<not> throws t"
    and "\<not> l_isDisposed (lr_limiter r)" and "p < length (l_outstanding (lr_limiter r))"
    and "limiter_runs throws r evs' r'" and "uninterrupted evs'" and "p < settled_count evs'"
  shows "length (lr_started r) + p < length (lr_started r') \<and>
    lr_started r' ! (length (lr_started r) + p) = l_outstanding (lr_limiter r) ! p \<and>
    (\<exists>t r''. limiter_step throws r (Settled t) r'')"
proof -
  note inv = runs_inv [OF assms(1) start_inv [OF assms(2)] assms(2)]
  note inv' = runs_inv [OF assms(6) inv assms(2)]
  note progress = runs_progress [OF assms(6) inv assms(2,3,4,7)]
  let ?all = "lr_started r @ l_outstanding (lr_limiter r) @ queued_tasks evs'"
  have ne: "l_outstanding (lr_limiter r) \<noteq> []" using assms(5) by auto
  have flight: "int (length (lr_inflight r)) = n" by (rule fully_used [OF inv assms(3,4) ne])
  have started: "length (lr_started r) + p < length (lr_started r')"
  proof (cases "l_outstanding (lr_limiter r') = []")
    case True
    then have "lr_started r' = ?all" using progress by simp
    then show ?thesis using assms(5) by simp
  next
    case False
    then have "int (length (lr_inflight r')) = n" using fully_used [OF inv' assms(3)] progress by blast
    then show ?thesis using progress flight assms(8) by linarith
  qed
  have "lr_started r' ! (length (lr_started r) + p) = ?all ! (length (lr_started r) + p)"
    using progress started by (metis nth_append)
  then have "lr_started r' ! (length (lr_started r) + p) = l_outstanding (lr_limiter r) ! p"
    using assms(5) by (simp add: nth_append)
  moreover obtain t where "t \<in> set (lr_inflight r)" using flight assms(2) by (cases "lr_inflight r") auto
  then have "\<exists>r''. limiter_step throws r (Settled t) r''"
    by (metis limiter_step.settled prod_cases3)
  ultimately show ?thesis using started by blast
qed

section \<open>Factories that throw\<close>

text \<open>Nothing is in flight and the single place of the queue is taken by the factory that threw.\<close>

definition blocked :: "'task \<Rightarrow> 'task limiter_run \<Rightarrow> bool" where
  "blocked t r \<longleftrightarrow> lr_inflight r = [] \<and> lr_started r = [t] \<and> lr_drained r = 0 \<and>
     (l_isDisposed (lr_limiter r) \<or>
      l_max (lr_limiter r) = 1 \<and> l_runningPromises (lr_limiter r) = 1 \<and> 1 \<le> l_size (lr_limiter r))"

lemma blocked_step: "limiter_step throws r e r' \<Longrightarrow> blocked t r \<Longrightarrow> blocked t r'"
  by (induction rule: limiter_step.induct)
    (auto simp: blocked_def limiter_queue_def disposed_error_def consume_full starts_def limiter_clear_def limiter_dispose_def split: if_splits)

lemma runs_blocked:
  assumes "limiter_runs throws r evs r'" "r = start_run 1" "throws t"
  shows "case evs of [] \<Rightarrow> r' = start_run 1 | e # _ \<Rightarrow> e = Queued t \<longrightarrow> blocked t r'"
  using assms
proof (induction rule: limiter_runs.induct)
  case (one_more r evs r' e r'')
  note IH = one_more.IH [OF one_more.prems]
  show ?case
  proof (cases evs)
    case Nil
    have "blocked t r''" if "e = Queued t"
    proof -
      have "limiter_step throws (start_run 1) (Queued t) r''" using one_more.hyps(2) IH Nil that by simp
      moreover have "limiter_queue throws t (new_Limiter 1) = Inr ([t], (new_Limiter 1)\<lparr>l_size := 1, l_runningPromises := 1\<rparr>)"
        by (subst limiter_queue_eq) (simp_all add: lim_inv_def new_Limiter_def)
      ultimately show ?thesis using one_more.prems(2)
        by (auto elim!: queued_stepE simp: start_run_def blocked_def starts_def new_Limiter_def)
    qed
    then show ?thesis using Nil by simp
  next
    case (Cons e' evs')
    then show ?thesis using IH blocked_step [OF one_more.hyps(2)] by simp
  qed
qed simp

text \<open>
  \<^bold>\<open>C14.\<close> A queue whose first factory throws starts nothing any more, whatever is queued on it
  later and however it is cleared, and it never drains: until it is disposed, \<open>whenIdle\<close> waits.
\<close>

theorem Queue_blocked_by_throw:
  assumes "limiter_runs throws (start_run 1) (Queued t # evs) r" and "throws t"
  shows "lr_started r = [t] \<and> lr_drained r = 0 \<and> (l_isDisposed (lr_limiter r) \<or> whenIdle_waits (lr_limiter r))"
  using runs_blocked [OF assms(1) refl assms(2)] by (auto simp: blocked_def whenIdle_waits_def)

section \<open>Examples\<close>

text \<open>The run of a limiter that executes the events in order, each on the only step it can take.\<close>

fun exec_event :: "('task \<Rightarrow> bool) \<Rightarrow> 'task limiter_event \<Rightarrow> 'task limiter_run \<Rightarrow> 'task limiter_run option" where
  "exec_event throws (Queued t) r =
     (case limiter_queue throws t (lr_limiter r) of
        Inl e \<Rightarrow> Some r
      | Inr (ts, l) \<Rightarrow> Some (starts throws ts (r\<lparr>lr_limiter := l\<rparr>)))"
| "exec_event throws (Settled t) r =
     (if t \<in> set (lr_inflight r) then
        case limiter_consumed throws (\<lambda>l. l) (lr_limiter r) of
          (ts, drained, l) \<Rightarrow> Some (starts throws ts
            (r\<lparr>lr_limiter := l, lr_inflight := remove1 t (lr_inflight r), lr_drained := lr_drained r + (if drained then 1 else 0)\<rparr>))
      else None)"
| "exec_event throws Cleared r =
     (case limiter_clear (lr_limiter r) of Inl e \<Rightarrow> Some r | Inr l \<Rightarrow> Some (r\<lparr>lr_limiter := l\<rparr>))"
| "exec_event throws Disposed r = Some (r\<lparr>lr_limiter := limiter_dispose (lr_limiter r)\<rparr>)"

fun exec_events :: "('task \<Rightarrow> bool) \<Rightarrow> 'task limiter_event list \<Rightarrow> 'task limiter_run \<Rightarrow> 'task limiter_run option" where
  "exec_events throws [] r = Some r"
| "exec_events throws (e # evs) r = (case exec_event throws e r of None \<Rightarrow> None | Some r \<Rightarrow> exec_events throws evs r)"

lemmas step_intros = limiter_step.queued limiter_step.queued_throws limiter_step.cleared limiter_step.cleared_throws
  limiter_step.disposed limiter_step.settled [where drained = True, simplified] limiter_step.settled [where drained = False, simplified]

lemma exec_event_step: "exec_event throws e r = Some r' \<Longrightarrow> limiter_step throws r e r'"
  by (cases e) (auto intro: step_intros split: sum.splits prod.splits if_splits)

lemma runs_append:
  "limiter_runs throws r' evs' r'' \<Longrightarrow> limiter_runs throws r evs r' \<Longrightarrow> limiter_runs throws r (evs @ evs') r''"
proof (induction rule: limiter_runs.induct)
  case (one_more r1 evs1 r2 e r3)
  then show ?case using limiter_runs.one_more [of throws r "evs @ evs1" r2 e r3] by simp
qed simp

lemma exec_events_runs: "exec_events throws evs r = Some r' \<Longrightarrow> limiter_runs throws r evs r'"
proof (induction evs arbitrary: r)
  case Nil
  then show ?case by (simp add: limiter_runs.no_events)
next
  case (Cons e evs)
  then obtain r1 where r1: "exec_event throws e r = Some r1" "exec_events throws evs r1 = Some r'"
    by (auto split: option.splits)
  have "limiter_runs throws r ([] @ [e]) r1"
    using r1(1) by (intro limiter_runs.one_more [OF limiter_runs.no_events]) (simp add: exec_event_step)
  from runs_append [OF Cons.IH [OF r1(2)] this] show ?case by simp
qed

definition example_events :: "nat limiter_event list" where
  "example_events = [Queued 1, Queued 2, Queued 3, Settled 1, Queued 4]"

lemma example_run:
  obtains r where "limiter_runs (\<lambda>_. False) (start_run 2) example_events r" "\<not> l_isDisposed (lr_limiter r)"
    "l_outstanding (lr_limiter r) = [4]" "lr_started r = [1, 2, 3]" "lr_inflight r = [2, 3]" "l_size (lr_limiter r) = 3"
proof -
  have "map_option (\<lambda>r. (l_isDisposed (lr_limiter r), l_outstanding (lr_limiter r), lr_started r, lr_inflight r, l_size (lr_limiter r)))
      (exec_events (\<lambda>_. False) example_events (start_run 2)) = Some (False, [4], [1, 2, 3], [2, 3], 3)"
    by code_simp
  then show thesis using that exec_events_runs by fastforce
qed

theorem Limiter_bounded_witness:
  "\<exists>r :: nat limiter_run. limiter_runs (\<lambda>_. False) (start_run 2) example_events r \<and> int (length (lr_inflight r)) \<le> 2"
proof -
  obtain r where r: "limiter_runs (\<lambda>_. False) (start_run 2) example_events r" by (rule example_run)
  from Limiter_bounded [OF r] r show ?thesis by auto
qed

theorem Limiter_schedule_witness:
  "\<exists>r :: nat limiter_run. limiter_runs (\<lambda>_. False) (start_run 2) example_events r \<and> lr_started r = [1, 2, 3]"
proof -
  obtain r where r: "limiter_runs (\<lambda>_. False) (start_run 2) example_events r" by (rule example_run)
  have u: "uninterrupted example_events" by code_simp
  have "take (nat 2 + settled_count example_events) (queued_tasks example_events) = [1, 2, 3]" by code_simp
  with Limiter_schedule [OF r _ _ u] r show ?thesis by auto
qed

theorem Limiter_live_witness:
  "\<exists>r r' :: nat limiter_run. limiter_runs (\<lambda>_. False) (start_run 2) example_events r \<and>
     limiter_runs (\<lambda>_. False) r [Settled 2] r' \<and> lr_started r' ! 3 = 4"
proof -
  obtain r where r: "limiter_runs (\<lambda>_. False) (start_run 2) example_events r" "\<not> l_isDisposed (lr_limiter r)"
    "l_outstanding (lr_limiter r) = [4]" "lr_started r = [1, 2, 3]" "lr_inflight r = [2, 3]" by (rule example_run)
  obtain ts drained l where c: "limiter_consumed (\<lambda>_. False) (\<lambda>l. l) (lr_limiter r) = (ts, drained, l)" by (metis prod_cases3)
  have "2 \<in> set (lr_inflight r)" by (simp add: r(5))
  from limiter_runs.one_more [OF limiter_runs.no_events limiter_step.settled [OF this c]]
  obtain r' where r': "limiter_runs (\<lambda>_. False) r [Settled 2] r'" by auto
  have u: "uninterrupted [Settled (2 :: nat)]" "0 < settled_count [Settled (2 :: nat)]" by code_simp+
  have "lr_started r' ! (length (lr_started r) + 0) = l_outstanding (lr_limiter r) ! 0"
    using Limiter_live [OF r(1) _ _ r(2) _ r' u] r(3) by simp
  then have "lr_started r' ! 3 = 4" by (simp add: r(3,4) numeral_3_eq_3)
  with r(1) r' show ?thesis by blast
qed

theorem Queue_blocked_by_throw_witness:
  "\<exists>r :: nat limiter_run. limiter_runs (\<lambda>t. t = 0) (start_run 1) [Queued 0, Queued 1, Cleared, Queued 2] r \<and> lr_started r = [0]"
proof -
  let ?evs = "[Queued 0, Queued 1, Cleared, Queued 2] :: nat limiter_event list"
  have "\<not> Option.is_none (exec_events (\<lambda>t. t = 0) ?evs (start_run 1))" by code_simp
  then obtain r where "exec_events (\<lambda>t. t = 0) ?evs (start_run 1) = Some r" by (auto simp: Option.is_none_def)
  note r = exec_events_runs [OF this]
  from Queue_blocked_by_throw [OF r] r show ?thesis by auto
qed

end
