(* ===== verification/ResourceQueues.thy ===== *)
theory ResourceQueues
  imports LimiterRuns
begin

text \<open>
  \<open>ResourceQueue\<close> and \<open>LimitedQueue\<close> along their events: the queue of a resource runs one task at a
  time and goes away when it drains, nobody waits for a drain that has happened, and a limited
  queue starts the task that was queued last.
\<close>

section \<open>Resource queues\<close>

text \<open>
  The states a resource queue can get into, with the tasks in flight, each with the number of the
  queue that started it, and the numbers of the queues in which a factory has thrown.  A factory
  that throws leaves no task in flight.
\<close>

definition in_flight :: "('task \<Rightarrow> bool) \<Rightarrow> (nat \<times> 'task) list \<Rightarrow> (nat \<times> 'task) list" where
  "in_flight throws ts = filter (\<lambda>p. \<not> throws (snd p)) ts"

definition thrown_in :: "('task \<Rightarrow> bool) \<Rightarrow> (nat \<times> 'task) list \<Rightarrow> nat set" where
  "thrown_in throws ts = fst ` set (filter (\<lambda>p. throws (snd p)) ts)"

inductive rq_reachable :: "('task \<Rightarrow> bool) \<Rightarrow> ('key, 'task) ResourceQueue \<Rightarrow> (nat \<times> 'task) list \<Rightarrow> nat set \<Rightarrow> bool" for throws where
  rq_start: "rq_reachable throws new_ResourceQueue [] {}"
| rq_queue: "rq_reachable throws rq fl B \<Longrightarrow> queueFor throws key t rq = Inr (ts, rq') \<Longrightarrow>
    rq_reachable throws rq' (fl @ in_flight throws ts) (B \<union> thrown_in throws ts)"
| rq_settle: "rq_reachable throws rq fl B \<Longrightarrow> (n, t) \<in> set fl \<Longrightarrow> rq_settled throws n rq = (ts, rq') \<Longrightarrow>
    rq_reachable throws rq' (remove1 (n, t) fl @ in_flight throws ts) (B \<union> thrown_in throws ts)"
| rq_wait: "rq_reachable throws rq fl B \<Longrightarrow> rq_reachable throws (snd (whenDrained rq)) fl B"
| rq_end: "rq_reachable throws rq fl B \<Longrightarrow> rq_reachable throws (rq_dispose rq) fl B"

lemma in_flight_simps [simp]:
  "in_flight throws [] = []" "thrown_in throws [] = {}"
  "in_flight throws [(n, t)] = (if throws t then [] else [(n, t)])"
  "thrown_in throws [(n, t)] = (if throws t then {n} else {})"
  by (simp_all add: in_flight_def thrown_in_def)

definition busy :: "'task Limiter \<Rightarrow> bool" where
  "busy q \<longleftrightarrow> \<not> l_isDisposed q \<and> l_max q = 1 \<and> l_runningPromises q = 1 \<and> l_size q = 1 + int (length (l_outstanding q))"

definition rq_ids :: "('key \<times> nat \<times> 'task Limiter) list \<Rightarrow> nat list" where
  "rq_ids qs = map (fst \<circ> snd) qs"

definition rq_inv :: "('key, 'task) ResourceQueue \<Rightarrow> (nat \<times> 'task) list \<Rightarrow> nat set \<Rightarrow> bool" where
  "rq_inv rq fl B \<longleftrightarrow>
     distinct (map fst (rq_queues rq)) \<and> distinct (rq_ids (rq_queues rq)) \<and>
     (\<forall>(key, n, q) \<in> set (rq_queues rq). busy q) \<and>
     (\<forall>n \<in> set (rq_ids (rq_queues rq)). n < rq_drainListenerCount rq \<and> length (filter (\<lambda>p. fst p = n) fl) = (if n \<in> B then 0 else 1)) \<and>
     (\<forall>p \<in> set fl. fst p < rq_drainListenerCount rq) \<and> (\<forall>n \<in> B. n < rq_drainListenerCount rq) \<and>
     (0 < rq_drainers rq \<longrightarrow> rq_queues rq \<noteq> []) \<and>
     (case rq_drainListeners rq of None \<Rightarrow> rq_queues rq = [] | Some ids \<Rightarrow> ids = rq_ids (rq_queues rq))"

lemma busy_lim: "busy q \<Longrightarrow> lim_inv q \<and> \<not> l_isDisposed q \<and> 0 < l_size q \<and> 0 < l_runningPromises q"
  by (simp add: busy_def lim_inv_def)

lemma busy_queue:
  "busy q \<Longrightarrow> limiter_queue throws t q = Inr ([], q\<lparr>l_size := l_size q + 1, l_outstanding := l_outstanding q @ [t]\<rparr>)"
  using limiter_queue_eq [of q throws t] busy_lim [of q] by (simp add: busy_def)

lemma fresh_queue:
  "limiter_queue throws t new_Queue = Inr ([t], new_Queue\<lparr>l_size := 1, l_runningPromises := 1\<rparr>)"
  by (subst limiter_queue_eq) (simp_all add: lim_inv_def new_Queue_def new_Limiter_def)

lemma busy_consumed:
  assumes "busy q"
  shows "limiter_consumed throws limiter_dispose q =
    (case l_outstanding q of
       [] \<Rightarrow> ([], True, limiter_dispose (q\<lparr>l_runningPromises := 0, l_size := 0\<rparr>))
     | t # ts \<Rightarrow> ([t], False, q\<lparr>l_size := l_size q - 1, l_outstanding := ts\<rparr>))"
  using limiter_consumed_eq [of q throws limiter_dispose] busy_lim [OF assms] assms
  by (auto simp: busy_def limiter_dispose_def Let_def split: list.splits)

lemma inv_drained:
  assumes "rq_inv rq fl B"
  shows "rq_isDrained rq \<longleftrightarrow> rq_queues rq = []"
proof -
  have "0 < l_size q" if "(key, n, q) \<in> set (rq_queues rq)" for key n q
    using assms that busy_lim [of q] by (auto simp: rq_inv_def)
  then have "\<not> rq_isDrained rq" if "rq_queues rq \<noteq> []"
    using that by (cases "rq_queues rq") (fastforce simp: rq_isDrained_def)+
  then show ?thesis by (auto simp: rq_isDrained_def)
qed

lemma update_queue_simps [simp]:
  "map fst (rq_queues (update_queue n q' rq)) = map fst (rq_queues rq)"
  "rq_ids (rq_queues (update_queue n q' rq)) = rq_ids (rq_queues rq)"
  "rq_queues (update_queue n q' rq) = [] \<longleftrightarrow> rq_queues rq = []"
  "rq_drainers (update_queue n q' rq) = rq_drainers rq"
  "rq_drainListeners (update_queue n q' rq) = rq_drainListeners rq"
  "rq_drainListenerCount (update_queue n q' rq) = rq_drainListenerCount rq"
  by (simp_all add: update_queue_def rq_ids_def split_def comp_def)

lemma update_queue_busy:
  assumes "\<forall>(key, m, q) \<in> set (rq_queues rq). busy q" "busy q'"
  shows "\<forall>(key, m, q) \<in> set (rq_queues (update_queue n q' rq)). busy q"
  using assms by (auto simp: update_queue_def)

lemma update_inv:
  assumes "rq_inv rq fl B" "busy q'"
    and "\<forall>m \<in> set (rq_ids (rq_queues rq)). length (filter (\<lambda>p. fst p = m) fl') = (if m \<in> B' then 0 else 1)"
    and "\<forall>p \<in> set fl'. fst p < rq_drainListenerCount rq" "\<forall>m \<in> B'. m < rq_drainListenerCount rq"
  shows "rq_inv (update_queue n q' rq) fl' B'"
  using assms update_queue_busy [of rq q' n] unfolding rq_inv_def by (simp split: option.splits)

lemma queueFor_inv:
  assumes inv: "rq_inv rq fl B"
  shows "\<exists>ts rq'. queueFor throws key t rq = Inr (ts, rq') \<and> rq_inv rq' (fl @ in_flight throws ts) (B \<union> thrown_in throws ts)"
proof (cases "map_of (rq_queues rq) key")
  case None
  let ?n = "rq_drainListenerCount rq"
  have fresh: "?n \<notin> set (rq_ids (rq_queues rq))" "\<forall>p \<in> set fl. fst p \<noteq> ?n" "?n \<notin> B" "key \<notin> fst ` set (rq_queues rq)"
    using inv None by (auto simp: rq_inv_def map_of_eq_None_iff)
  let ?rq = "create_queue key rq"
  have c: "rq_queues ?rq = rq_queues rq @ [(key, ?n, new_Queue)]" "rq_drainListenerCount ?rq = ?n + 1"
      "rq_drainers ?rq = rq_drainers rq" "rq_drainListeners ?rq = Some (rq_ids (rq_queues rq) @ [?n])"
    using None inv by (auto simp: create_queue_def Let_def rq_inv_def rq_ids_def split: option.splits)
  have m: "map_of (rq_queues ?rq) key = Some (?n, new_Queue)" using None by (simp add: c(1) map_add_def)
  let ?q = "new_Queue\<lparr>l_size := 1, l_runningPromises := 1\<rparr> :: 'b Limiter"
  have q: "queueFor throws key t rq = Inr ([(?n, t)], update_queue ?n ?q ?rq)"
    by (simp add: queueFor_def Let_def m fresh_queue)
  have keep: "map (\<lambda>(k, m, q). (k, m, if m = ?n then ?q else q)) (rq_queues rq) = rq_queues rq"
    using fresh(1) by (intro map_idI) (auto simp: rq_ids_def image_iff split: if_splits)
  have qs: "rq_queues (update_queue ?n ?q ?rq) = rq_queues rq @ [(key, ?n, ?q)]"
    using keep by (simp add: update_queue_def c(1))
  have none: "filter (\<lambda>p. fst p = ?n) fl = []" using fresh(2) by (auto simp: filter_empty_conv)
  have "busy ?q" by (simp add: busy_def new_Queue_def new_Limiter_def)
  then have "rq_inv (update_queue ?n ?q ?rq) (fl @ in_flight throws [(?n, t)]) (B \<union> thrown_in throws [(?n, t)])"
    using inv fresh none unfolding rq_inv_def qs
    by (auto simp: rq_ids_def update_queue_def c less_Suc_eq)
  with q show ?thesis by blast
next
  case (Some e)
  then obtain n q where e: "map_of (rq_queues rq) key = Some (n, q)" by (cases e) auto
  then have mem: "(key, n, q) \<in> set (rq_queues rq)" by (rule map_of_SomeD)
  then have b: "busy q" using inv by (auto simp: rq_inv_def)
  let ?q = "q\<lparr>l_size := l_size q + 1, l_outstanding := l_outstanding q @ [t]\<rparr>"
  have r: "queueFor throws key t rq = Inr ([], update_queue n ?q rq)"
    using e by (simp add: queueFor_def create_queue_def busy_queue [OF b])
  have "busy ?q" using b by (simp add: busy_def)
  then have "rq_inv (update_queue n ?q rq) (fl @ in_flight throws []) (B \<union> thrown_in throws [])"
    using inv by (intro update_inv [where fl = fl and B = B]) (simp_all add: rq_inv_def)
  with r show ?thesis by blast
qed

lemma count_remove1:
  "(n, t) \<in> set fl \<Longrightarrow> length (filter (\<lambda>p. fst p = m) (remove1 (n, t) fl)) =
     length (filter (\<lambda>p. fst p = m) fl) - (if m = n then 1 else 0)"
proof (induction fl)
  case (Cons p fl)
  have "0 < length (filter (\<lambda>p. fst p = n) fl)" if "(n, t) \<in> set fl"
    using that by (force simp: filter_empty_conv)
  then show ?case using Cons by auto
qed simp

lemma unique_entry:
  assumes "distinct (map fst qs)" "distinct (rq_ids qs)" "(key, n, q) \<in> set qs" "(key', n', q') \<in> set qs"
  shows "key' = key \<longleftrightarrow> n' = n"
proof -
  from assms(3,4) obtain i j where ij: "i < length qs" "qs ! i = (key, n, q)" "j < length qs" "qs ! j = (key', n', q')"
    by (auto simp: in_set_conv_nth)
  have "map fst qs ! i = key" "map fst qs ! j = key'" "rq_ids qs ! i = n" "rq_ids qs ! j = n'"
    using ij by (simp_all add: rq_ids_def)
  moreover have "i < length (map fst qs)" "j < length (map fst qs)" "i < length (rq_ids qs)" "j < length (rq_ids qs)"
    using ij by (simp_all add: rq_ids_def)
  ultimately have "(key' = key) = (j = i)" "(n' = n) = (j = i)"
    using nth_eq_iff_index_eq [OF assms(1)] nth_eq_iff_index_eq [OF assms(2)] by blast+
  then show ?thesis by blast
qed

lemma drained_inv:
  assumes inv: "rq_inv rq fl B" and mem: "(key, n, q) \<in> set (rq_queues rq)" and t: "(n, t) \<in> set fl"
  shows "rq_inv (drain_listener key n (update_queue n q' rq)) (remove1 (n, t) fl) B"
proof -
  have d: "distinct (map fst (rq_queues rq))" "distinct (rq_ids (rq_queues rq))" using inv by (simp_all add: rq_inv_def)
  have u: "fst e = key \<longleftrightarrow> fst (snd e) = n" if "e \<in> set (rq_queues rq)" for e
    using unique_entry [OF d mem, of "fst e" "fst (snd e)" "snd (snd e)"] that by simp
  let ?qs = "filter (\<lambda>e. fst e \<noteq> key) (rq_queues rq)"
  have qs: "filter (\<lambda>e. fst e \<noteq> key) (rq_queues (update_queue n q' rq)) = ?qs"
  proof -
    have "filter (\<lambda>e. fst e \<noteq> key) (rq_queues (update_queue n q' rq)) =
        map (\<lambda>(k, m, q). (k, m, if m = n then q' else q)) ?qs"
      by (simp add: update_queue_def filter_map comp_def split_def)
    also have "\<dots> = ?qs" using u by (intro map_idI) fastforce
    finally show ?thesis .
  qed
  have ids: "rq_ids ?qs = filter (\<lambda>m. m \<noteq> n) (rq_ids (rq_queues rq))"
    unfolding rq_ids_def filter_map comp_def by (intro arg_cong [where f = "map _"] filter_cong refl) (simp add: u)
  let ?rq = "(update_queue n q' rq)\<lparr>rq_queues := ?qs\<rparr>"
  have busy: "\<forall>(key, m, q) \<in> set ?qs. busy q" using inv by (auto simp: rq_inv_def)
  have "rq_isDrained ?rq \<longleftrightarrow> ?qs = []"
  proof -
    have "0 < l_size q" if "(k, m, q) \<in> set ?qs" for k m q using busy that busy_lim [of q] by blast
    then have "\<not> rq_isDrained ?rq" if "?qs \<noteq> []"
      using that by (cases ?qs) (fastforce simp: rq_isDrained_def)+
    then show ?thesis by (auto simp: rq_isDrained_def)
  qed
  moreover have listeners: "rq_drainListeners rq = Some (rq_ids (rq_queues rq))"
    using inv mem by (auto simp: rq_inv_def split: option.splits)
  ultimately have r: "rq_queues (drain_listener key n (update_queue n q' rq)) = ?qs"
      "rq_drainListenerCount (drain_listener key n (update_queue n q' rq)) = rq_drainListenerCount rq"
      "rq_drainers (drain_listener key n (update_queue n q' rq)) = (if ?qs = [] then 0 else rq_drainers rq)"
      "rq_drainListeners (drain_listener key n (update_queue n q' rq)) =
         (if rq_ids ?qs = [] then None else Some (rq_ids ?qs))"
    by (simp_all add: drain_listener_def qs Let_def onDidQueueDrain_def releaseDrainers_def ids)
  have "distinct (map fst ?qs)" "distinct (rq_ids ?qs)" using d by (simp_all add: distinct_map_filter ids)
  moreover have "\<forall>m \<in> set (rq_ids ?qs). m < rq_drainListenerCount rq \<and> length (filter (\<lambda>p. fst p = m) (remove1 (n, t) fl)) = (if m \<in> B then 0 else 1)"
    using inv t by (auto simp: ids count_remove1 rq_inv_def)
  moreover have "\<forall>p \<in> set (remove1 (n, t) fl). fst p < rq_drainListenerCount rq"
    using inv by (auto simp: rq_inv_def dest: notin_set_remove1)
  moreover have "rq_ids ?qs = [] \<longleftrightarrow> ?qs = []" by (simp add: rq_ids_def)
  moreover have "\<forall>m \<in> B. m < rq_drainListenerCount rq" using inv by (simp add: rq_inv_def)
  ultimately show ?thesis unfolding rq_inv_def r using busy by simp
qed

lemma settled_not_blocked:
  assumes "rq_inv rq fl B" and "(n, t) \<in> set fl" and "n \<in> set (rq_ids (rq_queues rq))"
  shows "n \<notin> B"
proof
  assume "n \<in> B"
  then have "length (filter (\<lambda>p. fst p = n) fl) = 0" using assms(1,3) unfolding rq_inv_def by metis
  then have "filter (\<lambda>p. fst p = n) fl = []" by simp
  with assms(2) show False by (auto simp: filter_empty_conv)
qed

lemma rq_settled_inv:
  assumes inv: "rq_inv rq fl B" and t: "(n, t) \<in> set fl" and r: "rq_settled throws n rq = (ts, rq')"
  shows "rq_inv rq' (remove1 (n, t) fl @ in_flight throws ts) (B \<union> thrown_in throws ts)"
proof (cases "find (\<lambda>(_, m, _). m = n) (rq_queues rq)")
  case None
  then have "n \<notin> set (rq_ids (rq_queues rq))" by (auto simp: find_None_iff rq_ids_def)
  then have "rq_inv rq (remove1 (n, t) fl) B"
    using inv t by (auto simp: rq_inv_def count_remove1 dest: notin_set_remove1)
  then show ?thesis using None r by (simp add: rq_settled_def)
next
  case (Some e)
  obtain key q where mem: "(key, n, q) \<in> set (rq_queues rq)" and f: "find (\<lambda>(_, m, _). m = n) (rq_queues rq) = Some (key, n, q)"
    using Some find_in [OF Some] by (cases e) auto
  have b: "busy q" using inv mem by (auto simp: rq_inv_def)
  show ?thesis
  proof (cases "l_outstanding q")
    case Nil
    then show ?thesis using r f drained_inv [OF inv mem t] by (auto simp: rq_settled_def busy_consumed [OF b])
  next
    case (Cons t' ts')
    let ?q = "q\<lparr>l_size := l_size q - 1, l_outstanding := ts'\<rparr>"
    have id: "n \<in> set (rq_ids (rq_queues rq))" using mem by (force simp: rq_ids_def)
    have nb: "n \<notin> B" by (rule settled_not_blocked [OF inv t id])
    have n: "n < rq_drainListenerCount rq" "length (filter (\<lambda>p. fst p = n) fl) = 1" using inv id nb by (simp_all add: rq_inv_def)
    have "busy ?q" using b Cons by (simp add: busy_def)
    then have "rq_inv (update_queue n ?q rq) (remove1 (n, t) fl @ in_flight throws [(n, t')]) (B \<union> thrown_in throws [(n, t')])"
      using inv t n nb by (intro update_inv [where fl = fl and B = B]) (auto simp: rq_inv_def count_remove1 dest: notin_set_remove1)
    moreover have "ts = [(n, t')]" "rq' = update_queue n ?q rq" using r f Cons by (auto simp: rq_settled_def busy_consumed [OF b])
    ultimately show ?thesis by (simp only:)
  qed
qed

text \<open>A blocked queue stays: another one settles, and only the drained one leaves the map.\<close>

lemma blocked_stays:
  assumes inv: "rq_inv rq fl B" and t: "(m, u) \<in> set fl" and r: "rq_settled throws m rq = (ts, rq')"
    and mem: "(key, n, q) \<in> set (rq_queues rq)" and nb: "n \<in> B"
  shows "(key, n, q) \<in> set (rq_queues rq')"
proof (cases "find (\<lambda>(_, i, _). i = m) (rq_queues rq)")
  case None
  then show ?thesis using r mem by (simp add: rq_settled_def)
next
  case (Some e)
  obtain key' q' where mem': "(key', m, q') \<in> set (rq_queues rq)" and f: "find (\<lambda>(_, i, _). i = m) (rq_queues rq) = Some (key', m, q')"
    using Some find_in [OF Some] by (cases e) auto
  have "m \<in> set (rq_ids (rq_queues rq))" using mem' by (force simp: rq_ids_def)
  then have "n \<noteq> m" using settled_not_blocked [OF inv t] nb by blast
  then have "key \<noteq> key'" using unique_entry [of "rq_queues rq", OF _ _ mem' mem] inv by (simp add: rq_inv_def)
  have upd: "(key, n, q) \<in> set (rq_queues (update_queue m q'' rq))" for q''
    using mem \<open>n \<noteq> m\<close> by (force simp: update_queue_def)
  have "busy q'" using inv mem' by (auto simp: rq_inv_def)
  from busy_consumed [OF this, of throws] show ?thesis
    using r f upd \<open>key \<noteq> key'\<close>
    by (auto simp: rq_settled_def drain_listener_def onDidQueueDrain_def releaseDrainers_def Let_def split: list.splits)
qed

lemma rq_reachable_inv: "rq_reachable throws rq fl B \<Longrightarrow> rq_inv rq fl B"
proof (induction rule: rq_reachable.induct)
  case rq_start
  then show ?case by (simp add: rq_inv_def new_ResourceQueue_def rq_ids_def)
next
  case (rq_queue rq fl B key t ts rq')
  then show ?case using queueFor_inv [of rq fl B throws key t] by auto
next
  case (rq_settle rq fl B n t ts rq')
  show ?case by (rule rq_settled_inv [OF rq_settle.IH rq_settle.hyps(2,3)])
next
  case (rq_wait rq fl B)
  then show ?case using inv_drained [of rq fl B] by (auto simp: whenDrained_def rq_inv_def split: option.splits)
next
  case (rq_end rq fl B)
  then show ?case by (auto simp: rq_dispose_def releaseDrainers_def rq_inv_def rq_ids_def split: option.splits)
qed

lemma rq_reachable_blocked:
  "rq_reachable throws rq fl B \<Longrightarrow> \<not> (\<exists>t. throws t) \<Longrightarrow> B = {}"
  by (induction rule: rq_reachable.induct) (simp_all add: thrown_in_def)

text \<open>
  \<^bold>\<open>C15.\<close> Whatever factories throw: queueing never throws; each queue in the map has work left, a
  size above zero, and exactly one task in flight, unless one of its factories has thrown: then it
  has none, so no task of it can settle, and it stays in the map until the resource queue is
  disposed.  When no factory throws there are no such queues.  The resource queue is drained when
  no queue is in the map, and nobody waits for it to drain unless a queue is left.
\<close>

theorem ResourceQueue_correct:
  assumes "rq_reachable throws rq fl B"
  shows "(\<exists>ts rq'. queueFor throws key t rq = Inr (ts, rq')) \<and>
    (\<forall>(key, n, q) \<in> set (rq_queues rq). length (filter (\<lambda>p. fst p = n) fl) = (if n \<in> B then 0 else 1) \<and>
       0 < l_size q \<and> queueSize key rq = l_size q) \<and>
    ((\<forall>t. \<not> throws t) \<longrightarrow> B = {}) \<and>
    (\<forall>m u ts rq'. (m, u) \<in> set fl \<and> rq_settled throws m rq = (ts, rq') \<longrightarrow>
       (\<forall>(key, n, q) \<in> set (rq_queues rq). n \<in> B \<longrightarrow> (key, n, q) \<in> set (rq_queues rq'))) \<and>
    (rq_isDrained rq \<longleftrightarrow> rq_queues rq = []) \<and>
    (0 < rq_drainers rq \<longrightarrow> rq_queues rq \<noteq> [])"
proof -
  note inv = rq_reachable_inv [OF assms]
  have entry: "length (filter (\<lambda>p. fst p = n) fl) = (if n \<in> B then 0 else 1) \<and> 0 < l_size q \<and> queueSize key rq = l_size q"
    if "(key, n, q) \<in> set (rq_queues rq)" for key n q
  proof -
    have "n \<in> set (rq_ids (rq_queues rq))" using that by (force simp: rq_ids_def)
    moreover have "map_of (rq_queues rq) key = Some (n, q)" using that inv by (simp add: rq_inv_def)
    ultimately show ?thesis using inv that busy_lim [of q] by (auto simp: rq_inv_def queueSize_def)
  qed
  have stays: "(key, n, q) \<in> set (rq_queues rq')"
    if "(m, u) \<in> set fl" "rq_settled throws m rq = (ts, rq')" "(key, n, q) \<in> set (rq_queues rq)" "n \<in> B" for m u ts rq' key n q
    by (rule blocked_stays [OF inv that])
  show ?thesis
    using entry stays queueFor_inv [OF inv, of throws key t] inv_drained [OF inv] inv rq_reachable_blocked [OF assms]
    by (intro conjI) (auto simp: rq_inv_def)
qed

theorem ResourceQueue_correct_witness:
  "\<exists>(rq :: (nat, nat) ResourceQueue) ts. queueFor (\<lambda>_. False) 7 5 new_ResourceQueue = Inr (ts, rq) \<and> ts = [(0, 5)] \<and>
     (\<forall>(key, n, q) \<in> set (rq_queues rq). length (filter (\<lambda>p. fst p = n) ts) = 1)"
proof -
  have "case queueFor (\<lambda>_. False) (7 :: nat) (5 :: nat) new_ResourceQueue of Inl e \<Rightarrow> False | Inr (ts, rq) \<Rightarrow> ts = [(0, 5)]"
    by code_simp
  then obtain ts and rq :: "(nat, nat) ResourceQueue" where
    r: "queueFor (\<lambda>_. False) 7 5 new_ResourceQueue = Inr (ts, rq)" "ts = [(0, 5)]"
    by (auto split: sum.splits)
  have "rq_reachable (\<lambda>_. False) rq ts {}" using rq_queue [OF rq_start r(1)] r(2) by simp
  from ResourceQueue_correct [OF this, where key = 7 and t = 5]
  have "\<forall>(key, n, q) \<in> set (rq_queues rq). length (filter (\<lambda>p. fst p = n) ts) = 1" by auto
  with r show ?thesis by blast
qed

section \<open>Limited queues\<close>

text \<open>
  The states a limited queue can get into, with the tasks in flight, each with its number, and the
  task that was queued last and is not started.
\<close>

inductive lq_reachable :: "('task, 'promise) LimitedQueue \<Rightarrow> (int \<times> 'task) list \<Rightarrow> 'task option \<Rightarrow> bool" where
  lq_begin: "lq_reachable new_LimitedQueue [] None"
| lq_more: "lq_reachable q fl w \<Longrightarrow> lq_queue p t q = (p', ts, q') \<Longrightarrow>
    lq_reachable q' (fl @ ts) (if ts = [] then Some t else w)"
| lq_settle: "lq_reachable q fl w \<Longrightarrow> (n, t) \<in> set fl \<Longrightarrow> lq_settled p n q = (ts, q') \<Longrightarrow>
    lq_reachable q' (remove1 (n, t) fl @ ts) None"

definition lq_inv :: "('task, 'promise) LimitedQueue \<Rightarrow> (int \<times> 'task) list \<Rightarrow> 'task option \<Rightarrow> bool" where
  "lq_inv q fl w \<longleftrightarrow>
     (case fl of
        [] \<Rightarrow> ts_running (lq_sequentializer q) = None \<and> w = None
      | [(n, t)] \<Rightarrow> map_option fst (ts_running (lq_sequentializer q)) = Some n
      | _ \<Rightarrow> False) \<and>
     map_option snd (ts_queued (lq_sequentializer q)) = w"

lemma lq_reachable_inv: "lq_reachable q fl w \<Longrightarrow> lq_inv q fl w"
proof (induction rule: lq_reachable.induct)
  case lq_begin
  then show ?case by (simp add: lq_inv_def new_LimitedQueue_def)
next
  case (lq_more q fl w p t p' ts q')
  then show ?case
    by (auto simp: lq_inv_def lq_queue_def lq_start_def ts_run_def ts_isRunning_def ts_queue_def Let_def split: list.splits option.splits if_splits prod.splits)
next
  case (lq_settle q fl w n t p ts q')
  then show ?case
    by (auto simp: lq_inv_def lq_settled_def lq_start_def ts_run_def ts_doneRunning_def ts_runQueued_def Let_def split: list.splits option.splits prod.splits)
qed

text \<open>
  \<^bold>\<open>C16.\<close> A limited queue runs one task at a time; a task waits only while another is in flight; and
  when that one settles, exactly the task that was queued last starts, if any was queued.
\<close>

theorem LimitedQueue_correct:
  assumes "lq_reachable q fl w"
  shows "length fl \<le> 1 \<and> (w \<noteq> None \<longrightarrow> fl \<noteq> []) \<and>
    (\<forall>(n, t) \<in> set fl. map snd (fst (lq_settled p n q)) = (case w of None \<Rightarrow> [] | Some t \<Rightarrow> [t]))"
  using lq_reachable_inv [OF assms]
  by (auto simp: lq_inv_def lq_settled_def lq_start_def ts_run_def ts_doneRunning_def ts_runQueued_def Let_def
      split: list.splits option.splits prod.splits)

theorem LimitedQueue_correct_witness:
  "\<exists>q :: (nat, nat) LimitedQueue. lq_reachable q [(0, 5)] (Some 7) \<and> map snd (fst (lq_settled 3 0 q)) = [7]"
proof -
  let ?q1 = "snd (snd (lq_queue 0 5 new_LimitedQueue)) :: (nat, nat) LimitedQueue"
  let ?q2 = "snd (snd (lq_queue 1 6 ?q1))"
  let ?q3 = "snd (snd (lq_queue 2 7 ?q2))"
  have q: "lq_queue 0 5 new_LimitedQueue = (0, [(0, 5)], ?q1)" "lq_queue 1 6 ?q1 = (1, [], ?q2)" "lq_queue 2 7 ?q2 = (1, [], ?q3)"
    by (simp_all add: lq_queue_def new_LimitedQueue_def lq_start_def ts_run_def ts_isRunning_def ts_queue_def)
  have "lq_reachable ?q3 [(0, 5)] (Some 7)"
    using lq_more [OF lq_more [OF lq_more [OF lq_begin q(1)] q(2)] q(3)] by simp
  from LimitedQueue_correct [OF this, of 3] this show ?thesis by (intro exI [of _ ?q3]) simp
qed

end
