(* ===== verification/Spec2Isabelle.thy ===== *)
theory Spec2Isabelle
  imports ArraysFind OffsetRanges Positions LineRanges Edits StringEdits ArrayEdits PrefixSums ContextKeyForms ContextKeyRoundTrip Caches KeybindingResolution ResourceQueues
begin

text \<open>
  \<^bold>\<open>Nexgile VS IDE: the text-editing core.\<close>

  The repository is an IDE in the architecture of Visual Studio Code.  This development models
  its text core, the layer all editor features stand on, and the language of the \<open>when\<close> clauses
  that decide which commands and key bindings are active, with the resolver of key bindings that
  uses it, translated from the TypeScript sources under \<open>src/vs/base/common\<close>,
  \<open>src/vs/editor/common\<close>, \<open>src/vs/platform/contextkey/common\<close> and
  \<open>src/vs/platform/keybinding/common\<close>.

  \<^bold>\<open>Theories and what they model.\<close>
    \<^item> \<open>Prelude\<close>: thrown errors as values (\<open>'a result\<close>), the JavaScript primitives
      (substring, slice, splice, index reads, remainder, 32-bit coercion), list lemmas.
    \<^item> \<open>ArraysFind\<close> (\<open>base/common/arraysFind.ts\<close>): linear and binary searches, the caching
      \<open>MonotonousArray\<close>.  Interface \<open>split_search\<close>: the two searches split a list at the point
      where a predicate switches; interpreted on the binary searches.
    \<^item> \<open>OffsetRanges\<close> (\<open>editor/common/core/ranges/offsetRange.ts\<close>) and \<open>LineRanges\<close>
      (\<open>lineRange.ts\<close>): ranges and sorted sets of ranges.  Interface \<open>interval_list\<close>: what
      sorted lists of separated ranges have in common, interpreted on both classes.
    \<^item> \<open>Positions\<close> (\<open>position.ts\<close>, \<open>range.ts\<close>): positions with their order and ranges of
      positions.
    \<^item> \<open>Edits\<close> (\<open>edits/edit.ts\<close>): edits, that is sorted lists of disjoint replacements applied
      at once, over any class of replacements.  Interface \<open>replacement_laws\<close> (and its extension
      \<open>joining_replacements\<close>): what a replacement class promises of length, join and slice.
    \<^item> \<open>StringEdits\<close> (\<open>edits/stringEdit.ts\<close>): edits on strings, with rebasing, inverting,
      trimming and sequential composition.
    \<^item> \<open>ArrayEdits\<close> (\<open>edits/arrayEdit.ts\<close>, \<open>edits/lengthEdit.ts\<close>): the two other classes of
      replacements; a length edit is the image of any edit under taking lengths, and the one of
      an array edit acts on annotations of the elements as that edit acts on the elements.
    \<^item> \<open>PrefixSums\<close> (\<open>model/prefixSumComputer.ts\<close>): the computer that caches prefix sums up to a
      valid index, with its 32-bit arrays, and the one that keeps an index; both refine the list
      of their values, the second over any sequence of calls, the getters included.
    \<^item> \<open>JsValues\<close>: the values of the language a context can hold, their truth, comparison and
      conversion.  \<open>ContextKeys\<close> (\<open>contextkey.ts\<close>): the sixteen kinds of expressions and their
      methods.  \<open>ContextKeyLogic\<close>: the conditions \<open>expr_good\<close> on a context (the keys that are
      compared read as numbers, constant keys have their values, regular expressions with the same
      source have the same flags), under which the operations and implication respect the truth
      value; interface \<open>expr_semantics\<close>, interpreted on evaluation in a context.
      \<open>ContextKeyForms\<close>: the normal forms \<open>dnf_form\<close>, on which normalization, negation and
      substitution return, and what these three do to the truth value, for every result and depth.
    \<^item> \<open>ContextKeyScanner\<close> (\<open>scanner.ts\<close>): the scanner of \<open>when\<close> clauses and a lexical grammar
      that does not mention it (operators, quoted strings, regular expressions with escapes, classes
      and flags, words and keywords); the scanner's tokens are the one reading \<open>lexed\<close> of a text.  \<open>ContextKeyParser\<close> (\<open>Parser\<close> and \<open>validateWhenClauses\<close> of
      \<open>contextkey.ts\<close>): the recursive descent parser, one function per method, with its errors.
      \<open>ContextKeyParsing\<close>: the parser stays within its tokens and builds typed expressions.
      \<open>ContextKeyRoundTrip\<close>: what is printed parses to an equivalent expression.
    \<^item> \<open>Simulation\<close>: sequences of calls on an object, and the interfaces \<open>simulation\<close> and
      \<open>guarded_simulation\<close> (for calls the abstract object allows) between an object of the code and
      an abstract one, interpreted on the stateful classes: the maps, the caches and the computer of
      prefix sums with an index.
    \<^item> \<open>LinkedMaps\<close> (\<open>base/common/map.ts\<close>): the map that keeps its entries in a doubly linked list,
      with an explicit store of the items, its iterators, and the two caches that extend it.
      \<open>LinkedMapRefinement\<close>: what linking and unlinking do to doubly linked segments of the store.
      \<open>LinkedMapCalls\<close>, \<open>Caches\<close>: sequences of calls refine the list of entries.
    \<^item> \<open>KeybindingResolver\<close> (\<open>platform/keybinding/common/keybindingResolver.ts\<close>,
      \<open>resolvedKeybindingItem.ts\<close>): removals, the two maps of the resolver, resolving and looking up.
      \<open>KeybindingResolution\<close>: what resolving and looking up compute from the list of rules, and
      how far a key binding that is not listed is shadowed (it may still run).  Interface
      \<open>when_logic\<close>: what the resolver asks of implication and evaluation of \<open>when\<close> clauses,
      interpreted on those of \<open>contextkey.ts\<close>.
    \<^item> \<open>Limiters\<close> (\<open>base/common/async.ts\<close>): \<open>Limiter\<close>, \<open>Queue\<close>, \<open>ResourceQueue\<close> (a map of queues),
      \<open>TaskSequentializer\<close> and \<open>LimitedQueue\<close>.  \<open>LimiterRuns\<close>, \<open>ResourceQueues\<close>: step relations whose
      events are the calls and the settling of a task in flight, with their invariants; the bound on
      the tasks in flight, the order in which tasks start, that each does start when no factory
      throws, and how a throwing factory blocks its queue for good.

  \<^bold>\<open>State and errors.\<close>  A class is a record (or a list, where the class has one array field);
  a method that throws returns a \<open>result\<close>; a method that mutates returns the new state.
  Numbers are \<^typ>\<open>int\<close> where the sources only store integers, strings are lists of UTF-16 code
  units.  Loops over indices are recursions over the suffix still to read, and all of them
  terminate.  Fuel is used in one place: normalization and negation of expressions call each
  other, to a depth that \<open>andCreate\<close>, \<open>orCreate\<close> and \<open>negate\<close> take as an argument;
  \<open>normalization_terminates\<close> shows that enough of it exists on the forms \<open>dnf_form\<close> (no \<open>in\<close>,
  \<open>not in\<close> or comparison), where the result does not depend on how much is given.  The parser normalizes what it
  builds, to the depth \<open>env_depth\<close> of its environment; its outcome is a value, the parse error
  the sources throw and catch, a \<open>TypeError\<close> for a field read off \<open>undefined\<close> (proved not to
  occur) or \<open>NoResult\<close> when the depth is too small.  Its own recursion is proved to end by the
  tokens left.  What the engine and the host supply is an argument: \<open>parser_host\<close> has the letter
  test of \<open>\p{L}\<close>, the \<open>RegExp\<close> constructor and \<open>localize\<close>.

  \<^bold>\<open>Abstract specifications.\<close>  Range sets are sets of integers (\<open>ors_elems\<close>, \<open>lrs_lines\<close>) under
  an invariant (\<open>ors_inv\<close>, \<open>lrs_inv\<close>).  An edit is its effect on the edited sequence
  (\<open>edit_app\<close>), under validity (\<open>edit_valid\<close>); composing, normalizing, splitting, rebasing and
  inverting are proved against it.

  \<^bold>\<open>Not modelled\<close>: the manifest lists every other part of the repository with the reason.
  The debug formats of ranges and edits (\<open>toString\<close>, \<open>parse\<close>, \<open>toJson\<close>) are left out.
\<close>

end
